(* ===== verification/Prelude.thy ===== *)
theory Prelude
  imports Main "HOL-Library.Word" "HOL-Library.Multiset"
begin

text \<open>
  Shared vocabulary of the development: the machine integer types of the source, the results a
  Rust function can have (a value, an error of \<open>src/src/errors.rs\<close>, or a panic), the results of
  polling a stream or a sink, and the generic lemmas the components use.

  The arithmetic of the source is modelled as it behaves with overflow checks and debug assertions
  on, the profile in which the repository's tests run: an arithmetic overflow, a failed
  \<open>assert!\<close> or \<open>debug_assert!\<close>, an index out of range and a failed \<open>unwrap\<close>/\<open>expect\<close> are all the
  outcome \<open>Panic\<close>.  Sizes of containers (\<open>usize\<close>) are natural numbers; every subtraction of the
  source on them is guarded explicitly.
\<close>

unbundle bit_operations_syntax

subsection \<open>Machine integers\<close>

type_synonym u8 = "8 word"
type_synonym u16 = "16 word"
type_synonym u32 = "32 word"
type_synonym u64 = "64 word"
type_synonym u128 = "128 word"

text \<open>An \<open>i64\<close> is its bit pattern; \<^const>\<open>sint\<close> reads it.\<close>

type_synonym i64 = "64 word"
type_synonym bytes = "u8 list"

subsection \<open>Errors, outcomes and polls\<close>

text \<open>\<open>std::io::Error\<close> as the source builds it: a kind and a message.\<close>

datatype io_kind = NotConnected | ConnectionReset | AddrNotAvailable | OtherKind

datatype io_error = IoError io_kind string

text \<open>The errors of \<open>src/src/errors.rs\<close>.\<close>

datatype codec_error =
    IO io_error
  | InvalidIPVer u8
  | InvalidIPV6Family u16
  | InvalidPacketLength string
  | InvalidRecordType u8
  | InvalidPacketType u8
  | PartedFrame string
  | OrderedFrame string
  | AckCountExceed nat
  | MagicNotMatched nat u8

datatype (dead 'e, 'a) outcome = Ok 'a | Err 'e | Panic

type_synonym 'a codec = "(codec_error, 'a) outcome"

datatype 'a poll = Pending | Ready 'a

text \<open>Sequencing: Rust's \<open>?\<close> on a result, with panics unwinding through it.\<close>

fun and_then :: "('e, 'a) outcome \<Rightarrow> ('a \<Rightarrow> ('e, 'b) outcome) \<Rightarrow> ('e, 'b) outcome" where
  "and_then (Ok x) f = f x"
| "and_then (Err e) f = Err e"
| "and_then Panic f = Panic"

lemma and_then_cong [fundef_cong]:
  "m = m' \<Longrightarrow> (\<And>x. m' = Ok x \<Longrightarrow> f x = f' x) \<Longrightarrow> and_then m f = and_then m' f'"
  by (cases m') auto

lemma and_then_eq_Ok: "and_then m f = Ok y \<longleftrightarrow> (\<exists>x. m = Ok x \<and> f x = Ok y)"
  by (cases m) auto

lemma and_then_eq_Panic: "and_then m f = Panic \<longleftrightarrow> m = Panic \<or> (\<exists>x. m = Ok x \<and> f x = Panic)"
  by (cases m) auto

lemma and_then_eq_Err: "and_then m f = Err e \<longleftrightarrow> m = Err e \<or> (\<exists>x. m = Ok x \<and> f x = Err e)"
  by (cases m) auto

lemma and_then_assoc: "and_then (and_then m f) g = and_then m (\<lambda>x. and_then (f x) g)"
  by (cases m) auto

lemma and_then_split:
  "P (and_then m f) \<longleftrightarrow> (\<forall>x. m = Ok x \<longrightarrow> P (f x)) \<and> (\<forall>e. m = Err e \<longrightarrow> P (Err e)) \<and> (m = Panic \<longrightarrow> P Panic)"
  by (cases m) auto

text \<open>Rust's \<open>v[i]\<close>: a panic out of range.\<close>

definition index :: "'a list \<Rightarrow> nat \<Rightarrow> ('e, 'a) outcome" where
  "index xs i = (if i < length xs then Ok (xs ! i) else Panic)"

text \<open>\<open>usize\<close> subtraction with overflow checks.\<close>

definition usub :: "nat \<Rightarrow> nat \<Rightarrow> ('e, nat) outcome" where
  "usub a b = (if b \<le> a then Ok (a - b) else Panic)"

lemma index_Ok [simp]: "i < length xs \<Longrightarrow> index xs i = Ok (xs ! i)"
  by (simp add: index_def)

lemma usub_Ok [simp]: "b \<le> a \<Longrightarrow> usub a b = Ok (a - b)"
  by (simp add: usub_def)

lemma usub_eq_Ok [simp]: "usub a b = Ok c \<longleftrightarrow> b \<le> a \<and> c = a - b"
  by (auto simp: usub_def)

text \<open>Decimal rendering of an unsigned integer: the language's \<open>Display\<close>.\<close>

fun decimal :: "nat \<Rightarrow> string" where
  "decimal n = (if n < 10 then [char_of (48 + n)] else decimal (n div 10) @ [char_of (48 + n mod 10)])"

declare decimal.simps [simp del]

subsection \<open>Generic lemmas\<close>

lemma nat_and_127: "(n :: nat) AND 127 = n mod 128"
proof -
  have "n AND mask 7 = n mod 2 ^ 7" by (simp only: flip: take_bit_eq_mask take_bit_eq_mod)
  then show ?thesis by (simp add: mask_eq_exp_minus_1)
qed

lemma word_eq_unatI: "unat a = unat b \<Longrightarrow> a = b"
  by (simp add: word_unat_eq_iff)

lemma unat_lt_exp: "unat (w :: 'a :: len word) < 2 ^ LENGTH('a)"
  by (rule unsigned_less)

lemma drop_bit_eq_0_iff: "drop_bit n (w :: 'a :: len word) = 0 \<longleftrightarrow> unat w < 2 ^ n"
proof -
  have "drop_bit n w = 0 \<longleftrightarrow> unat (drop_bit n w) = 0" by (simp add: unat_eq_0)
  also have "\<dots> \<longleftrightarrow> unat w div 2 ^ n = 0" by (simp only: unat_drop_bit_eq drop_bit_eq_div [of n "unat w"])
  finally show ?thesis by (simp add: div_eq_0_iff)
qed

end
