(* ===== verification/Bytes_Api.thy ===== *)
theory Bytes_Api
  imports Prelude
begin

text \<open>
  The interface of the third-party crate \<open>bytes\<close> that the packet codecs are written against.  The
  contents of a \<open>Bytes\<close>/\<open>BytesMut\<close> buffer are a list of bytes; the integer accessors
  (\<open>get_u16\<close>, \<open>get_uint_le\<close>, \<open>put_u32\<close>, ...) are parameters of the model, collected in a record that
  every codec definition takes as an argument.  The locale \<open>bytes_laws\<close> states the documented
  behaviour the codecs rely on; \<open>std_bytes\<close> is an executable instance on which closed instances
  are evaluated.
\<close>

subsection \<open>The operations and their laws\<close>

text \<open>
  \<open>get_uint n b\<close> reads an \<open>n\<close>-byte big-endian integer from the front of \<open>b\<close> and returns it with
  the rest, \<open>None\<close> being the panic of the crate when fewer than \<open>n\<close> bytes remain;
  \<open>put_uint n v\<close> are the bytes appended for the value \<open>v\<close>.  The \<open>_le\<close> variants are little-endian.
\<close>

record bytes_api =
  get_uint :: "nat \<Rightarrow> bytes \<Rightarrow> (nat \<times> bytes) option"
  get_uint_le :: "nat \<Rightarrow> bytes \<Rightarrow> (nat \<times> bytes) option"
  put_uint :: "nat \<Rightarrow> nat \<Rightarrow> bytes"
  put_uint_le :: "nat \<Rightarrow> nat \<Rightarrow> bytes"

locale int_codec =
  fixes get :: "nat \<Rightarrow> bytes \<Rightarrow> (nat \<times> bytes) option"
    and put :: "nat \<Rightarrow> nat \<Rightarrow> bytes"
  assumes get_short: "length b < n \<Longrightarrow> get n b = None"
    and get_enough: "n \<le> length b \<Longrightarrow> \<exists>v < 256 ^ n. get n b = Some (v, drop n b)"
    and put_length: "length (put n v) = n"
    and get_put: "v < 256 ^ n \<Longrightarrow> get n (put n v @ r) = Some (v, r)"
begin

lemma get_eq_None: "get n b = None \<longleftrightarrow> length b < n"
  using get_short [of b n] get_enough [of n b] by (cases "n \<le> length b") auto

lemma get_SomeD: "get n b = Some (v, r) \<Longrightarrow> n \<le> length b \<and> r = drop n b \<and> v < 256 ^ n"
  using get_short [of b n] get_enough [of n b] by (cases "n \<le> length b") auto

lemma get_ne_None: "n \<le> length b \<Longrightarrow> get n b \<noteq> None"
  using get_eq_None by simp

end

text \<open>
  The bytes of an integer, as the language's \<open>to_le_bytes\<close>, \<open>to_be_bytes\<close> and \<open>octets\<close> give them; the
  crate's \<open>put_\<close> operations are documented to append these.
\<close>

fun le_put :: "nat \<Rightarrow> nat \<Rightarrow> bytes" where
  "le_put 0 v = []"
| "le_put (Suc n) v = word_of_nat v # le_put n (v div 256)"

definition be_put :: "nat \<Rightarrow> nat \<Rightarrow> bytes" where
  "be_put n v = rev (le_put n v)"

locale bytes_laws =
  fixes B :: bytes_api
  assumes be_laws: "int_codec (get_uint B) (put_uint B)"
    and le_laws: "int_codec (get_uint_le B) (put_uint_le B)"
    and put_uint_be: "v < 256 ^ n \<Longrightarrow> put_uint B n v = be_put n v"

sublocale bytes_laws \<subseteq> be: int_codec "get_uint B" "put_uint B"
  by (rule be_laws)

sublocale bytes_laws \<subseteq> le: int_codec "get_uint_le B" "put_uint_le B"
  by (rule le_laws)

subsection \<open>Typed accessors\<close>

definition get_word :: "bytes_api \<Rightarrow> nat \<Rightarrow> bytes \<Rightarrow> ('a :: len word \<times> bytes) codec" where
  "get_word B n b = (case get_uint B n b of None \<Rightarrow> Panic | Some (v, r) \<Rightarrow> Ok (word_of_nat v, r))"

definition put_word :: "bytes_api \<Rightarrow> nat \<Rightarrow> 'a :: len word \<Rightarrow> bytes" where
  "put_word B n w = put_uint B n (unat w)"

definition get_word_le :: "bytes_api \<Rightarrow> nat \<Rightarrow> bytes \<Rightarrow> ('a :: len word \<times> bytes) codec" where
  "get_word_le B n b = (case get_uint_le B n b of None \<Rightarrow> Panic | Some (v, r) \<Rightarrow> Ok (word_of_nat v, r))"

definition put_word_le :: "bytes_api \<Rightarrow> nat \<Rightarrow> 'a :: len word \<Rightarrow> bytes" where
  "put_word_le B n w = put_uint_le B n (unat w)"

abbreviation get_u8 :: "bytes_api \<Rightarrow> bytes \<Rightarrow> (u8 \<times> bytes) codec" where "get_u8 B \<equiv> get_word B (Suc 0)"
abbreviation get_u16 :: "bytes_api \<Rightarrow> bytes \<Rightarrow> (u16 \<times> bytes) codec" where "get_u16 B \<equiv> get_word B 2"
abbreviation get_u32 :: "bytes_api \<Rightarrow> bytes \<Rightarrow> (u32 \<times> bytes) codec" where "get_u32 B \<equiv> get_word B 4"
abbreviation get_u64 :: "bytes_api \<Rightarrow> bytes \<Rightarrow> (u64 \<times> bytes) codec" where "get_u64 B \<equiv> get_word B 8"
abbreviation get_i64 :: "bytes_api \<Rightarrow> bytes \<Rightarrow> (i64 \<times> bytes) codec" where "get_i64 B \<equiv> get_word B 8"
abbreviation get_u128 :: "bytes_api \<Rightarrow> bytes \<Rightarrow> (u128 \<times> bytes) codec" where "get_u128 B \<equiv> get_word B 16"

abbreviation put_u8 :: "bytes_api \<Rightarrow> u8 \<Rightarrow> bytes" where "put_u8 B \<equiv> put_word B (Suc 0)"
abbreviation put_u16 :: "bytes_api \<Rightarrow> u16 \<Rightarrow> bytes" where "put_u16 B \<equiv> put_word B 2"
abbreviation put_u32 :: "bytes_api \<Rightarrow> u32 \<Rightarrow> bytes" where "put_u32 B \<equiv> put_word B 4"
abbreviation put_u64 :: "bytes_api \<Rightarrow> u64 \<Rightarrow> bytes" where "put_u64 B \<equiv> put_word B 8"
abbreviation put_i64 :: "bytes_api \<Rightarrow> i64 \<Rightarrow> bytes" where "put_i64 B \<equiv> put_word B 8"
abbreviation put_u128 :: "bytes_api \<Rightarrow> u128 \<Rightarrow> bytes" where "put_u128 B \<equiv> put_word B 16"

context bytes_laws
begin

lemma length_put_word [simp]: "length (put_word B n w) = n"
  by (simp add: put_word_def be.put_length)

lemma length_put_word_le [simp]: "length (put_word_le B n w) = n"
  by (simp add: put_word_le_def le.put_length)

lemma get_put_word:
  fixes w :: "'a :: len word"
  assumes "unat w < 256 ^ n"
  shows "get_word B n (put_word B n w @ r) = Ok (w, r)"
  using assms by (simp add: get_word_def put_word_def be.get_put)

lemma get_put_word_le:
  fixes w :: "'a :: len word"
  assumes "unat w < 256 ^ n"
  shows "get_word_le B n (put_word_le B n w @ r) = Ok (w, r)"
  using assms by (simp add: get_word_le_def put_word_le_def le.get_put)

lemma be_put_word: "unat (w :: 'a :: len word) < 256 ^ n \<Longrightarrow> be_put n (unat w) = put_word B n w"
  by (simp add: put_word_def put_uint_be)

lemma get_put_u8 [simp]: "get_u8 B (put_u8 B w @ r) = Ok (w, r)"
  using unat_lt_exp [of w] by (simp add: get_put_word)

lemma get_put_u16 [simp]: "get_u16 B (put_u16 B w @ r) = Ok (w, r)"
  using unat_lt_exp [of w] by (simp add: get_put_word)

lemma get_put_u32 [simp]: "get_u32 B (put_u32 B w @ r) = Ok (w, r)"
  using unat_lt_exp [of w] by (simp add: get_put_word)

lemma get_put_u64 [simp]: "get_u64 B (put_u64 B w @ r) = Ok (w, r)"
  using unat_lt_exp [of w] by (simp add: get_put_word)

lemma get_put_u128 [simp]: "get_u128 B (put_u128 B w @ r) = Ok (w, r)"
  using unat_lt_exp [of w] by (simp add: get_put_word)

lemma get_put_last [simp]:
  "get_u8 B (put_u8 B w) = Ok (w, [])"
  "get_u16 B (put_u16 B x) = Ok (x, [])"
  "get_u32 B (put_u32 B y) = Ok (y, [])"
  "get_u64 B (put_u64 B z) = Ok (z, [])"
  using get_put_u8 [of w "[]"] get_put_u16 [of x "[]"] get_put_u32 [of y "[]"] get_put_u64 [of z "[]"]
  by simp_all

lemma put_u8_singleton: "put_u8 B w = [w]"
proof -
  have "put_u8 B w = be_put (Suc 0) (unat w)"
    using be_put_word [of w "Suc 0"] unat_lt_exp [of w] by simp
  then show ?thesis by (simp add: be_put_def)
qed

lemma get_u8_Cons [simp]: "get_u8 B (w # r) = Ok (w, r)"
  using get_put_u8 [of w r] by (simp add: put_u8_singleton)

lemma get_word_enough: "n \<le> length b \<Longrightarrow> \<exists>w. get_word B n b = Ok (w, drop n b)"
  using be.get_enough [of n b] by (auto simp: get_word_def)

lemma get_word_le_enough: "n \<le> length b \<Longrightarrow> \<exists>w. get_word_le B n b = Ok (w, drop n b)"
  using le.get_enough [of n b] by (auto simp: get_word_le_def)

lemma get_word_OkD: "get_word B n b = Ok (w, r) \<Longrightarrow> n \<le> length b \<and> r = drop n b"
  by (auto simp: get_word_def dest: be.get_SomeD split: option.splits)

lemma get_word_le_OkD: "get_word_le B n b = Ok (w, r) \<Longrightarrow> n \<le> length b \<and> r = drop n b"
  by (auto simp: get_word_le_def dest: le.get_SomeD split: option.splits)

lemma get_word_not_Panic: "n \<le> length b \<Longrightarrow> get_word B n b \<noteq> Panic"
  by (auto simp: get_word_def dest: be.get_ne_None split: option.splits)

lemma get_word_le_not_Panic: "n \<le> length b \<Longrightarrow> get_word_le B n b \<noteq> Panic"
  by (auto simp: get_word_le_def dest: le.get_ne_None split: option.splits)

lemma get_word_short: "length b < n \<Longrightarrow> get_word B n b = Panic"
  by (simp add: get_word_def be.get_short)

lemma get_word_not_Err [simp]: "get_word B n b \<noteq> Err e"
  by (auto simp: get_word_def split: option.splits)

lemma get_word_le_not_Err [simp]: "get_word_le B n b \<noteq> Err e"
  by (auto simp: get_word_le_def split: option.splits)

end

subsection \<open>An executable instance\<close>

fun le_val :: "bytes \<Rightarrow> nat" where
  "le_val [] = 0"
| "le_val (b # bs) = unat b + 256 * le_val bs"

definition std_bytes :: bytes_api where
  "std_bytes = \<lparr>
     get_uint = (\<lambda>n b. if n \<le> length b then Some (le_val (rev (take n b)), drop n b) else None),
     get_uint_le = (\<lambda>n b. if n \<le> length b then Some (le_val (take n b), drop n b) else None),
     put_uint = be_put,
     put_uint_le = le_put \<rparr>"

lemma length_le_put [simp]: "length (le_put n v) = n"
  by (induction n arbitrary: v) auto

lemma le_val_le_put: "v < 256 ^ n \<Longrightarrow> le_val (le_put n v) = v"
proof (induction n arbitrary: v)
  case 0
  then show ?case by simp
next
  case (Suc n)
  then have "v div 256 < 256 ^ n" by (simp add: less_mult_imp_div_less mult.commute)
  then have "le_val (le_put n (v div 256)) = v div 256" by (rule Suc.IH)
  then show ?case by (simp add: unsigned_of_nat take_bit_eq_mod)
qed

lemma le_val_bound: "le_val b < 256 ^ length b"
proof (induction b)
  case Nil
  then show ?case by simp
next
  case (Cons x b)
  have "unat x < 256" using unat_lt_exp [of x] by simp
  with Cons.IH show ?case by simp
qed

lemma std_be_laws: "int_codec (get_uint std_bytes) (put_uint std_bytes)"
proof unfold_locales
  fix b :: bytes and n
  assume "n \<le> length b"
  then show "\<exists>v<256 ^ n. get_uint std_bytes n b = Some (v, drop n b)"
    using le_val_bound [of "rev (take n b)"] by (simp add: std_bytes_def min_absorb2)
qed (simp_all add: std_bytes_def be_put_def le_val_le_put)

lemma std_le_laws: "int_codec (get_uint_le std_bytes) (put_uint_le std_bytes)"
proof unfold_locales
  fix b :: bytes and n
  assume "n \<le> length b"
  then show "\<exists>v<256 ^ n. get_uint_le std_bytes n b = Some (v, drop n b)"
    using le_val_bound [of "take n b"] by (simp add: std_bytes_def min_absorb2)
qed (simp_all add: std_bytes_def le_val_le_put)

interpretation std: bytes_laws std_bytes
  by (rule bytes_laws.intro [OF std_be_laws std_le_laws]) (simp add: std_bytes_def)

end
