(* ===== verification/Raknet_Types.thy ===== *)
theory Raknet_Types
  imports Bytes_Api
begin

text \<open>
  The types of \<open>src/src/lib.rs\<close> every layer shares: roles and peers, reliabilities, priorities and
  user messages, together with socket addresses of the standard library.
\<close>

subsection \<open>Addresses, roles and peers\<close>

datatype socket_addr =
    V4 (v4_ip: u32) (v4_port: u16)
  | V6 (v6_ip: u128) (v6_port: u16) (v6_flowinfo: u32) (v6_scope_id: u32)

datatype role = Client u64 | Server u64

fun role_guid :: "role \<Rightarrow> u64" where
  "role_guid (Client guid) = guid"
| "role_guid (Server guid) = guid"

fun role_display :: "role \<Rightarrow> string" where
  "role_display (Client guid) = ''client('' @ decimal (unat guid) @ '')''"
| "role_display (Server guid) = ''server('' @ decimal (unat guid) @ '')''"

record peer =
  peer_guid :: u64
  peer_addr :: socket_addr
  peer_mtu :: u16

subsection \<open>Reliability\<close>

datatype reliability =
    Unreliable
  | UnreliableSequenced
  | Reliable
  | ReliableOrdered
  | ReliableSequenced
  | UnreliableWithAckReceipt
  | ReliableWithAckReceipt
  | ReliableOrderedWithAckReceipt

text \<open>\<open>reliability as u8\<close>, and the transmutation back from a three-bit value.\<close>

fun reliability_u8 :: "reliability \<Rightarrow> u8" where
  "reliability_u8 Unreliable = 0"
| "reliability_u8 UnreliableSequenced = 1"
| "reliability_u8 Reliable = 2"
| "reliability_u8 ReliableOrdered = 3"
| "reliability_u8 ReliableSequenced = 4"
| "reliability_u8 UnreliableWithAckReceipt = 5"
| "reliability_u8 ReliableWithAckReceipt = 6"
| "reliability_u8 ReliableOrderedWithAckReceipt = 7"

definition transmute_reliability :: "u8 \<Rightarrow> reliability" where
  "transmute_reliability r =
     (if r = 0 then Unreliable else if r = 1 then UnreliableSequenced else if r = 2 then Reliable
      else if r = 3 then ReliableOrdered else if r = 4 then ReliableSequenced
      else if r = 5 then UnreliableWithAckReceipt else if r = 6 then ReliableWithAckReceipt
      else ReliableOrderedWithAckReceipt)"

fun is_reliable :: "reliability \<Rightarrow> bool" where
  "is_reliable Reliable = True"
| "is_reliable ReliableSequenced = True"
| "is_reliable ReliableOrdered = True"
| "is_reliable ReliableWithAckReceipt = True"
| "is_reliable ReliableOrderedWithAckReceipt = True"
| "is_reliable _ = False"

fun is_sequenced_or_ordered :: "reliability \<Rightarrow> bool" where
  "is_sequenced_or_ordered ReliableSequenced = True"
| "is_sequenced_or_ordered ReliableOrdered = True"
| "is_sequenced_or_ordered UnreliableSequenced = True"
| "is_sequenced_or_ordered ReliableOrderedWithAckReceipt = True"
| "is_sequenced_or_ordered _ = False"

fun is_sequenced :: "reliability \<Rightarrow> bool" where
  "is_sequenced UnreliableSequenced = True"
| "is_sequenced ReliableSequenced = True"
| "is_sequenced _ = False"

definition reliability_size :: "reliability \<Rightarrow> nat" where
  "reliability_size r =
     (let size = 3;
          size = (if is_reliable r then size + 3 else size);
          size = (if is_sequenced r then size + 3 else size);
          size = (if is_sequenced_or_ordered r then size + 4 else size)
      in size)"

lemma transmute_reliability_u8 [simp]: "transmute_reliability (reliability_u8 r) = r"
  by (cases r) (simp_all add: transmute_reliability_def)

lemma reliability_u8_bound: "unat (reliability_u8 r) < 8"
  by (cases r) simp_all

lemma reliability_size_bounds: "3 \<le> reliability_size r" "reliability_size r \<le> 13"
  by (simp_all add: reliability_size_def)

subsection \<open>Messages\<close>

datatype priority = High u8 | Medium | Low u8

definition priority_default :: priority where
  "priority_default = Medium"

record message =
  msg_reliability :: reliability
  msg_order_channel :: u8
  msg_priority :: priority
  msg_data :: bytes

definition message_new :: "bytes \<Rightarrow> message" where
  "message_new data = \<lparr> msg_reliability = ReliableOrdered, msg_order_channel = 0,
     msg_priority = priority_default, msg_data = data \<rparr>"

definition message_reliability :: "message \<Rightarrow> reliability \<Rightarrow> message" where
  "message_reliability m r = m\<lparr>msg_reliability := r\<rparr>"

definition message_order_channel :: "message \<Rightarrow> u8 \<Rightarrow> message" where
  "message_order_channel m c = m\<lparr>msg_order_channel := c\<rparr>"

definition message_priority :: "message \<Rightarrow> priority \<Rightarrow> message" where
  "message_priority m p = m\<lparr>msg_priority := p\<rparr>"

end
