(* ===== verification/Seq_Num.thy ===== *)
theory Seq_Num
  imports Bytes_Api
begin

text \<open>
  Sequence numbers: the checked 24-bit integers of \<open>src/src/utils/seq_num.rs\<close> with their casts,
  arithmetic and little-endian wire form.  A \<open>u24\<close> wraps a \<open>u32\<close>; it is well formed
  (\<open>u24_ok\<close>) when its upper byte is zero, which every constructing operation checks.
\<close>

subsection \<open>The type and its conversions\<close>

datatype u24 = U24 (u24_raw: u32)

instantiation u24 :: linorder
begin

definition less_eq_u24 :: "u24 \<Rightarrow> u24 \<Rightarrow> bool" where
  "a \<le> b \<longleftrightarrow> u24_raw a \<le> u24_raw b"

definition less_u24 :: "u24 \<Rightarrow> u24 \<Rightarrow> bool" where
  "a < b \<longleftrightarrow> u24_raw a < u24_raw b"

instance
  by standard (auto simp: less_eq_u24_def less_u24_def u24.expand)

end

definition u24_default :: u24 where
  "u24_default = U24 0"

definition to_u32 :: "u24 \<Rightarrow> u32" where
  "to_u32 a = u24_raw a"

definition to_usize :: "u24 \<Rightarrow> nat" where
  "to_usize a = unat (u24_raw a)"

definition u24_display :: "u24 \<Rightarrow> string" where
  "u24_display a = decimal (unat (u24_raw a))"

text \<open>\<open>From<u24> for $t\<close>: \<open>value.0 as $t\<close>, for every primitive integer type.\<close>

definition u24_into :: "u24 \<Rightarrow> 'a :: len word" where
  "u24_into a = ucast (u24_raw a)"

text \<open>\<open>From<$t> for u24\<close> for the unsigned types (zero extension) and the signed ones (sign extension).\<close>

definition u24_checked :: "u32 \<Rightarrow> ('e, u24) outcome" where
  "u24_checked v = (if drop_bit 24 v = 0 then Ok (U24 v) else Panic)"

definition u24_from :: "'a :: len word \<Rightarrow> ('e, u24) outcome" where
  "u24_from v = u24_checked (ucast v)"

definition u24_from_signed :: "'a :: len word \<Rightarrow> ('e, u24) outcome" where
  "u24_from_signed v = u24_checked (scast v)"

definition u24_from_usize :: "nat \<Rightarrow> ('e, u24) outcome" where
  "u24_from_usize v = u24_checked (word_of_nat v)"

subsection \<open>Wire form\<close>

definition get_u24_le :: "bytes_api \<Rightarrow> bytes \<Rightarrow> (u24 \<times> bytes) codec" where
  "get_u24_le B b = (case get_uint_le B 3 b of None \<Rightarrow> Panic | Some (v, r) \<Rightarrow> Ok (U24 (word_of_nat v), r))"

definition put_u24_le :: "bytes_api \<Rightarrow> u24 \<Rightarrow> bytes" where
  "put_u24_le B v = put_uint_le B 3 (unat (u24_raw v))"

subsection \<open>Checked arithmetic\<close>

text \<open>\<open>u32\<close> addition and subtraction with overflow checks.\<close>

definition u32_add :: "u32 \<Rightarrow> u32 \<Rightarrow> ('e, u32) outcome" where
  "u32_add a b = (if unat a + unat b < 2 ^ 32 then Ok (a + b) else Panic)"

definition u32_sub :: "u32 \<Rightarrow> u32 \<Rightarrow> ('e, u32) outcome" where
  "u32_sub a b = (if b \<le> a then Ok (a - b) else Panic)"

definition checked_add :: "u32 \<Rightarrow> u32 \<Rightarrow> ('e, u24) outcome" where
  "checked_add a b = and_then (u32_add a b) (\<lambda>v. if drop_bit 24 v = 0 then Ok (U24 v) else Panic)"

definition u24_add :: "u24 \<Rightarrow> u24 \<Rightarrow> ('e, u24) outcome" where
  "u24_add a b = checked_add (u24_raw a) (u24_raw b)"

definition u24_add_prim :: "u24 \<Rightarrow> 'a :: len word \<Rightarrow> ('e, u24) outcome" where
  "u24_add_prim a b = checked_add (u24_raw a) (ucast b)"

definition u24_add_signed :: "u24 \<Rightarrow> 'a :: len word \<Rightarrow> ('e, u24) outcome" where
  "u24_add_signed a b = checked_add (u24_raw a) (scast b)"

definition u24_add_assign :: "u24 \<Rightarrow> u24 \<Rightarrow> ('e, u24) outcome" where
  "u24_add_assign a b =
     and_then (u32_add (u24_raw a) (u24_raw b)) (\<lambda>v. if drop_bit 24 v = 0 then Ok (U24 v) else Panic)"

definition u24_add_assign_prim :: "u24 \<Rightarrow> 'a :: len word \<Rightarrow> ('e, u24) outcome" where
  "u24_add_assign_prim a b =
     and_then (u32_add (u24_raw a) (ucast b)) (\<lambda>v. if drop_bit 24 v = 0 then Ok (U24 v) else Panic)"

definition u24_sub :: "u24 \<Rightarrow> u24 \<Rightarrow> ('e, u24) outcome" where
  "u24_sub a b = and_then (u32_sub (u24_raw a) (u24_raw b)) (\<lambda>v. Ok (U24 v))"

definition u24_sub_prim :: "u24 \<Rightarrow> 'a :: len word \<Rightarrow> ('e, u24) outcome" where
  "u24_sub_prim a b = and_then (u32_sub (u24_raw a) (ucast b)) (\<lambda>v. Ok (U24 v))"

definition u24_sub_assign :: "u24 \<Rightarrow> u24 \<Rightarrow> ('e, u24) outcome" where
  "u24_sub_assign a b = and_then (u32_sub (u24_raw a) (u24_raw b)) (\<lambda>v. Ok (U24 v))"

definition u24_sub_assign_prim :: "u24 \<Rightarrow> 'a :: len word \<Rightarrow> ('e, u24) outcome" where
  "u24_sub_assign_prim a b = and_then (u32_sub (u24_raw a) (ucast b)) (\<lambda>v. Ok (U24 v))"

definition u24_add_assign_signed :: "u24 \<Rightarrow> 'a :: len word \<Rightarrow> ('e, u24) outcome" where
  "u24_add_assign_signed a b =
     and_then (u32_add (u24_raw a) (scast b)) (\<lambda>v. if drop_bit 24 v = 0 then Ok (U24 v) else Panic)"

definition u24_sub_signed :: "u24 \<Rightarrow> 'a :: len word \<Rightarrow> ('e, u24) outcome" where
  "u24_sub_signed a b = and_then (u32_sub (u24_raw a) (scast b)) (\<lambda>v. Ok (U24 v))"

text \<open>\<open>x + 1\<close> and \<open>x += 1\<close>: an unsuffixed literal is an \<open>i32\<close>.\<close>

abbreviation u24_succ :: "u24 \<Rightarrow> ('e, u24) outcome" where
  "u24_succ a \<equiv> u24_add_signed a (1 :: 32 word)"

abbreviation u24_incr :: "u24 \<Rightarrow> ('e, u24) outcome" where
  "u24_incr a \<equiv> u24_add_assign_signed a (1 :: 32 word)"

subsection \<open>Well-formedness and the numeric view\<close>

definition u24_ok :: "u24 \<Rightarrow> bool" where
  "u24_ok a \<longleftrightarrow> unat (u24_raw a) < 2 ^ 24"

text \<open>The well-formed value of a number, used by specifications.\<close>

definition u24_of :: "nat \<Rightarrow> u24" where
  "u24_of n = U24 (word_of_nat n)"

lemma u24_le_iff: "a \<le> b \<longleftrightarrow> to_usize a \<le> to_usize b"
  by (simp add: less_eq_u24_def to_usize_def word_le_nat_alt)

lemma u24_less_iff: "a < b \<longleftrightarrow> to_usize a < to_usize b"
  by (simp add: less_u24_def to_usize_def word_less_nat_alt)

lemma to_usize_inj [simp]: "to_usize a = to_usize b \<longleftrightarrow> a = b"
  by (cases a; cases b) (simp add: to_usize_def flip: word_unat_eq_iff)

lemma u24_ok_iff: "u24_ok a \<longleftrightarrow> to_usize a < 2 ^ 24"
  by (simp add: u24_ok_def to_usize_def)

lemma to_usize_u24_of [simp]: "n < 2 ^ 24 \<Longrightarrow> to_usize (u24_of n) = n"
  by (simp add: to_usize_def u24_of_def unsigned_of_nat take_bit_eq_mod)

lemma u24_of_to_usize [simp]: "u24_of (to_usize a) = a"
  by (cases a) (simp add: to_usize_def u24_of_def)

lemma u24_ok_u24_of [simp]: "n < 2 ^ 24 \<Longrightarrow> u24_ok (u24_of n)"
  by (simp add: u24_ok_iff)

lemma to_usize_default [simp]: "to_usize u24_default = 0" "to_usize (U24 0) = 0"
  by (simp_all add: to_usize_def u24_default_def)

lemma u24_ok_default [simp]: "u24_ok u24_default" "u24_ok (U24 0)"
  by (simp_all add: u24_ok_def u24_default_def)

lemma unat_add_exact: "unat a + unat b < 2 ^ 32 \<Longrightarrow> unat (a + b :: u32) = unat a + unat b"
  by (simp add: unat_word_ariths)

lemma unat_sub_exact: "b \<le> a \<Longrightarrow> unat (a - b :: 'a :: len word) = unat a - unat b"
  by (rule unat_sub)

lemma checked_add_eq:
  "checked_add a b =
     (if unat a + unat b < 2 ^ 24 then Ok (u24_of (unat a + unat b)) else Panic)"
proof (cases "unat a + unat b < 2 ^ 32")
  case True
  have eq: "word_of_nat (unat a + unat b) = a + b" by simp
  show ?thesis
    using True by (simp only: checked_add_def u32_add_def drop_bit_eq_0_iff unat_add_exact u24_of_def
        if_True and_then.simps eq)
next
  case False
  then show ?thesis by (simp add: checked_add_def u32_add_def)
qed

lemma u24_add_eq:
  "u24_add a b =
     (if to_usize a + to_usize b < 2 ^ 24 then Ok (u24_of (to_usize a + to_usize b)) else Panic)"
  by (simp add: u24_add_def checked_add_eq to_usize_def)

lemma u24_add_prim_eq:
  fixes b :: "'a :: len word"
  assumes "LENGTH('a) \<le> 32"
  shows "u24_add_prim a b =
     (if to_usize a + unat b < 2 ^ 24 then Ok (u24_of (to_usize a + unat b)) else Panic)"
proof -
  have "unat b < 2 ^ 32"
    using unat_lt_exp [of b] assms by (meson less_le_trans one_le_numeral power_increasing)
  then have "unat (ucast b :: u32) = unat b"
    by (simp add: unsigned_ucast_eq take_bit_nat_eq_self)
  then show ?thesis by (simp add: u24_add_prim_def checked_add_eq to_usize_def)
qed

lemma u24_succ_eq:
  "u24_succ a = (if to_usize a < 2 ^ 24 - 1 then Ok (u24_of (Suc (to_usize a))) else Panic)"
  by (auto simp: u24_add_signed_def checked_add_eq to_usize_def)

lemma u24_incr_eq: "u24_incr a = u24_succ a"
  by (simp add: u24_add_assign_signed_def u24_add_signed_def checked_add_def)

lemma u24_add_assign_eq: "u24_add_assign a b = u24_add a b"
  by (simp add: u24_add_assign_def u24_add_def checked_add_def)

lemma u24_add_assign_prim_eq: "u24_add_assign_prim a b = u24_add_prim a b"
  by (simp add: u24_add_assign_prim_def u24_add_prim_def checked_add_def)

lemma u24_sub_eq:
  "u24_sub a b = (if b \<le> a then Ok (u24_of (to_usize a - to_usize b)) else Panic)"
  by (auto simp: u24_sub_def u32_sub_def u24_of_def to_usize_def less_eq_u24_def simp flip: unat_sub_exact)

lemma u24_sub_assign_eq: "u24_sub_assign a b = u24_sub a b"
  by (simp add: u24_sub_assign_def u24_sub_def)

lemma u24_from_usize_eq:
  assumes "n < 2 ^ 32"
  shows "u24_from_usize n = (if n < 2 ^ 24 then Ok (u24_of n) else Panic)"
  using assms
  by (simp add: u24_from_usize_def u24_checked_def drop_bit_eq_0_iff u24_of_def unsigned_of_nat take_bit_eq_mod)

context bytes_laws
begin

lemma length_put_u24_le [simp]: "length (put_u24_le B v) = 3"
  by (simp add: put_u24_le_def le.put_length)

lemma get_put_u24_le [simp]: "u24_ok v \<Longrightarrow> get_u24_le B (put_u24_le B v @ r) = Ok (v, r)"
  by (cases v) (simp add: get_u24_le_def put_u24_le_def le.get_put u24_ok_def)

lemma get_u24_le_OkD: "get_u24_le B b = Ok (v, r) \<Longrightarrow> 3 \<le> length b \<and> r = drop 3 b \<and> u24_ok v"
  by (auto simp: get_u24_le_def u24_ok_def unsigned_of_nat take_bit_eq_mod
      dest!: le.get_SomeD split: option.splits)

lemma get_u24_le_not_Panic: "3 \<le> length b \<Longrightarrow> get_u24_le B b \<noteq> Panic"
  by (auto simp: get_u24_le_def dest: le.get_ne_None split: option.splits)

lemma get_u24_le_short: "length b < 3 \<Longrightarrow> get_u24_le B b = Panic"
  by (simp add: get_u24_le_def le.get_short)

lemma get_u24_le_not_Err [simp]: "get_u24_le B b \<noteq> Err e"
  by (auto simp: get_u24_le_def split: option.splits)

end

subsection \<open>Properties\<close>

text \<open>
  On well-formed operands the checked operators of \<open>u24\<close> are exact integer arithmetic and never
  leave the 24-bit range: an addition whose sum fits yields precisely the sum (well formed) and
  otherwise panics, and a subtraction yields the difference when it is not negative and otherwise
  panics.
\<close>

lemma u24_arith_exact:
  assumes "u24_ok a" and "u24_ok b"
  shows "(case u24_add a b of
            Ok c \<Rightarrow> u24_ok c \<and> to_usize c = to_usize a + to_usize b
          | Err _ \<Rightarrow> False
          | Panic \<Rightarrow> 2 ^ 24 \<le> to_usize a + to_usize b)
       \<and> (case u24_sub a b of
            Ok c \<Rightarrow> u24_ok c \<and> to_usize a = to_usize b + to_usize c
          | Err _ \<Rightarrow> False
          | Panic \<Rightarrow> a < b)"
  using assms by (auto simp: u24_add_eq u24_sub_eq u24_le_iff u24_less_iff u24_ok_iff)

end
