(* ===== verification/Packet_Base.thy ===== *)
theory Packet_Base
  imports Raknet_Types Seq_Num
begin

text \<open>
  The common part of \<open>src/src/packet/mod.rs\<close>: the length-checked read, the flag bytes, the packet
  types with their decoding, the offline-message magic and the wire form of socket addresses.
\<close>

subsection \<open>Length-checked reads and flags\<close>

text \<open>The macro \<open>read_buf!(buf, len, exp)\<close>.\<close>

definition read_buf :: "bytes \<Rightarrow> nat \<Rightarrow> 'a codec \<Rightarrow> 'a codec" where
  "read_buf b n e = (if length b < n then Err (InvalidPacketLength ''certain sized pack'') else e)"

lemma read_buf_ok [simp]: "n \<le> length b \<Longrightarrow> read_buf b n e = e"
  by (simp add: read_buf_def)

lemma read_buf_cong [fundef_cong]:
  "b = b' \<Longrightarrow> n = n' \<Longrightarrow> (n' \<le> length b' \<Longrightarrow> e = e') \<Longrightarrow> read_buf b n e = read_buf b' n' e'"
  by (auto simp: read_buf_def)

lemma read_buf_eq_Ok: "read_buf b n e = Ok r \<longleftrightarrow> n \<le> length b \<and> e = Ok r"
  by (auto simp: read_buf_def)

lemma read_buf_eq_Panic: "read_buf b n e = Panic \<longleftrightarrow> n \<le> length b \<and> e = Panic"
  by (auto simp: read_buf_def)

definition VALID_FLAG :: u8 where "VALID_FLAG = 0x80"
definition ACK_FLAG :: u8 where "ACK_FLAG = 0xC0"
definition NACK_FLAG :: u8 where "NACK_FLAG = 0xA0"
definition PARTED_FLAG :: u8 where "PARTED_FLAG = 0x10"
definition CONTINUOUS_SEND_FLAG :: u8 where "CONTINUOUS_SEND_FLAG = 0x08"
definition NEEDS_B_AND_AS_FLAG :: u8 where "NEEDS_B_AND_AS_FLAG = 0x04"

definition FRAME_SET_HEADER_SIZE :: nat where "FRAME_SET_HEADER_SIZE = 4"
definition FRAGMENT_PART_SIZE :: nat where "FRAGMENT_PART_SIZE = 10"

lemmas flag_defs = VALID_FLAG_def ACK_FLAG_def NACK_FLAG_def PARTED_FLAG_def CONTINUOUS_SEND_FLAG_def
  NEEDS_B_AND_AS_FLAG_def

subsection \<open>Packet types\<close>

datatype pack_type =
    PT_ConnectedPing
  | PT_UnconnectedPing1
  | PT_UnconnectedPing2
  | PT_ConnectedPong
  | PT_DetectLostConnections
  | PT_OpenConnectionRequest1
  | PT_OpenConnectionReply1
  | PT_OpenConnectionRequest2
  | PT_OpenConnectionReply2
  | PT_ConnectionRequest
  | PT_RemoteSystemRequiresPublicKey
  | PT_OurSystemRequiresSecurity
  | PT_PublicKeyMismatch
  | PT_OutOfBandInternal
  | PT_SndReceiptAcked
  | PT_SndReceiptLoss
  | PT_ConnectionRequestAccepted
  | PT_ConnectionRequestFailed
  | PT_AlreadyConnected
  | PT_NewIncomingConnection
  | PT_NoFreeIncomingConnections
  | PT_DisconnectNotification
  | PT_ConnectionLost
  | PT_ConnectionBanned
  | PT_InvalidPassword
  | PT_IncompatibleProtocolVersion
  | PT_IpRecentlyConnected
  | PT_Timestamp
  | PT_UnconnectedPong
  | PT_AdvertiseSystem
  | PT_Ack
  | PT_Nack
  | PT_FrameSet

text \<open>\<open>pack_type as u8\<close>, the discriminants of the enum.\<close>

fun pack_type_u8 :: "pack_type \<Rightarrow> u8" where
  "pack_type_u8 PT_ConnectedPing = 0x00"
| "pack_type_u8 PT_UnconnectedPing1 = 0x01"
| "pack_type_u8 PT_UnconnectedPing2 = 0x02"
| "pack_type_u8 PT_ConnectedPong = 0x03"
| "pack_type_u8 PT_DetectLostConnections = 0x04"
| "pack_type_u8 PT_OpenConnectionRequest1 = 0x05"
| "pack_type_u8 PT_OpenConnectionReply1 = 0x06"
| "pack_type_u8 PT_OpenConnectionRequest2 = 0x07"
| "pack_type_u8 PT_OpenConnectionReply2 = 0x08"
| "pack_type_u8 PT_ConnectionRequest = 0x09"
| "pack_type_u8 PT_RemoteSystemRequiresPublicKey = 0x0A"
| "pack_type_u8 PT_OurSystemRequiresSecurity = 0x0B"
| "pack_type_u8 PT_PublicKeyMismatch = 0x0C"
| "pack_type_u8 PT_OutOfBandInternal = 0x0D"
| "pack_type_u8 PT_SndReceiptAcked = 0x0E"
| "pack_type_u8 PT_SndReceiptLoss = 0x0F"
| "pack_type_u8 PT_ConnectionRequestAccepted = 0x10"
| "pack_type_u8 PT_ConnectionRequestFailed = 0x11"
| "pack_type_u8 PT_AlreadyConnected = 0x12"
| "pack_type_u8 PT_NewIncomingConnection = 0x13"
| "pack_type_u8 PT_NoFreeIncomingConnections = 0x14"
| "pack_type_u8 PT_DisconnectNotification = 0x15"
| "pack_type_u8 PT_ConnectionLost = 0x16"
| "pack_type_u8 PT_ConnectionBanned = 0x17"
| "pack_type_u8 PT_InvalidPassword = 0x18"
| "pack_type_u8 PT_IncompatibleProtocolVersion = 0x19"
| "pack_type_u8 PT_IpRecentlyConnected = 0x1A"
| "pack_type_u8 PT_Timestamp = 0x1B"
| "pack_type_u8 PT_UnconnectedPong = 0x1C"
| "pack_type_u8 PT_AdvertiseSystem = 0x1D"
| "pack_type_u8 PT_Ack = ACK_FLAG"
| "pack_type_u8 PT_Nack = NACK_FLAG"
| "pack_type_u8 PT_FrameSet = VALID_FLAG"

text \<open>The arms of \<open>PackType::from_u8\<close> in their order; the last three are half-open ranges.\<close>

definition pack_type_from_u8 :: "u8 \<Rightarrow> pack_type codec" where
  "pack_type_from_u8 n =
     (if n = 0x00 then Ok PT_ConnectedPing
      else if n = 0x01 then Ok PT_UnconnectedPing1
      else if n = 0x02 then Ok PT_UnconnectedPing2
      else if n = 0x03 then Ok PT_ConnectedPong
      else if n = 0x04 then Ok PT_DetectLostConnections
      else if n = 0x05 then Ok PT_OpenConnectionRequest1
      else if n = 0x06 then Ok PT_OpenConnectionReply1
      else if n = 0x07 then Ok PT_OpenConnectionRequest2
      else if n = 0x08 then Ok PT_OpenConnectionReply2
      else if n = 0x09 then Ok PT_ConnectionRequest
      else if n = 0x10 then Ok PT_ConnectionRequestAccepted
      else if n = 0x0A then Ok PT_RemoteSystemRequiresPublicKey
      else if n = 0x0B then Ok PT_OurSystemRequiresSecurity
      else if n = 0x0C then Ok PT_PublicKeyMismatch
      else if n = 0x0D then Ok PT_OutOfBandInternal
      else if n = 0x0E then Ok PT_SndReceiptAcked
      else if n = 0x0F then Ok PT_SndReceiptLoss
      else if n = 0x11 then Ok PT_ConnectionRequestFailed
      else if n = 0x12 then Ok PT_AlreadyConnected
      else if n = 0x13 then Ok PT_NewIncomingConnection
      else if n = 0x14 then Ok PT_NoFreeIncomingConnections
      else if n = 0x15 then Ok PT_DisconnectNotification
      else if n = 0x16 then Ok PT_ConnectionLost
      else if n = 0x17 then Ok PT_ConnectionBanned
      else if n = 0x18 then Ok PT_InvalidPassword
      else if n = 0x19 then Ok PT_IncompatibleProtocolVersion
      else if n = 0x1a then Ok PT_IpRecentlyConnected
      else if n = 0x1b then Ok PT_Timestamp
      else if n = 0x1c then Ok PT_UnconnectedPong
      else if n = 0x1d then Ok PT_AdvertiseSystem
      else if ACK_FLAG \<le> n then Ok PT_Ack
      else if NACK_FLAG \<le> n then Ok PT_Nack
      else if VALID_FLAG \<le> n then Ok PT_FrameSet
      else Err (InvalidPacketType n))"


fun is_frame_set :: "pack_type \<Rightarrow> bool" where
  "is_frame_set PT_FrameSet = True"
| "is_frame_set _ = False"

fun is_ack :: "pack_type \<Rightarrow> bool" where
  "is_ack PT_Ack = True"
| "is_ack _ = False"

fun is_nack :: "pack_type \<Rightarrow> bool" where
  "is_nack PT_Nack = True"
| "is_nack _ = False"

lemma pack_type_round_trip [simp]: "pack_type_from_u8 (pack_type_u8 p) = Ok p"
  by (cases p) (simp_all add: pack_type_from_u8_def flag_defs)

lemma pack_type_from_u8_no_panic: "pack_type_from_u8 n \<noteq> Panic"
  by (simp add: pack_type_from_u8_def)

subsection \<open>Magic\<close>

definition MAGIC :: bytes where
  "MAGIC = [0x00, 0xff, 0xff, 0x00, 0xfe, 0xfe, 0xfe, 0xfe, 0xfd, 0xfd, 0xfd, 0xfd, 0x12, 0x34, 0x56, 0x78]"

text \<open>The loop over the indices of \<open>MAGIC\<close>; \<open>chunk()[i]\<close> panics on a shorter buffer.\<close>

fun check_magic_from :: "bytes \<Rightarrow> nat list \<Rightarrow> unit codec" where
  "check_magic_from b [] = Ok ()"
| "check_magic_from b (i # is) = and_then (index b i) (\<lambda>byte.
     if byte \<noteq> MAGIC ! i then Err (MagicNotMatched i byte) else check_magic_from b is)"

definition get_checked_magic :: "bytes \<Rightarrow> (unit \<times> bytes) codec" where
  "get_checked_magic b = and_then (check_magic_from b [0..<length MAGIC]) (\<lambda>_. Ok ((), drop (length MAGIC) b))"

definition put_magic :: bytes where
  "put_magic = MAGIC"

lemma length_MAGIC [simp]: "length MAGIC = 16"
  by (simp add: MAGIC_def)

lemma check_magic_from_Ok:
  "\<forall>i \<in> set is. i < length b \<Longrightarrow>
   (check_magic_from b is = Ok () \<longleftrightarrow> (\<forall>i \<in> set is. b ! i = MAGIC ! i)) \<and> check_magic_from b is \<noteq> Panic"
  by (induction "is") auto

lemma take_16_eq_MAGIC: "16 \<le> length b \<Longrightarrow> (\<forall>i < 16. b ! i = MAGIC ! i) \<longleftrightarrow> take 16 b = MAGIC"
  by (auto simp: list_eq_iff_nth_eq)

lemma get_checked_magic_eq:
  assumes "16 \<le> length b"
  shows "get_checked_magic b = Ok ((), r) \<longleftrightarrow> take 16 b = MAGIC \<and> r = drop 16 b"
    and "get_checked_magic b \<noteq> Panic"
  using check_magic_from_Ok [of "[0..<16]" b] take_16_eq_MAGIC [OF assms] assms
  by (auto simp: get_checked_magic_def and_then_eq_Ok and_then_eq_Panic)

lemma get_put_magic [simp]: "get_checked_magic (put_magic @ r) = Ok ((), r)"
  by (simp add: get_checked_magic_eq put_magic_def)

lemma get_checked_magic_OkD: "get_checked_magic b = Ok (u, r) \<Longrightarrow> r = drop 16 b"
  by (auto simp: get_checked_magic_def and_then_eq_Ok)

subsection \<open>Socket addresses\<close>

definition get_socket_addr :: "bytes_api \<Rightarrow> bytes \<Rightarrow> (socket_addr \<times> bytes) codec" where
  "get_socket_addr B b = and_then (read_buf b 1 (get_u8 B b)) (\<lambda>(ver, b).
     if ver = 4 then
       read_buf b 6 (
         and_then (get_u32 B b) (\<lambda>(ip, b).
         and_then (get_u16 B b) (\<lambda>(port, b). Ok (V4 ip port, b))))
     else if ver = 6 then
       read_buf b 28 (
         and_then (get_u16 B b) (\<lambda>(family, b).
         if family \<noteq> 0x17 then Err (InvalidIPV6Family family)
         else
           and_then (get_u16 B b) (\<lambda>(port, b).
           and_then (get_u32 B b) (\<lambda>(flow_info, b).
           and_then (get_u128 B b) (\<lambda>(ip, b).
           and_then (get_u32 B b) (\<lambda>(scope_ip, b). Ok (V6 ip port flow_info scope_ip, b)))))))
     else Err (InvalidIPVer ver))"

text \<open>\<open>octets()\<close> of an address are its bytes in network order.\<close>

fun put_socket_addr :: "bytes_api \<Rightarrow> socket_addr \<Rightarrow> bytes" where
  "put_socket_addr B (V4 ip port) = put_u8 B 4 @ be_put 4 (unat ip) @ put_u16 B port"
| "put_socket_addr B (V6 ip port flowinfo scope_id) =
     put_u8 B 6 @ put_u16 B 0x17 @ put_u16 B port @ put_u32 B flowinfo @ be_put 16 (unat ip) @ put_u32 B scope_id"

context bytes_laws
begin

lemma be_put_ip4: "be_put 4 (unat (ip :: u32)) = put_u32 B ip"
  using unat_lt_exp [of ip] by (simp add: be_put_word)

lemma be_put_ip6: "be_put 16 (unat (ip :: u128)) = put_u128 B ip"
  using unat_lt_exp [of ip] by (simp add: be_put_word)

lemma get_put_socket_addr [simp]: "get_socket_addr B (put_socket_addr B a @ r) = Ok (a, r)"
  by (cases a) (simp_all add: get_socket_addr_def be_put_ip4 be_put_ip6)

lemma length_put_socket_addr: "length (put_socket_addr B a) = (case a of V4 _ _ \<Rightarrow> 7 | V6 _ _ _ _ \<Rightarrow> 29)"
  by (cases a) (simp_all add: be_put_ip4 be_put_ip6)

lemma put_socket_addr_min: "7 \<le> length (put_socket_addr B a)"
  by (simp add: length_put_socket_addr split: socket_addr.split)

lemma get_socket_addr_OkD:
  assumes "get_socket_addr B b = Ok (a, r)"
  shows "\<exists>n \<ge> 7. n \<le> length b \<and> r = drop n b"
  using assms
  by (auto simp: get_socket_addr_def and_then_eq_Ok read_buf_eq_Ok split: if_splits
      dest!: get_word_OkD intro: exI [of _ 7] exI [of _ 29])

lemma get_socket_addr_no_panic: "get_socket_addr B b \<noteq> Panic"
  by (auto simp: get_socket_addr_def and_then_eq_Panic read_buf_eq_Panic read_buf_eq_Ok get_word_not_Panic
      split: if_splits dest!: get_word_OkD)

end

end
