(* ===== verification/Frame_Set.thy ===== *)
theory Frame_Set
  imports Packet_Base
begin

text \<open>
  Frames and frame sets of \<open>src/src/packet/connected/frame_set.rs\<close>: flags, fragment and ordering
  headers, the frame codec, and the frame set codec.  \<open>Bytes\<close> and \<open>BytesMut\<close> bodies are both the
  list of their bytes.  The codec of frame bodies is in the theory \<open>Frame_Body\<close>.
\<close>

subsection \<open>Data\<close>

record flags =
  raw :: u8
  reliability :: reliability
  parted :: bool

record fragment =
  parted_size :: u32
  parted_id :: u16
  parted_index :: u32

record ordered =
  frame_index :: u24
  channel :: u8

record frame =
  f_flags :: flags
  reliable_frame_index :: "u24 option"
  seq_frame_index :: "u24 option"
  f_ordered :: "ordered option"
  f_fragment :: "fragment option"
  f_body :: bytes

record frame_set =
  fs_seq_num :: u24
  fs_set :: "frame list"

subsection \<open>Flags and headers\<close>

definition flags_new :: "reliability \<Rightarrow> bool \<Rightarrow> flags" where
  "flags_new r p =
     (let raw = push_bit 5 (reliability_u8 r);
          raw = raw OR NEEDS_B_AND_AS_FLAG;
          raw = (if p then raw OR PARTED_FLAG else raw)
      in \<lparr> raw = raw, reliability = r, parted = p \<rparr>)"

definition flags_parse :: "u8 \<Rightarrow> flags" where
  "flags_parse w =
     (let r = drop_bit 5 w
      in \<lparr> raw = w, reliability = transmute_reliability r, parted = (w AND PARTED_FLAG \<noteq> 0) \<rparr>)"

definition flags_read :: "bytes_api \<Rightarrow> bytes \<Rightarrow> (flags \<times> bytes) codec" where
  "flags_read B b = and_then (get_u8 B b) (\<lambda>(w, b). Ok (flags_parse w, b))"

definition flags_write :: "bytes_api \<Rightarrow> flags \<Rightarrow> bytes" where
  "flags_write B f = put_u8 B (raw f)"

definition fragment_read :: "bytes_api \<Rightarrow> bytes \<Rightarrow> (fragment \<times> bytes) codec" where
  "fragment_read B b =
     and_then (get_u32 B b) (\<lambda>(size, b).
     and_then (get_u16 B b) (\<lambda>(pid, b).
     and_then (get_u32 B b) (\<lambda>(idx, b).
       Ok (\<lparr> parted_size = size, parted_id = pid, parted_index = idx \<rparr>, b))))"

definition fragment_write :: "bytes_api \<Rightarrow> fragment \<Rightarrow> bytes" where
  "fragment_write B f = put_u32 B (parted_size f) @ put_u16 B (parted_id f) @ put_u32 B (parted_index f)"

definition ordered_read :: "bytes_api \<Rightarrow> bytes \<Rightarrow> (ordered \<times> bytes) codec" where
  "ordered_read B b =
     and_then (get_u24_le B b) (\<lambda>(idx, b).
     and_then (get_u8 B b) (\<lambda>(ch, b). Ok (\<lparr> frame_index = idx, channel = ch \<rparr>, b)))"

definition ordered_write :: "bytes_api \<Rightarrow> ordered \<Rightarrow> bytes" where
  "ordered_write B d = put_u24_le B (frame_index d) @ put_u8 B (channel d)"

subsection \<open>Frames\<close>

text \<open>\<open>if cond { x = read_buf!(buf, n, Some(exp)) }\<close>, with \<open>x\<close> initially \<open>None\<close>.\<close>

definition read_opt :: "bool \<Rightarrow> nat \<Rightarrow> (bytes \<Rightarrow> ('a \<times> bytes) codec) \<Rightarrow> bytes \<Rightarrow> ('a option \<times> bytes) codec" where
  "read_opt c n rd b = (if c then read_buf b n (and_then (rd b) (\<lambda>(x, b). Ok (Some x, b))) else Ok (None, b))"

text \<open>\<open>if let Some(x) = opt { put(x) }\<close>.\<close>

definition write_opt :: "('a \<Rightarrow> bytes) \<Rightarrow> 'a option \<Rightarrow> bytes" where
  "write_opt w x = (case x of None \<Rightarrow> [] | Some y \<Rightarrow> w y)"

definition frame_read :: "bytes_api \<Rightarrow> bytes \<Rightarrow> (frame \<times> bytes) codec" where
  "frame_read B b =
     and_then (read_buf b 3 (
       and_then (flags_read B b) (\<lambda>(fl, b).
       and_then (get_u16 B b) (\<lambda>(bits, b).
         let len = drop_bit 3 bits in
         if len = 0 then Err (InvalidPacketLength ''frame length'')
         else Ok (fl, unat len, b))))) (\<lambda>(fl, len, b).
     let r = reliability fl in
     and_then (read_opt (is_reliable r) 3 (get_u24_le B) b) (\<lambda>(rfi, b).
     and_then (read_opt (is_sequenced r) 3 (get_u24_le B) b) (\<lambda>(sfi, b).
     and_then (read_opt (is_sequenced_or_ordered r) 4 (ordered_read B) b) (\<lambda>(od, b).
     and_then (read_opt (parted fl) 10 (fragment_read B) b) (\<lambda>(fg, b).
     and_then (read_buf b len (Ok (take len b, drop len b))) (\<lambda>(body, b).
       Ok (\<lparr> f_flags = fl, reliable_frame_index = rfi, seq_frame_index = sfi, f_ordered = od,
             f_fragment = fg, f_body = body \<rparr>, b)))))))"

definition frame_write :: "bytes_api \<Rightarrow> frame \<Rightarrow> bytes codec" where
  "frame_write B f =
     (if length (f_body f) < unat (drop_bit 3 (0xFFFF :: u16))
      then Ok (flags_write B (f_flags f)
        @ put_u16 B (word_of_nat (length (f_body f) * 8))
        @ write_opt (put_u24_le B) (reliable_frame_index f)
        @ write_opt (put_u24_le B) (seq_frame_index f)
        @ write_opt (ordered_write B) (f_ordered f)
        @ write_opt (fragment_write B) (f_fragment f)
        @ f_body f)
      else Panic)"

definition frame_size :: "frame \<Rightarrow> nat" where
  "frame_size f =
     (let size = reliability_size (reliability (f_flags f));
          size = (if f_fragment f \<noteq> None then size + FRAGMENT_PART_SIZE else size)
      in size + length (f_body f))"

text \<open>\<open>PARTED_FLAG.reverse_bits()\<close>.\<close>

definition reverse_bits8 :: "u8 \<Rightarrow> u8" where
  "reverse_bits8 w = (\<Sum>i\<leftarrow>[0..<8]. if bit w i then push_bit (7 - i) 1 else 0)"

definition reassembled :: "frame \<Rightarrow> frame" where
  "reassembled f =
     (if \<not> parted (f_flags f) then f
      else f\<lparr>f_flags := (f_flags f)\<lparr>raw := raw (f_flags f) AND reverse_bits8 PARTED_FLAG, parted := False\<rparr>,
             f_fragment := None\<rparr>)"

subsection \<open>Frame sets\<close>

text \<open>
  The loop \<open>while buf.has_remaining() { frames.push(Frame::read(buf)?) }\<close>.  The test that the
  remaining buffer has become shorter makes the recursion well founded for every implementation of
  the buffer operations; \<open>frames_read_unfold\<close> below shows it always succeeds under their laws.
\<close>

function frames_read :: "bytes_api \<Rightarrow> bytes \<Rightarrow> frame list codec" where
  "frames_read B b =
     (if b = [] then Ok []
      else and_then (frame_read B b) (\<lambda>(f, b').
        if length b' < length b then and_then (frames_read B b') (\<lambda>fs. Ok (f # fs)) else Panic))"
  by pat_completeness auto
termination by (relation "measure (\<lambda>(B, b). length b)") auto

declare frames_read.simps [simp del]

definition frame_set_read :: "bytes_api \<Rightarrow> bytes \<Rightarrow> frame_set codec" where
  "frame_set_read B b =
     and_then (read_buf b 3 (get_u24_le B b)) (\<lambda>(seq_num, b).
     and_then (frames_read B b) (\<lambda>frames.
       if frames = [] then Err (InvalidPacketLength ''frame set'')
       else Ok \<lparr> fs_seq_num = seq_num, fs_set = frames \<rparr>))"

fun frames_write :: "bytes_api \<Rightarrow> frame list \<Rightarrow> bytes codec" where
  "frames_write B [] = Ok []"
| "frames_write B (f # fs) = and_then (frame_write B f) (\<lambda>x. and_then (frames_write B fs) (\<lambda>y. Ok (x @ y)))"

definition frame_set_write :: "bytes_api \<Rightarrow> frame_set \<Rightarrow> bytes codec" where
  "frame_set_write B s = and_then (frames_write B (fs_set s)) (\<lambda>x. Ok (put_u24_le B (fs_seq_num s) @ x))"

subsection \<open>Well-formed frames\<close>

text \<open>
  A frame as the encoders build it: the flags agree with their raw byte, exactly the headers the
  reliability and the fragment flag announce are present, and the body fits the length field.
\<close>

definition opt_ok :: "bool \<Rightarrow> ('a \<Rightarrow> bool) \<Rightarrow> 'a option \<Rightarrow> bool" where
  "opt_ok c P x \<longleftrightarrow> (case x of None \<Rightarrow> \<not> c | Some y \<Rightarrow> c \<and> P y)"

lemma opt_ok_simps [simp]: "opt_ok c P None \<longleftrightarrow> \<not> c" "opt_ok c P (Some y) \<longleftrightarrow> c \<and> P y"
  by (simp_all add: opt_ok_def)

definition frame_ok :: "frame \<Rightarrow> bool" where
  "frame_ok f \<longleftrightarrow>
     (let fl = f_flags f; r = reliability fl in
      flags_parse (raw fl) = fl
      \<and> opt_ok (is_reliable r) u24_ok (reliable_frame_index f)
      \<and> opt_ok (is_sequenced r) u24_ok (seq_frame_index f)
      \<and> opt_ok (is_sequenced_or_ordered r) (\<lambda>d. u24_ok (frame_index d)) (f_ordered f)
      \<and> opt_ok (parted fl) (\<lambda>_. True) (f_fragment f)
      \<and> f_body f \<noteq> [] \<and> length (f_body f) < 8191)"

lemma flags_parse_new: "flags_parse (raw (flags_new r p)) = flags_new r p"
  by (cases r; cases p) (simp_all add: flags_parse_def flags_new_def flag_defs transmute_reliability_def)

lemma flags_new_sel [simp]: "reliability (flags_new r p) = r" "parted (flags_new r p) = p"
  by (simp_all add: flags_new_def Let_def)

lemma max_len_u16: "unat (drop_bit 3 (0xFFFF :: u16)) = 8191"
  by simp

lemma write_opt_None [simp]: "write_opt w None = []"
  and write_opt_Some [simp]: "write_opt w (Some x) = w x"
  by (simp_all add: write_opt_def)

lemma read_write_opt:
  assumes "opt_ok c P x" and "\<And>y. P y \<Longrightarrow> length (w y) = n" and "\<And>y. P y \<Longrightarrow> rd (w y @ r) = Ok (y, r)"
  shows "read_opt c n rd (write_opt w x @ r) = Ok (x, r)"
  using assms by (auto simp: opt_ok_def read_opt_def split: option.splits)

lemma read_opt_OkD:
  assumes "read_opt c n rd b = Ok (x, r)" and "\<And>b x r. rd b = Ok (x, r) \<Longrightarrow> r = drop n b \<and> P x"
  shows "length r \<le> length b" and "opt_ok c P x"
  using assms by (auto simp: read_opt_def read_buf_eq_Ok and_then_eq_Ok opt_ok_def split: if_splits dest!: assms(2))

lemma read_opt_no_panic:
  "(n \<le> length b \<Longrightarrow> rd b \<noteq> Panic) \<Longrightarrow> read_opt c n rd b \<noteq> Panic"
  by (auto simp: read_opt_def read_buf_def and_then_eq_Panic)

lemma length_bits_ok:
  assumes "n < 8191"
  shows "unat (drop_bit 3 (word_of_nat (n * 8) :: u16)) = n"
proof -
  have "unat (word_of_nat (n * 8) :: u16) = n * 8"
    using assms by (simp only: unsigned_of_nat take_bit_eq_mod) simp
  then have "unat (drop_bit 3 (word_of_nat (n * 8) :: u16)) = n * 8 div 2 ^ 3"
    by (simp only: unat_drop_bit_eq drop_bit_eq_div [of 3 "n * 8"])
  then show ?thesis by simp
qed

text \<open>What the reader of frames gives: it also takes the largest length, which the writer refuses.\<close>

definition frame_typed :: "frame \<Rightarrow> bool" where
  "frame_typed f \<longleftrightarrow>
     (let fl = f_flags f; r = reliability fl in
      flags_parse (raw fl) = fl
      \<and> opt_ok (is_reliable r) u24_ok (reliable_frame_index f)
      \<and> opt_ok (is_sequenced r) u24_ok (seq_frame_index f)
      \<and> opt_ok (is_sequenced_or_ordered r) (\<lambda>d. u24_ok (frame_index d)) (f_ordered f)
      \<and> opt_ok (parted fl) (\<lambda>_. True) (f_fragment f)
      \<and> f_body f \<noteq> [] \<and> length (f_body f) \<le> 8191)"

lemma frame_ok_typed: "frame_ok f \<longleftrightarrow> frame_typed f \<and> length (f_body f) \<noteq> 8191"
  by (auto simp: frame_ok_def frame_typed_def Let_def)

lemma frame_typed_le: "frame_typed f \<Longrightarrow> length (f_body f) \<noteq> 8191 \<Longrightarrow> length (f_body f) < 8191"
  by (auto simp: frame_typed_def Let_def)

lemma length_bits_le: "unat (drop_bit 3 (v :: u16)) \<le> 8191"
proof -
  have "unat v < 65536" using unsigned_less [of v, where 'a = nat] by simp
  then show ?thesis unfolding unat_drop_bit_eq drop_bit_eq_div [of 3 "unat v"] by simp
qed

context bytes_laws
begin

lemma length_fragment_write [simp]: "length (fragment_write B f) = 10"
  by (simp add: fragment_write_def)

lemma length_ordered_write [simp]: "length (ordered_write B d) = 4"
  by (simp add: ordered_write_def)

lemma fragment_round_trip [simp]: "fragment_read B (fragment_write B f @ r) = Ok (f, r)"
  by (simp add: fragment_read_def fragment_write_def)

lemma ordered_round_trip [simp]: "u24_ok (frame_index d) \<Longrightarrow> ordered_read B (ordered_write B d @ r) = Ok (d, r)"
  by (simp add: ordered_read_def ordered_write_def)

lemma fragment_read_OkD: "fragment_read B b = Ok (f, r) \<Longrightarrow> r = drop 10 b"
  by (auto simp: fragment_read_def and_then_eq_Ok dest!: get_word_OkD)

lemma ordered_read_OkD: "ordered_read B b = Ok (d, r) \<Longrightarrow> r = drop 4 b \<and> u24_ok (frame_index d)"
  by (auto simp: ordered_read_def and_then_eq_Ok dest!: get_word_OkD get_u24_le_OkD)

lemma fragment_read_no_panic: "10 \<le> length b \<Longrightarrow> fragment_read B b \<noteq> Panic"
  by (auto simp: fragment_read_def and_then_eq_Panic get_word_not_Panic dest!: get_word_OkD)

lemma ordered_read_no_panic: "4 \<le> length b \<Longrightarrow> ordered_read B b \<noteq> Panic"
  by (auto simp: ordered_read_def and_then_eq_Panic get_word_not_Panic get_u24_le_not_Panic
      dest!: get_u24_le_OkD)

lemma write_opt_length:
  "opt_ok c P x \<Longrightarrow> (\<And>y. length (w y) = n) \<Longrightarrow> length (write_opt w x) = (if c then n else 0)"
  by (auto simp: opt_ok_def split: option.splits)

lemma frame_write_ok:
  assumes "frame_ok f"
  shows "\<exists>w. frame_write B f = Ok w \<and> length w = frame_size f"
  using assms
  by (auto simp: frame_ok_def Let_def frame_write_def max_len_u16 frame_size_def reliability_size_def
      flags_write_def FRAGMENT_PART_SIZE_def opt_ok_def split: option.splits)

lemma frame_round_trip:
  assumes ok: "frame_ok f" and w: "frame_write B f = Ok w"
  shows "frame_read B (w @ r) = Ok (f, r)"
proof -
  let ?r = "reliability (f_flags f)"
  have len: "length (f_body f) < 8191" "f_body f \<noteq> []" and fl: "flags_parse (raw (f_flags f)) = f_flags f"
    and o1: "opt_ok (is_reliable ?r) u24_ok (reliable_frame_index f)"
    and o2: "opt_ok (is_sequenced ?r) u24_ok (seq_frame_index f)"
    and o3: "opt_ok (is_sequenced_or_ordered ?r) (\<lambda>d. u24_ok (frame_index d)) (f_ordered f)"
    and o4: "opt_ok (parted (f_flags f)) (\<lambda>_. True) (f_fragment f)"
    using ok by (simp_all add: frame_ok_def Let_def)
  have weq: "w @ r = put_u8 B (raw (f_flags f)) @ put_u16 B (word_of_nat (length (f_body f) * 8))
        @ write_opt (put_u24_le B) (reliable_frame_index f) @ write_opt (put_u24_le B) (seq_frame_index f)
        @ write_opt (ordered_write B) (f_ordered f) @ write_opt (fragment_write B) (f_fragment f)
        @ f_body f @ r"
    using w len by (auto simp: frame_write_def max_len_u16 flags_write_def)
  have nz: "drop_bit 3 (word_of_nat (length (f_body f) * 8) :: u16) \<noteq> 0"
    using length_bits_ok [OF len(1)] len(2) by (metis length_0_conv unsigned_0)
  note steps = read_write_opt [OF o1] read_write_opt [OF o2] read_write_opt [OF o3] read_write_opt [OF o4]
  show ?thesis
    unfolding frame_read_def weq
    using nz length_bits_ok [OF len(1)]
    by (simp add: flags_read_def fl steps Let_def del: of_nat_mult)
qed

lemma read_opt_len:
  "read_opt c 3 (get_u24_le B) b = Ok (x, r) \<Longrightarrow> length r \<le> length b"
  "read_opt c 4 (ordered_read B) b = Ok (y, r) \<Longrightarrow> length r \<le> length b"
  "read_opt c 10 (fragment_read B) b = Ok (z, r) \<Longrightarrow> length r \<le> length b"
  using read_opt_OkD(1) [where P = "\<lambda>_. True"] get_u24_le_OkD ordered_read_OkD fragment_read_OkD by blast+

lemma frame_read_shrinks:
  assumes "frame_read B b = Ok (f, r)"
  shows "length r < length b"
  using assms
  by (auto simp: frame_read_def and_then_eq_Ok read_buf_eq_Ok Let_def flags_read_def split: if_splits
      dest!: get_word_OkD read_opt_len)

lemma frame_read_no_panic: "frame_read B b \<noteq> Panic"
  by (auto simp: frame_read_def and_then_eq_Panic and_then_eq_Ok read_buf_eq_Panic read_buf_eq_Ok Let_def
      flags_read_def get_word_not_Panic split: if_splits
      dest!: get_word_OkD
      intro!: read_opt_no_panic get_u24_le_not_Panic ordered_read_no_panic fragment_read_no_panic)

lemma frames_read_unfold:
  "frames_read B b =
     (if b = [] then Ok []
      else and_then (frame_read B b) (\<lambda>(f, b'). and_then (frames_read B b') (\<lambda>fs. Ok (f # fs))))"
  by (subst frames_read.simps) (auto intro!: and_then_cong dest: frame_read_shrinks)

lemma frames_read_no_panic: "frames_read B b \<noteq> Panic"
proof (induction b rule: measure_induct_rule [where f = length])
  case (less b)
  then show ?case
    using frame_read_no_panic
    by (subst frames_read_unfold) (auto simp: and_then_eq_Panic dest: frame_read_shrinks)
qed

lemma frame_set_read_no_panic: "frame_set_read B b \<noteq> Panic"
  using frames_read_no_panic
  by (auto simp: frame_set_read_def and_then_eq_Panic read_buf_eq_Panic get_u24_le_not_Panic split: if_splits)

lemma read_opt_typed:
  "read_opt c 3 (get_u24_le B) b = Ok (x, r) \<Longrightarrow> opt_ok c u24_ok x"
  "read_opt c 4 (ordered_read B) b = Ok (y, r) \<Longrightarrow> opt_ok c (\<lambda>d. u24_ok (frame_index d)) y"
  "read_opt c 10 (fragment_read B) b = Ok (z, r) \<Longrightarrow> opt_ok c (\<lambda>_. True) z"
  by (erule read_opt_OkD(2); blast dest: get_u24_le_OkD ordered_read_OkD fragment_read_OkD)+

lemma frame_read_typed:
  assumes "frame_read B b = Ok (f, r)"
  shows "frame_typed f"
  using assms length_bits_le
  by (auto simp: frame_read_def and_then_eq_Ok read_buf_eq_Ok Let_def flags_read_def frame_typed_def flags_parse_def
      unat_eq_zero split: if_splits dest: read_opt_typed)

lemma frames_read_typed: "frames_read B b = Ok fs \<Longrightarrow> list_all frame_typed fs"
proof (induction b arbitrary: fs rule: measure_induct_rule [where f = length])
  case (less b)
  show ?case
  proof (cases "b = []")
    case False
    then obtain f r gs where f: "frame_read B b = Ok (f, r)" "frames_read B r = Ok gs" "fs = f # gs"
      using less.prems by (subst (asm) frames_read_unfold) (auto simp: and_then_eq_Ok)
    then show ?thesis
      using less.IH [OF frame_read_shrinks [OF f(1)] f(2)] frame_read_typed [OF f(1)] by simp
  qed (use less.prems in \<open>simp add: frames_read_unfold [of "[]"]\<close>)
qed

lemma frames_write_ok:
  "\<forall>f \<in> set fs. frame_ok f \<Longrightarrow> \<exists>w. frames_write B fs = Ok w \<and> length w = sum_list (map frame_size fs)"
  using frame_write_ok by (induction fs) fastforce+

lemma frames_round_trip:
  "\<forall>f \<in> set fs. frame_ok f \<Longrightarrow> frames_write B fs = Ok w \<Longrightarrow> frames_read B w = Ok fs"
proof (induction fs arbitrary: w)
  case Nil
  then show ?case by (simp add: frames_read.simps)
next
  case (Cons f fs)
  then obtain w1 w2 where w: "frame_write B f = Ok w1" "frames_write B fs = Ok w2" "w = w1 @ w2"
    by (auto simp: and_then_eq_Ok)
  have rd: "frame_read B (w1 @ w2) = Ok (f, w2)" using frame_round_trip [OF _ w(1)] Cons.prems by simp
  then have "w1 @ w2 \<noteq> []" using frame_read_shrinks by fastforce
  with rd Cons.IH [OF _ w(2)] Cons.prems w(3) show ?case by (subst frames_read_unfold) simp
qed

lemma frame_set_round_trip:
  assumes "u24_ok (fs_seq_num s)" and "fs_set s \<noteq> []" and "\<forall>f \<in> set (fs_set s). frame_ok f"
  shows "\<exists>w. frame_set_write B s = Ok w \<and> length w = 3 + sum_list (map frame_size (fs_set s))
           \<and> frame_set_read B w = Ok s"
proof -
  obtain w where w: "frames_write B (fs_set s) = Ok w" "length w = sum_list (map frame_size (fs_set s))"
    using frames_write_ok [OF assms(3)] by blast
  then show ?thesis
    using frames_round_trip [OF assms(3) w(1)] assms(1,2)
    by (simp add: frame_set_write_def frame_set_read_def)
qed

end

end
