(* ===== verification/Frame_Body.thy ===== *)
theory Frame_Body
  imports Frame_Set
begin

text \<open>
  Frame bodies of \<open>src/src/packet/connected/frame_set.rs\<close>: the online messages carried inside frames
  and the user packets, with their reader and writer.
\<close>

definition MAX_SYSTEM_ADDRESSES_ENDPOINTS :: nat where
  "MAX_SYSTEM_ADDRESSES_ENDPOINTS = 20"

text \<open>The arrays of twenty addresses are lists; \<open>frame_body_ok\<close> below fixes their length.\<close>

datatype frame_body =
    ConnectedPing i64
  | ConnectedPong i64 i64
  | ConnectionRequest u64 i64 bool
  | ConnectionRequestAccepted socket_addr u16 "socket_addr list" i64 i64
  | NewIncomingConnection socket_addr "socket_addr list" i64 i64
  | DisconnectNotification
  | DetectLostConnections
  | User bytes

text \<open>
  The loop \<open>for i in 1..20\<close>: while more than sixteen bytes remain the next address is read into
  \<open>addresses[i]\<close>, otherwise the loop ends.
\<close>

fun parse_addresses_from :: "bytes_api \<Rightarrow> nat list \<Rightarrow> socket_addr list \<Rightarrow> bytes \<Rightarrow> (socket_addr list \<times> bytes) codec" where
  "parse_addresses_from B [] addresses b = Ok (addresses, b)"
| "parse_addresses_from B (i # is) addresses b =
     (if 16 < length b
      then and_then (get_socket_addr B b) (\<lambda>(a, b). parse_addresses_from B is (addresses[i := a]) b)
      else Ok (addresses, b))"

definition parse_system_addresses :: "bytes_api \<Rightarrow> bytes \<Rightarrow> (socket_addr list \<times> bytes) codec" where
  "parse_system_addresses B b =
     and_then (get_socket_addr B b) (\<lambda>(a, b).
     and_then (parse_addresses_from B [1..<MAX_SYSTEM_ADDRESSES_ENDPOINTS]
                 (replicate MAX_SYSTEM_ADDRESSES_ENDPOINTS a) b) (\<lambda>(addresses, b).
       if length b < 16 then Err (InvalidPacketLength ''frame body'')
       else if length b = 16 then Ok (addresses, b)
       else Panic))"

definition frame_body_read :: "bytes_api \<Rightarrow> bytes \<Rightarrow> frame_body codec" where
  "frame_body_read B b = and_then (index b 0) (\<lambda>first.
     case pack_type_from_u8 first of
       Err _ \<Rightarrow> Ok (User b)
     | Panic \<Rightarrow> Panic
     | Ok t \<Rightarrow> (case t of
         PT_ConnectedPing \<Rightarrow> read_buf b 9 (
           and_then (get_i64 B (drop 1 b)) (\<lambda>(ct, b). Ok (ConnectedPing ct)))
       | PT_ConnectedPong \<Rightarrow> read_buf b 17 (
           and_then (get_i64 B (drop 1 b)) (\<lambda>(ct, b).
           and_then (get_i64 B b) (\<lambda>(st, b). Ok (ConnectedPong ct st))))
       | PT_ConnectionRequest \<Rightarrow> read_buf b 18 (
           and_then (get_u64 B (drop 1 b)) (\<lambda>(guid, b).
           and_then (get_i64 B b) (\<lambda>(rt, b).
           and_then (get_u8 B b) (\<lambda>(enc, b). Ok (ConnectionRequest guid rt (enc \<noteq> 0))))))
       | PT_ConnectionRequestAccepted \<Rightarrow>
           and_then (get_socket_addr B (drop 1 b)) (\<lambda>(addr, b).
           and_then (read_buf b 2 (get_u16 B b)) (\<lambda>(idx, b).
           and_then (parse_system_addresses B b) (\<lambda>(addrs, b).
           and_then (get_i64 B b) (\<lambda>(rt, b).
           and_then (get_i64 B b) (\<lambda>(at, b). Ok (ConnectionRequestAccepted addr idx addrs rt at))))))
       | PT_NewIncomingConnection \<Rightarrow>
           and_then (get_socket_addr B (drop 1 b)) (\<lambda>(addr, b).
           and_then (parse_system_addresses B b) (\<lambda>(addrs, b).
           and_then (get_i64 B b) (\<lambda>(rt, b).
           and_then (get_i64 B b) (\<lambda>(at, b). Ok (NewIncomingConnection addr addrs rt at)))))
       | PT_DisconnectNotification \<Rightarrow> Ok DisconnectNotification
       | PT_DetectLostConnections \<Rightarrow> Ok DetectLostConnections
       | _ \<Rightarrow> Ok (User b)))"

fun frame_body_write :: "bytes_api \<Rightarrow> frame_body \<Rightarrow> bytes" where
  "frame_body_write B (ConnectedPing ct) = put_u8 B (pack_type_u8 PT_ConnectedPing) @ put_i64 B ct"
| "frame_body_write B (ConnectedPong ct st) =
     put_u8 B (pack_type_u8 PT_ConnectedPong) @ put_i64 B ct @ put_i64 B st"
| "frame_body_write B (ConnectionRequest guid rt enc) =
     put_u8 B (pack_type_u8 PT_ConnectionRequest) @ put_u64 B guid @ put_i64 B rt @ put_u8 B (of_bool enc)"
| "frame_body_write B (ConnectionRequestAccepted addr idx addrs rt at) =
     put_u8 B (pack_type_u8 PT_ConnectionRequestAccepted) @ put_socket_addr B addr @ put_u16 B idx
     @ concat (map (put_socket_addr B) addrs) @ put_i64 B rt @ put_i64 B at"
| "frame_body_write B (NewIncomingConnection addr addrs rt at) =
     put_u8 B (pack_type_u8 PT_NewIncomingConnection) @ put_socket_addr B addr
     @ concat (map (put_socket_addr B) addrs) @ put_i64 B rt @ put_i64 B at"
| "frame_body_write B DisconnectNotification = put_u8 B (pack_type_u8 PT_DisconnectNotification)"
| "frame_body_write B DetectLostConnections = put_u8 B (pack_type_u8 PT_DetectLostConnections)"
| "frame_body_write B (User data) = data"

subsection \<open>Round trip\<close>

text \<open>The first bytes under which a user packet is recognised as an online message.\<close>

definition reserved_ids :: "u8 set" where
  "reserved_ids = pack_type_u8 ` {PT_ConnectedPing, PT_ConnectedPong, PT_ConnectionRequest,
     PT_ConnectionRequestAccepted, PT_NewIncomingConnection, PT_DisconnectNotification, PT_DetectLostConnections}"

fun frame_body_ok :: "frame_body \<Rightarrow> bool" where
  "frame_body_ok (ConnectionRequestAccepted _ _ addrs _ _) \<longleftrightarrow> length addrs = 20"
| "frame_body_ok (NewIncomingConnection _ addrs _ _) \<longleftrightarrow> length addrs = 20"
| "frame_body_ok (User data) \<longleftrightarrow> data \<noteq> [] \<and> hd data \<notin> reserved_ids"
| "frame_body_ok _ \<longleftrightarrow> True"

lemma pack_type_from_u8_inj: "pack_type_from_u8 n = Ok t \<Longrightarrow> \<not> is_ack t \<Longrightarrow> \<not> is_nack t \<Longrightarrow> \<not> is_frame_set t \<Longrightarrow> n = pack_type_u8 t"
  by (auto simp: pack_type_from_u8_def split: if_splits)

lemma user_data_read:
  assumes "data \<noteq> []" and "hd data \<notin> reserved_ids"
  shows "frame_body_read B data = Ok (User data)"
proof (cases "pack_type_from_u8 (hd data)")
  case (Ok t)
  have "hd data \<noteq> pack_type_u8 t" if "t \<in> {PT_ConnectedPing, PT_ConnectedPong, PT_ConnectionRequest,
     PT_ConnectionRequestAccepted, PT_NewIncomingConnection, PT_DisconnectNotification, PT_DetectLostConnections}"
    using assms(2) that unfolding reserved_ids_def by blast
  with pack_type_from_u8_inj [OF Ok] have "t \<notin> {PT_ConnectedPing, PT_ConnectedPong, PT_ConnectionRequest,
     PT_ConnectionRequestAccepted, PT_NewIncomingConnection, PT_DisconnectNotification, PT_DetectLostConnections}"
    by auto
  with Ok assms(1) show ?thesis
    by (cases t) (simp_all add: frame_body_read_def hd_conv_nth)
next
  case (Err e)
  then show ?thesis using assms(1) by (simp add: frame_body_read_def hd_conv_nth)
next
  case Panic
  then show ?thesis using pack_type_from_u8_no_panic by blast
qed

context bytes_laws
begin

lemma parse_addresses_from_put:
  assumes "length rest = 16" and "i + length as = length addresses"
  shows "parse_addresses_from B [i..<i + length as] addresses (concat (map (put_socket_addr B) as) @ rest)
     = Ok (take i addresses @ as, rest)"
  using assms(2)
proof (induction as arbitrary: i addresses)
  case Nil
  then show ?case by simp
next
  case (Cons a as)
  have more: "16 < length (concat (map (put_socket_addr B) (a # as)) @ rest)"
    using put_socket_addr_min [of a] assms(1) by (cases "put_socket_addr B a") simp_all
  have idx: "[i..<length addresses] = i # [Suc i..<length addresses]"
    using Cons.prems by (simp add: upt_conv_Cons)
  show ?case
    using more Cons.prems Cons.IH [of "Suc i" "addresses[i := a]"]
    by (simp add: idx take_Suc_conv_app_nth)
qed

lemma parse_system_addresses_put:
  assumes "length rest = 16" and "length as = 20"
  shows "parse_system_addresses B (concat (map (put_socket_addr B) as) @ rest) = Ok (as, rest)"
proof -
  obtain a bs where as: "as = a # bs" "length bs = 19" using assms(2) by (cases as) auto
  have "parse_addresses_from B [1..<1 + length bs] (replicate 20 a)
     (concat (map (put_socket_addr B) bs) @ rest) = Ok (take 1 (replicate 20 a) @ bs, rest)"
    using as by (intro parse_addresses_from_put [OF assms(1)]) simp
  then show ?thesis
    using as assms(1) by (simp add: parse_system_addresses_def MAX_SYSTEM_ADDRESSES_ENDPOINTS_def take_Cons')
qed

lemma frame_body_round_trip:
  assumes "frame_body_ok x"
  shows "frame_body_read B (frame_body_write B x) = Ok x"
proof (cases x)
  case (User data)
  then show ?thesis using assms by (simp add: user_data_read)
next
  case (ConnectionRequestAccepted addr idx addrs rt at)
  have "parse_system_addresses B (concat (map (put_socket_addr B) addrs) @ put_i64 B rt @ put_i64 B at)
     = Ok (addrs, put_i64 B rt @ put_i64 B at)"
    using assms ConnectionRequestAccepted by (intro parse_system_addresses_put) simp_all
  then show ?thesis
    using ConnectionRequestAccepted by (simp add: frame_body_read_def put_u8_singleton pack_type_from_u8_def)
next
  case (NewIncomingConnection addr addrs rt at)
  have "parse_system_addresses B (concat (map (put_socket_addr B) addrs) @ put_i64 B rt @ put_i64 B at)
     = Ok (addrs, put_i64 B rt @ put_i64 B at)"
    using assms NewIncomingConnection by (intro parse_system_addresses_put) simp_all
  then show ?thesis
    using NewIncomingConnection by (simp add: frame_body_read_def put_u8_singleton pack_type_from_u8_def)
qed (simp_all add: frame_body_read_def put_u8_singleton pack_type_from_u8_def split: if_splits)

end

end
