(* ===== verification/Ack.thy ===== *)
theory Ack
  imports Packet_Base
begin

text \<open>
  Acknowledgements of \<open>src/src/packet/connected/ack.rs\<close>: compression of a sequence of sequence
  numbers into records under a size budget, and the record codec.  \<open>ack_expand\<close> is the specification
  of a record list: the sequence numbers it stands for.
\<close>

subsection \<open>Operations\<close>

datatype ack_record = Range u24 u24 | Single u24

record ack_or_nack =
  records :: "ack_record list"

text \<open>\<open>u16\<close> subtraction with overflow checks.\<close>

definition u16_sub :: "u16 \<Rightarrow> u16 \<Rightarrow> ('e, u16) outcome" where
  "u16_sub a b = (if b \<le> a then Ok (a - b) else Panic)"

definition close_record :: "u24 \<Rightarrow> u24 \<Rightarrow> ack_record" where
  "close_record first lst = (if first \<noteq> lst then Range first lst else Single first)"

text \<open>
  The loop of \<open>extend_from\<close> over the remaining iterator, with its mutable variables as arguments;
  the result is the finished record list and what is left of the iterator.
\<close>

fun extend_loop :: "u24 list \<Rightarrow> u16 \<Rightarrow> u24 \<Rightarrow> u24 \<Rightarrow> bool \<Rightarrow> ack_record list \<Rightarrow> ('e, ack_record list \<times> u24 list) outcome" where
  "extend_loop seqs mtu first lst upgrade_flag recs =
     (if mtu < 4 then Ok (recs @ [close_record first lst], seqs)
      else (case seqs of
          [] \<Rightarrow> Ok (recs @ [close_record first lst], [])
        | seq_num # seqs' \<Rightarrow>
            and_then (u24_succ lst) (\<lambda>succ.
              if seq_num = succ then
                (if upgrade_flag
                 then and_then (u16_sub mtu 3) (\<lambda>mtu. extend_loop seqs' mtu first seq_num False recs)
                 else extend_loop seqs' mtu first seq_num upgrade_flag recs)
              else
                and_then (u16_sub mtu 4) (\<lambda>mtu.
                  extend_loop seqs' mtu seq_num seq_num True (recs @ [close_record first lst])))))"

declare extend_loop.simps [simp del]

definition extend_from :: "u24 list \<Rightarrow> u16 \<Rightarrow> ('e, ack_or_nack option \<times> u24 list) outcome" where
  "extend_from sorted_seq_nums mtu =
     (if mtu < 7 then Panic
      else (case sorted_seq_nums of
          [] \<Rightarrow> Ok (None, [])
        | first # seqs \<Rightarrow>
            and_then (u16_sub mtu 7) (\<lambda>mtu.
            and_then (extend_loop seqs mtu first first True []) (\<lambda>(recs, rest).
              Ok (Some \<lparr> records = recs \<rparr>, rest)))))"

fun ack_cnt :: "ack_record \<Rightarrow> ('e, nat) outcome" where
  "ack_cnt (Range s e) = and_then (u24_sub e s) (\<lambda>d. and_then (u24_succ d) (\<lambda>n. Ok (to_usize n)))"
| "ack_cnt (Single _) = Ok 1"

definition RECORD_RANGE :: u8 where "RECORD_RANGE = 0"
definition RECORD_SINGLE :: u8 where "RECORD_SINGLE = 1"

definition record_read :: "bytes_api \<Rightarrow> bytes \<Rightarrow> (ack_record \<times> bytes) codec" where
  "record_read B b = and_then (read_buf b 1 (get_u8 B b)) (\<lambda>(record_type, b).
     if record_type = RECORD_RANGE then
       read_buf b 6 (
         and_then (get_u24_le B b) (\<lambda>(s, b).
         and_then (get_u24_le B b) (\<lambda>(e, b). Ok (Range s e, b))))
     else if record_type = RECORD_SINGLE then
       read_buf b 3 (and_then (get_u24_le B b) (\<lambda>(idx, b). Ok (Single idx, b)))
     else Err (InvalidRecordType record_type))"

fun record_write :: "bytes_api \<Rightarrow> ack_record \<Rightarrow> bytes" where
  "record_write B (Range s e) = put_u8 B RECORD_RANGE @ put_u24_le B s @ put_u24_le B e"
| "record_write B (Single idx) = put_u8 B RECORD_SINGLE @ put_u24_le B idx"

definition MAX_ACKNOWLEDGEMENT_PACKETS :: nat where
  "MAX_ACKNOWLEDGEMENT_PACKETS = 16384"

text \<open>The loop \<open>for _ in 0..record_cnt\<close> with the running count of acknowledged packets.\<close>

fun records_read :: "bytes_api \<Rightarrow> nat \<Rightarrow> nat \<Rightarrow> bytes \<Rightarrow> (ack_record list \<times> bytes) codec" where
  "records_read B 0 cnt b = Ok ([], b)"
| "records_read B (Suc n) cnt b =
     and_then (record_read B b) (\<lambda>(r, b).
     and_then (ack_cnt r) (\<lambda>c.
       let cnt = cnt + c in
       if MAX_ACKNOWLEDGEMENT_PACKETS < cnt then Err (AckCountExceed cnt)
       else and_then (records_read B n cnt b) (\<lambda>(rs, b). Ok (r # rs, b))))"

text \<open>The record count is read without a length check: a shorter buffer panics.\<close>

definition ack_read :: "bytes_api \<Rightarrow> bytes \<Rightarrow> ack_or_nack codec" where
  "ack_read B b =
     and_then (get_u16 B b) (\<lambda>(record_cnt, b).
     and_then (records_read B (unat record_cnt) 0 b) (\<lambda>(rs, b). Ok \<lparr> records = rs \<rparr>))"

definition ack_write :: "bytes_api \<Rightarrow> ack_or_nack \<Rightarrow> bytes codec" where
  "ack_write B a =
     (if length (records a) < 65535
      then Ok (put_u16 B (word_of_nat (length (records a))) @ concat (map (record_write B) (records a)))
      else Panic)"

fun sum_ack_cnt :: "ack_record list \<Rightarrow> ('e, nat) outcome" where
  "sum_ack_cnt [] = Ok 0"
| "sum_ack_cnt (r # rs) = and_then (ack_cnt r) (\<lambda>c. and_then (sum_ack_cnt rs) (\<lambda>s. Ok (c + s)))"

definition total_cnt :: "ack_or_nack \<Rightarrow> ('e, nat) outcome" where
  "total_cnt a = sum_ack_cnt (records a)"

subsection \<open>Meaning of a record list\<close>

fun record_ok :: "ack_record \<Rightarrow> bool" where
  "record_ok (Range s e) \<longleftrightarrow> u24_ok s \<and> u24_ok e \<and> s \<le> e \<and> to_usize e - to_usize s < 2 ^ 24 - 1"
| "record_ok (Single s) \<longleftrightarrow> u24_ok s"

fun record_expand :: "ack_record \<Rightarrow> u24 list" where
  "record_expand (Range s e) = map u24_of [to_usize s..<Suc (to_usize e)]"
| "record_expand (Single s) = [s]"

definition ack_expand :: "ack_record list \<Rightarrow> u24 list" where
  "ack_expand rs = concat (map record_expand rs)"

fun record_bytes :: "ack_record \<Rightarrow> nat" where
  "record_bytes (Range _ _) = 7"
| "record_bytes (Single _) = 4"

definition records_bytes :: "ack_record list \<Rightarrow> nat" where
  "records_bytes rs = sum_list (map record_bytes rs)"

lemma ack_expand_simps [simp]:
  "ack_expand [] = []" "ack_expand (r # rs) = record_expand r @ ack_expand rs"
  "ack_expand (rs @ rs') = ack_expand rs @ ack_expand rs'"
  by (simp_all add: ack_expand_def)

lemma records_bytes_simps [simp]:
  "records_bytes [] = 0" "records_bytes (r # rs) = record_bytes r + records_bytes rs"
  "records_bytes (rs @ rs') = records_bytes rs + records_bytes rs'"
  by (simp_all add: records_bytes_def)

lemma ack_cnt_expand: "record_ok r \<Longrightarrow> ack_cnt r = Ok (length (record_expand r))"
  by (cases r) (auto simp: u24_sub_eq u24_succ_eq u24_le_iff u24_ok_iff)

lemma sum_ack_cnt_expand: "\<forall>r \<in> set rs. record_ok r \<Longrightarrow> sum_ack_cnt rs = Ok (length (ack_expand rs))"
  by (induction rs) (simp_all add: ack_cnt_expand)

subsection \<open>Compression\<close>

lemma close_record_expand:
  assumes "first \<le> lst"
  shows "record_expand (close_record first lst) = map u24_of [to_usize first..<Suc (to_usize lst)]"
  using assms by (auto simp: close_record_def)

text \<open>
  Loop invariant: the records already closed and the open run \<open>first..lst\<close> stand for the numbers
  consumed so far, and \<open>mtu\<close> is the budget left after their encoding.
\<close>

definition open_bytes :: "bool \<Rightarrow> nat" where
  "open_bytes upgrade_flag = (if upgrade_flag then 4 else 7)"

lemma close_record_ok:
  "u24_ok s \<Longrightarrow> u24_ok e \<Longrightarrow> s \<le> e \<Longrightarrow> \<not> (to_usize s = 0 \<and> to_usize e = 2 ^ 24 - 1) \<Longrightarrow> record_ok (close_record s e)"
  by (auto simp: close_record_def u24_ok_iff u24_le_iff)

lemma close_record_bytes: "record_bytes (close_record first lst) = open_bytes (first = lst)"
  by (simp add: close_record_def open_bytes_def)

lemma extend_loop_correct:
  assumes "first \<le> lst" and "upgrade_flag = (first = lst)"
    and "\<forall>x \<in> set (lst # seqs). u24_ok x"
    and "\<forall>x \<in> set (butlast (lst # seqs)). to_usize x < 2 ^ 24 - 1"
  shows "\<exists>recs' rest used. (extend_loop seqs mtu first lst upgrade_flag recs :: ('e, _) outcome) = Ok (recs @ recs', rest)
     \<and> seqs = used @ rest
     \<and> ack_expand recs' = map u24_of [to_usize first..<Suc (to_usize lst)] @ used
     \<and> (\<forall>r \<in> set recs'. \<exists>s e. r = close_record s e \<and> s \<le> e)
     \<and> records_bytes recs' \<le> open_bytes upgrade_flag + unat mtu
     \<and> (rest \<noteq> [] \<longrightarrow> open_bytes upgrade_flag + unat mtu < records_bytes recs' + 4)"
  using assms
proof (induction seqs arbitrary: mtu first lst upgrade_flag recs)
  case Nil
  then show ?case
    by (subst extend_loop.simps)
      (auto simp: close_record_expand close_record_bytes)
next
  case (Cons x seqs)
  show ?case
  proof (cases "mtu < 4")
    case True
    then have "unat mtu < 4" by (simp add: word_less_nat_alt)
    with True Cons.prems show ?thesis
      by (subst extend_loop.simps) (auto simp: close_record_expand close_record_bytes intro!: exI [of _ "[]"])
  next
    case False
    then have m: "4 \<le> unat mtu" by (simp add: word_less_nat_alt)
    have lst: "Suc (to_usize lst) < 2 ^ 24" using Cons.prems(4) by auto
    have sub: "3 \<le> mtu" "4 \<le> mtu" "unat (mtu - 3) = unat mtu - 3" "unat (mtu - 4) = unat mtu - 4"
      using m by (auto simp: word_le_nat_alt unat_sub)
    show ?thesis
    proof (cases "x = u24_of (Suc (to_usize lst))")
      case True
      then have x: "to_usize x = Suc (to_usize lst)" using lst by simp
      then have le: "first \<le> x" "first \<noteq> x" using Cons.prems(1) by (auto simp: u24_le_iff)
      let ?mtu = "if upgrade_flag then mtu - 3 else mtu"
      have step: "(extend_loop (x # seqs) mtu first lst upgrade_flag recs :: ('e, _) outcome) = extend_loop seqs ?mtu first x False recs"
        using False lst True sub by (subst extend_loop.simps) (simp add: u24_succ_eq u16_sub_def)
      have "\<forall>y \<in> set (butlast (x # seqs)). to_usize y < 2 ^ 24 - 1" "\<forall>y \<in> set (x # seqs). u24_ok y"
        using Cons.prems(3,4) by auto
      moreover have "False = (first = x)" using le(2) by simp
      moreover note Cons.IH [OF le(1), where mtu = ?mtu and recs = recs and upgrade_flag = False]
      ultimately
      obtain recs' rest used where IH: "(extend_loop seqs ?mtu first x False recs :: ('e, _) outcome) = Ok (recs @ recs', rest)"
        "seqs = used @ rest" "ack_expand recs' = map u24_of [to_usize first..<Suc (to_usize x)] @ used"
        "\<forall>r \<in> set recs'. \<exists>s e. r = close_record s e \<and> s \<le> e"
        "records_bytes recs' \<le> open_bytes False + unat ?mtu"
        "rest \<noteq> [] \<longrightarrow> open_bytes False + unat ?mtu < records_bytes recs' + 4" by blast
      have budget: "open_bytes False + unat ?mtu = open_bytes upgrade_flag + unat mtu"
        using m sub by (simp add: open_bytes_def)
      have run: "map u24_of [to_usize first..<Suc (to_usize x)] = map u24_of [to_usize first..<Suc (to_usize lst)] @ [x]"
        using x Cons.prems(1) True by (simp add: u24_le_iff)
      show ?thesis
        using IH(2-) step [unfolded IH(1)]
        by - (rule exI [of _ recs'], rule exI [of _ rest], rule exI [of _ "x # used"],
            simp add: budget run del: upt_Suc)
    next
      case neq: False
      have step: "(extend_loop (x # seqs) mtu first lst upgrade_flag recs :: ('e, _) outcome)
          = extend_loop seqs (mtu - 4) x x True (recs @ [close_record first lst])"
        using False lst neq sub by (subst extend_loop.simps) (simp add: u24_succ_eq u16_sub_def)
      have "\<forall>y \<in> set (butlast (x # seqs)). to_usize y < 2 ^ 24 - 1" "\<forall>y \<in> set (x # seqs). u24_ok y"
        using Cons.prems(3,4) by auto
      from Cons.IH [OF order_refl _ this(2,1), of True "mtu - 4" "recs @ [close_record first lst]"]
      obtain recs' rest used where IH: "(extend_loop seqs (mtu - 4) x x True (recs @ [close_record first lst]) :: ('e, _) outcome)
            = Ok ((recs @ [close_record first lst]) @ recs', rest)"
        "seqs = used @ rest" "ack_expand recs' = x # used"
        "\<forall>r \<in> set recs'. \<exists>s e. r = close_record s e \<and> s \<le> e"
        "records_bytes recs' \<le> open_bytes True + unat (mtu - 4)"
        "rest \<noteq> [] \<longrightarrow> open_bytes True + unat (mtu - 4) < records_bytes recs' + 4" by auto
      show ?thesis
        using IH(2-) step [unfolded IH(1)] m sub Cons.prems(1,2)
        by - (rule exI [of _ "close_record first lst # recs'"], rule exI [of _ rest], rule exI [of _ "x # used"],
            auto simp: close_record_expand close_record_bytes open_bytes_def)
    qed
  qed
qed

lemma closed_records_ok:
  assumes "\<forall>r \<in> set rs. \<exists>s e. r = close_record s e \<and> s \<le> e"
    and "\<forall>x \<in> set (ack_expand rs). u24_ok x" and "length (ack_expand rs) < 2 ^ 24"
  shows "\<forall>r \<in> set rs. record_ok r"
  using assms
proof (induction rs)
  case (Cons r rs)
  then obtain s e where r: "r = close_record s e" "s \<le> e" by auto
  then have ex: "record_expand r = map u24_of [to_usize s..<Suc (to_usize e)]" by (simp only: close_record_expand)
  have "u24_of n \<in> set (record_expand r)" if "to_usize s \<le> n" "n \<le> to_usize e" for n
    using that unfolding ex by (simp del: upt_Suc)
  from this [of "to_usize s"] this [of "to_usize e"] r(2)
  have "s \<in> set (record_expand r)" "e \<in> set (record_expand r)" by (simp_all add: u24_le_iff)
  moreover have "length (record_expand r) < 2 ^ 24" using Cons.prems(3) by simp
  then have "to_usize e - to_usize s < 2 ^ 24 - 1" using r(2) unfolding ex by (simp add: u24_le_iff)
  ultimately show ?case
    using Cons r(2) by (auto simp: r(1) close_record_def)
qed simp

lemma extend_from_correct:
  assumes "7 \<le> unat mtu" and "seqs \<noteq> []"
    and "\<forall>x \<in> set seqs. u24_ok x" and "\<forall>x \<in> set (butlast seqs). to_usize x < 2 ^ 24 - 1"
  shows "\<exists>a used rest. (extend_from seqs mtu :: ('e, _) outcome) = Ok (Some a, rest) \<and> seqs = used @ rest \<and> used \<noteq> []
     \<and> ack_expand (records a) = used
     \<and> (\<forall>r \<in> set (records a). \<exists>s e. r = close_record s e \<and> s \<le> e)
     \<and> 3 + records_bytes (records a) \<le> unat mtu
     \<and> (rest \<noteq> [] \<longrightarrow> unat mtu < 3 + records_bytes (records a) + 4)"
proof -
  obtain f fs where seqs: "seqs = f # fs" using assms(2) by (cases seqs) auto
  have "7 \<le> mtu" using assms(1) by (simp add: word_le_nat_alt)
  then have m: "unat (mtu - 7) = unat mtu - 7" "\<not> mtu < 7" by (simp_all add: unat_sub)
  from extend_loop_correct [of f f True fs "mtu - 7" "[]"] assms(3,4) seqs
  obtain recs rest used where "(extend_loop fs (mtu - 7) f f True [] :: ('e, _) outcome) = Ok (recs, rest)"
    "fs = used @ rest" "ack_expand recs = f # used"
    "\<forall>r \<in> set recs. \<exists>s e. r = close_record s e \<and> s \<le> e" "records_bytes recs \<le> open_bytes True + unat (mtu - 7)"
    "rest \<noteq> [] \<longrightarrow> open_bytes True + unat (mtu - 7) < records_bytes recs + 4" by auto
  then show ?thesis
    using seqs m assms(1) \<open>7 \<le> mtu\<close>
    by - (rule exI [of _ "\<lparr> records = recs \<rparr>"], rule exI [of _ "f # used"], rule exI [of _ rest],
        auto simp: extend_from_def u16_sub_def open_bytes_def)
qed

subsection \<open>Codec\<close>

context bytes_laws
begin

lemma length_record_write: "length (record_write B r) = record_bytes r"
  by (cases r) simp_all

lemma record_round_trip: "record_ok r \<Longrightarrow> record_read B (record_write B r @ rest) = Ok (r, rest)"
  by (cases r) (simp_all add: record_read_def RECORD_RANGE_def RECORD_SINGLE_def)

lemma records_round_trip:
  assumes "\<forall>r \<in> set rs. record_ok r" and "cnt + length (ack_expand rs) \<le> MAX_ACKNOWLEDGEMENT_PACKETS"
  shows "records_read B (length rs) cnt (concat (map (record_write B) rs) @ rest) = Ok (rs, rest)"
  using assms
proof (induction rs arbitrary: cnt)
  case Nil
  then show ?case by simp
next
  case (Cons r rs)
  then show ?case
    using Cons.IH [of "cnt + length (record_expand r)"]
    by (simp add: record_round_trip ack_cnt_expand Let_def)
qed

lemma length_records_write: "length (concat (map (record_write B) rs)) = records_bytes rs"
  by (induction rs) (simp_all add: length_record_write)

lemma records_le_expand: "\<forall>r \<in> set rs. record_ok r \<Longrightarrow> length rs \<le> length (ack_expand rs)"
proof (induction rs)
  case (Cons r rs)
  moreover have "1 \<le> length (record_expand r)" using Cons.prems by (cases r) (auto simp: u24_le_iff)
  ultimately show ?case by simp
qed simp

lemma ack_round_trip:
  assumes "\<forall>r \<in> set (records a). record_ok r" and "length (ack_expand (records a)) \<le> MAX_ACKNOWLEDGEMENT_PACKETS"
  shows "\<exists>w. ack_write B a = Ok w \<and> length w = 2 + records_bytes (records a) \<and> ack_read B w = Ok a"
proof -
  have len: "length (records a) < 65535"
    using records_le_expand [OF assms(1)] assms(2) by (simp add: MAX_ACKNOWLEDGEMENT_PACKETS_def)
  have "records_read B (length (records a)) 0 (concat (map (record_write B) (records a))) = Ok (records a, [])"
    using records_round_trip [OF assms(1), of 0 "[]"] assms(2) by simp
  moreover have "unat (word_of_nat (length (records a)) :: u16) = length (records a)"
    using len by (simp add: unsigned_of_nat take_bit_eq_mod)
  ultimately show ?thesis
    using len by (simp add: ack_write_def ack_read_def length_records_write)
qed

end

end
