(* ===== verification/Unconnected.thy ===== *)
theory Unconnected
  imports Packet_Base
begin

text \<open>
  The offline messages of \<open>src/src/packet/unconnected.rs\<close>, their readers (called with the packet
  type byte already consumed; what remains of the datagram is dropped by every caller) and their
  writer.  The unit field \<open>magic\<close> is left out of the constructors.
\<close>

datatype unconnected =
    UnconnectedPing (send_timestamp: i64) (client_guid: u64)
  | UnconnectedPong i64 u64 bytes
  | OpenConnectionRequest1 u8 u16
  | OpenConnectionReply1 u64 bool u16
  | OpenConnectionRequest2 socket_addr u16 u64
  | OpenConnectionReply2 u64 socket_addr u16 bool
  | IncompatibleProtocol u8 u64
  | AlreadyConnected u64
  | ConnectionRequestFailed u64

fun unconnected_pack_type :: "unconnected \<Rightarrow> pack_type" where
  "unconnected_pack_type (UnconnectedPing _ _) = PT_UnconnectedPing1"
| "unconnected_pack_type (UnconnectedPong _ _ _) = PT_UnconnectedPong"
| "unconnected_pack_type (OpenConnectionRequest1 _ _) = PT_OpenConnectionRequest1"
| "unconnected_pack_type (OpenConnectionReply1 _ _ _) = PT_OpenConnectionReply1"
| "unconnected_pack_type (OpenConnectionRequest2 _ _ _) = PT_OpenConnectionRequest2"
| "unconnected_pack_type (OpenConnectionReply2 _ _ _ _) = PT_OpenConnectionReply2"
| "unconnected_pack_type (IncompatibleProtocol _ _) = PT_IncompatibleProtocolVersion"
| "unconnected_pack_type (AlreadyConnected _) = PT_AlreadyConnected"
| "unconnected_pack_type (ConnectionRequestFailed _) = PT_ConnectionRequestFailed"

definition read_unconnected_ping :: "bytes_api \<Rightarrow> bytes \<Rightarrow> unconnected codec" where
  "read_unconnected_ping B b =
     and_then (get_i64 B b) (\<lambda>(ts, b).
     and_then (get_checked_magic b) (\<lambda>(_, b).
     and_then (get_u64 B b) (\<lambda>(guid, b). Ok (UnconnectedPing ts guid))))"

definition read_unconnected_pong :: "bytes_api \<Rightarrow> bytes \<Rightarrow> unconnected codec" where
  "read_unconnected_pong B b =
     and_then (get_i64 B b) (\<lambda>(ts, b).
     and_then (get_u64 B b) (\<lambda>(guid, b).
     and_then (get_checked_magic b) (\<lambda>(_, b).
     and_then (get_u16 B b) (\<lambda>(l, b).
       let len = unat l in
       read_buf b len (Ok (UnconnectedPong ts guid (take len b)))))))"

definition read_open_connection_request1 :: "bytes_api \<Rightarrow> bytes \<Rightarrow> unconnected codec" where
  "read_open_connection_request1 B b =
     and_then (get_checked_magic b) (\<lambda>(_, b).
     and_then (get_u8 B b) (\<lambda>(ver, b).
     and_then (get_u16 B b) (\<lambda>(mtu, b). Ok (OpenConnectionRequest1 ver mtu))))"

definition read_open_connection_reply1 :: "bytes_api \<Rightarrow> bytes \<Rightarrow> unconnected codec" where
  "read_open_connection_reply1 B b =
     and_then (get_checked_magic b) (\<lambda>(_, b).
     and_then (get_u64 B b) (\<lambda>(guid, b).
     and_then (get_u8 B b) (\<lambda>(enc, b).
     and_then (get_u16 B b) (\<lambda>(mtu, b). Ok (OpenConnectionReply1 guid (enc \<noteq> 0) mtu)))))"

definition read_open_connection_request2 :: "bytes_api \<Rightarrow> bytes \<Rightarrow> unconnected codec" where
  "read_open_connection_request2 B b =
     and_then (read_buf b 16 (get_checked_magic b)) (\<lambda>(_, b).
     and_then (get_socket_addr B b) (\<lambda>(addr, b).
     and_then (read_buf b 2 (get_u16 B b)) (\<lambda>(mtu, b).
     and_then (read_buf b 8 (get_u64 B b)) (\<lambda>(guid, b). Ok (OpenConnectionRequest2 addr mtu guid)))))"

definition read_open_connection_reply2 :: "bytes_api \<Rightarrow> bytes \<Rightarrow> unconnected codec" where
  "read_open_connection_reply2 B b =
     and_then (read_buf b 16 (get_checked_magic b)) (\<lambda>(_, b).
     and_then (read_buf b 8 (get_u64 B b)) (\<lambda>(guid, b).
     and_then (get_socket_addr B b) (\<lambda>(addr, b).
     and_then (read_buf b 2 (get_u16 B b)) (\<lambda>(mtu, b).
     and_then (read_buf b 1 (get_u8 B b)) (\<lambda>(enc, b). Ok (OpenConnectionReply2 guid addr mtu (enc \<noteq> 0)))))))"

definition read_incompatible_protocol :: "bytes_api \<Rightarrow> bytes \<Rightarrow> unconnected codec" where
  "read_incompatible_protocol B b =
     and_then (get_u8 B b) (\<lambda>(proto, b).
     and_then (get_checked_magic b) (\<lambda>(_, b).
     and_then (get_u64 B b) (\<lambda>(guid, b). Ok (IncompatibleProtocol proto guid))))"

definition read_already_connected :: "bytes_api \<Rightarrow> bytes \<Rightarrow> unconnected codec" where
  "read_already_connected B b =
     and_then (get_checked_magic b) (\<lambda>(_, b).
     and_then (get_u64 B b) (\<lambda>(guid, b). Ok (AlreadyConnected guid)))"

definition read_connection_request_failed :: "bytes_api \<Rightarrow> bytes \<Rightarrow> unconnected codec" where
  "read_connection_request_failed B b =
     and_then (get_checked_magic b) (\<lambda>(_, b).
     and_then (get_u64 B b) (\<lambda>(guid, b). Ok (ConnectionRequestFailed guid)))"

text \<open>The encryption flags of the two replies are written as zero whatever their value.\<close>

fun unconnected_payload :: "bytes_api \<Rightarrow> unconnected \<Rightarrow> bytes" where
  "unconnected_payload B (UnconnectedPing ts guid) = put_i64 B ts @ put_magic @ put_u64 B guid"
| "unconnected_payload B (UnconnectedPong ts guid data) =
     put_i64 B ts @ put_u64 B guid @ put_magic @ put_u16 B (word_of_nat (length data)) @ data"
| "unconnected_payload B (OpenConnectionRequest1 ver mtu) = put_magic @ put_u8 B ver @ put_u16 B mtu"
| "unconnected_payload B (OpenConnectionReply1 guid _ mtu) =
     put_magic @ put_u64 B guid @ put_u8 B 0 @ put_u16 B mtu"
| "unconnected_payload B (OpenConnectionRequest2 addr mtu guid) =
     put_magic @ put_socket_addr B addr @ put_u16 B mtu @ put_u64 B guid"
| "unconnected_payload B (OpenConnectionReply2 guid addr mtu _) =
     put_magic @ put_u64 B guid @ put_socket_addr B addr @ put_u16 B mtu @ put_u8 B 0"
| "unconnected_payload B (IncompatibleProtocol proto guid) = put_u8 B proto @ put_magic @ put_u64 B guid"
| "unconnected_payload B (AlreadyConnected guid) = put_magic @ put_u64 B guid"
| "unconnected_payload B (ConnectionRequestFailed guid) = put_magic @ put_u64 B guid"

definition unconnected_write :: "bytes_api \<Rightarrow> unconnected \<Rightarrow> bytes" where
  "unconnected_write B p = put_u8 B (pack_type_u8 (unconnected_pack_type p)) @ unconnected_payload B p"

text \<open>The packets the wire format represents: no encryption, and a pong payload of less than 64 KiB.\<close>

fun unconnected_ok :: "unconnected \<Rightarrow> bool" where
  "unconnected_ok (UnconnectedPong _ _ data) \<longleftrightarrow> length data < 65536"
| "unconnected_ok (OpenConnectionReply1 _ enc _) \<longleftrightarrow> \<not> enc"
| "unconnected_ok (OpenConnectionReply2 _ _ _ enc) \<longleftrightarrow> \<not> enc"
| "unconnected_ok _ \<longleftrightarrow> True"

lemmas unconnected_read_defs = read_unconnected_ping_def read_unconnected_pong_def
  read_open_connection_request1_def read_open_connection_reply1_def read_open_connection_request2_def
  read_open_connection_reply2_def read_incompatible_protocol_def read_already_connected_def
  read_connection_request_failed_def

lemma length_put_magic [simp]: "length put_magic = 16"
  by (simp add: put_magic_def)

context bytes_laws
begin

lemma unconnected_no_panic:
  "32 \<le> length b \<Longrightarrow> read_unconnected_ping B b \<noteq> Panic"
  "34 \<le> length b \<Longrightarrow> read_unconnected_pong B b \<noteq> Panic"
  "19 \<le> length b \<Longrightarrow> read_open_connection_request1 B b \<noteq> Panic"
  "27 \<le> length b \<Longrightarrow> read_open_connection_reply1 B b \<noteq> Panic"
  "25 \<le> length b \<Longrightarrow> read_incompatible_protocol B b \<noteq> Panic"
  "24 \<le> length b \<Longrightarrow> read_already_connected B b \<noteq> Panic"
  "24 \<le> length b \<Longrightarrow> read_connection_request_failed B b \<noteq> Panic"
  by (auto simp: unconnected_read_defs and_then_eq_Panic read_buf_eq_Panic get_word_not_Panic
      get_checked_magic_eq(2) Let_def dest!: get_word_OkD get_checked_magic_OkD)

lemma unconnected_no_panic2:
  "read_open_connection_request2 B b \<noteq> Panic"
  "read_open_connection_reply2 B b \<noteq> Panic"
  by (auto simp: unconnected_read_defs and_then_eq_Panic read_buf_eq_Panic read_buf_eq_Ok get_word_not_Panic
      get_checked_magic_eq(2) get_socket_addr_no_panic)

end

end
