(* ===== verification/Packet.thy ===== *)
theory Packet
  imports Frame_Body Ack Unconnected
begin

text \<open>
  Datagrams: the connected packets of \<open>src/src/packet/connected/mod.rs\<close> and the packet reader and
  writer of \<open>src/src/packet/mod.rs\<close> that dispatch to the codecs of the other packet theories.
\<close>

subsection \<open>Connected packets\<close>

datatype connected =
    FrameSet frame_set
  | Ack ack_or_nack
  | Nack ack_or_nack

fun connected_pack_type :: "connected \<Rightarrow> pack_type" where
  "connected_pack_type (FrameSet _) = PT_FrameSet"
| "connected_pack_type (Ack _) = PT_Ack"
| "connected_pack_type (Nack _) = PT_Nack"

definition read_ack :: "bytes_api \<Rightarrow> bytes \<Rightarrow> connected codec" where
  "read_ack B b = and_then (ack_read B b) (\<lambda>a. Ok (Ack a))"

definition read_nack :: "bytes_api \<Rightarrow> bytes \<Rightarrow> connected codec" where
  "read_nack B b = and_then (ack_read B b) (\<lambda>a. Ok (Nack a))"

definition read_frame_set :: "bytes_api \<Rightarrow> bytes \<Rightarrow> connected codec" where
  "read_frame_set B b = and_then (frame_set_read B b) (\<lambda>s. Ok (FrameSet s))"

fun connected_write :: "bytes_api \<Rightarrow> connected \<Rightarrow> bytes codec" where
  "connected_write B (FrameSet s) =
     and_then (index (fs_set s) 0) (\<lambda>f.
       let flag = VALID_FLAG OR NEEDS_B_AND_AS_FLAG;
           flag = (if parted (f_flags f) then flag OR CONTINUOUS_SEND_FLAG else flag)
       in and_then (frame_set_write B s) (\<lambda>w. Ok (put_u8 B flag @ w)))"
| "connected_write B (Ack a) = and_then (ack_write B a) (\<lambda>w. Ok (put_u8 B ACK_FLAG @ w))"
| "connected_write B (Nack a) = and_then (ack_write B a) (\<lambda>w. Ok (put_u8 B NACK_FLAG @ w))"

subsection \<open>Packets\<close>

datatype packet =
    Unconnected unconnected
  | Connected connected

fun packet_write :: "bytes_api \<Rightarrow> packet \<Rightarrow> bytes codec" where
  "packet_write B (Unconnected p) = Ok (unconnected_write B p)"
| "packet_write B (Connected p) = connected_write B p"

fun packet_pack_type :: "packet \<Rightarrow> pack_type" where
  "packet_pack_type (Unconnected p) = unconnected_pack_type p"
| "packet_pack_type (Connected p) = connected_pack_type p"

definition unconnected_read :: "bytes_api \<Rightarrow> pack_type \<Rightarrow> bytes \<Rightarrow> unconnected codec" where
  "unconnected_read B t b = (case t of
      PT_UnconnectedPing1 \<Rightarrow> read_buf b 32 (read_unconnected_ping B b)
    | PT_UnconnectedPing2 \<Rightarrow> read_buf b 32 (read_unconnected_ping B b)
    | PT_UnconnectedPong \<Rightarrow> read_buf b 34 (read_unconnected_pong B b)
    | PT_OpenConnectionRequest1 \<Rightarrow> read_buf b 19 (read_open_connection_request1 B b)
    | PT_OpenConnectionReply1 \<Rightarrow> read_buf b 27 (read_open_connection_reply1 B b)
    | PT_IncompatibleProtocolVersion \<Rightarrow> read_buf b 25 (read_incompatible_protocol B b)
    | PT_AlreadyConnected \<Rightarrow> read_buf b 24 (read_already_connected B b)
    | PT_ConnectionRequestFailed \<Rightarrow> read_buf b 24 (read_connection_request_failed B b)
    | PT_OpenConnectionRequest2 \<Rightarrow> read_open_connection_request2 B b
    | PT_OpenConnectionReply2 \<Rightarrow> read_open_connection_reply2 B b
    | _ \<Rightarrow> Err (InvalidPacketType (pack_type_u8 t)))"

definition packet_read :: "bytes_api \<Rightarrow> bytes \<Rightarrow> packet codec" where
  "packet_read B b =
     and_then (read_buf b 1 (and_then (get_u8 B b) (\<lambda>(n, b).
       and_then (pack_type_from_u8 n) (\<lambda>t. Ok (t, b))))) (\<lambda>(t, b).
     if is_frame_set t then and_then (read_frame_set B b) (\<lambda>p. Ok (Connected p))
     else if is_ack t then and_then (read_ack B b) (\<lambda>p. Ok (Connected p))
     else if is_nack t then and_then (read_nack B b) (\<lambda>p. Ok (Connected p))
     else and_then (unconnected_read B t b) (\<lambda>p. Ok (Unconnected p)))"

subsection \<open>Well-formed packets\<close>

fun connected_ok :: "connected \<Rightarrow> bool" where
  "connected_ok (FrameSet s) \<longleftrightarrow> u24_ok (fs_seq_num s) \<and> fs_set s \<noteq> [] \<and> (\<forall>f \<in> set (fs_set s). frame_ok f)"
| "connected_ok (Ack a) \<longleftrightarrow> (\<forall>r \<in> set (records a). record_ok r) \<and> length (ack_expand (records a)) \<le> 16384"
| "connected_ok (Nack a) \<longleftrightarrow> (\<forall>r \<in> set (records a). record_ok r) \<and> length (ack_expand (records a)) \<le> 16384"

fun packet_ok :: "packet \<Rightarrow> bool" where
  "packet_ok (Unconnected p) \<longleftrightarrow> unconnected_ok p"
| "packet_ok (Connected p) \<longleftrightarrow> connected_ok p"

lemma frame_set_flag:
  "pack_type_from_u8 (VALID_FLAG OR NEEDS_B_AND_AS_FLAG) = Ok PT_FrameSet"
  "pack_type_from_u8 ((VALID_FLAG OR NEEDS_B_AND_AS_FLAG) OR CONTINUOUS_SEND_FLAG) = Ok PT_FrameSet"
  "pack_type_from_u8 ACK_FLAG = Ok PT_Ack"
  "pack_type_from_u8 NACK_FLAG = Ok PT_Nack"
  by (simp_all add: pack_type_from_u8_def flag_defs)

subsection \<open>Malformed acknowledgements\<close>

text \<open>
  The datagrams that are fatal to the reader, by their bytes: an ACK or NACK that ends before its two-byte record
  count, or one whose reader comes to a range that ends before it starts or that spans all sequence numbers.
\<close>

fun uncountable :: "ack_record \<Rightarrow> bool" where
  "uncountable (Range s e) \<longleftrightarrow> e < s \<or> 2 ^ 24 - 1 \<le> to_usize e - to_usize s"
| "uncountable (Single _) \<longleftrightarrow> False"

fun record_size :: "ack_record \<Rightarrow> nat" where
  "record_size (Range s e) = Suc (to_usize e - to_usize s)"
| "record_size (Single _) = 1"

fun comes_to_uncountable :: "bytes_api \<Rightarrow> nat \<Rightarrow> nat \<Rightarrow> bytes \<Rightarrow> bool" where
  "comes_to_uncountable B 0 cnt b \<longleftrightarrow> False"
| "comes_to_uncountable B (Suc n) cnt b \<longleftrightarrow> (case record_read B b of
      Ok (r, b) \<Rightarrow> uncountable r \<or> (cnt + record_size r \<le> MAX_ACKNOWLEDGEMENT_PACKETS \<and> comes_to_uncountable B n (cnt + record_size r) b)
    | _ \<Rightarrow> False)"

definition malformed_ack :: "bytes_api \<Rightarrow> bytes \<Rightarrow> bool" where
  "malformed_ack B b \<longleftrightarrow> b \<noteq> [] \<and> NACK_FLAG \<le> hd b \<and> (length b < 3
     \<or> (case get_u16 B (tl b) of Ok (n, r) \<Rightarrow> comes_to_uncountable B (unat n) 0 r | _ \<Rightarrow> False))"

context bytes_laws
begin

lemma record_read_no_panic: "record_read B b \<noteq> Panic"
  by (auto simp: record_read_def and_then_eq_Panic read_buf_eq_Panic get_word_not_Panic get_u24_le_not_Panic split: if_splits
      dest!: get_u24_le_OkD)

lemma record_read_ok: "record_read B b = Ok (Range s e, r) \<Longrightarrow> u24_ok e"
  by (auto simp: record_read_def and_then_eq_Ok read_buf_eq_Ok split: if_splits dest!: get_u24_le_OkD)

lemma ack_cnt_read:
  "record_read B b = Ok (r, b') \<Longrightarrow> (ack_cnt r :: ('e, _) outcome) = (if uncountable r then Panic else Ok (record_size r))"
  using record_read_ok [of b] by (cases r) (auto simp: u24_sub_eq u24_succ_eq u24_le_iff u24_less_iff u24_ok_iff)

lemma records_read_panics: "records_read B n cnt b = Panic \<longleftrightarrow> comes_to_uncountable B n cnt b"
proof (induction n arbitrary: cnt b)
  case (Suc n)
  show ?case
  proof (cases "record_read B b")
    case (Ok x)
    obtain r b' where x: "x = (r, b')" by fastforce
    show ?thesis using Suc.IH [of "cnt + record_size r" b'] ack_cnt_read [of b r b', where 'e = codec_error] Ok x
      by (cases "uncountable r"; cases "records_read B n (cnt + record_size r) b'") (auto simp: Let_def not_less)
  qed (use record_read_no_panic in simp_all)
qed simp

lemma packet_read_first:
  "pack_type_from_u8 n = Ok t \<Longrightarrow> packet_read B (put_u8 B n @ b) =
     (if is_frame_set t then and_then (read_frame_set B b) (\<lambda>p. Ok (Connected p))
      else if is_ack t then and_then (read_ack B b) (\<lambda>p. Ok (Connected p))
      else if is_nack t then and_then (read_nack B b) (\<lambda>p. Ok (Connected p))
      else and_then (unconnected_read B t b) (\<lambda>p. Ok (Unconnected p)))"
  by (simp add: packet_read_def)

lemma packet_read_frames_typed:
  assumes "packet_read B b = Ok (Connected (FrameSet s))"
  shows "u24_ok (fs_seq_num s) \<and> fs_set s \<noteq> [] \<and> list_all frame_typed (fs_set s)"
  using assms
  by (auto simp: packet_read_def and_then_eq_Ok read_frame_set_def read_ack_def read_nack_def frame_set_read_def read_buf_eq_Ok
      split: if_splits dest: get_u24_le_OkD frames_read_typed)

lemma connected_round_trip:
  assumes "connected_ok p"
  shows "\<exists>w. connected_write B p = Ok w \<and> packet_read B w = Ok (Connected p)"
proof (cases p)
  case (FrameSet s)
  then obtain w where "frame_set_write B s = Ok w" "frame_set_read B w = Ok s"
    using frame_set_round_trip [of s] assms by auto
  then show ?thesis
    using FrameSet assms by (auto simp: packet_read_first frame_set_flag read_frame_set_def Let_def)
next
  case (Ack a)
  then show ?thesis
    using ack_round_trip [of a] assms
    by (auto simp: packet_read_first frame_set_flag read_ack_def MAX_ACKNOWLEDGEMENT_PACKETS_def)
next
  case (Nack a)
  then show ?thesis
    using ack_round_trip [of a] assms
    by (auto simp: packet_read_first frame_set_flag read_nack_def MAX_ACKNOWLEDGEMENT_PACKETS_def)
qed

lemma unconnected_payload_round_trip:
  assumes "unconnected_ok p"
  shows "unconnected_read B (unconnected_pack_type p) (unconnected_payload B p) = Ok p"
proof (cases p)
  case (UnconnectedPong ts guid data)
  then have "unat (word_of_nat (length data) :: u16) = length data"
    using assms by (simp add: unsigned_of_nat take_bit_eq_mod)
  with UnconnectedPong show ?thesis
    by (simp add: unconnected_read_def read_unconnected_pong_def)
qed (use assms in \<open>simp_all add: unconnected_read_def unconnected_read_defs\<close>)

lemma unconnected_round_trip:
  assumes "unconnected_ok p"
  shows "packet_read B (unconnected_write B p) = Ok (Unconnected p)"
proof -
  have "\<not> is_frame_set t \<and> \<not> is_ack t \<and> \<not> is_nack t" if "t = unconnected_pack_type p" for t
    using that by (cases p) simp_all
  then show ?thesis
    using unconnected_payload_round_trip [OF assms]
    by (simp add: unconnected_write_def packet_read_first)
qed

lemma unconnected_read_no_panic: "unconnected_read B t b \<noteq> Panic"
  by (cases t) (auto simp: unconnected_read_def read_buf_eq_Panic unconnected_no_panic unconnected_no_panic2)

lemma packet_read_no_panic:
  assumes "b = [] \<or> hd b < NACK_FLAG"
  shows "packet_read B b \<noteq> Panic"
proof (cases b)
  case Nil
  then show ?thesis by (simp add: packet_read_def read_buf_def)
next
  case (Cons n r)
  show ?thesis
  proof (cases "pack_type_from_u8 n")
    case (Ok t)
    have "\<not> ACK_FLAG \<le> n" "\<not> NACK_FLAG \<le> n"
      using assms Cons by (simp_all add: flag_defs word_le_nat_alt word_less_nat_alt)
    with Ok have "\<not> is_ack t" "\<not> is_nack t" by (auto simp: pack_type_from_u8_def split: if_splits)
    then show ?thesis
      using Ok Cons packet_read_first [OF Ok, of r] frame_set_read_no_panic [of r] unconnected_read_no_panic [of t r]
      by (auto simp: put_u8_singleton read_frame_set_def and_then_eq_Panic split: if_splits)
  qed (use Cons pack_type_from_u8_no_panic in \<open>auto simp: packet_read_def\<close>)
qed

lemma packet_read_ack:
  assumes "NACK_FLAG \<le> n"
  shows "packet_read B (n # r) = and_then (ack_read B r) (\<lambda>a. Ok (Connected (if ACK_FLAG \<le> n then Ack a else Nack a)))"
proof -
  have "n \<notin> {0, 1, 2, 3, 4, 5, 6, 7, 8, 9, 10, 11, 12, 13, 14, 15, 16, 17, 18, 19, 20, 21, 22, 23, 24, 25, 26, 27, 28, 29}"
    using assms(1) by (auto simp: flag_defs word_le_nat_alt)
  then have "pack_type_from_u8 n = Ok (if ACK_FLAG \<le> n then PT_Ack else PT_Nack)"
    using assms(1) by (simp add: pack_type_from_u8_def)
  then show ?thesis
    using packet_read_first [of n _ r] by (cases "ack_read B r") (simp_all add: put_u8_singleton read_ack_def read_nack_def)
qed

lemma short_ack_read: "NACK_FLAG \<le> n \<Longrightarrow> length r < 2 \<Longrightarrow> packet_read B (n # r) = Panic"
  by (simp add: packet_read_ack ack_read_def get_word_short)

text \<open>Nothing else is fatal.\<close>

lemma packet_read_panics_iff: "packet_read B b = Panic \<longleftrightarrow> malformed_ack B b"
proof (cases "b = [] \<or> hd b < NACK_FLAG")
  case True
  then show ?thesis using packet_read_no_panic [OF True] by (auto simp: malformed_ack_def)
next
  case False
  then obtain n r where b: "b = n # r" "NACK_FLAG \<le> n" by (cases b) auto
  show ?thesis
  proof (cases "length r < 2")
    case True
    then show ?thesis using b short_ack_read [OF b(2) True] by (simp add: malformed_ack_def)
  next
    case long: False
    then obtain w r' where "get_u16 B r = Ok (w, r')" using get_word_enough [of 2 r] by auto
    then show ?thesis
      using b long records_read_panics [of "unat w" 0 r'] by (auto simp: malformed_ack_def packet_read_ack ack_read_def and_then_eq_Panic)
  qed
qed

text \<open>A NACK of one record whose range ends before it starts is such a datagram.\<close>

lemma inverted_range_panics:
  "u24_ok s \<Longrightarrow> u24_ok e \<Longrightarrow> e < s \<Longrightarrow> packet_read B (NACK_FLAG # put_u16 B 1 @ record_write B (Range s e)) = Panic"
  using get_put_u24_le [of e "[]"] by (auto simp: packet_read_ack ack_read_def record_read_def RECORD_RANGE_def u24_sub_eq)

end

subsection \<open>Properties\<close>

text \<open>
  C9: every well-formed packet survives the wire: the writer succeeds and the reader of the datagram
  returns the packet that was written, for every implementation of the buffer operations that
  satisfies their laws.
\<close>

theorem packet_round_trip:
  assumes "bytes_laws B" and "packet_ok p"
  shows "\<exists>w. packet_write B p = Ok w \<and> packet_read B w = Ok p"
  using bytes_laws.connected_round_trip [OF assms(1)] bytes_laws.unconnected_round_trip [OF assms(1)] assms(2)
  by (cases p) auto

definition sample_frame :: frame where
  "sample_frame = \<lparr> f_flags = flags_new ReliableOrdered True, reliable_frame_index = Some (U24 7),
     seq_frame_index = None, f_ordered = Some \<lparr> frame_index = U24 3, channel = 1 \<rparr>,
     f_fragment = Some \<lparr> parted_size = 2, parted_id = 5, parted_index = 1 \<rparr>, f_body = [0xfe, 1, 2] \<rparr>"

lemma sample_frame_ok: "frame_ok sample_frame"
  by (simp add: frame_ok_def sample_frame_def flags_parse_new opt_ok_def u24_ok_def)

theorem packet_round_trip_witness:
  "\<exists>w. packet_write std_bytes (Connected (FrameSet \<lparr> fs_seq_num = U24 9, fs_set = [sample_frame] \<rparr>)) = Ok w
     \<and> packet_read std_bytes w = Ok (Connected (FrameSet \<lparr> fs_seq_num = U24 9, fs_set = [sample_frame] \<rparr>))"
  by (rule packet_round_trip [OF std.bytes_laws_axioms]) (simp add: sample_frame_ok u24_ok_def)

text \<open>
  C10: the reader of a datagram never panics, whatever bytes a peer sends, as long as the first byte
  is below the NACK flag: every malformed offline message or frame set is an error value.
\<close>

theorem packet_read_total:
  assumes "bytes_laws B" and "b = [] \<or> hd b < NACK_FLAG"
  shows "packet_read B b \<noteq> Panic"
  by (rule bytes_laws.packet_read_no_panic [OF assms])

theorem packet_read_total_witness: "packet_read std_bytes [0x84, 1, 2] \<noteq> Panic"
  by (rule packet_read_total [OF std.bytes_laws_axioms]) (simp add: flag_defs)

text \<open>
  C12: the remaining first bytes are not safe: a datagram consisting of just an ACK or NACK type byte
  with less than a two-byte record count makes the reader panic.
\<close>

theorem short_ack_panics:
  assumes "bytes_laws B" and "n \<ge> NACK_FLAG" and "length r < 2"
  shows "packet_read B (n # r) = Panic"
  by (rule bytes_laws.short_ack_read [OF assms])

theorem short_ack_panics_witness: "packet_read std_bytes [0xC0, 0] = Panic"
  by (rule short_ack_panics [OF std.bytes_laws_axioms]) (simp_all add: flag_defs)

text \<open>
  C11: what the reader takes for a frame set is one: it has a sequence number of 24 bits and at least one frame, and in
  every frame the optional headers present are exactly those that its reliability and its fragment flag announce, their
  indices have 24 bits, and the body is not empty and at most 8191 bytes long.  Such a frame set meets the conditions
  of the writer exactly when no body has that largest length.
\<close>

theorem packet_read_typed:
  assumes "bytes_laws B" and "packet_read B b = Ok (Connected (FrameSet s))"
  shows "u24_ok (fs_seq_num s) \<and> fs_set s \<noteq> [] \<and> list_all frame_typed (fs_set s)
    \<and> (connected_ok (FrameSet s) \<longleftrightarrow> list_all (\<lambda>f. length (f_body f) < 8191) (fs_set s))"
  using bytes_laws.packet_read_frames_typed [OF assms] by (auto simp: list_all_iff frame_ok_typed dest: frame_typed_le)

theorem packet_read_typed_witness:
  "\<exists>w. packet_read std_bytes w = Ok (Connected (FrameSet \<lparr> fs_seq_num = U24 9, fs_set = [sample_frame] \<rparr>))
     \<and> list_all frame_typed [sample_frame]"
proof -
  let ?s = "\<lparr> fs_seq_num = U24 9, fs_set = [sample_frame] \<rparr>"
  obtain w where w: "packet_read std_bytes w = Ok (Connected (FrameSet ?s))"
    using std.connected_round_trip [of "FrameSet ?s"] by (auto simp: sample_frame_ok u24_ok_def)
  show ?thesis
    using w packet_read_typed [OF std.bytes_laws_axioms w] by auto
qed

end
