(* ===== verification/Lru_Api.thy ===== *)
theory Lru_Api
  imports Prelude
begin

text \<open>
  The interface of the third-party crate \<open>lru\<close>: a map with a capacity that evicts the least recently
  used entry when a new key would exceed it.  The operations the sources call are parameters of the
  model; \<open>lru_laws\<close> states what they are documented to do, seen through the non-mutating \<open>peek\<close>.
\<close>

text \<open>
  \<open>modify c k d f\<close> is \<open>get_or_insert_mut\<close> with default \<open>d\<close> followed by the update \<open>f\<close> through the
  returned reference, which has the new value; \<open>pop\<close> removes an entry; \<open>put\<close> inserts one.
\<close>

record ('c, 'k, 'v) lru_api =
  lru_new :: "nat \<Rightarrow> 'c"
  lru_cap :: "'c \<Rightarrow> nat"
  lru_peek :: "'c \<Rightarrow> 'k \<Rightarrow> 'v option"
  lru_modify :: "'c \<Rightarrow> 'k \<Rightarrow> 'v \<Rightarrow> ('v \<Rightarrow> 'v) \<Rightarrow> 'v \<times> 'c"
  lru_put :: "'c \<Rightarrow> 'k \<Rightarrow> 'v \<Rightarrow> 'c"
  lru_pop :: "'c \<Rightarrow> 'k \<Rightarrow> 'v option \<times> 'c"

locale lru_laws =
  fixes A :: "('c, 'k, 'v) lru_api"
    and ok :: "'c \<Rightarrow> bool"
  assumes new_ok: "0 < n \<Longrightarrow> ok (lru_new A n)"
    and new_peek: "0 < n \<Longrightarrow> lru_peek A (lru_new A n) k = None"
    and new_cap: "lru_cap A (lru_new A n) = n"
    and finite_keys: "ok c \<Longrightarrow> finite (dom (lru_peek A c)) \<and> card (dom (lru_peek A c)) \<le> lru_cap A c"
    and modify_ok: "ok c \<Longrightarrow> lru_modify A c k d f = (v, c') \<Longrightarrow> ok c' \<and> lru_cap A c' = lru_cap A c"
    and modify_val: "ok c \<Longrightarrow> lru_modify A c k d f = (v, c') \<Longrightarrow>
        v = f (case lru_peek A c k of None \<Rightarrow> d | Some w \<Rightarrow> w) \<and> lru_peek A c' k = Some v"
    and modify_other: "ok c \<Longrightarrow> lru_modify A c k d f = (v, c') \<Longrightarrow>
        k \<in> dom (lru_peek A c) \<or> card (dom (lru_peek A c)) < lru_cap A c \<Longrightarrow>
        k' \<noteq> k \<Longrightarrow> lru_peek A c' k' = lru_peek A c k'"
    and modify_shrink: "ok c \<Longrightarrow> lru_modify A c k d f = (v, c') \<Longrightarrow> k' \<noteq> k \<Longrightarrow>
        lru_peek A c' k' = None \<or> lru_peek A c' k' = lru_peek A c k'"
    and pop_ok: "ok c \<Longrightarrow> lru_pop A c k = (r, c') \<Longrightarrow> ok c' \<and> lru_cap A c' = lru_cap A c"
    and pop_val: "ok c \<Longrightarrow> lru_pop A c k = (r, c') \<Longrightarrow> r = lru_peek A c k \<and> lru_peek A c' = (lru_peek A c)(k := None)"
    and put_ok: "ok c \<Longrightarrow> ok (lru_put A c k v) \<and> lru_cap A (lru_put A c k v) = lru_cap A c"
    and put_val: "ok c \<Longrightarrow> lru_peek A (lru_put A c k v) k = Some v"
    and put_other: "ok c \<Longrightarrow> k' \<noteq> k \<Longrightarrow>
        lru_peek A (lru_put A c k v) k' = None \<or> lru_peek A (lru_put A c k v) k' = lru_peek A c k'"
begin

lemma modify_upd:
  assumes "ok c" and "lru_modify A c k d f = (v, c')"
    and "k \<in> dom (lru_peek A c) \<or> card (dom (lru_peek A c)) < lru_cap A c"
  shows "lru_peek A c' = (lru_peek A c)(k \<mapsto> v)"
  using modify_val [OF assms(1,2)] modify_other [OF assms] by (intro ext) auto

end

subsection \<open>An executable instance\<close>

text \<open>A capacity and an association list, most recently used first, without repeated keys.\<close>

type_synonym ('k, 'v) lru_list = "nat \<times> ('k \<times> 'v) list"

definition lru_front :: "('k, 'v) lru_list \<Rightarrow> 'k \<Rightarrow> 'v \<Rightarrow> ('k, 'v) lru_list" where
  "lru_front c k v = (fst c, take (fst c) ((k, v) # filter (\<lambda>(k', _). k' \<noteq> k) (snd c)))"

definition list_lru :: "(('k, 'v) lru_list, 'k, 'v) lru_api" where
  "list_lru = \<lparr>
     lru_new = (\<lambda>n. (n, [])),
     lru_cap = fst,
     lru_peek = (\<lambda>c k. map_of (snd c) k),
     lru_modify = (\<lambda>c k d f. let v = f (case map_of (snd c) k of None \<Rightarrow> d | Some w \<Rightarrow> w) in (v, lru_front c k v)),
     lru_put = lru_front,
     lru_pop = (\<lambda>c k. (map_of (snd c) k, (fst c, filter (\<lambda>(k', _). k' \<noteq> k) (snd c)))) \<rparr>"

definition list_lru_ok :: "('k, 'v) lru_list \<Rightarrow> bool" where
  "list_lru_ok c \<longleftrightarrow> 0 < fst c \<and> length (snd c) \<le> fst c \<and> distinct (map fst (snd c))"

lemma map_of_filter_ne: "map_of (filter (\<lambda>(k', _). k' \<noteq> k) xs) = (map_of xs)(k := None)"
  by (induction xs) auto

lemma distinct_filter_ne: "distinct (map fst xs) \<Longrightarrow> distinct (map fst (filter P xs))"
  by (induction xs) auto

lemma dom_card: "distinct (map fst xs) \<Longrightarrow> card (dom (map_of xs)) = length xs"
  by (simp add: dom_map_of_conv_image_fst flip: set_map) (metis distinct_card length_map)

lemma length_filter_ne:
  "distinct (map fst xs) \<Longrightarrow> k \<in> dom (map_of xs) \<Longrightarrow> length (filter (\<lambda>(k', _). k' \<noteq> k) xs) < length xs"
  by (induction xs) (auto simp: le_imp_less_Suc)

lemma map_of_take: "distinct (map fst xs) \<Longrightarrow> map_of (take n xs) k = None \<or> map_of (take n xs) k = map_of xs k"
proof (cases "map_of (take n xs) k")
  case (Some v)
  then have "(k, v) \<in> set xs" by (meson in_set_takeD map_of_SomeD)
  moreover assume "distinct (map fst xs)"
  ultimately show ?thesis using Some by (simp add: map_of_is_SomeI)
qed simp

lemma lru_front_ok: "list_lru_ok c \<Longrightarrow> list_lru_ok (lru_front c k v)"
  by (auto simp: list_lru_ok_def lru_front_def take_map [symmetric] intro!: distinct_take distinct_filter_ne)

lemma lru_front_peek:
  assumes "list_lru_ok c"
  shows "map_of (snd (lru_front c k v)) k = Some v"
    and "k' \<noteq> k \<Longrightarrow> map_of (snd (lru_front c k v)) k' = None \<or> map_of (snd (lru_front c k v)) k' = map_of (snd c) k'"
    and "k \<in> dom (map_of (snd c)) \<or> length (snd c) < fst c \<Longrightarrow> k' \<noteq> k \<Longrightarrow> map_of (snd (lru_front c k v)) k' = map_of (snd c) k'"
proof -
  obtain n where n: "fst c = Suc n" using assms by (cases "fst c") (auto simp: list_lru_ok_def)
  let ?rest = "filter (\<lambda>(k', _). k' \<noteq> k) (snd c)"
  have d: "distinct (map fst ?rest)" using assms by (simp add: list_lru_ok_def distinct_filter_ne)
  show "map_of (snd (lru_front c k v)) k = Some v" by (simp add: lru_front_def n)
  show "k' \<noteq> k \<Longrightarrow> map_of (snd (lru_front c k v)) k' = None \<or> map_of (snd (lru_front c k v)) k' = map_of (snd c) k'"
    using map_of_take [OF d, of n k'] by (simp add: lru_front_def n map_of_filter_ne)
  assume space: "k \<in> dom (map_of (snd c)) \<or> length (snd c) < fst c" and "k' \<noteq> k"
  moreover have "length ?rest \<le> n"
  proof (cases "k \<in> dom (map_of (snd c))")
    case True
    then have "length ?rest < length (snd c)" using assms by (simp add: list_lru_ok_def length_filter_ne)
    then show ?thesis using assms n by (simp add: list_lru_ok_def)
  next
    case False
    have "length ?rest \<le> length (snd c)" by simp
    also have "\<dots> \<le> n" using space False n by simp
    finally show ?thesis .
  qed
  ultimately show "map_of (snd (lru_front c k v)) k' = map_of (snd c) k'"
    by (simp add: lru_front_def n map_of_filter_ne)
qed

interpretation list_lru: lru_laws list_lru list_lru_ok
proof unfold_locales
  fix c :: "('k, 'v) lru_list"
  assume c: "list_lru_ok c"
  then show "finite (dom (lru_peek list_lru c)) \<and> card (dom (lru_peek list_lru c)) \<le> lru_cap list_lru c"
    by (simp add: list_lru_def dom_card list_lru_ok_def finite_dom_map_of)
  fix k :: 'k and d v :: 'v and f c' k'
  show "list_lru_ok (lru_put list_lru c k v) \<and> lru_cap list_lru (lru_put list_lru c k v) = lru_cap list_lru c"
    using lru_front_ok [OF c] by (simp add: list_lru_def lru_front_def)
  show "lru_peek list_lru (lru_put list_lru c k v) k = Some v"
    using lru_front_peek(1) [OF c] by (simp add: list_lru_def)
  show "k' \<noteq> k \<Longrightarrow> lru_peek list_lru (lru_put list_lru c k v) k' = None
      \<or> lru_peek list_lru (lru_put list_lru c k v) k' = lru_peek list_lru c k'"
    using lru_front_peek(2) [OF c] by (simp add: list_lru_def)
  assume m: "lru_modify list_lru c k d f = (v, c')"
  then have c': "c' = lru_front c k v" and v: "v = f (case map_of (snd c) k of None \<Rightarrow> d | Some w \<Rightarrow> w)"
    by (auto simp: list_lru_def Let_def)
  show "list_lru_ok c' \<and> lru_cap list_lru c' = lru_cap list_lru c"
    using lru_front_ok [OF c] by (simp add: c' list_lru_def lru_front_def)
  show "v = f (case lru_peek list_lru c k of None \<Rightarrow> d | Some w \<Rightarrow> w) \<and> lru_peek list_lru c' k = Some v"
    using v lru_front_peek(1) [OF c] by (simp add: c' list_lru_def)
  show "k' \<noteq> k \<Longrightarrow> lru_peek list_lru c' k' = None \<or> lru_peek list_lru c' k' = lru_peek list_lru c k'"
    using lru_front_peek(2) [OF c] by (simp add: c' list_lru_def)
  show "k \<in> dom (lru_peek list_lru c) \<or> card (dom (lru_peek list_lru c)) < lru_cap list_lru c \<Longrightarrow> k' \<noteq> k
      \<Longrightarrow> lru_peek list_lru c' k' = lru_peek list_lru c k'"
    using lru_front_peek(3) [OF c, of k k' v] c by (simp add: c' list_lru_def dom_card list_lru_ok_def)
qed (auto simp: list_lru_def list_lru_ok_def map_of_filter_ne distinct_filter_ne intro: le_trans [OF length_filter_le])

end
