(* ===== verification/Bit_Queue.thy ===== *)
theory Bit_Queue
  imports Prelude
begin

text \<open>
  The bit vector queue of \<open>src/src/utils/bit_queue.rs\<close>: a deque of 128-bit words with a bit offset
  of the first and one past the last bit.  \<open>bq_abs\<close> is the list of bits it stands for; the locale
  \<open>bit_queue\<close> is the contract its client, the deduplication window, relies on, and the model's
  operations interpret it.
\<close>

subsection \<open>Operations\<close>

record bit_vec_queue =
  store :: "u128 list"
  head :: nat
  tail :: nat

definition DEFAULT_BIT_VEC_QUEUE_CAP :: nat where
  "DEFAULT_BIT_VEC_QUEUE_CAP = 256"

text \<open>The capacity only reserves memory.\<close>

definition bq_with_capacity :: "nat \<Rightarrow> bit_vec_queue" where
  "bq_with_capacity cap = \<lparr> store = [], head = 0, tail = 0 \<rparr>"

definition bq_default :: bit_vec_queue where
  "bq_default = bq_with_capacity DEFAULT_BIT_VEC_QUEUE_CAP"

definition bq_len :: "bit_vec_queue \<Rightarrow> ('e, nat) outcome" where
  "bq_len q = usub (tail q) (head q)"

definition to_physical_slot :: "bit_vec_queue \<Rightarrow> nat \<Rightarrow> nat \<times> nat" where
  "to_physical_slot q idx = (let physical_idx = idx + head q in (physical_idx div 128, physical_idx AND 127))"

definition bq_get :: "bit_vec_queue \<Rightarrow> nat \<Rightarrow> ('e, bool option) outcome" where
  "bq_get q idx = and_then (bq_len q) (\<lambda>l.
     if l \<le> idx then Ok None
     else (case to_physical_slot q idx of (i, slot) \<Rightarrow>
       and_then (index (store q) i) (\<lambda>w. Ok (Some (w AND push_bit slot 1 \<noteq> 0)))))"

text \<open>\<open>if v { *word |= mask } else { *word &= !mask }\<close>, the update \<open>set\<close> and \<open>push_back\<close> share.\<close>

definition assign_mask :: "u128 \<Rightarrow> nat \<Rightarrow> bool \<Rightarrow> u128" where
  "assign_mask w slot v = (let mask = push_bit slot 1 in if v then w OR mask else w AND NOT mask)"

definition bq_set :: "bit_vec_queue \<Rightarrow> nat \<Rightarrow> bool \<Rightarrow> ('e, bit_vec_queue) outcome" where
  "bq_set q idx v = and_then (bq_len q) (\<lambda>l.
     if l \<le> idx then Ok q
     else (case to_physical_slot q idx of (i, slot) \<Rightarrow>
       and_then (index (store q) i) (\<lambda>w. Ok (q\<lparr>store := (store q)[i := assign_mask w slot v]\<rparr>))))"

definition bq_push_back :: "bit_vec_queue \<Rightarrow> bool \<Rightarrow> bit_vec_queue" where
  "bq_push_back q v =
     (let q' = (if store q \<noteq> [] \<and> tail q AND 127 \<noteq> 0
                then q\<lparr>store := butlast (store q) @ [assign_mask (last (store q)) (tail q AND 127) v]\<rparr>
                else q\<lparr>store := store q @ [of_bool v]\<rparr>)
      in q'\<lparr>tail := tail q' + 1\<rparr>)"

text \<open>The shift \<open>1 << self.head\<close> overflows for \<open>head\<close> at least 128.\<close>

definition bq_front :: "bit_vec_queue \<Rightarrow> ('e, bool option) outcome" where
  "bq_front q = (case store q of
      [] \<Rightarrow> Ok None
    | f # _ \<Rightarrow> if head q < 128 then Ok (Some (f AND push_bit (head q) 1 \<noteq> 0)) else Panic)"

definition bq_clear :: "bit_vec_queue \<Rightarrow> bit_vec_queue" where
  "bq_clear q = q\<lparr>head := 0, tail := 0, store := []\<rparr>"

definition bq_pop_front :: "bit_vec_queue \<Rightarrow> ('e, bit_vec_queue) outcome" where
  "bq_pop_front q =
     (if head q = tail q then Ok (bq_clear q)
      else (let q = q\<lparr>head := head q + 1\<rparr> in
        if head q = 128
        then and_then (usub (tail q) 128) (\<lambda>t. Ok (q\<lparr>store := tl (store q), head := 0, tail := t\<rparr>))
        else Ok q))"

subsection \<open>Abstraction and invariant\<close>

definition bit_at :: "bit_vec_queue \<Rightarrow> nat \<Rightarrow> bool" where
  "bit_at q p = bit (store q ! (p div 128)) (p mod 128)"

definition bq_abs :: "bit_vec_queue \<Rightarrow> bool list" where
  "bq_abs q = map (bit_at q) [head q..<tail q]"

definition bq_inv :: "bit_vec_queue \<Rightarrow> bool" where
  "bq_inv q \<longleftrightarrow> head q \<le> tail q \<and> head q < 128
     \<and> tail q \<le> 128 * length (store q) \<and> 128 * length (store q) < tail q + 128
     \<and> (\<forall>p \<in> {tail q..<128 * length (store q)}. \<not> bit_at q p)"

lemma bq_invD:
  assumes "bq_inv q"
  shows "head q \<le> tail q" "head q < 128" "tail q \<le> 128 * length (store q)"
    "128 * length (store q) < tail q + 128"
    "tail q \<le> p \<Longrightarrow> p < 128 * length (store q) \<Longrightarrow> \<not> bit_at q p"
  using assms by (auto simp: bq_inv_def)

lemma and_push_bit_1: "((w :: u128) AND push_bit n 1 \<noteq> 0) = bit w n"
  by (simp add: bit_iff_and_push_bit_not_eq_0)

lemma bit_assign_mask:
  assumes "n < 128"
  shows "bit (assign_mask w n v) m = (if m = n then v else bit w m)"
proof (cases "m < 128")
  case True
  then show ?thesis
    using assms by (cases v)
      (auto simp: assign_mask_def bit_or_iff bit_and_iff bit_not_iff bit_push_bit_iff bit_1_iff simp del: push_bit_of_1)
next
  case False
  then show ?thesis using assms by (auto dest: bit_imp_le_length)
qed

lemma slot_split: "(p :: nat) div 128 = q div 128 \<and> p mod 128 = q mod 128 \<longleftrightarrow> p = q"
  by (metis mult_div_mod_eq)

lemma length_bq_abs [simp]: "length (bq_abs q) = tail q - head q"
  by (simp add: bq_abs_def)

lemma nth_bq_abs: "i < tail q - head q \<Longrightarrow> bq_abs q ! i = bit_at q (head q + i)"
  by (simp add: bq_abs_def)

lemma bq_index_ok: "bq_inv q \<Longrightarrow> p < tail q \<Longrightarrow> p div 128 < length (store q)"
  using bq_invD(3) [of q] by (simp add: less_mult_imp_div_less mult.commute)

lemma bq_default_inv: "bq_inv bq_default" and bq_default_abs: "bq_abs bq_default = []"
  by (simp_all add: bq_default_def bq_with_capacity_def bq_inv_def bq_abs_def)

lemma bq_len_correct: "bq_inv q \<Longrightarrow> bq_len q = Ok (length (bq_abs q))"
  by (simp add: bq_len_def bq_inv_def)

lemma bq_get_correct:
  assumes "bq_inv q"
  shows "bq_get q i = Ok (if i < length (bq_abs q) then Some (bq_abs q ! i) else None)"
proof -
  have "(i + head q) div 128 < length (store q)" if "i < tail q - head q"
    using that assms bq_index_ok [of q "i + head q"] by simp
  then show ?thesis
    using assms bq_invD(1) [OF assms]
    by (auto simp: bq_get_def bq_len_def to_physical_slot_def nat_and_127 nth_bq_abs bit_at_def
        and_push_bit_1 add.commute Let_def simp del: push_bit_of_1)
qed

lemma bit_nth_assign_mask:
  assumes "i < length xs" and "s < 128"
  shows "bit (xs[i := assign_mask (xs ! i) s v] ! i') s' = (if i' = i \<and> s' = s then v else bit (xs ! i') s')"
  using assms by (cases "i' = i") (simp_all add: bit_assign_mask)

lemma bit_at_update:
  assumes "p div 128 < length (store q)"
  shows "bit_at (q\<lparr>store := (store q)[p div 128 := assign_mask (store q ! (p div 128)) (p mod 128) v]\<rparr>) p'
         = (if p' = p then v else bit_at q p')"
proof -
  have "p mod 128 < 128" by simp
  note bit_nth_assign_mask [OF assms this, of v "p' div 128" "p' mod 128", unfolded slot_split]
  moreover have "store (q\<lparr>store := xs\<rparr>) = xs" for xs by simp
  ultimately show ?thesis by (simp only: bit_at_def)
qed

lemma bq_set_correct:
  assumes inv: "bq_inv q"
  shows "\<exists>q'. bq_set q i v = Ok q' \<and> bq_inv q' \<and> bq_abs q' = (bq_abs q)[i := v]"
proof (cases "i < tail q - head q")
  case False
  then have "bq_set q i v = Ok q"
    using inv by (simp add: bq_set_def bq_len_def bq_inv_def)
  then show ?thesis using inv False by (intro exI [of _ q]) (simp add: list_update_beyond)
next
  case True
  let ?p = "head q + i"
  define q' where "q' = q\<lparr>store := (store q)[?p div 128 := assign_mask (store q ! (?p div 128)) (?p mod 128) v]\<rparr>"
  have lt: "?p div 128 < length (store q)" using bq_index_ok [OF inv] True by simp
  have set_eq: "bq_set q i v = Ok q'"
    using inv True lt by (simp add: bq_set_def bq_len_def bq_inv_def to_physical_slot_def nat_and_127
        q'_def add.commute Let_def)
  have bits: "bit_at q' p = (if p = ?p then v else bit_at q p)" for p
    unfolding q'_def by (rule bit_at_update [OF lt])
  have [simp]: "head q' = head q" "tail q' = tail q" "length (store q') = length (store q)"
    by (simp_all add: q'_def)
  have "bq_inv q'"
    using inv True by (auto simp: bq_inv_def bits)
  moreover have "bq_abs q' = (bq_abs q)[i := v]"
    by (rule nth_equalityI) (auto simp: nth_bq_abs nth_list_update bits)
  ultimately show ?thesis using set_eq by blast
qed

lemma slots_partial:
  assumes "bq_inv q" and "tail q mod 128 \<noteq> 0"
  shows "length (store q) = Suc (tail q div 128)"
proof -
  define k r where "k = tail q div 128" and "r = tail q mod 128"
  then have "tail q = 128 * k + r" "r \<noteq> 0" "r < 128" using assms(2) by simp_all
  with bq_invD(3,4) [OF assms(1)] have "length (store q) = Suc k" by linarith
  then show ?thesis by (simp only: k_def)
qed

lemma update_last: "xs \<noteq> [] \<Longrightarrow> xs[length xs - Suc 0 := y] = butlast xs @ [y]"
  by (induction xs rule: rev_induct) auto

lemma bq_push_back_bits:
  assumes inv: "bq_inv q" and p: "p < 128 * length (store (bq_push_back q v))"
  shows "bit_at (bq_push_back q v) p = (if p = tail q then v else p < tail q \<and> bit_at q p)"
proof (cases "tail q mod 128 = 0")
  case True
  then obtain k where k: "tail q = 128 * k" by (metis mult_div_mod_eq add_0_right)
  then have len: "length (store q) = k" using bq_invD(3,4) [OF inv] by simp
  have new: "bq_push_back q v = q\<lparr>store := store q @ [of_bool v], tail := tail q + 1\<rparr>"
    using True by (simp add: bq_push_back_def nat_and_127)
  show ?thesis
  proof (cases "p < 128 * k")
    case True
    then have "p div 128 < k" by (simp add: less_mult_imp_div_less mult.commute)
    with True k len show ?thesis by (simp add: new bit_at_def nth_append)
  next
    case False
    with p len have "p div 128 = k" by (simp add: new div_nat_eqI)
    moreover have "p = tail q \<longleftrightarrow> p mod 128 = 0"
      using slot_split [of p "tail q"] k calculation by simp
    ultimately show ?thesis
      using False k len by (simp add: new bit_at_def nth_append bit_simps)
  qed
next
  case False
  let ?t = "tail q"
  have lt: "?t div 128 = length (store q) - 1" and ne: "store q \<noteq> []"
    using slots_partial [OF inv] False by auto
  then have len: "?t div 128 < length (store q)" by (simp add: diff_Suc_less)
  have new: "bq_push_back q v = q\<lparr>store := (store q)[?t div 128 := assign_mask (store q ! (?t div 128)) (?t mod 128) v], tail := ?t + 1\<rparr>"
    using False ne
    by (simp add: bq_push_back_def nat_and_127 Let_def lt last_conv_nth update_last)
  have "p < 128 * length (store q)" using p by (simp add: new)
  then show ?thesis
    using bit_at_update [OF len, of v p] bq_invD(5) [OF inv, of p]
    by (cases "tail q \<le> p") (auto simp: new bit_at_def)
qed

lemma push_back_fields [simp]:
  "head (bq_push_back q v) = head q" "tail (bq_push_back q v) = Suc (tail q)"
  by (simp_all add: bq_push_back_def Let_def)

lemma push_back_slots:
  assumes "bq_inv q"
  shows "Suc (tail q) \<le> 128 * length (store (bq_push_back q v))"
    and "128 * length (store (bq_push_back q v)) < Suc (tail q) + 128"
proof -
  note b = bq_invD(3,4) [OF assms]
  show "Suc (tail q) \<le> 128 * length (store (bq_push_back q v))"
    using b by (cases "tail q = 128 * length (store q)") (auto simp: bq_push_back_def Let_def nat_and_127)
  show "128 * length (store (bq_push_back q v)) < Suc (tail q) + 128"
  proof (cases "tail q mod 128 = 0")
    case True
    then obtain k where "tail q = 128 * k" by (metis mult_div_mod_eq add_0_right)
    moreover from this b have "length (store q) = k" by linarith
    ultimately show ?thesis by (simp add: bq_push_back_def Let_def nat_and_127)
  next
    case False
    then have "store q \<noteq> []" using slots_partial [OF assms] by auto
    with False b show ?thesis by (simp add: bq_push_back_def Let_def nat_and_127)
  qed
qed

lemma bq_push_back_correct:
  assumes inv: "bq_inv q"
  shows "bq_inv (bq_push_back q v) \<and> bq_abs (bq_push_back q v) = bq_abs q @ [v]"
proof
  show "bq_inv (bq_push_back q v)"
    using bq_invD(1,2) [OF inv] push_back_slots [OF inv, of v]
    by (auto simp: bq_inv_def bq_push_back_bits [OF inv])
  have bits: "bit_at (bq_push_back q v) p = (if p = tail q then v else bit_at q p)" if "p \<le> tail q" for p
    using bq_push_back_bits [OF inv, of p v] push_back_slots(1) [OF inv, of v] that by auto
  show "bq_abs (bq_push_back q v) = bq_abs q @ [v]"
    using bq_invD(1) [OF inv] by (simp add: bq_abs_def bits)
qed

lemma bq_front_correct:
  assumes inv: "bq_inv q"
  shows "bq_front q = Ok (if store q = [] then None else Some (bq_abs q \<noteq> [] \<and> hd (bq_abs q)))"
proof (cases "store q")
  case Nil
  then show ?thesis by (simp add: bq_front_def)
next
  case (Cons f fs)
  have h: "head q < 128" by (rule bq_invD(2) [OF inv])
  then have bit: "bit f (head q) = bit_at q (head q)" using Cons by (simp add: bit_at_def)
  have "bit_at q (head q) = (bq_abs q \<noteq> [] \<and> hd (bq_abs q))"
  proof (cases "head q = tail q")
    case True
    then show ?thesis using bq_invD(5) [OF inv, of "head q"] h Cons by (simp add: bq_abs_def)
  next
    case False
    then show ?thesis using bq_invD(1) [OF inv] by (simp add: bq_abs_def hd_map)
  qed
  then show ?thesis using Cons h bit by (simp add: bq_front_def and_push_bit_1 del: push_bit_of_1)
qed

lemma bq_abs_store_Nil: "bq_inv q \<Longrightarrow> store q = [] \<Longrightarrow> bq_abs q = []"
  using bq_invD(3) [of q] by (simp add: bq_abs_def)

lemma bq_clear_correct: "bq_inv (bq_clear q) \<and> bq_abs (bq_clear q) = []"
  by (simp add: bq_clear_def bq_inv_def bq_abs_def)

lemma bq_pop_front_shift:
  assumes inv: "bq_inv q" and h: "Suc (head q) = 128" "head q < tail q"
  shows "128 \<le> tail q \<and>
     bq_inv (q\<lparr>store := tl (store q), head := 0, tail := tail q - 128\<rparr>) \<and>
     bq_abs (q\<lparr>store := tl (store q), head := 0, tail := tail q - 128\<rparr>) = tl (bq_abs q)"
proof -
  let ?q = "q\<lparr>store := tl (store q), head := 0, tail := tail q - 128\<rparr>"
  have t: "128 \<le> tail q" using h by simp
  then have ne: "store q \<noteq> []" using bq_invD(3) [OF inv] by auto
  have bits: "bit_at ?q p = bit_at q (p + 128)" if "p < 128 * length (tl (store q))" for p
  proof -
    have "p div 128 < length (tl (store q))" using that by (simp add: less_mult_imp_div_less mult.commute)
    then show ?thesis by (simp add: bit_at_def nth_tl div_add_self2)
  qed
  have len: "128 * length (tl (store q)) + 128 = 128 * length (store q)" using ne by (cases "store q") auto
  have "\<not> bit_at ?q p" if "p \<in> {tail q - 128..<128 * length (tl (store q))}" for p
    using that bits [of p] bq_invD(5) [OF inv, of "p + 128"] t len
    by (auto simp del: length_tl simp: le_diff_conv)
  then have "bq_inv ?q"
    using bq_invD(1-4) [OF inv] t len by (simp add: bq_inv_def del: length_tl)
  moreover have "bq_abs ?q = tl (bq_abs q)"
  proof (rule nth_equalityI)
    show "length (bq_abs ?q) = length (tl (bq_abs q))" using h by simp
    fix i assume i: "i < length (bq_abs ?q)"
    then have "i < 128 * length (tl (store q))" using bq_invD(3) [OF inv] len by simp
    with i h show "bq_abs ?q ! i = tl (bq_abs q) ! i"
      by (simp add: nth_bq_abs nth_tl bits add.commute)
  qed
  ultimately show ?thesis using t by simp
qed

lemma bq_pop_front_correct:
  assumes inv: "bq_inv q"
  shows "\<exists>q'. bq_pop_front q = Ok q' \<and> bq_inv q' \<and> bq_abs q' = tl (bq_abs q)"
proof (cases "head q = tail q")
  case True
  then have "bq_abs q = []" by (simp add: bq_abs_def)
  with True show ?thesis using bq_clear_correct [of q] by (simp add: bq_pop_front_def)
next
  case False
  then have lt: "head q < tail q" using bq_invD(1) [OF inv] by simp
  show ?thesis
  proof (cases "Suc (head q) = 128")
    case True
    then show ?thesis using bq_pop_front_shift [OF inv True lt] False by (simp add: bq_pop_front_def)
  next
    case neq: False
    have bits: "bit_at (q\<lparr>head := h\<rparr>) = bit_at q" for h by (rule ext) (simp add: bit_at_def)
    have "bq_inv (q\<lparr>head := Suc (head q)\<rparr>)"
      using bq_invD [OF inv] lt neq by (simp add: bq_inv_def bits)
    moreover have "bq_abs (q\<lparr>head := Suc (head q)\<rparr>) = tl (bq_abs q)"
      using lt by (simp add: bq_abs_def bits upt_rec [of "head q"])
    ultimately show ?thesis using False neq by (simp add: bq_pop_front_def)
  qed
qed

subsection \<open>The contract\<close>

text \<open>
  A queue of bits as its client sees it: \<open>abs\<close> gives the bits, \<open>inv\<close> the states the operations
  keep.  \<open>front\<close> only promises to say whether the first bit is set.
\<close>

locale bit_queue =
  fixes inv :: "'q \<Rightarrow> bool" and abs :: "'q \<Rightarrow> bool list"
    and len :: "'q \<Rightarrow> ('e, nat) outcome"
    and get :: "'q \<Rightarrow> nat \<Rightarrow> ('e, bool option) outcome"
    and set_bit :: "'q \<Rightarrow> nat \<Rightarrow> bool \<Rightarrow> ('e, 'q) outcome"
    and push_back :: "'q \<Rightarrow> bool \<Rightarrow> 'q"
    and front :: "'q \<Rightarrow> ('e, bool option) outcome"
    and pop_front :: "'q \<Rightarrow> ('e, 'q) outcome"
  assumes len_law: "inv q \<Longrightarrow> len q = Ok (length (abs q))"
    and get_law: "inv q \<Longrightarrow> get q i = Ok (if i < length (abs q) then Some (abs q ! i) else None)"
    and set_law: "inv q \<Longrightarrow> \<exists>q'. set_bit q i v = Ok q' \<and> inv q' \<and> abs q' = (abs q)[i := v]"
    and push_law: "inv q \<Longrightarrow> inv (push_back q v) \<and> abs (push_back q v) = abs q @ [v]"
    and front_law: "inv q \<Longrightarrow> \<exists>r. front q = Ok r \<and> (r = Some True \<longleftrightarrow> abs q \<noteq> [] \<and> hd (abs q))"
    and pop_law: "inv q \<Longrightarrow> \<exists>q'. pop_front q = Ok q' \<and> inv q' \<and> abs q' = tl (abs q)"
begin

lemma extend_law:
  "inv q \<Longrightarrow> inv (((\<lambda>q. push_back q v) ^^ n) q) \<and> abs (((\<lambda>q. push_back q v) ^^ n) q) = abs q @ replicate n v"
  by (induction n) (auto simp: push_law replicate_append_same)

lemma front_stop: "inv q \<Longrightarrow> abs q = [] \<or> \<not> hd (abs q) \<Longrightarrow> \<exists>r. front q = Ok r \<and> r \<noteq> Some True"
  using front_law by metis

lemma front_go: "inv q \<Longrightarrow> abs q = True # bs \<Longrightarrow> front q = Ok (Some True)"
  using front_law [of q] by auto

lemma pop_go: "inv q \<Longrightarrow> abs q = b # bs \<Longrightarrow> \<exists>q'. pop_front q = Ok q' \<and> inv q' \<and> abs q' = bs"
  using pop_law [of q] by auto

end

interpretation bq: bit_queue bq_inv bq_abs bq_len bq_get bq_set bq_push_back bq_front bq_pop_front
  by unfold_locales
    (auto simp: bq_len_correct bq_get_correct bq_push_back_correct bq_front_correct bq_abs_store_Nil
      intro: bq_set_correct bq_pop_front_correct)

end
