(* ===== verification/Streams.thy ===== *)
theory Streams
  imports Prelude
begin

text \<open>
  Streams as their consumers see them.  The decoder layers are generic over the stream below them;
  a script lists what successive calls of its \<open>poll_next\<close> return, and an exhausted script is
  \<open>Pending\<close>.  A call of a layer's \<open>poll_next\<close> that returns makes finitely many polls below, so scripts
  cover every run of a layer between two returns.  \<open>Ready None\<close> is the end of the stream; an item
  that is a \<open>Result\<close> is a sum with the error on the left.
\<close>

type_synonym 'i script = "'i option poll list"

text \<open>The items a script delivers, and for items that are results, the values and the errors among them.\<close>

fun ready_items :: "'i script \<Rightarrow> 'i list" where
  "ready_items [] = []"
| "ready_items (Pending # s) = ready_items s"
| "ready_items (Ready None # s) = ready_items s"
| "ready_items (Ready (Some x) # s) = x # ready_items s"

definition ok_items :: "('err + 'a) script \<Rightarrow> 'a list" where
  "ok_items s = [x. Inr x \<leftarrow> ready_items s]"

definition err_items :: "('err + 'a) script \<Rightarrow> 'err list" where
  "err_items s = [e. Inl e \<leftarrow> ready_items s]"

text \<open>
  Driving a layer: \<open>polls n poll st s\<close> calls its \<open>poll_next\<close> \<open>n\<close> times from the state \<open>st\<close>, collecting
  what it returns.
\<close>

type_synonym ('st, 'i, 'o, 'e) poll_fn = "'st \<Rightarrow> 'i script \<Rightarrow> ('e, 'o option poll \<times> 'st \<times> 'i script) outcome"

fun polls :: "nat \<Rightarrow> ('st, 'i, 'o, 'e) poll_fn \<Rightarrow> 'st \<Rightarrow> 'i script \<Rightarrow> ('e, 'o script \<times> 'st \<times> 'i script) outcome" where
  "polls 0 poll_next st s = Ok ([], st, s)"
| "polls (Suc n) poll_next st s =
     and_then (poll_next st s) (\<lambda>(r, st, s).
     and_then (polls n poll_next st s) (\<lambda>(rs, st, s). Ok (r # rs, st, s)))"

lemma polls_length: "polls n poll_next st s = Ok (rs, st', s') \<Longrightarrow> length rs = n"
  by (induction n arbitrary: st s rs) (auto simp: and_then_eq_Ok)

lemma ready_items_append [simp]: "ready_items (s @ t) = ready_items s @ ready_items t"
  by (induction s rule: ready_items.induct) auto

lemma ok_items_append [simp]: "ok_items (s @ t) = ok_items s @ ok_items t"
  by (simp add: ok_items_def)

lemma err_items_append [simp]: "err_items (s @ t) = err_items s @ err_items t"
  by (simp add: err_items_def)

lemma items_simps [simp]:
  "ok_items [] = []" "ok_items (Pending # s) = ok_items s" "ok_items (Ready None # s) = ok_items s"
  "ok_items (Ready (Some (Inl e)) # s) = ok_items s" "ok_items (Ready (Some (Inr x)) # s) = x # ok_items s"
  "err_items [] = []" "err_items (Pending # s) = err_items s" "err_items (Ready None # s) = err_items s"
  "err_items (Ready (Some (Inl e)) # s) = e # err_items s" "err_items (Ready (Some (Inr x)) # s) = err_items s"
  by (simp_all add: ok_items_def err_items_def)

lemma result_poll_cases:
  obtains (pending) "x = Pending" | (finish) "x = Ready None" | (error) e where "x = Ready (Some (Inl e))"
    | (item) y where "x = Ready (Some (Inr y))"
  by (metis option.exhaust poll.exhaust sum.exhaust)

text \<open>
  The contract of a layer.  \<open>g\<close> is the history its specification is stated over.  Under an invariant
  of history, state and the script still to come, every poll succeeds, uses up a prefix of the
  script, keeps the invariant, and what it returns is related to what it used by \<open>trans\<close>, which can be
  iterated; \<open>work\<close> bounds the number of polls until the layer has nothing left to do.
\<close>

locale layer =
  fixes poll_next :: "('st, 'i, 'o, 'e) poll_fn"
    and inv :: "'g \<Rightarrow> 'st \<Rightarrow> 'i script \<Rightarrow> bool"
    and trans :: "'g \<Rightarrow> 'st \<Rightarrow> 'i script \<Rightarrow> 'o script \<Rightarrow> 'g \<Rightarrow> 'st \<Rightarrow> bool"
    and work :: "'g \<Rightarrow> 'st \<Rightarrow> 'i script \<Rightarrow> nat"
  assumes poll_law: "inv g st s \<Longrightarrow> \<exists>r g' st' used s'. poll_next st s = Ok (r, st', s') \<and> s = used @ s'
      \<and> inv g' st' s' \<and> trans g st used [r] g' st' \<and> work g' st' s' \<le> work g st s - 1"
    and trans_refl: "inv g st s \<Longrightarrow> trans g st [] [] g st"
    and trans_comp: "trans g st u1 o1 g1 st1 \<Longrightarrow> trans g1 st1 u2 o2 g2 st2 \<Longrightarrow> trans g st (u1 @ u2) (o1 @ o2) g2 st2"
begin

lemma polls_law:
  "inv g st s \<Longrightarrow> \<exists>rs g' st' used s'. polls n poll_next st s = Ok (rs, st', s') \<and> s = used @ s' \<and> length rs = n
     \<and> inv g' st' s' \<and> trans g st used rs g' st' \<and> work g' st' s' \<le> work g st s - n"
proof (induction n arbitrary: g st s)
  case 0
  then show ?case
    by - (rule exI [of _ "[]"], rule exI [of _ g], rule exI [of _ st], rule exI [of _ "[]"], rule exI [of _ s],
        simp add: trans_refl)
next
  case (Suc n)
  obtain r g1 st1 u1 s1 where 1: "poll_next st s = Ok (r, st1, s1)" "s = u1 @ s1" "inv g1 st1 s1"
    "trans g st u1 [r] g1 st1" "work g1 st1 s1 \<le> work g st s - 1"
    using poll_law [OF Suc.prems] by blast
  obtain rs g2 st2 u2 s2 where 2: "polls n poll_next st1 s1 = Ok (rs, st2, s2)" "s1 = u2 @ s2" "length rs = n"
    "inv g2 st2 s2" "trans g1 st1 u2 rs g2 st2" "work g2 st2 s2 \<le> work g1 st1 s1 - n"
    using Suc.IH [OF 1(3)] by blast
  have "trans g st (u1 @ u2) (r # rs) g2 st2" using trans_comp [OF 1(4) 2(5)] by simp
  then show ?case
    using 1(1,2,5) 2
    by - (rule exI [of _ "r # rs"], rule exI [of _ g2], rule exI [of _ st2], rule exI [of _ "u1 @ u2"], rule exI [of _ s2],
        simp)
qed

end

end
