(* ===== verification/Dedup.thy ===== *)
theory Dedup
  imports Bit_Queue Frame_Set Streams
begin

text \<open>
  The deduplication layer of \<open>src/src/codec/decoder/dedup.rs\<close>.  The window keeps the first sequence
  number not yet received and one bit per later number; it refines the set of all numbers received
  so far (\<open>received\<close>).
\<close>

subsection \<open>The window\<close>

record duplicate_window =
  first_unreceived :: u24
  received_status :: bit_vec_queue

definition window_default :: duplicate_window where
  "window_default = \<lparr> first_unreceived = u24_default, received_status = bq_default \<rparr>"

text \<open>
  \<open>while let Some(true) = self.received_status.front() { pop_front(); first_unreceived += 1 }\<close>.
  The measure bounds the number of words and bits left in any queue, well formed or not.
\<close>

definition drain_measure :: "bit_vec_queue \<Rightarrow> nat" where
  "drain_measure q = (if store q = [] then 0 else if head q \<le> tail q then Suc (tail q - head q) else 129 - head q)"

lemma drain_measure_decreases:
  assumes "bq_front q = (Ok (Some b) :: ('e, _) outcome)" and "bq_pop_front q = (Ok q' :: ('f, _) outcome)"
  shows "drain_measure q' < drain_measure q"
  using assms
  by (auto simp: bq_front_def bq_pop_front_def bq_clear_def drain_measure_def Let_def and_then_eq_Ok
      split: list.splits if_splits)

function drain_received :: "u24 \<Rightarrow> bit_vec_queue \<Rightarrow> ('e, u24 \<times> bit_vec_queue) outcome" where
  "drain_received fu q = (case bq_front q of
      Panic \<Rightarrow> Panic
    | Err e \<Rightarrow> Err e
    | Ok r \<Rightarrow> if r = Some True
        then (case bq_pop_front q of
            Panic \<Rightarrow> Panic
          | Err e \<Rightarrow> Err e
          | Ok q' \<Rightarrow> and_then (u24_incr fu) (\<lambda>fu'. drain_received fu' q'))
        else Ok (fu, q))"
  by pat_completeness auto
termination
  by (relation "measure (\<lambda>(fu, q). drain_measure q)") (auto intro: drain_measure_decreases)

declare drain_received.simps [simp del]

text \<open>The common end of both branches of \<open>duplicate\<close>: the loop above, and \<open>false\<close>.\<close>

definition mark_received :: "u24 \<Rightarrow> bit_vec_queue \<Rightarrow> ('e, bool \<times> duplicate_window) outcome" where
  "mark_received fu q = and_then (drain_received fu q) (\<lambda>(fu, q).
     Ok (False, \<lparr> first_unreceived = fu, received_status = q \<rparr>))"

definition duplicate :: "duplicate_window \<Rightarrow> u24 \<Rightarrow> ('e, bool \<times> duplicate_window) outcome" where
  "duplicate w seq_num =
     (if seq_num < first_unreceived w then Ok (True, w)
      else
        and_then (u24_sub seq_num (first_unreceived w)) (\<lambda>d.
        let gap = to_usize d in
        and_then (bq_len (received_status w)) (\<lambda>len.
        if gap < len then
          and_then (bq_get (received_status w) gap) (\<lambda>s.
            if s = Some True then Ok (True, w)
            else and_then (bq_set (received_status w) gap True) (mark_received (first_unreceived w)))
        else
          and_then (usub gap len) (\<lambda>n.
            mark_received (first_unreceived w)
              (bq_push_back (((\<lambda>q. bq_push_back q False) ^^ n) (received_status w)) True)))))"

subsection \<open>The window refines a set\<close>

text \<open>The numbers below a base, and those above it whose bit is set.\<close>

definition bits_from :: "nat \<Rightarrow> bool list \<Rightarrow> nat set" where
  "bits_from n bs = {m. m < n \<or> (n \<le> m \<and> m - n < length bs \<and> bs ! (m - n))}"

definition received :: "duplicate_window \<Rightarrow> nat set" where
  "received w = bits_from (to_usize (first_unreceived w)) (bq_abs (received_status w))"

definition window_inv :: "duplicate_window \<Rightarrow> bool" where
  "window_inv w \<longleftrightarrow> bq_inv (received_status w) \<and> u24_ok (first_unreceived w)
     \<and> to_usize (first_unreceived w) + length (bq_abs (received_status w)) \<le> 2 ^ 24
     \<and> (bq_abs (received_status w) = [] \<or> \<not> hd (bq_abs (received_status w)))"

declare length_bq_abs [simp del]

lemma bits_from_True: "bits_from n (True # bs) = bits_from (Suc n) bs"
proof (rule set_eqI)
  fix m
  consider "m < n" | "m = n" | k where "m = Suc n + k" by (metis less_imp_Suc_add linorder_neqE_nat add_Suc)
  then show "m \<in> bits_from n (True # bs) \<longleftrightarrow> m \<in> bits_from (Suc n) bs"
    by cases (simp_all add: bits_from_def Suc_diff_le)
qed

lemma bits_from_update:
  "i < length bs \<Longrightarrow> bits_from n (bs[i := True]) = insert (n + i) (bits_from n bs)"
  by (auto simp: bits_from_def nth_list_update)

lemma bits_from_extend: "bits_from n (bs @ replicate k False) = bits_from n bs"
proof (rule set_eqI)
  fix m
  show "m \<in> bits_from n (bs @ replicate k False) \<longleftrightarrow> m \<in> bits_from n bs"
    by (cases "m - n < length bs") (auto simp: bits_from_def nth_append)
qed

lemma bits_from_snoc: "bits_from n (bs @ [True]) = insert (n + length bs) (bits_from n bs)"
proof (rule set_eqI)
  fix m
  show "m \<in> bits_from n (bs @ [True]) \<longleftrightarrow> m \<in> insert (n + length bs) (bits_from n bs)"
    by (cases "m - n < length bs") (auto simp: bits_from_def nth_append)
qed

lemma drain_received_step:
  assumes "bq_inv q" and "bq_abs q = True # bs"
  obtains q' where "bq_inv q'" and "bq_abs q' = bs"
    and "\<And>fu. (drain_received fu q :: ('e, _) outcome) = and_then (u24_incr fu) (\<lambda>fu'. drain_received fu' q')"
proof -
  have front: "(bq_front q :: ('e, _) outcome) = Ok (Some True)" by (rule bq.front_go [OF assms])
  obtain q' where q': "(bq_pop_front q :: ('e, _) outcome) = Ok q'" "bq_inv q'" "bq_abs q' = bs"
    using bq.pop_go [OF assms] by blast
  show thesis
    by (rule that [OF q'(2,3)]) (subst drain_received.simps, simp add: front q')
qed

lemma drain_received_stop:
  assumes "bq_inv q" and "bq_abs q = [] \<or> \<not> hd (bq_abs q)"
  shows "(drain_received fu q :: ('e, _) outcome) = Ok (fu, q)"
proof -
  obtain r where "(bq_front q :: ('e, _) outcome) = Ok r" "r \<noteq> Some True"
    using bq.front_stop [OF assms] by blast
  then show ?thesis by (subst drain_received.simps) simp
qed

lemma drain_received_correct:
  assumes "bq_inv q" and "u24_ok fu" and "to_usize fu + length (bq_abs q) \<le> 2 ^ 24"
  shows "(case (drain_received fu q :: ('e, _) outcome) of
      Ok (fu', q') \<Rightarrow> window_inv \<lparr> first_unreceived = fu', received_status = q' \<rparr>
        \<and> bits_from (to_usize fu') (bq_abs q') = bits_from (to_usize fu) (bq_abs q)
    | Err _ \<Rightarrow> False
    | Panic \<Rightarrow> {..<2 ^ 24} \<subseteq> bits_from (to_usize fu) (bq_abs q))"
  using assms
proof (induction "bq_abs q" arbitrary: fu q)
  case Nil
  then show ?case by (simp add: drain_received_stop window_inv_def)
next
  case (Cons b bs)
  show ?case
  proof (cases b)
    case False
    then show ?thesis using Cons by (simp add: drain_received_stop window_inv_def flip: Cons.hyps(2))
  next
    case True
    then obtain q' where q': "bq_inv q'" "bq_abs q' = bs"
      "(drain_received fu q :: ('e, _) outcome) = and_then (u24_incr fu) (\<lambda>fu'. drain_received fu' q')"
      using drain_received_step Cons.prems(1) Cons.hyps(2) by metis
    have eq: "bits_from (to_usize fu) (bq_abs q) = bits_from (Suc (to_usize fu)) bs"
      using True by (simp add: bits_from_True flip: Cons.hyps(2))
    show ?thesis
    proof (cases "to_usize fu < 2 ^ 24 - 1")
      case lt: True
      let ?fu = "u24_of (Suc (to_usize fu))"
      have fu: "to_usize ?fu = Suc (to_usize fu)" "u24_ok ?fu" using lt by simp_all
      have "to_usize ?fu + length (bq_abs q') \<le> 2 ^ 24"
        using Cons.prems(3) fu q'(2) by (simp flip: Cons.hyps(2))
      note IH = Cons.hyps(1) [OF q'(2) [symmetric] q'(1) fu(2) this]
      have "bits_from (to_usize fu) (bq_abs q) = bits_from (to_usize ?fu) (bq_abs q')"
        by (simp only: eq fu(1) q'(2))
      then show ?thesis
        using IH lt by (simp only: q'(3) u24_incr_eq u24_succ_eq if_True and_then.simps)
    next
      case False
      with Cons.prems(2) have "to_usize fu = 2 ^ 24 - 1" by (simp add: u24_ok_iff)
      then have "{..<2 ^ 24} \<subseteq> bits_from (Suc (to_usize fu)) bs" by (auto simp: bits_from_def)
      then show ?thesis using False by (simp add: q'(3) u24_incr_eq u24_succ_eq eq)
    qed
  qed
qed

definition duplicate_spec :: "duplicate_window \<Rightarrow> u24 \<Rightarrow> ('e, bool \<times> duplicate_window) outcome \<Rightarrow> bool" where
  "duplicate_spec w s r \<longleftrightarrow> (case r of
      Ok (d, w') \<Rightarrow> (d \<longleftrightarrow> to_usize s \<in> received w) \<and> window_inv w' \<and> received w' = insert (to_usize s) (received w)
    | Err _ \<Rightarrow> False
    | Panic \<Rightarrow> {..<2 ^ 24} \<subseteq> insert (to_usize s) (received w))"

lemma mark_received_correct:
  assumes "bq_inv q" and "u24_ok fu" and "to_usize fu + length (bq_abs q) \<le> 2 ^ 24"
    and "bits_from (to_usize fu) (bq_abs q) = insert (to_usize s) (received w)" and "to_usize s \<notin> received w"
  shows "duplicate_spec w s (mark_received fu q :: ('e, _) outcome)"
proof (cases "drain_received fu q :: ('e, _) outcome")
  case (Ok r)
  obtain fu' q' where r: "r = (fu', q')" by (cases r)
  then have "bits_from (to_usize fu') (bq_abs q') = insert (to_usize s) (received w)"
    and "window_inv \<lparr> first_unreceived = fu', received_status = q' \<rparr>"
    using drain_received_correct [OF assms(1-3), where 'e = 'e] assms(4) by (simp_all add: Ok)
  then show ?thesis
    using assms(5) by (simp add: duplicate_spec_def mark_received_def Ok r received_def [of "\<lparr> first_unreceived = fu', received_status = q' \<rparr>"])
next
  case (Err e)
  then show ?thesis using drain_received_correct [OF assms(1-3), where 'e = 'e] by simp
next
  case Panic
  then show ?thesis
    using drain_received_correct [OF assms(1-3), where 'e = 'e] assms(4)
    by (simp add: duplicate_spec_def mark_received_def)
qed

lemma duplicate_unfold:
  assumes "window_inv w" and "first_unreceived w \<le> s"
  shows "duplicate w s =
    (let bs = bq_abs (received_status w); gap = to_usize s - to_usize (first_unreceived w) in
     if gap < length bs then
       (if bs ! gap then Ok (True, w)
        else and_then (bq_set (received_status w) gap True) (mark_received (first_unreceived w)))
     else mark_received (first_unreceived w)
            (bq_push_back (((\<lambda>q. bq_push_back q False) ^^ (gap - length bs)) (received_status w)) True))"
proof -
  have inv: "bq_inv (received_status w)" using assms(1) by (simp add: window_inv_def)
  have "to_usize s - to_usize (first_unreceived w) < 2 ^ 32"
    using unat_lt_exp [of "u24_raw s"] by (simp add: to_usize_def less_imp_diff_less)
  then have gap: "to_usize (u24_of (to_usize s - to_usize (first_unreceived w))) = to_usize s - to_usize (first_unreceived w)"
    by (simp add: to_usize_def u24_of_def unsigned_of_nat take_bit_nat_eq_self)
  have "\<not> s < first_unreceived w" using assms(2) by simp
  then show ?thesis
    using assms(2) by (simp add: duplicate_def u24_sub_eq Let_def gap bq.len_law [OF inv] bq.get_law [OF inv])
qed

lemma duplicate_correct:
  assumes inv: "window_inv w" and ok: "u24_ok s"
  shows "duplicate_spec w s (duplicate w s :: ('e, _) outcome)"
proof (cases "s < first_unreceived w")
  case True
  then show ?thesis
    using inv by (auto simp: duplicate_def duplicate_spec_def received_def bits_from_def u24_less_iff)
next
  case False
  then have le: "first_unreceived w \<le> s" by simp
  let ?n = "to_usize (first_unreceived w)" and ?bs = "bq_abs (received_status w)"
  define gap where "gap = to_usize s - ?n"
  have s: "to_usize s = ?n + gap" using le by (simp add: gap_def u24_le_iff)
  have q: "bq_inv (received_status w)" and fu: "u24_ok (first_unreceived w)" and len: "?n + length ?bs \<le> 2 ^ 24"
    using inv by (simp_all add: window_inv_def)
  have mem: "to_usize s \<in> received w \<longleftrightarrow> gap < length ?bs \<and> ?bs ! gap"
    by (simp add: received_def bits_from_def s)
  note unf = duplicate_unfold [OF inv le, folded gap_def, unfolded Let_def]
  show ?thesis
  proof (cases "gap < length ?bs")
    case lt: True
    show ?thesis
    proof (cases "?bs ! gap")
      case True
      then show ?thesis using lt mem inv by (auto simp: unf duplicate_spec_def)
    next
      case False
      obtain q' where q': "(bq_set (received_status w) gap True :: ('e, _) outcome) = Ok q'" "bq_inv q'"
        "bq_abs q' = ?bs[gap := True]"
        using bq.set_law [OF q] by blast
      have "duplicate_spec w s (mark_received (first_unreceived w) q' :: ('e, _) outcome)"
        using q' fu len mem False lt
        by (intro mark_received_correct) (simp_all add: bits_from_update s received_def)
      then show ?thesis using lt False q'(1) by (simp add: unf)
    qed
  next
    case ge: False
    let ?q = "bq_push_back (((\<lambda>q. bq_push_back q False) ^^ (gap - length ?bs)) (received_status w)) True"
    have q': "bq_inv ?q" "bq_abs ?q = (?bs @ replicate (gap - length ?bs) False) @ [True]"
      using bq.push_law bq.extend_law [OF q] by auto
    have "duplicate_spec w s (mark_received (first_unreceived w) ?q :: ('e, _) outcome)"
    proof (rule mark_received_correct [OF q'(1) fu])
      show "to_usize (first_unreceived w) + length (bq_abs ?q) \<le> 2 ^ 24"
        using ok ge s by (simp add: q'(2) u24_ok_iff)
      show "bits_from (to_usize (first_unreceived w)) (bq_abs ?q) = insert (to_usize s) (received w)"
        unfolding q'(2) bits_from_snoc bits_from_extend using ge s by (simp add: received_def)
      show "to_usize s \<notin> received w" using mem ge by simp
    qed
    then show ?thesis using ge by (simp add: unf)
  qed
qed

lemma window_default_correct: "window_inv window_default" "received window_default = {}"
  by (simp_all add: window_default_def window_inv_def bq_default_inv bq_default_abs received_def bits_from_def)

subsection \<open>The stream layer\<close>

text \<open>\<open>frame_set.set.retain(...)\<close>, visiting the frames in order.\<close>

fun retain_frames :: "duplicate_window \<Rightarrow> frame list \<Rightarrow> ('e, frame list \<times> duplicate_window) outcome" where
  "retain_frames w [] = Ok ([], w)"
| "retain_frames w (f # fs) = (case reliable_frame_index f of
      None \<Rightarrow> and_then (retain_frames w fs) (\<lambda>(r, w). Ok (f # r, w))
    | Some i \<Rightarrow> and_then (duplicate w i) (\<lambda>(d, w).
        and_then (retain_frames w fs) (\<lambda>(r, w). Ok (if d then r else f # r, w))))"

fun dedup_poll :: "(duplicate_window, codec_error + frame_set, codec_error + frame_set, 'e) poll_fn" where
  "dedup_poll w [] = Ok (Pending, w, [])"
| "dedup_poll w (Pending # s) = Ok (Pending, w, s)"
| "dedup_poll w (Ready None # s) = Ok (Ready None, w, s)"
| "dedup_poll w (Ready (Some (Inl e)) # s) = Ok (Ready (Some (Inl e)), w, s)"
| "dedup_poll w (Ready (Some (Inr fs)) # s) =
     and_then (retain_frames w (fs_set fs)) (\<lambda>(set, w).
       if set \<noteq> [] then Ok (Ready (Some (Inr (fs\<lparr>fs_set := set\<rparr>))), w, s) else dedup_poll w s)"

subsection \<open>Specification: first occurrences\<close>

fun first_seen :: "nat set \<Rightarrow> frame list \<Rightarrow> frame list" where
  "first_seen S [] = []"
| "first_seen S (f # fs) = (case reliable_frame_index f of
      None \<Rightarrow> f # first_seen S fs
    | Some i \<Rightarrow> if to_usize i \<in> S then first_seen S fs else f # first_seen (insert (to_usize i) S) fs)"

definition rel_indices :: "frame list \<Rightarrow> nat list" where
  "rel_indices fs = [to_usize i. f \<leftarrow> fs, i \<leftarrow> (case reliable_frame_index f of None \<Rightarrow> [] | Some i \<Rightarrow> [i])]"

definition frames_of :: "(codec_error + frame_set) script \<Rightarrow> frame list" where
  "frames_of s = concat (map fs_set (ok_items s))"

lemma rel_indices_simps [simp]:
  "rel_indices [] = []"
  "rel_indices (f # fs) = (case reliable_frame_index f of None \<Rightarrow> rel_indices fs | Some i \<Rightarrow> to_usize i # rel_indices fs)"
  "rel_indices (fs @ gs) = rel_indices fs @ rel_indices gs"
  by (simp_all add: rel_indices_def split: option.splits)

lemma frames_of_simps [simp]:
  "frames_of [] = []" "frames_of (Pending # s) = frames_of s" "frames_of (Ready None # s) = frames_of s"
  "frames_of (Ready (Some (Inl e)) # s) = frames_of s" "frames_of (Ready (Some (Inr x)) # s) = fs_set x @ frames_of s"
  "frames_of (s @ t) = frames_of s @ frames_of t"
  by (simp_all add: frames_of_def)

lemma first_seen_append:
  "first_seen S (fs @ gs) = first_seen S fs @ first_seen (S \<union> set (rel_indices fs)) gs"
  by (induction fs arbitrary: S) (auto split: option.splits simp: insert_absorb)

lemma first_seen_distinct:
  "distinct (rel_indices (first_seen S fs)) \<and> set (rel_indices (first_seen S fs)) = set (rel_indices fs) - S"
proof (induction fs arbitrary: S)
  case (Cons f fs)
  show ?case
  proof (cases "reliable_frame_index f")
    case (Some i)
    then show ?thesis using Cons.IH [of S] Cons.IH [of "insert (to_usize i) S"] by auto
  qed (use Cons.IH in simp)
qed simp

text \<open>What still has to come never completes the sequence space.\<close>

definition room :: "duplicate_window \<Rightarrow> nat list \<Rightarrow> bool" where
  "room w is \<longleftrightarrow> (\<exists>m < 2 ^ 24. m \<notin> received w \<and> m \<notin> set is)"

definition indices_ok :: "frame list \<Rightarrow> bool" where
  "indices_ok fs \<longleftrightarrow> (\<forall>n \<in> set (rel_indices fs). n < 2 ^ 24)"

lemma retain_frames_correct:
  assumes "window_inv w" and "indices_ok fs" and "room w (rel_indices fs)"
  shows "\<exists>w'. (retain_frames w fs :: ('e, _) outcome) = Ok (first_seen (received w) fs, w') \<and> window_inv w'
     \<and> received w' = received w \<union> set (rel_indices fs)"
  using assms
proof (induction fs arbitrary: w)
  case Nil
  then show ?case by simp
next
  case (Cons f fs)
  show ?case
  proof (cases "reliable_frame_index f")
    case None
    then show ?thesis using Cons.IH [of w] Cons.prems by (auto simp: indices_ok_def)
  next
    case (Some i)
    have spec: "duplicate_spec w i (duplicate w i :: ('e, _) outcome)"
      using Cons.prems Some by (intro duplicate_correct) (simp_all add: indices_ok_def u24_ok_iff)
    obtain m where m: "m < 2 ^ 24" "m \<notin> insert (to_usize i) (received w)" "m \<notin> set (rel_indices fs)"
      using Cons.prems(3) Some by (auto simp: room_def)
    then have "duplicate w i \<noteq> (Panic :: ('e, _) outcome)"
      using spec by (auto simp: duplicate_spec_def)
    then obtain d w1 where dup: "(duplicate w i :: ('e, _) outcome) = Ok (d, w1)" "d = (to_usize i \<in> received w)"
      "window_inv w1" "received w1 = insert (to_usize i) (received w)"
      using spec by (cases "duplicate w i :: ('e, _) outcome") (auto simp: duplicate_spec_def)
    have "room w1 (rel_indices fs)" using m dup(4) by (auto simp: room_def)
    moreover have "indices_ok fs" using Cons.prems(2) Some by (simp add: indices_ok_def)
    ultimately obtain w2 where "(retain_frames w1 fs :: ('e, _) outcome) = Ok (first_seen (received w1) fs, w2)"
      "window_inv w2" "received w2 = received w1 \<union> set (rel_indices fs)"
      using Cons.IH [OF dup(3)] by blast
    then show ?thesis using Some dup by (auto simp: insert_absorb)
  qed
qed

definition dedup_inv :: "unit \<Rightarrow> duplicate_window \<Rightarrow> (codec_error + frame_set) script \<Rightarrow> bool" where
  "dedup_inv _ w s \<longleftrightarrow> window_inv w \<and> indices_ok (frames_of s) \<and> room w (rel_indices (frames_of s))"

definition dedup_trans :: "unit \<Rightarrow> duplicate_window \<Rightarrow> (codec_error + frame_set) script
    \<Rightarrow> (codec_error + frame_set) script \<Rightarrow> unit \<Rightarrow> duplicate_window \<Rightarrow> bool" where
  "dedup_trans _ w used outs _ w' \<longleftrightarrow>
     frames_of outs = first_seen (received w) (frames_of used)
     \<and> err_items outs = err_items used
     \<and> received w' = received w \<union> set (rel_indices (frames_of used))"

lemma dedup_poll_item:
  assumes "dedup_inv () w (Ready (Some (Inr fs)) # s)"
  obtains w1 where "(retain_frames w (fs_set fs) :: ('e, _) outcome) = Ok (first_seen (received w) (fs_set fs), w1)"
    and "dedup_inv () w1 s" and "received w1 = received w \<union> set (rel_indices (fs_set fs))"
proof -
  have inv: "window_inv w" "indices_ok (fs_set fs)" "room w (rel_indices (fs_set fs))"
    using assms by (auto simp: dedup_inv_def indices_ok_def room_def)
  obtain w1 where ret: "(retain_frames w (fs_set fs) :: ('e, _) outcome) = Ok (first_seen (received w) (fs_set fs), w1)"
    "window_inv w1" "received w1 = received w \<union> set (rel_indices (fs_set fs))"
    using retain_frames_correct [OF inv] by blast
  have "dedup_inv () w1 s"
    using assms ret by (auto simp: dedup_inv_def indices_ok_def room_def)
  with ret that show thesis by blast
qed

definition dedup_step :: "duplicate_window \<Rightarrow> (codec_error + frame_set) script \<Rightarrow>
  ('e, (codec_error + frame_set) option poll \<times> duplicate_window \<times> (codec_error + frame_set) script) outcome \<Rightarrow> bool" where
  "dedup_step w s res \<longleftrightarrow> (\<exists>r w' used s'. res = Ok (r, w', s') \<and> s = used @ s' \<and> dedup_inv () w' s'
     \<and> dedup_trans () w used [r] () w' \<and> length s' \<le> length s - 1)"

lemma dedup_stepI:
  "res = Ok (r, w', s') \<Longrightarrow> s = used @ s' \<Longrightarrow> dedup_inv () w' s' \<Longrightarrow> dedup_trans () w used [r] () w'
    \<Longrightarrow> length s' \<le> length s - 1 \<Longrightarrow> dedup_step w s res"
  unfolding dedup_step_def by blast

lemma dedup_poll_law: "dedup_inv () w s \<Longrightarrow> dedup_step w s (dedup_poll w s :: ('e, _) outcome)"
proof (induction s arbitrary: w)
  case Nil
  then show ?case by (intro dedup_stepI [where used = "[]"]) (auto simp: dedup_trans_def)
next
  case (Cons x s)
  show ?case
  proof (cases x rule: result_poll_cases)
    case (item fs)
    obtain w1 where ret: "(retain_frames w (fs_set fs) :: ('e, _) outcome) = Ok (first_seen (received w) (fs_set fs), w1)"
      "dedup_inv () w1 s" "received w1 = received w \<union> set (rel_indices (fs_set fs))"
      using dedup_poll_item Cons.prems item by blast
    show ?thesis
    proof (cases "first_seen (received w) (fs_set fs) = []")
      case True
      obtain r w' used s' where *: "(dedup_poll w1 s :: ('e, _) outcome) = Ok (r, w', s')" "s = used @ s'"
        "dedup_inv () w' s'" "dedup_trans () w1 used [r] () w'" "length s' \<le> length s - 1"
        using Cons.IH [OF ret(2)] unfolding dedup_step_def by blast
      show ?thesis
        by (rule dedup_stepI [where used = "x # used", OF _ _ *(3)])
          (use * ret True item in \<open>auto simp: dedup_trans_def first_seen_append\<close>)
    next
      case False
      then show ?thesis
        using ret item by (intro dedup_stepI [where used = "[x]" and s' = s and w' = w1]) (auto simp: dedup_trans_def)
    qed
  qed (use Cons.prems in \<open>auto intro!: dedup_stepI [where used = "[x]"] simp: dedup_trans_def dedup_inv_def\<close>)
qed

interpretation dedup: layer dedup_poll dedup_inv dedup_trans "\<lambda>_ _ s. length s"
  using dedup_poll_law
  by unfold_locales (auto simp: dedup_step_def, auto simp: dedup_trans_def first_seen_append Un_assoc)

subsection \<open>Properties\<close>

text \<open>
  C5: the window refines a set.  From any window satisfying the invariant, \<open>duplicate\<close> answers whether
  the number was received before, and afterwards the window stands for the set with that number
  added; it panics only when this completes the whole 24-bit sequence space.
\<close>

theorem duplicate_refines_set:
  assumes "window_inv w" and "u24_ok s"
  shows "(case (duplicate w s :: (codec_error, _) outcome) of
      Ok (d, w') \<Rightarrow> (d \<longleftrightarrow> to_usize s \<in> received w) \<and> window_inv w' \<and> received w' = insert (to_usize s) (received w)
    | Err _ \<Rightarrow> False
    | Panic \<Rightarrow> {..<2 ^ 24} \<subseteq> insert (to_usize s) (received w))"
  using duplicate_correct [OF assms, where 'e = codec_error] by (simp add: duplicate_spec_def)

theorem duplicate_refines_set_witness:
  "case (duplicate window_default (U24 3) :: (codec_error, _) outcome) of
     Ok (d, w') \<Rightarrow> \<not> d \<and> window_inv w' \<and> received w' = {3} | Err _ \<Rightarrow> False | Panic \<Rightarrow> {..<2 ^ 24} \<subseteq> {3 :: nat}"
  using duplicate_refines_set [OF window_default_correct(1), of "U24 3"]
  by (simp add: window_default_correct u24_ok_def to_usize_def cong: outcome.case_cong prod.case_cong split: outcome.splits)

text \<open>
  C4: exactly-once delivery of reliable frames.  Polling the layer any number of times on any stream
  whose reliable indices fit 24 bits and miss at least one number never fails, as many polls as the
  stream has steps consume all of it, and the frames it has delivered are precisely the first occurrences among the frames it has consumed, in order, so no
  reliable index is delivered twice and none that arrived is withheld; errors pass through.
\<close>

theorem dedup_exactly_once:
  assumes "\<forall>i \<in> set (rel_indices (frames_of s)). i < 2 ^ 24"
    and "m < 2 ^ 24" and "m \<notin> set (rel_indices (frames_of s))"
  shows "\<exists>outs w used rest. polls n dedup_poll window_default s = (Ok (outs, w, rest) :: (codec_error, _) outcome)
     \<and> s = used @ rest \<and> length outs = n \<and> (length s \<le> n \<longrightarrow> rest = [])
     \<and> frames_of outs = first_seen {} (frames_of used)
     \<and> distinct (rel_indices (frames_of outs))
     \<and> set (rel_indices (frames_of outs)) = set (rel_indices (frames_of used))
     \<and> err_items outs = err_items used"
proof -
  have "dedup_inv () window_default s"
    using assms by (auto simp: dedup_inv_def window_default_correct indices_ok_def room_def)
  then obtain outs w used rest g where
    *: "polls n dedup_poll window_default s = (Ok (outs, w, rest) :: (codec_error, _) outcome)" "s = used @ rest"
    "length outs = n" "dedup_trans () window_default used outs g w" "length rest \<le> length s - n"
    using dedup.polls_law by blast
  then have "length s \<le> n \<longrightarrow> rest = []" by auto
  then show ?thesis
    by - (rule exI [of _ outs], rule exI [of _ w], rule exI [of _ used], rule exI [of _ rest],
      use * first_seen_distinct [of "{}" "frames_of used"] in
        \<open>simp add: dedup_trans_def window_default_correct(2)\<close>)
qed

definition sample_reliable :: "nat \<Rightarrow> frame" where
  "sample_reliable i = \<lparr> f_flags = flags_new Reliable False, reliable_frame_index = Some (u24_of i),
     seq_frame_index = None, f_ordered = None, f_fragment = None, f_body = [0xfe] \<rparr>"

definition sample_stream :: "(codec_error + frame_set) script" where
  "sample_stream = [Ready (Some (Inr \<lparr> fs_seq_num = U24 0, fs_set = [sample_reliable 1, sample_reliable 0] \<rparr>)),
     Pending, Ready (Some (Inr \<lparr> fs_seq_num = U24 1, fs_set = [sample_reliable 1] \<rparr>))]"

theorem dedup_exactly_once_witness:
  "\<exists>outs w used rest. polls 3 dedup_poll window_default sample_stream = (Ok (outs, w, rest) :: (codec_error, _) outcome)
     \<and> sample_stream = used @ rest \<and> length outs = 3 \<and> (length sample_stream \<le> 3 \<longrightarrow> rest = []) \<and> frames_of outs = first_seen {} (frames_of used)
     \<and> distinct (rel_indices (frames_of outs))
     \<and> set (rel_indices (frames_of outs)) = set (rel_indices (frames_of used)) \<and> err_items outs = err_items used"
  by (rule dedup_exactly_once [where m = 2]) (simp_all add: sample_stream_def sample_reliable_def)

end
