(* ===== verification/Defragment.thy ===== *)
theory Defragment
  imports Lru_Api Dedup
begin

text \<open>
  The defragmentation layer of \<open>src/src/codec/decoder/fragment.rs\<close>: parts of a split frame are
  collected per parted id in an LRU cache of heaps and merged in the order of their index once as many
  as announced have arrived.  \<open>reassemble\<close> is the specification: which frames a sequence of frames
  gives rise to.
\<close>

subsection \<open>State and operations\<close>

text \<open>A frame set with a single frame, \<open>FrameSet<Frame>\<close>.\<close>

record single_frame_set =
  sf_seq_num :: u24
  sf_set :: frame

record frame_part =
  part_index :: u32
  part_frame :: frame

text \<open>
  \<open>BinaryHeap<FramePart>\<close> ordered by \<open>Reverse(parted_index)\<close>: the list of what was pushed;
  \<open>into_iter_sorted\<close> visits the parts by increasing index.
\<close>

type_synonym part_heap = "frame_part list"

definition heap_push :: "part_heap \<Rightarrow> frame_part \<Rightarrow> part_heap" where
  "heap_push h p = h @ [p]"

definition into_iter_sorted :: "part_heap \<Rightarrow> frame_part list" where
  "into_iter_sorted h = sort_key part_index h"

record 'c defragment =
  limit_size :: u32
  parts :: 'c
  buffer :: "single_frame_set list"

definition DEFAULT_DEFRAGMENT_BUF_SIZE :: nat where
  "DEFAULT_DEFRAGMENT_BUF_SIZE = 512"

definition defragmented :: "('c, u16, part_heap) lru_api \<Rightarrow> u32 \<Rightarrow> nat \<Rightarrow> ('e, 'c defragment) outcome" where
  "defragmented A limit limit_parted =
     (if limit_parted = 0 then Panic
      else Ok \<lparr> limit_size = limit, parts = lru_new A limit_parted, buffer = [] \<rparr>)"

text \<open>\<open>.map(|part| part.frame).reduce(|acc, next| { acc.body.put(next.body); acc })\<close>.\<close>

fun merge_frames :: "frame list \<Rightarrow> frame option" where
  "merge_frames [] = None"
| "merge_frames (f # fs) = Some (foldl (\<lambda>acc next. acc\<lparr>f_body := f_body acc @ f_body next\<rparr>) f fs)"

text \<open>
  The loop \<open>for frame in frame_set.set\<close>: the first component of the result is the error with which
  \<open>poll_next\<close> returns early, the second the state at that point.
\<close>

fun defrag_frames :: "('c, u16, part_heap) lru_api \<Rightarrow> u24 \<Rightarrow> frame list \<Rightarrow> 'c defragment
    \<Rightarrow> ('e, codec_error option \<times> 'c defragment) outcome" where
  "defrag_frames A seq_num [] st = Ok (None, st)"
| "defrag_frames A seq_num (f # fs) st = (case f_fragment f of
      Some g \<Rightarrow>
        if parted_size g \<le> parted_index g then
          Ok (Some (PartedFrame (''parted_index '' @ decimal (unat (parted_index g)) @ '' >= parted_size ''
                @ decimal (unat (parted_size g)))), st)
        else if limit_size st \<noteq> 0 \<and> limit_size st < parted_size g then
          Ok (Some (PartedFrame (''parted_size '' @ decimal (unat (parted_size g)) @ '' exceed limit_size ''
                @ decimal (unat (limit_size st)))), st)
        else (case lru_modify A (parts st) (parted_id g) []
                  (\<lambda>q. heap_push q \<lparr> part_index = parted_index g, part_frame = f \<rparr>) of
            (frames_queue, parts1) \<Rightarrow>
              let st = st\<lparr>parts := parts1\<rparr> in
              if length frames_queue < unat (parted_size g) then defrag_frames A seq_num fs st
              else (case lru_pop A (parts st) (parted_id g) of
                  (None, _) \<Rightarrow> Panic
                | (Some h, parts2) \<Rightarrow>
                    (case merge_frames (map part_frame (into_iter_sorted h)) of
                        None \<Rightarrow> Panic
                      | Some merged \<Rightarrow>
                          defrag_frames A seq_num fs (st\<lparr>parts := parts2,
                            buffer := buffer st @ [\<lparr> sf_seq_num = seq_num, sf_set = reassembled merged \<rparr>]\<rparr>))))
    | None \<Rightarrow> defrag_frames A seq_num fs (st\<lparr>buffer := buffer st @ [\<lparr> sf_seq_num = seq_num, sf_set = f \<rparr>]\<rparr>))"

fun defrag_poll :: "('c, u16, part_heap) lru_api
    \<Rightarrow> ('c defragment, codec_error + frame_set, codec_error + single_frame_set, 'e) poll_fn" where
  "defrag_poll A st s = (case buffer st of
      x # bs \<Rightarrow> Ok (Ready (Some (Inr x)), st\<lparr>buffer := bs\<rparr>, s)
    | [] \<Rightarrow> (case s of
        [] \<Rightarrow> Ok (Pending, st, [])
      | Pending # s \<Rightarrow> Ok (Pending, st, s)
      | Ready None # s \<Rightarrow> Ok (Ready None, st, s)
      | Ready (Some (Inl e)) # s \<Rightarrow> Ok (Ready (Some (Inl e)), st, s)
      | Ready (Some (Inr fs)) # s \<Rightarrow>
          and_then (defrag_frames A (fs_seq_num fs) (fs_set fs) st) (\<lambda>(err, st).
            case err of
              Some e \<Rightarrow> Ok (Ready (Some (Inl e)), st, s)
            | None \<Rightarrow> defrag_poll A st s)))"

declare defrag_poll.simps [simp del]

subsection \<open>Specification\<close>

definition has_pid :: "u16 \<Rightarrow> frame \<Rightarrow> bool" where
  "has_pid p f \<longleftrightarrow> (case f_fragment f of None \<Rightarrow> False | Some g \<Rightarrow> parted_id g = p)"

definition frame_idx :: "frame \<Rightarrow> u32" where
  "frame_idx f = (case f_fragment f of None \<Rightarrow> 0 | Some g \<Rightarrow> parted_index g)"

text \<open>The merged frame: the first part without its fragment header, with all bodies in index order.\<close>

definition merged :: "frame list \<Rightarrow> frame" where
  "merged ps = (let xs = sort_key frame_idx ps in
     reassembled ((hd xs)\<lparr>f_body := concat (map f_body xs)\<rparr>))"

text \<open>
  What the frames \<open>fs\<close> give rise to after the frames \<open>seen\<close>: an unsplit frame itself, and the merged
  frame at the part that completes its set.
\<close>

fun reassemble :: "frame list \<Rightarrow> frame list \<Rightarrow> frame list" where
  "reassemble seen [] = []"
| "reassemble seen (f # fs) =
     (case f_fragment f of
        None \<Rightarrow> [f]
      | Some g \<Rightarrow>
          let ps = filter (has_pid (parted_id g)) (seen @ [f])
          in if length ps = unat (parted_size g) then [merged ps] else [])
     @ reassemble (seen @ [f]) fs"

lemma reassemble_append: "reassemble seen (fs @ gs) = reassemble seen fs @ reassemble (seen @ fs) gs"
  by (induction fs arbitrary: seen) simp_all

text \<open>
  A consistent stream of parts: the parts of one id agree on their number, respect the limit, have
  indices below it, and no index occurs twice; and no more ids are in use than the cache holds.
\<close>

definition frags :: "frame list \<Rightarrow> fragment list" where
  "frags fs = concat (map (\<lambda>f. case f_fragment f of None \<Rightarrow> [] | Some g \<Rightarrow> [g]) fs)"

definition parts_ok :: "u32 \<Rightarrow> nat \<Rightarrow> frame list \<Rightarrow> bool" where
  "parts_ok limit cap fs \<longleftrightarrow>
     (\<forall>g \<in> set (frags fs). parted_index g < parted_size g \<and> (limit = 0 \<or> parted_size g \<le> limit))
     \<and> (\<forall>g \<in> set (frags fs). \<forall>g' \<in> set (frags fs). parted_id g = parted_id g' \<longrightarrow> parted_size g = parted_size g')
     \<and> distinct (map (\<lambda>g. (parted_id g, parted_index g)) (frags fs))
     \<and> card (parted_id ` set (frags fs)) \<le> cap"

lemma frags_simps [simp]:
  "frags [] = []" "frags (f # fs) = (case f_fragment f of None \<Rightarrow> [] | Some g \<Rightarrow> [g]) @ frags fs"
  "frags (fs @ gs) = frags fs @ frags gs"
  by (simp_all add: frags_def)

lemma parts_ok_prefix: "parts_ok limit cap (fs @ gs) \<Longrightarrow> parts_ok limit cap fs"
proof -
  assume ok: "parts_ok limit cap (fs @ gs)"
  have "card (parted_id ` set (frags fs)) \<le> card (parted_id ` set (frags (fs @ gs)))"
    by (rule card_mono) auto
  then show ?thesis using ok by (simp add: parts_ok_def)
qed

definition pid_parts :: "u16 \<Rightarrow> frame list \<Rightarrow> frame list" where
  "pid_parts p fs = filter (has_pid p) fs"

lemma has_pid_iff: "has_pid p f \<longleftrightarrow> (\<exists>g. f_fragment f = Some g \<and> parted_id g = p)"
  by (auto simp: has_pid_def split: option.splits)

lemma in_frags: "g \<in> set (frags fs) \<longleftrightarrow> (\<exists>f \<in> set fs. f_fragment f = Some g)"
  by (induction fs) (auto split: option.splits)

lemma pid_parts_idx:
  "map frame_idx (pid_parts p fs) = map parted_index (filter (\<lambda>g. parted_id g = p) (frags fs))"
  by (induction fs) (auto simp: pid_parts_def has_pid_def frame_idx_def split: option.splits)

lemma distinct_filter_snd:
  "distinct (map (\<lambda>g. (parted_id g, parted_index g)) gs) \<Longrightarrow> distinct (map parted_index (filter (\<lambda>g. parted_id g = p) gs))"
  by (induction gs) (auto simp: image_iff)

lemma distinct_pid_parts: "parts_ok limit cap fs \<Longrightarrow> distinct (map frame_idx (pid_parts p fs))"
  unfolding pid_parts_idx by (rule distinct_filter_snd) (simp add: parts_ok_def)

lemma pid_parts_bound:
  assumes "parts_ok limit cap fs" and "g \<in> set (frags fs)"
  shows "length (pid_parts (parted_id g) fs) \<le> unat (parted_size g)"
proof -
  let ?is = "map unat (map frame_idx (pid_parts (parted_id g) fs))"
  have d: "distinct ?is"
    using distinct_pid_parts [OF assms(1), of "parted_id g"]
    by (subst distinct_map) (simp add: inj_on_def flip: word_unat_eq_iff)
  have "set ?is \<subseteq> {..<unat (parted_size g)}"
  proof
    fix n assume "n \<in> set ?is"
    then obtain h where "h \<in> set (frags fs)" "parted_id h = parted_id g" "n = unat (parted_index h)"
      unfolding pid_parts_idx by auto
    moreover have "parted_index h < parted_size h" "parted_size h = parted_size g"
      using calculation assms unfolding parts_ok_def by blast+
    ultimately show "n \<in> {..<unat (parted_size g)}" by (simp add: word_less_nat_alt)
  qed
  then have "card (set ?is) \<le> unat (parted_size g)" using card_mono [of "{..<unat (parted_size g)}"] by fastforce
  then show ?thesis using distinct_card [OF d] by simp
qed

subsection \<open>Merging\<close>

definition mk_part :: "frame \<Rightarrow> frame_part" where
  "mk_part f = \<lparr> part_index = frame_idx f, part_frame = f \<rparr>"

lemma insort_key_map: "insort_key k (h x) (map h xs) = map h (insort_key (\<lambda>y. k (h y)) x xs)"
  by (induction xs) auto

lemma sort_key_map: "sort_key k (map h xs) = map h (sort_key (\<lambda>y. k (h y)) xs)"
  by (induction xs) (simp_all add: insort_key_map)

lemma foldl_bodies:
  "foldl (\<lambda>acc next. acc\<lparr>f_body := f_body acc @ f_body next\<rparr>) f fs = f\<lparr>f_body := f_body f @ concat (map f_body fs)\<rparr>"
  by (induction fs arbitrary: f) simp_all

lemma merge_frames_eq: "xs \<noteq> [] \<Longrightarrow> merge_frames xs = Some ((hd xs)\<lparr>f_body := concat (map f_body xs)\<rparr>)"
  by (cases xs) (simp_all add: foldl_bodies)

lemma merge_parts:
  assumes "ps \<noteq> []"
  shows "\<exists>m. merge_frames (map part_frame (into_iter_sorted (map mk_part ps))) = Some m \<and> reassembled m = merged ps"
proof -
  have "map part_frame (into_iter_sorted (map mk_part ps)) = sort_key frame_idx ps"
    by (simp add: into_iter_sorted_def sort_key_map comp_def mk_part_def)
  moreover have "sort_key frame_idx ps \<noteq> []" using assms by (metis length_0_conv length_sort)
  ultimately show ?thesis by (simp add: merge_frames_eq merged_def Let_def)
qed

subsection \<open>Refinement\<close>

text \<open>
  The cache holds, for every id seen, the parts received so far, unless the set is complete.
\<close>

definition pending :: "frame list \<Rightarrow> u16 \<Rightarrow> part_heap option" where
  "pending seen p = (case pid_parts p seen of
      [] \<Rightarrow> None
    | f # fs \<Rightarrow> (case f_fragment f of None \<Rightarrow> None | Some g \<Rightarrow>
        if length (f # fs) = unat (parted_size g) then None else Some (map mk_part (f # fs))))"

definition defrag_inv :: "('c, u16, part_heap) lru_api \<Rightarrow> ('c \<Rightarrow> bool) \<Rightarrow> u32 \<Rightarrow> frame list \<Rightarrow> 'c defragment \<Rightarrow> frame list \<Rightarrow> bool" where
  "defrag_inv A ok limit seen st fs \<longleftrightarrow>
     limit_size st = limit \<and> ok (parts st) \<and> lru_peek A (parts st) = pending seen
     \<and> parts_ok limit (lru_cap A (parts st)) (seen @ fs)"

lemma pid_parts_snoc:
  "pid_parts p (seen @ [f]) = pid_parts p seen @ (if has_pid p f then [f] else [])"
  by (simp add: pid_parts_def)

lemma pending_eq:
  assumes ok: "parts_ok limit cap seen" and g: "g \<in> set (frags seen)"
  shows "pending seen (parted_id g) = (if length (pid_parts (parted_id g) seen) = unat (parted_size g) then None
     else Some (map mk_part (pid_parts (parted_id g) seen)))"
proof -
  obtain f fs where fs: "pid_parts (parted_id g) seen = f # fs"
    using g by (cases "pid_parts (parted_id g) seen") (auto simp: pid_parts_def in_frags has_pid_iff filter_empty_conv)
  then have "f \<in> set (pid_parts (parted_id g) seen)" by simp
  then obtain h where h: "f \<in> set seen" "f_fragment f = Some h" "parted_id h = parted_id g"
    by (auto simp: pid_parts_def has_pid_iff)
  then have "h \<in> set (frags seen)" by (auto simp: in_frags)
  then have "parted_size h = parted_size g" using ok g h(3) unfolding parts_ok_def by blast
  then show ?thesis using h(2) fs by (simp add: pending_def)
qed

lemma pending_unseen: "pid_parts p seen = [] \<Longrightarrow> pending seen p = None"
  by (simp add: pending_def)

lemma pending_snoc_other: "\<not> has_pid p f \<Longrightarrow> pending (seen @ [f]) p = pending seen p"
  by (simp add: pending_def pid_parts_snoc)

lemma pending_dom: "dom (pending seen) \<subseteq> parted_id ` set (frags seen)"
proof
  fix p assume "p \<in> dom (pending seen)"
  then have "pid_parts p seen \<noteq> []" by (auto simp: pending_def)
  then obtain f where "f \<in> set seen" "has_pid p f" by (auto simp: pid_parts_def filter_empty_conv)
  then obtain g where "g \<in> set (frags seen)" "parted_id g = p" by (auto simp: has_pid_iff in_frags)
  then show "p \<in> parted_id ` set (frags seen)" by blast
qed

text \<open>What the arrival of a part does to the parts of its id.\<close>

lemma pending_before:
  assumes ok: "parts_ok limit cap (seen @ f # fs)" and f: "f_fragment f = Some g"
  defines "p \<equiv> parted_id g"
  shows "length (pid_parts p seen) < unat (parted_size g)"
    and "(case pending seen p of None \<Rightarrow> [] | Some q \<Rightarrow> q) = map mk_part (pid_parts p seen)"
    and "p \<in> dom (pending seen) \<or> card (dom (pending seen)) < cap"
proof -
  have ok1: "parts_ok limit cap (seen @ [f])" using ok parts_ok_prefix [of limit cap "seen @ [f]" fs] by simp
  have "length (pid_parts p (seen @ [f])) \<le> unat (parted_size g)"
    unfolding p_def by (rule pid_parts_bound [OF ok1]) (simp add: f)
  then show lt: "length (pid_parts p seen) < unat (parted_size g)"
    by (simp add: pid_parts_snoc has_pid_iff f p_def)
  have known: "pending seen p = Some (map mk_part (pid_parts p seen))" if "pid_parts p seen \<noteq> []"
  proof -
    from that obtain f' where "f' \<in> set seen" "has_pid p f'" by (auto simp: pid_parts_def filter_empty_conv)
    then obtain h where h: "h \<in> set (frags seen)" "parted_id h = p" by (auto simp: has_pid_iff in_frags)
    moreover have "g \<in> set (frags (seen @ [f]))" by (simp add: f)
    moreover have "h \<in> set (frags (seen @ [f]))" using h by simp
    ultimately have "parted_size h = parted_size g" using ok1 unfolding parts_ok_def p_def by blast
    then show ?thesis using pending_eq [OF parts_ok_prefix [OF ok1] h(1)] h(2) lt by simp
  qed
  then show "(case pending seen p of None \<Rightarrow> [] | Some q \<Rightarrow> q) = map mk_part (pid_parts p seen)"
    by (cases "pid_parts p seen = []") (simp_all add: pending_unseen)
  show "p \<in> dom (pending seen) \<or> card (dom (pending seen)) < cap"
  proof (cases "pid_parts p seen = []")
    case True
    then have "p \<notin> parted_id ` set (frags seen)"
      by (fastforce simp: pid_parts_def filter_empty_conv in_frags has_pid_iff)
    then have "dom (pending seen) \<subset> parted_id ` set (frags (seen @ [f]))"
      using pending_dom [of seen] f unfolding p_def by auto
    then have "card (dom (pending seen)) < card (parted_id ` set (frags (seen @ [f])))"
      by (intro psubset_card_mono) auto
    then show ?thesis using ok1 unfolding parts_ok_def by linarith
  qed (use known in blast)
qed

lemma pending_after:
  assumes ok: "parts_ok limit cap (seen @ f # fs)" and f: "f_fragment f = Some g"
  defines "p \<equiv> parted_id g"
  shows "pending (seen @ [f]) = (pending seen)
     (p := if Suc (length (pid_parts p seen)) = unat (parted_size g) then None else Some (map mk_part (pid_parts p seen @ [f])))"
proof
  fix q
  have ok1: "parts_ok limit cap (seen @ [f])" using ok parts_ok_prefix [of limit cap "seen @ [f]" fs] by simp
  show "pending (seen @ [f]) q = ((pending seen)
     (p := if Suc (length (pid_parts p seen)) = unat (parted_size g) then None else Some (map mk_part (pid_parts p seen @ [f])))) q"
    using pending_eq [OF ok1, of g] f
    by (cases "q = p") (simp_all add: p_def pid_parts_snoc has_pid_iff pending_snoc_other)
qed

text \<open>A part of the message \<open>p\<close>, which announces \<open>n\<close> parts, within the limit.\<close>

definition part_of :: "u16 \<Rightarrow> u32 \<Rightarrow> u32 \<Rightarrow> frame \<Rightarrow> bool" where
  "part_of p n limit f \<longleftrightarrow> (case f_fragment f of
      None \<Rightarrow> False
    | Some g \<Rightarrow> parted_id g = p \<and> parted_size g = n \<and> parted_index g < n \<and> (limit = 0 \<or> n \<le> limit))"

lemma missing_index:
  assumes "\<forall>f \<in> set fs. part_of p n limit f" and "length fs = unat n" and "\<not> distinct (map frame_idx fs)"
  shows "\<exists>i < n. i \<notin> frame_idx ` set fs"
proof (rule ccontr)
  assume "\<not> (\<exists>i < n. i \<notin> frame_idx ` set fs)"
  then have "{i. i < n} \<subseteq> frame_idx ` set fs" by blast
  then have "card {i. i < n} \<le> card (frame_idx ` set fs)" by (intro card_mono) simp_all
  moreover have "card {i. i < n} = unat n"
  proof -
    have "unat ` {i. i < n} = {..<unat n}"
    proof
      show "{..<unat n} \<subseteq> unat ` {i. i < n}"
      proof
        fix k assume "k \<in> {..<unat n}"
        then have lt: "k < unat n" by simp
        then have "unat (word_of_nat k :: u32) = k"
          using unsigned_less [of n, where 'a = nat] by (simp add: unsigned_of_nat take_bit_nat_eq_self)
        then show "k \<in> unat ` {i. i < n}" by (metis lt imageI mem_Collect_eq word_less_nat_alt)
      qed
    qed (auto simp: word_less_nat_alt)
    then show ?thesis using card_image [of unat "{i. i < n}"] by (simp add: inj_on_def word_unat_eq_iff)
  qed
  moreover have "card (set (map frame_idx fs)) < length fs"
    using assms(3) card_length [of "map frame_idx fs"] card_distinct [of "map frame_idx fs"] by (metis length_map le_neq_implies_less)
  ultimately show False using assms(2) by simp
qed

text \<open>The cache of heaps the layer is built on.\<close>

locale part_cache = lru_laws A ok
  for A :: "('c, u16, part_heap) lru_api" and ok :: "'c \<Rightarrow> bool"
begin

lemma defrag_part:
  assumes inv: "defrag_inv A ok limit seen st (f # fs)" and f: "f_fragment f = Some g"
  obtains st1 where "defrag_inv A ok limit (seen @ [f]) st1 fs"
    and "buffer st1 = buffer st @ map (\<lambda>x. \<lparr> sf_seq_num = seq, sf_set = x \<rparr>) (reassemble seen [f])"
    and "\<And>gs. (defrag_frames A seq (f # gs) st :: ('e, _) outcome) = defrag_frames A seq gs st1"
proof -
  let ?p = "parted_id g" and ?ps = "pid_parts (parted_id g) seen"
  obtain q c where m: "lru_modify A (parts st) ?p [] (\<lambda>q. heap_push q \<lparr> part_index = parted_index g, part_frame = f \<rparr>) = (q, c)"
    by fastforce
  have st: "limit_size st = limit" "ok (parts st)" "lru_peek A (parts st) = pending seen"
    "parts_ok limit (lru_cap A (parts st)) (seen @ f # fs)"
    using inv by (simp_all add: defrag_inv_def)
  have g: "parted_index g < parted_size g" "limit = 0 \<or> parted_size g \<le> limit"
    using st(4) f by (simp_all add: parts_ok_def)
  note before = pending_before [OF st(4) f] and after = pending_after [OF st(4) f]
  have part: "\<lparr> part_index = parted_index g, part_frame = f \<rparr> = mk_part f"
    using f by (simp add: mk_part_def frame_idx_def)
  have q: "q = map mk_part (?ps @ [f])"
    using modify_val [OF st(2) m] before(2) by (simp add: st(3) heap_push_def part)
  have c: "lru_peek A c = (pending seen)(?p \<mapsto> q)" "ok c" "lru_cap A c = lru_cap A (parts st)"
    using modify_upd [OF st(2) m] before(3) modify_ok [OF st(2) m] by (simp_all add: st(3))
  have guard: "\<not> parted_size g \<le> parted_index g" "\<not> (limit_size st \<noteq> 0 \<and> limit_size st < parted_size g)"
    using g st(1) by auto
  have ps: "filter (has_pid ?p) (seen @ [f]) = ?ps @ [f]" using f by (simp add: pid_parts_def has_pid_iff)
  show thesis
  proof (cases "Suc (length ?ps) = unat (parted_size g)")
    case False
    then have lt: "length q < unat (parted_size g)" using before(1) q by simp
    show thesis
    proof (rule that [of "st\<lparr>parts := c\<rparr>"])
      show "defrag_inv A ok limit (seen @ [f]) (st\<lparr>parts := c\<rparr>) fs"
        using st c False q after by (simp add: defrag_inv_def)
    qed (use f lt guard m False ps in \<open>auto simp: Let_def\<close>)
  next
    case True
    obtain r c2 where pop: "lru_pop A c ?p = (r, c2)" by fastforce
    obtain mf where mf: "merge_frames (map part_frame (into_iter_sorted (map mk_part (?ps @ [f])))) = Some mf"
      "reassembled mf = merged (?ps @ [f])" using merge_parts [of "?ps @ [f]"] by auto
    have c2: "r = Some q" "lru_peek A c2 = (pending seen)(?p := None)" "ok c2" "lru_cap A c2 = lru_cap A (parts st)"
      using pop_val [OF c(2) pop] pop_ok [OF c(2) pop] c by simp_all
    let ?st = "st\<lparr>parts := c2, buffer := buffer st @ [\<lparr> sf_seq_num = seq, sf_set = merged (?ps @ [f]) \<rparr>]\<rparr>"
    show thesis
    proof (rule that [of ?st])
      show "defrag_inv A ok limit (seen @ [f]) ?st fs"
        using st c2 True after by (simp add: defrag_inv_def)
    qed (use f guard m True ps pop c2(1) q mf in \<open>auto simp: Let_def\<close>)
  qed
qed

lemma defrag_frames_correct:
  "defrag_inv A ok limit seen st (fs @ gs) \<Longrightarrow>
   \<exists>st'. (defrag_frames A seq fs st :: ('e, _) outcome) = Ok (None, st') \<and> defrag_inv A ok limit (seen @ fs) st' gs
     \<and> buffer st' = buffer st @ map (\<lambda>x. \<lparr> sf_seq_num = seq, sf_set = x \<rparr>) (reassemble seen fs)"
proof (induction fs arbitrary: seen st)
  case Nil
  then show ?case by simp
next
  case (Cons f fs)
  show ?case
  proof (cases "f_fragment f")
    case None
    let ?st = "st\<lparr>buffer := buffer st @ [\<lparr> sf_seq_num = seq, sf_set = f \<rparr>]\<rparr>"
    have "pending (seen @ [f]) = pending seen" by (rule ext, rule pending_snoc_other) (simp add: has_pid_iff None)
    then have "defrag_inv A ok limit (seen @ [f]) ?st (fs @ gs)" using Cons.prems by (simp add: defrag_inv_def)
    from Cons.IH [OF this] show ?thesis using None by simp
  next
    case (Some g)
    have "defrag_inv A ok limit seen st (f # fs @ gs)" using Cons.prems by simp
    then obtain st1 where st1: "defrag_inv A ok limit (seen @ [f]) st1 (fs @ gs)"
      "buffer st1 = buffer st @ map (\<lambda>x. \<lparr> sf_seq_num = seq, sf_set = x \<rparr>) (reassemble seen [f])"
      "\<And>gs. (defrag_frames A seq (f # gs) st :: ('e, _) outcome) = defrag_frames A seq gs st1"
      using defrag_part [OF _ Some, where 'e = 'e and seq = seq] by metis
    from Cons.IH [OF st1(1)] show ?thesis
      using st1(2) reassemble_append [of seen "[f]" fs] by (simp del: defrag_frames.simps reassemble.simps add: st1(3))
  qed
qed

text \<open>The parts of one id, none of them held yet: the last of as many as they announce completes the set.\<close>

lemma complete_by_count:
  assumes "ok (parts st)" and "(case lru_peek A (parts st) p of None \<Rightarrow> [] | Some q \<Rightarrow> q) = map mk_part pre"
    and "fs \<noteq> []" and "length pre + length fs = unat n" and "\<forall>f \<in> set fs. part_of p n (limit_size st) f"
  shows "\<exists>st'. (defrag_frames A seq fs st :: ('e, _) outcome) = Ok (None, st') \<and> lru_peek A (parts st') p = None
     \<and> buffer st' = buffer st @ [\<lparr> sf_seq_num = seq, sf_set = merged (pre @ fs) \<rparr>]"
  using assms
proof (induction fs arbitrary: pre st)
  case (Cons f fs)
  obtain g where g: "f_fragment f = Some g" "parted_id g = p" "parted_size g = n" "\<not> n \<le> parted_index g"
    "\<not> (limit_size st \<noteq> 0 \<and> limit_size st < n)"
  proof -
    have "part_of p n (limit_size st) f" using Cons.prems(5) by simp
    then show thesis using that by (cases "f_fragment f") (auto simp: part_of_def not_le not_less)
  qed
  obtain q c where m: "lru_modify A (parts st) p [] (\<lambda>q. heap_push q \<lparr> part_index = parted_index g, part_frame = f \<rparr>) = (q, c)"
    by fastforce
  have part: "\<lparr> part_index = parted_index g, part_frame = f \<rparr> = mk_part f" using g(1) by (simp add: mk_part_def frame_idx_def)
  have q: "q = map mk_part (pre @ [f])" and c: "lru_peek A c p = Some q" "ok c"
    using modify_val [OF Cons.prems(1) m] modify_ok [OF Cons.prems(1) m] Cons.prems(2) by (simp_all add: heap_push_def part)
  show ?case
  proof (cases "fs = []")
    case False
    then have "length q < unat n" using q Cons.prems(4) by (cases fs) simp_all
    then have "(defrag_frames A seq (f # fs) st :: ('e, _) outcome) = defrag_frames A seq fs (st\<lparr>parts := c\<rparr>)"
      using g m by (auto simp: Let_def)
    then show ?thesis using Cons.IH [of "st\<lparr>parts := c\<rparr>" "pre @ [f]"] False c q Cons.prems(4,5) by simp
  next
    case True
    obtain r c2 where pop: "lru_pop A c p = (r, c2)" by fastforce
    obtain mf where mf: "merge_frames (map part_frame (into_iter_sorted (map mk_part (pre @ [f])))) = Some mf"
      "reassembled mf = merged (pre @ [f])" using merge_parts [of "pre @ [f]"] by auto
    have "r = Some q" "lru_peek A c2 p = None" using pop_val [OF c(2) pop] c(1) by simp_all
    moreover have "\<not> length q < unat n" using q Cons.prems(4) True by simp
    ultimately show ?thesis using g m pop mf q True by (simp add: Let_def)
  qed
qed simp

end

interpretation part_lru: part_cache list_lru list_lru_ok ..

subsection \<open>The stream layer\<close>

definition singles_of :: "(codec_error + single_frame_set) script \<Rightarrow> frame list" where
  "singles_of s = map sf_set (ok_items s)"

lemma singles_of_simps [simp]:
  "singles_of [] = []" "singles_of (Pending # s) = singles_of s" "singles_of (Ready None # s) = singles_of s"
  "singles_of (Ready (Some (Inl e)) # s) = singles_of s"
  "singles_of (Ready (Some (Inr x)) # s) = sf_set x # singles_of s"
  "singles_of (s @ t) = singles_of s @ singles_of t"
  by (simp_all add: singles_of_def)

definition defrag_layer_inv :: "('c, u16, part_heap) lru_api \<Rightarrow> ('c \<Rightarrow> bool) \<Rightarrow> frame list \<Rightarrow> 'c defragment
    \<Rightarrow> (codec_error + frame_set) script \<Rightarrow> bool" where
  "defrag_layer_inv A ok seen st s \<longleftrightarrow> defrag_inv A ok (limit_size st) seen st (frames_of s)"

definition defrag_trans :: "frame list \<Rightarrow> 'c defragment \<Rightarrow> (codec_error + frame_set) script
    \<Rightarrow> (codec_error + single_frame_set) script \<Rightarrow> frame list \<Rightarrow> 'c defragment \<Rightarrow> bool" where
  "defrag_trans seen st used outs seen' st' \<longleftrightarrow>
     seen' = seen @ frames_of used \<and> err_items outs = err_items used
     \<and> map sf_set (buffer st) @ reassemble seen (frames_of used) = singles_of outs @ map sf_set (buffer st')"

definition defrag_work :: "frame list \<Rightarrow> 'c defragment \<Rightarrow> (codec_error + frame_set) script \<Rightarrow> nat" where
  "defrag_work seen st s = length s + length (buffer st) + length (reassemble seen (frames_of s))"

definition defrag_step :: "('c, u16, part_heap) lru_api \<Rightarrow> ('c \<Rightarrow> bool) \<Rightarrow> frame list \<Rightarrow> 'c defragment
    \<Rightarrow> (codec_error + frame_set) script
    \<Rightarrow> ('e, (codec_error + single_frame_set) option poll \<times> 'c defragment \<times> (codec_error + frame_set) script) outcome \<Rightarrow> bool" where
  "defrag_step A ok seen st s res \<longleftrightarrow> (\<exists>r seen' st' used s'. res = Ok (r, st', s') \<and> s = used @ s'
     \<and> defrag_layer_inv A ok seen' st' s' \<and> defrag_trans seen st used [r] seen' st'
     \<and> defrag_work seen' st' s' \<le> defrag_work seen st s - 1)"

lemma defrag_stepI:
  "res = Ok (r, st', s') \<Longrightarrow> s = used @ s' \<Longrightarrow> defrag_layer_inv A ok seen' st' s' \<Longrightarrow> defrag_trans seen st used [r] seen' st'
    \<Longrightarrow> defrag_work seen' st' s' \<le> defrag_work seen st s - 1 \<Longrightarrow> defrag_step A ok seen st s res"
  unfolding defrag_step_def by blast

lemma defrag_trans_comp:
  assumes "defrag_trans g st u1 o1 g1 st1" and "defrag_trans g1 st1 u2 o2 g2 st2"
  shows "defrag_trans g st (u1 @ u2) (o1 @ o2) g2 st2"
proof -
  have "map sf_set (buffer st) @ reassemble g (frames_of u1) @ reassemble g1 (frames_of u2)
      = (singles_of o1 @ map sf_set (buffer st1)) @ reassemble g1 (frames_of u2)"
    using assms(1) by (simp only: defrag_trans_def append_assoc [symmetric])
  also have "\<dots> = singles_of o1 @ singles_of o2 @ map sf_set (buffer st2)"
    using assms(2) by (simp add: defrag_trans_def)
  finally show ?thesis using assms by (simp add: defrag_trans_def reassemble_append)
qed

context part_cache
begin

lemma defrag_poll_law:
  "defrag_layer_inv A ok seen st s \<Longrightarrow> defrag_step A ok seen st s (defrag_poll A st s :: ('e, _) outcome)"
proof (induction s arbitrary: seen st)
  case Nil
  then show ?case
    by (cases "buffer st"; subst defrag_poll.simps)
      (auto intro!: defrag_stepI [where used = "[]" and seen' = seen]
        simp: defrag_trans_def defrag_work_def defrag_layer_inv_def defrag_inv_def)
next
  case (Cons x s)
  show ?case
  proof (cases "buffer st")
    case (Cons y bs)
    then show ?thesis
      using Cons.prems by (subst defrag_poll.simps)
        (auto intro!: defrag_stepI [where used = "[]" and seen' = seen]
          simp: defrag_trans_def defrag_work_def defrag_layer_inv_def defrag_inv_def)
  next
    case Nil
    show ?thesis
    proof (cases x rule: result_poll_cases)
      case (item fs)
      obtain st1 where st1: "(defrag_frames A (fs_seq_num fs) (fs_set fs) st :: ('e, _) outcome) = Ok (None, st1)"
        "defrag_inv A ok (limit_size st) (seen @ fs_set fs) st1 (frames_of s)"
        "buffer st1 = buffer st @ map (\<lambda>x. \<lparr> sf_seq_num = fs_seq_num fs, sf_set = x \<rparr>) (reassemble seen (fs_set fs))"
        using defrag_frames_correct [of "limit_size st" seen st "fs_set fs" "frames_of s"] Cons.prems item
        by (auto simp: defrag_layer_inv_def)
      have "defrag_layer_inv A ok (seen @ fs_set fs) st1 s"
        using st1(2) by (simp add: defrag_layer_inv_def defrag_inv_def)
      from Cons.IH [OF this] obtain r seen' st' used s' where
        *: "(defrag_poll A st1 s :: ('e, _) outcome) = Ok (r, st', s')" "s = used @ s'" "defrag_layer_inv A ok seen' st' s'"
        "defrag_trans (seen @ fs_set fs) st1 used [r] seen' st'"
        "defrag_work seen' st' s' \<le> defrag_work (seen @ fs_set fs) st1 s - 1"
        unfolding defrag_step_def by blast
      have "(defrag_poll A st (x # s) :: ('e, _) outcome) = defrag_poll A st1 s"
        using Nil item st1(1) by (subst defrag_poll.simps) simp
      moreover have "defrag_trans seen st (x # used) [r] seen' st'"
        using *(4) st1(3) item Nil by (simp add: defrag_trans_def reassemble_append comp_def)
      moreover have "defrag_work (seen @ fs_set fs) st1 s \<le> defrag_work seen st (x # s) - 1"
        using st1(3) item Nil by (simp add: defrag_work_def reassemble_append)
      ultimately show ?thesis
        using * by (intro defrag_stepI [where used = "x # used", OF _ _ *(3)]) auto
    qed (use Cons.prems Nil in \<open>auto intro!: defrag_stepI [where used = "[x]" and seen' = seen] simp: defrag_poll.simps
        defrag_trans_def defrag_work_def defrag_layer_inv_def\<close>)
  qed
qed

end

sublocale part_cache \<subseteq> defrag: layer "defrag_poll A" "defrag_layer_inv A ok" defrag_trans defrag_work
proof unfold_locales
  fix seen and st :: "'c defragment" and s
  assume "defrag_layer_inv A ok seen st s"
  from defrag_poll_law [OF this] show "\<exists>r seen' st' used s'. defrag_poll A st s = Ok (r, st', s') \<and> s = used @ s'
      \<and> defrag_layer_inv A ok seen' st' s' \<and> defrag_trans seen st used [r] seen' st'
      \<and> defrag_work seen' st' s' \<le> defrag_work seen st s - 1"
    by (simp only: defrag_step_def)
qed (simp_all add: defrag_trans_def [of _ _ "[]"] defrag_trans_comp)

context part_cache
begin

lemma defrag_polls:
  assumes "0 < cap" and "parts_ok limit cap (frames_of s)"
  shows "\<exists>st0 outs st used rest. defragmented A limit cap = (Ok st0 :: ('e, _) outcome)
     \<and> polls n (defrag_poll A) st0 s = (Ok (outs, st, rest) :: ('f, _) outcome) \<and> s = used @ rest
     \<and> reassemble [] (frames_of used) = singles_of outs @ map sf_set (buffer st)
     \<and> err_items outs = err_items used
     \<and> (length s + length (reassemble [] (frames_of s)) \<le> n \<longrightarrow> rest = [] \<and> buffer st = [])"
proof -
  let ?st = "\<lparr> limit_size = limit, parts = lru_new A cap, buffer = [] \<rparr>"
  have "lru_peek A (lru_new A cap) = pending []"
    using new_peek [OF assms(1)] by (auto simp: pending_def pid_parts_def)
  then have "defrag_layer_inv A ok [] ?st s"
    using assms new_ok [OF assms(1)] new_cap by (simp add: defrag_layer_inv_def defrag_inv_def)
  from defrag.polls_law [OF this, of n] obtain outs seen' st used rest where
    *: "(polls n (defrag_poll A) ?st s :: ('f, _) outcome) = Ok (outs, st, rest)" "s = used @ rest"
    "defrag_trans [] ?st used outs seen' st" "defrag_work seen' st rest \<le> defrag_work [] ?st s - n"
    by blast
  show ?thesis
    by (rule exI [of _ ?st], rule exI [of _ outs], rule exI [of _ st], rule exI [of _ used], rule exI [of _ rest])
      (use * assms(1) in \<open>auto simp: defragmented_def defrag_trans_def defrag_work_def\<close>)
qed

end

subsection \<open>Properties\<close>

text \<open>
  C15: defragmentation is correct for every consistent stream of parts, in whatever order and
  interleaving the parts of the messages arrive: polling never fails, what has been delivered and what
  is buffered is precisely what the specification assigns to the frames consumed, errors of the stream
  below pass through, and enough polls consume and deliver everything.
\<close>

theorem defragment_correct:
  assumes "lru_laws A ok" and "0 < cap" and "parts_ok limit cap (frames_of s)"
  shows "\<exists>st0 outs st used rest. defragmented A limit cap = (Ok st0 :: (codec_error, _) outcome)
     \<and> polls n (defrag_poll A) st0 s = (Ok (outs, st, rest) :: (codec_error, _) outcome) \<and> s = used @ rest
     \<and> reassemble [] (frames_of used) = singles_of outs @ map sf_set (buffer st)
     \<and> err_items outs = err_items used
     \<and> (length s + length (reassemble [] (frames_of s)) \<le> n \<longrightarrow> rest = [] \<and> buffer st = [])"
  by (rule part_cache.defrag_polls [OF part_cache.intro [OF assms(1)] assms(2,3)])

definition sample_part :: "u16 \<Rightarrow> u32 \<Rightarrow> u32 \<Rightarrow> u8 \<Rightarrow> frame" where
  "sample_part p n i b = \<lparr> f_flags = flags_new Reliable True, reliable_frame_index = Some (U24 i),
     seq_frame_index = None, f_ordered = None,
     f_fragment = Some \<lparr> parted_size = n, parted_id = p, parted_index = i \<rparr>, f_body = [b] \<rparr>"

definition sample_parts :: "(codec_error + frame_set) script" where
  "sample_parts = [Ready (Some (Inr \<lparr> fs_seq_num = U24 0, fs_set = [sample_part 7 2 1 11, sample_part 8 2 0 20] \<rparr>)),
     Ready (Some (Inr \<lparr> fs_seq_num = U24 1, fs_set = [sample_part 7 2 0 10] \<rparr>))]"

lemma sample_parts_ok: "parts_ok 4 2 (frames_of sample_parts)"
  by (auto simp: parts_ok_def sample_parts_def sample_part_def card_insert_if)

theorem defragment_correct_witness:
  "\<exists>st0 outs st used rest. defragmented list_lru 4 2 = (Ok st0 :: (codec_error, _) outcome)
     \<and> polls 3 (defrag_poll list_lru) st0 sample_parts = (Ok (outs, st, rest) :: (codec_error, _) outcome)
     \<and> sample_parts = used @ rest
     \<and> reassemble [] (frames_of used) = singles_of outs @ map sf_set (buffer st)
     \<and> err_items outs = err_items used
     \<and> (length sample_parts + length (reassemble [] (frames_of sample_parts)) \<le> 3 \<longrightarrow> rest = [] \<and> buffer st = [])"
  by (rule defragment_correct [OF list_lru.lru_laws_axioms _ sample_parts_ok]) simp



end
