(* ===== verification/Sinks.thy ===== *)
theory Sinks
  imports Prelude
begin

text \<open>
  Sinks as their users see them.  The layers that send are generic over the sink below them, which is a
  parameter: the four operations of \<open>Sink<Item, Error = io::Error>\<close> on a state \<open>'s\<close>.  \<open>sink_laws\<close> relates
  a sink to the sequence of the items it accepted.
\<close>

record ('s, 'i) sink_api =
  sink_poll_ready :: "'s \<Rightarrow> (io_error + unit) poll \<times> 's"
  sink_start_send :: "'s \<Rightarrow> 'i \<Rightarrow> (io_error + unit) \<times> 's"
  sink_poll_flush :: "'s \<Rightarrow> (io_error + unit) poll \<times> 's"
  sink_poll_close :: "'s \<Rightarrow> (io_error + unit) poll \<times> 's"

locale sink_laws =
  fixes K :: "('s, 'i) sink_api"
    and log :: "'s \<Rightarrow> 'i list"
  assumes ready_log: "sink_poll_ready K s = (r, s') \<Longrightarrow> log s' = log s"
    and send_log: "sink_start_send K s x = (q, s') \<Longrightarrow> log s' = (case q of Inl _ \<Rightarrow> log s | Inr _ \<Rightarrow> log s @ [x])"
    and flush_log: "sink_poll_flush K s = (r, s') \<Longrightarrow> log s' = log s"
    and close_log: "sink_poll_close K s = (r, s') \<Longrightarrow> log s' = log s"

text \<open>A sink that is always ready and never fails.\<close>

definition always_ready :: "('s, 'i) sink_api \<Rightarrow> bool" where
  "always_ready K \<longleftrightarrow> (\<forall>s. fst (sink_poll_ready K s) = Ready (Inr ())) \<and> (\<forall>s x. fst (sink_start_send K s x) = Inr ())"

text \<open>
  An executable instance: the answers \<open>poll_ready\<close> will give, ready when they run out, and the items
  accepted.
\<close>

definition script_sink :: "((io_error + unit) poll list \<times> 'i list, 'i) sink_api" where
  "script_sink = \<lparr>
     sink_poll_ready = (\<lambda>(ps, xs). case ps of [] \<Rightarrow> (Ready (Inr ()), [], xs) | p # ps \<Rightarrow> (p, ps, xs)),
     sink_start_send = (\<lambda>(ps, xs) x. (Inr (), ps, xs @ [x])),
     sink_poll_flush = (\<lambda>s. (Ready (Inr ()), s)),
     sink_poll_close = (\<lambda>s. (Ready (Inr ()), s)) \<rparr>"

interpretation script_sink: sink_laws script_sink snd
  by unfold_locales (auto simp: script_sink_def split: list.splits sum.splits)

text \<open>Its variant that is always ready.\<close>

definition log_sink :: "('i list, 'i) sink_api" where
  "log_sink = \<lparr>
     sink_poll_ready = (\<lambda>xs. (Ready (Inr ()), xs)),
     sink_start_send = (\<lambda>xs x. (Inr (), xs @ [x])),
     sink_poll_flush = (\<lambda>s. (Ready (Inr ()), s)),
     sink_poll_close = (\<lambda>s. (Ready (Inr ()), s)) \<rparr>"

interpretation log_sink: sink_laws log_sink "\<lambda>xs. xs"
  by unfold_locales (auto simp: log_sink_def)

lemma log_sink_ready: "always_ready log_sink"
  by (simp add: always_ready_def log_sink_def)

end
