(* ===== verification/Fragmentation.thy ===== *)
theory Fragmentation
  imports Defragment Sinks
begin

text \<open>
  The fragmenting sink of \<open>src/src/codec/encoder/fragment.rs\<close>: a message becomes one frame, or several
  parts when it does not fit, each with its reliable index and the shared ordering index; frames wait
  in a buffer until the sink below is ready.  The sink below is a parameter.
\<close>

subsection \<open>State and operations\<close>

record 's fragmenter =
  fr_frame :: 's
  fr_mtu :: nat
  reliable_write_index :: u24
  order_write_index :: "u24 list"
  parted_id_write :: u16
  fr_buf :: "(priority \<times> frame) list"

definition fragmented :: "'s \<Rightarrow> nat \<Rightarrow> nat \<Rightarrow> 's fragmenter" where
  "fragmented frame mtu max_channels = \<lparr> fr_frame = frame, fr_mtu = mtu, reliable_write_index = U24 0,
     order_write_index = replicate max_channels (U24 0), parted_id_write = 0, fr_buf = [] \<rparr>"

text \<open>
  \<open>while let Some(frame) = this.buf.pop_front() { ready!(poll_ready)?; start_send(frame)? }\<close>: the
  frame is taken out of the buffer before the sink below is asked whether it is ready.
\<close>

fun empty_buf :: "('s, priority \<times> frame) sink_api \<Rightarrow> (priority \<times> frame) list \<Rightarrow> 's
    \<Rightarrow> (io_error + unit) poll \<times> (priority \<times> frame) list \<times> 's" where
  "empty_buf K [] s = (Ready (Inr ()), [], s)"
| "empty_buf K (f # fs) s = (case sink_poll_ready K s of
      (Pending, s) \<Rightarrow> (Pending, fs, s)
    | (Ready (Inl e), s) \<Rightarrow> (Ready (Inl e), fs, s)
    | (Ready (Inr _), s) \<Rightarrow> (case sink_start_send K s f of
        (Inl e, s) \<Rightarrow> (Ready (Inl e), fs, s)
      | (Inr _, s) \<Rightarrow> empty_buf K fs s))"

definition fragment_poll_empty :: "('s, priority \<times> frame) sink_api \<Rightarrow> 's fragmenter \<Rightarrow> (io_error + unit) poll \<times> 's fragmenter" where
  "fragment_poll_empty K st =
     (if fr_buf st = [] then (Ready (Inr ()), st)
      else (case empty_buf K (fr_buf st) (fr_frame st) of (r, buf, s) \<Rightarrow> (r, st\<lparr>fr_buf := buf, fr_frame := s\<rparr>)))"

text \<open>\<open>ready!(self.poll_empty(cx))?; inner(cx)\<close>.\<close>

definition after_empty :: "('s, priority \<times> frame) sink_api \<Rightarrow> ('s \<Rightarrow> (io_error + unit) poll \<times> 's) \<Rightarrow> 's fragmenter
    \<Rightarrow> (io_error + unit) poll \<times> 's fragmenter" where
  "after_empty K inner st = (case fragment_poll_empty K st of
      (Ready (Inr _), st) \<Rightarrow> (case inner (fr_frame st) of (r, s) \<Rightarrow> (r, st\<lparr>fr_frame := s\<rparr>))
    | (r, st) \<Rightarrow> (r, st))"

definition fragment_poll_ready :: "('s, priority \<times> frame) sink_api \<Rightarrow> 's fragmenter \<Rightarrow> (io_error + unit) poll \<times> 's fragmenter" where
  "fragment_poll_ready K = after_empty K (sink_poll_ready K)"

definition fragment_poll_flush :: "('s, priority \<times> frame) sink_api \<Rightarrow> 's fragmenter \<Rightarrow> (io_error + unit) poll \<times> 's fragmenter" where
  "fragment_poll_flush K = after_empty K (sink_poll_flush K)"

definition fragment_poll_close :: "('s, priority \<times> frame) sink_api \<Rightarrow> 's fragmenter \<Rightarrow> (io_error + unit) poll \<times> 's fragmenter" where
  "fragment_poll_close K = after_empty K (sink_poll_close K)"

fun adjust_reliability :: "reliability \<Rightarrow> reliability" where
  "adjust_reliability Unreliable = Reliable"
| "adjust_reliability UnreliableSequenced = ReliableSequenced"
| "adjust_reliability UnreliableWithAckReceipt = ReliableWithAckReceipt"
| "adjust_reliability r = r"

text \<open>\<open>*this.mtu - FRAME_SET_HEADER_SIZE - reliability.size()\<close>.\<close>

definition max_len :: "nat \<Rightarrow> reliability \<Rightarrow> ('e, nat) outcome" where
  "max_len mtu r = and_then (usub mtu FRAME_SET_HEADER_SIZE) (\<lambda>m. usub m (reliability_size r))"

text \<open>
  The closure \<open>indices_for_frame\<close>; the argument of \<open>then_some\<close> is evaluated whether or not it is used.
\<close>

definition indices_for_frame :: "reliability \<Rightarrow> nat \<Rightarrow> 's fragmenter \<Rightarrow> ('e, (u24 option \<times> ordered option) \<times> 's fragmenter) outcome" where
  "indices_for_frame r ch st =
     and_then (if is_reliable r
               then and_then (u24_incr (reliable_write_index st)) (\<lambda>i.
                      Ok (Some (reliable_write_index st), st\<lparr>reliable_write_index := i\<rparr>))
               else Ok (None, st)) (\<lambda>(rfi, st).
     and_then (index (order_write_index st) ch) (\<lambda>oi.
       Ok ((rfi, if is_sequenced_or_ordered r then Some \<lparr> frame_index = oi, channel = word_of_nat ch \<rparr> else None), st)))"

text \<open>\<open>if reliability.is_sequenced_or_ordered() { this.order_write_index[order_channel] += 1 }\<close>.\<close>

definition bump_order :: "reliability \<Rightarrow> nat \<Rightarrow> 's fragmenter \<Rightarrow> ('e, 's fragmenter) outcome" where
  "bump_order r ch st =
     (if is_sequenced_or_ordered r
      then and_then (index (order_write_index st) ch) (\<lambda>oi.
           and_then (u24_incr oi) (\<lambda>oi. Ok (st\<lparr>order_write_index := (order_write_index st)[ch := oi]\<rparr>)))
      else Ok st)"

definition div_ceil :: "nat \<Rightarrow> nat \<Rightarrow> ('e, nat) outcome" where
  "div_ceil a b = (if b = 0 then Panic else Ok ((a + b - 1) div b))"

text \<open>The loop \<open>for parted_index in 0..parted_size\<close>, returning what is left of the body.\<close>

fun split_frames :: "priority \<Rightarrow> reliability \<Rightarrow> nat \<Rightarrow> nat \<Rightarrow> nat \<Rightarrow> u32 \<Rightarrow> u16 \<Rightarrow> nat list \<Rightarrow> bytes \<Rightarrow> 's fragmenter
    \<Rightarrow> ('e, bytes \<times> 's fragmenter) outcome" where
  "split_frames pr r ch maxl per_len psize pid [] body st = Ok (body, st)"
| "split_frames pr r ch maxl per_len psize pid (i # is) body st =
     and_then (indices_for_frame r ch st) (\<lambda>((rfi, od), st).
       let n = min per_len (length body);
           f = \<lparr> f_flags = flags_new r True, reliable_frame_index = rfi, seq_frame_index = None, f_ordered = od,
                 f_fragment = Some \<lparr> parted_size = psize, parted_id = pid, parted_index = word_of_nat i \<rparr>,
                 f_body = take n body \<rparr>
       in if length (f_body f) \<le> maxl
          then split_frames pr r ch maxl per_len psize pid is (drop n body) (st\<lparr>fr_buf := fr_buf st @ [(pr, f)]\<rparr>)
          else Panic)"

definition fragment_start_send :: "'s fragmenter \<Rightarrow> message \<Rightarrow> ('e, 's fragmenter) outcome" where
  "fragment_start_send st msg =
     (let ch = unat (msg_order_channel msg); body = msg_data msg in
      if \<not> ch < length (order_write_index st) then Panic
      else
        and_then (max_len (fr_mtu st) (msg_reliability msg)) (\<lambda>maxl0.
        and_then (if maxl0 < length body
                  then (let r = adjust_reliability (msg_reliability msg) in
                        and_then (max_len (fr_mtu st) r) (\<lambda>m. Ok (r, m)))
                  else Ok (msg_reliability msg, maxl0)) (\<lambda>(r, maxl).
        if length body \<le> maxl then
          and_then (indices_for_frame r ch st) (\<lambda>((rfi, od), st).
          and_then (bump_order r ch st) (\<lambda>st.
            Ok (st\<lparr>fr_buf := fr_buf st @ [(msg_priority msg,
                  \<lparr> f_flags = flags_new r False, reliable_frame_index = rfi, seq_frame_index = None, f_ordered = od,
                    f_fragment = None, f_body = body \<rparr>)]\<rparr>)))
        else
          and_then (usub maxl FRAGMENT_PART_SIZE) (\<lambda>per_len.
          and_then (div_ceil (length body) per_len) (\<lambda>cnt.
            let psize = word_of_nat cnt; pid = parted_id_write st; st = st\<lparr>parted_id_write := pid + 1\<rparr> in
            and_then (split_frames (msg_priority msg) r ch maxl per_len psize pid [0..<unat psize] body st) (\<lambda>(rest, st).
            and_then (bump_order r ch st) (\<lambda>st.
              if rest = [] then Ok st else Panic)))))))"

subsection \<open>Specification\<close>

text \<open>Part \<open>i\<close> of a split message, and the frames a message becomes.\<close>

definition nth_part :: "reliability \<Rightarrow> nat \<Rightarrow> ordered option \<Rightarrow> u32 \<Rightarrow> u16 \<Rightarrow> nat \<Rightarrow> bytes \<Rightarrow> nat \<Rightarrow> frame" where
  "nth_part r base od psize pid per data i =
     \<lparr> f_flags = flags_new r True, reliable_frame_index = Some (u24_of (base + i)), seq_frame_index = None, f_ordered = od,
       f_fragment = Some \<lparr> parted_size = psize, parted_id = pid, parted_index = word_of_nat i \<rparr>,
       f_body = take per (drop (i * per) data) \<rparr>"

definition msg_ordered :: "'s fragmenter \<Rightarrow> message \<Rightarrow> ordered option" where
  "msg_ordered st m = (if is_sequenced_or_ordered (msg_reliability m)
     then Some \<lparr> frame_index = order_write_index st ! unat (msg_order_channel m), channel = msg_order_channel m \<rparr> else None)"

definition needs_split :: "'s fragmenter \<Rightarrow> message \<Rightarrow> bool" where
  "needs_split st m \<longleftrightarrow> fr_mtu st - 4 - reliability_size (msg_reliability m) < length (msg_data m)"

definition part_len :: "'s fragmenter \<Rightarrow> message \<Rightarrow> nat" where
  "part_len st m = fr_mtu st - 4 - reliability_size (adjust_reliability (msg_reliability m)) - 10"

definition part_count :: "'s fragmenter \<Rightarrow> message \<Rightarrow> nat" where
  "part_count st m = (length (msg_data m) + part_len st m - 1) div part_len st m"

definition msg_frames :: "'s fragmenter \<Rightarrow> message \<Rightarrow> frame list" where
  "msg_frames st m =
     (if needs_split st m
      then map (nth_part (adjust_reliability (msg_reliability m)) (to_usize (reliable_write_index st)) (msg_ordered st m)
                 (word_of_nat (part_count st m)) (parted_id_write st) (part_len st m) (msg_data m)) [0..<part_count st m]
      else [\<lparr> f_flags = flags_new (msg_reliability m) False,
              reliable_frame_index = (if is_reliable (msg_reliability m) then Some (reliable_write_index st) else None),
              seq_frame_index = None, f_ordered = msg_ordered st m, f_fragment = None, f_body = msg_data m \<rparr>])"

text \<open>
  When a message can be sent: its channel exists, the MTU leaves room for a part, and neither index
  runs out of its 24 bits.
\<close>

definition sendable :: "'s fragmenter \<Rightarrow> message \<Rightarrow> bool" where
  "sendable st m \<longleftrightarrow> unat (msg_order_channel m) < length (order_write_index st) \<and> 28 \<le> fr_mtu st
     \<and> to_usize (reliable_write_index st) + length (msg_frames st m) < 2 ^ 24
     \<and> to_usize (order_write_index st ! unat (msg_order_channel m)) < 2 ^ 24 - 1"

lemma adjust_reliable: "is_reliable (adjust_reliability r)"
  by (cases r) simp_all

lemma adjust_ordered [simp]: "is_sequenced_or_ordered (adjust_reliability r) = is_sequenced_or_ordered r"
  by (cases r) simp_all

lemma adjust_size: "reliability_size r \<le> reliability_size (adjust_reliability r)"
  by (cases r) (simp_all add: reliability_size_def)

lemma max_len_eq: "28 \<le> mtu \<Longrightarrow> max_len mtu r = Ok (mtu - 4 - reliability_size r)"
  using reliability_size_bounds [of r] by (simp add: max_len_def FRAME_SET_HEADER_SIZE_def)

lemma part_len_pos: "28 \<le> fr_mtu st \<Longrightarrow> 0 < part_len st m"
  using reliability_size_bounds [of "adjust_reliability (msg_reliability m)"] by (simp add: part_len_def)

lemma indices_reliable:
  assumes "is_reliable r" and "ch < length (order_write_index st)" and "to_usize (reliable_write_index st) < 2 ^ 24 - 1"
  shows "indices_for_frame r ch st = Ok ((Some (reliable_write_index st),
      if is_sequenced_or_ordered r then Some \<lparr> frame_index = order_write_index st ! ch, channel = word_of_nat ch \<rparr> else None),
      st\<lparr>reliable_write_index := u24_of (Suc (to_usize (reliable_write_index st)))\<rparr>)"
  using assms by (simp add: indices_for_frame_def u24_incr_eq u24_succ_eq)

lemma split_frames_eq:
  assumes "is_reliable r" and "ch < length (order_write_index st)" and "per \<le> maxl" and "base + n < 2 ^ 24"
    and "k \<le> n" and "to_usize (reliable_write_index st) = base + k"
    and "od = (if is_sequenced_or_ordered r then Some \<lparr> frame_index = order_write_index st ! ch, channel = word_of_nat ch \<rparr> else None)"
  shows "(split_frames pr r ch maxl per psize pid [k..<n] (drop (k * per) data) st :: ('e, _) outcome) =
    Ok (drop (n * per) data, st\<lparr>reliable_write_index := u24_of (base + n),
      fr_buf := fr_buf st @ map (\<lambda>i. (pr, nth_part r base od psize pid per data i)) [k..<n]\<rparr>)"
  using assms
proof (induction "n - k" arbitrary: k st)
  case 0
  then have "k = n" by simp
  moreover have "reliable_write_index st = u24_of (base + k)" using "0.prems"(6) by (metis u24_of_to_usize)
  ultimately show ?case by simp
next
  case (Suc d)
  then have lt: "k < n" by simp
  have idx: "reliable_write_index st = u24_of (base + k)" using Suc.prems(6) by (metis u24_of_to_usize)
  let ?f = "nth_part r base od psize pid per data k"
  let ?st = "st\<lparr>reliable_write_index := u24_of (Suc (base + k)), fr_buf := fr_buf st @ [(pr, ?f)]\<rparr>"
  have "d = n - Suc k" using Suc.hyps(2) by simp
  note IH = Suc.hyps(1) [OF this, of ?st]
  have "(split_frames pr r ch maxl per psize pid [Suc k..<n] (drop (Suc k * per) data) ?st :: ('e, _) outcome) =
    Ok (drop (n * per) data, ?st\<lparr>reliable_write_index := u24_of (base + n),
      fr_buf := fr_buf ?st @ map (\<lambda>i. (pr, nth_part r base od psize pid per data i)) [Suc k..<n]\<rparr>)"
    by (rule IH) (use Suc.prems lt in simp_all)
  moreover have "(split_frames pr r ch maxl per psize pid [k..<n] (drop (k * per) data) st :: ('e, _) outcome)
      = split_frames pr r ch maxl per psize pid [Suc k..<n] (drop (Suc k * per) data) ?st"
    using Suc.prems lt
    by (simp add: upt_conv_Cons indices_reliable idx nth_part_def min_def Let_def add.commute drop_all)
  ultimately show ?case using lt by (simp add: upt_conv_Cons)
qed

lemma bump_order_eq:
  assumes "ch < length (order_write_index st)" and "to_usize (order_write_index st ! ch) < 2 ^ 24 - 1"
  shows "bump_order r ch st = Ok (if is_sequenced_or_ordered r
     then st\<lparr>order_write_index := (order_write_index st)[ch := u24_of (Suc (to_usize (order_write_index st ! ch)))]\<rparr> else st)"
  using assms by (simp add: bump_order_def u24_incr_eq u24_succ_eq)

lemma part_count_bounds:
  assumes "28 \<le> fr_mtu st"
  shows "length (msg_data m) \<le> part_count st m * part_len st m"
    and "0 < length (msg_data m) \<Longrightarrow> (part_count st m - 1) * part_len st m < length (msg_data m)"
proof -
  let ?l = "length (msg_data m)" and ?p = "part_len st m"
  have p: "0 < ?p" by (rule part_len_pos [OF assms])
  have m: "(?l + ?p - 1) div ?p * ?p + (?l + ?p - 1) mod ?p = ?l + ?p - 1" by (rule div_mult_mod_eq)
  have r: "(?l + ?p - 1) mod ?p < ?p" using p by simp
  show "?l \<le> part_count st m * ?p" unfolding part_count_def using m r p by linarith
  show "(part_count st m - 1) * ?p < ?l" if "0 < ?l"
    unfolding part_count_def diff_mult_distrib using m r p that by linarith
qed

text \<open>The operation computes its specification.\<close>

definition sent :: "'s fragmenter \<Rightarrow> message \<Rightarrow> 's fragmenter" where
  "sent st m = st\<lparr>
     reliable_write_index := (if needs_split st m \<or> is_reliable (msg_reliability m)
        then u24_of (to_usize (reliable_write_index st) + length (msg_frames st m)) else reliable_write_index st),
     order_write_index := (let ch = unat (msg_order_channel m) in if is_sequenced_or_ordered (msg_reliability m)
        then (order_write_index st)[ch := u24_of (Suc (to_usize (order_write_index st ! ch)))] else order_write_index st),
     parted_id_write := (if needs_split st m then parted_id_write st + 1 else parted_id_write st),
     fr_buf := fr_buf st @ map (Pair (msg_priority m)) (msg_frames st m)\<rparr>"

lemma word_of_nat_channel: "(word_of_nat (unat (c :: u8)) :: u8) = c"
  by simp

lemma send_single:
  assumes "sendable st m" and "\<not> needs_split st m"
  shows "fragment_start_send st m = Ok (sent st m)"
proof -
  let ?r = "msg_reliability m" and ?ch = "unat (msg_order_channel m)"
  have s: "?ch < length (order_write_index st)" "28 \<le> fr_mtu st" "to_usize (order_write_index st ! ?ch) < 2 ^ 24 - 1"
    "to_usize (reliable_write_index st) < 2 ^ 24 - 1"
    using assms by (simp_all add: sendable_def msg_frames_def)
  then show ?thesis
    using assms(2)
    by (auto simp: fragment_start_send_def Let_def max_len_eq needs_split_def [symmetric] not_less indices_for_frame_def
        u24_incr_eq u24_succ_eq bump_order_eq sent_def msg_frames_def msg_ordered_def needs_split_def)
qed

lemma div_ceil_part: "28 \<le> fr_mtu st \<Longrightarrow> div_ceil (length (msg_data m)) (part_len st m) = Ok (part_count st m)"
  using part_len_pos [of st m] by (simp add: div_ceil_def part_count_def)

lemma send_split:
  assumes "sendable st m" and "needs_split st m"
  shows "(fragment_start_send st m :: ('e, _) outcome) = Ok (sent st m)"
proof -
  define M where "M = fr_mtu st - 4 - reliability_size (adjust_reliability (msg_reliability m))"
  let ?rel = "msg_reliability m" and ?ch = "unat (msg_order_channel m)" and ?l = "length (msg_data m)"
  let ?r = "adjust_reliability ?rel"
  let ?n = "part_count st m" and ?per = "part_len st m" and ?base = "to_usize (reliable_write_index st)"
  have s: "?ch < length (order_write_index st)" "28 \<le> fr_mtu st" "to_usize (order_write_index st ! ?ch) < 2 ^ 24 - 1"
    "?base + ?n < 2 ^ 24"
    using assms by (simp_all add: sendable_def msg_frames_def)
  have size: "reliability_size ?r \<le> 13" by (rule reliability_size_bounds)
  have big: "fr_mtu st - 4 - reliability_size ?rel < ?l" "M < ?l"
    using assms(2) adjust_size [of ?rel] by (simp_all add: needs_split_def M_def)
  have per: "0 < ?per" by (rule part_len_pos [OF s(2)])
  have n: "unat (word_of_nat ?n :: u32) = ?n"
    using s(4) by (simp add: unsigned_of_nat take_bit_nat_eq_self)
  let ?st = "st\<lparr>parted_id_write := parted_id_write st + 1\<rparr>"
  have "(split_frames (msg_priority m) ?r ?ch M ?per (word_of_nat ?n)
      (parted_id_write st) [0..<?n] (drop (0 * ?per) (msg_data m)) ?st :: ('e, _) outcome)
    = Ok (drop (?n * ?per) (msg_data m), ?st\<lparr>reliable_write_index := u24_of (?base + ?n),
        fr_buf := fr_buf ?st @ map (\<lambda>i. (msg_priority m,
          nth_part ?r ?base (msg_ordered st m) (word_of_nat ?n) (parted_id_write st) ?per (msg_data m) i)) [0..<?n]\<rparr>)"
  proof (rule split_frames_eq)
    show "?per \<le> M" by (simp add: part_len_def M_def)
    show "msg_ordered st m = (if is_sequenced_or_ordered ?r
        then Some \<lparr> frame_index = order_write_index ?st ! ?ch, channel = word_of_nat ?ch \<rparr> else None)"
      by (simp add: msg_ordered_def)
  qed (use s in \<open>simp_all add: adjust_reliable\<close>)
  then have split: "(split_frames (msg_priority m) ?r ?ch M ?per (word_of_nat ?n)
      (parted_id_write st) [0..<?n] (msg_data m) ?st :: ('e, _) outcome)
    = Ok ([], ?st\<lparr>reliable_write_index := u24_of (?base + ?n),
        fr_buf := fr_buf st @ map (Pair (msg_priority m)) (msg_frames st m)\<rparr>)"
    using part_count_bounds(1) [OF s(2), of m] assms(2) by (simp add: msg_frames_def comp_def)
  have sub: "FRAGMENT_PART_SIZE \<le> M" "M - FRAGMENT_PART_SIZE = ?per"
    using s(2) size by (simp_all add: FRAGMENT_PART_SIZE_def part_len_def M_def)
  have M: "max_len (fr_mtu st) ?r = (Ok M :: ('e, _) outcome)" by (simp add: max_len_eq [OF s(2)] M_def)
  show ?thesis
    using s(1,3) big assms(2)
    by (simp add: fragment_start_send_def Let_def M max_len_eq [OF s(2), of ?rel] sub div_ceil_part [OF s(2)] n split
        bump_order_eq sent_def msg_frames_def)
qed

lemma start_send_correct: "sendable st m \<Longrightarrow> fragment_start_send st m = Ok (sent st m)"
  using send_single send_split by blast

subsection \<open>What the frames of a message satisfy\<close>

lemma concat_chunks: "concat (map (\<lambda>i. take per (drop (i * per) xs)) [0..<n]) = take (n * per) xs"
proof (induction n)
  case (Suc n)
  have "take (n * per) xs @ take per (drop (n * per) xs) = take (n * per + per) xs" by (simp add: take_add)
  with Suc show ?case by (simp add: add.commute)
qed simp

lemma msg_frames_data: "28 \<le> fr_mtu st \<Longrightarrow> concat (map f_body (msg_frames st m)) = msg_data m"
  using part_count_bounds(1) [of st m] by (simp add: msg_frames_def nth_part_def comp_def concat_chunks)

lemma msg_frames_size:
  assumes "28 \<le> fr_mtu st" and "f \<in> set (msg_frames st m)"
  shows "FRAME_SET_HEADER_SIZE + frame_size f \<le> fr_mtu st"
proof (cases "needs_split st m")
  case True
  then obtain i where "f = nth_part (adjust_reliability (msg_reliability m)) (to_usize (reliable_write_index st)) (msg_ordered st m)
      (word_of_nat (part_count st m)) (parted_id_write st) (part_len st m) (msg_data m) i"
    using assms(2) by (auto simp: msg_frames_def)
  then have "frame_size f \<le> reliability_size (adjust_reliability (msg_reliability m)) + 10 + part_len st m"
    by (simp add: frame_size_def nth_part_def FRAGMENT_PART_SIZE_def)
  then show ?thesis
    using assms(1) reliability_size_bounds [of "adjust_reliability (msg_reliability m)"]
    by (simp add: part_len_def FRAME_SET_HEADER_SIZE_def)
next
  case False
  then show ?thesis
    using assms reliability_size_bounds [of "msg_reliability m"]
    by (auto simp: msg_frames_def frame_size_def FRAME_SET_HEADER_SIZE_def needs_split_def)
qed

lemma nth_part_nonempty:
  assumes "28 \<le> fr_mtu st" and "msg_data m \<noteq> []" and "i < part_count st m"
  shows "take (part_len st m) (drop (i * part_len st m) (msg_data m)) \<noteq> []"
proof -
  have "i * part_len st m \<le> (part_count st m - 1) * part_len st m" using assms(3) by (intro mult_le_mono1) simp
  also have "\<dots> < length (msg_data m)" using part_count_bounds(2) [OF assms(1)] assms(2) by simp
  finally show ?thesis using part_len_pos [OF assms(1)] by simp
qed

lemma msg_frames_ok:
  assumes "sendable st m" and "fr_mtu st < 8191" and "msg_data m \<noteq> []" and "\<not> is_sequenced (msg_reliability m)"
    and "f \<in> set (msg_frames st m)"
  shows "frame_ok f"
proof -
  let ?r = "msg_reliability m"
  have s: "28 \<le> fr_mtu st" "to_usize (order_write_index st ! unat (msg_order_channel m)) < 2 ^ 24"
    "to_usize (reliable_write_index st) + length (msg_frames st m) < 2 ^ 24"
    using assms(1) by (simp_all add: sendable_def)
  have od: "opt_ok (is_sequenced_or_ordered ?r) (\<lambda>d. u24_ok (frame_index d)) (msg_ordered st m)"
    using s(2) by (simp add: msg_ordered_def u24_ok_iff)
  have len: "length (f_body f) < 8191"
    using msg_frames_size [OF s(1) assms(5)] assms(2) by (simp add: frame_size_def Let_def split: if_splits)
  have seq: "\<not> is_sequenced (adjust_reliability ?r)" using assms(4) by (cases ?r) simp_all
  show ?thesis
  proof (cases "needs_split st m")
    case True
    then obtain i where i: "i < part_count st m" and
      f: "f = nth_part (adjust_reliability ?r) (to_usize (reliable_write_index st)) (msg_ordered st m)
        (word_of_nat (part_count st m)) (parted_id_write st) (part_len st m) (msg_data m) i"
      using assms(5) by (auto simp: msg_frames_def)
    have "to_usize (reliable_write_index st) + i < 2 ^ 24" using s(3) i True by (simp add: msg_frames_def)
    then show ?thesis
      using od len seq nth_part_nonempty [OF s(1) assms(3) i]
      by (simp add: f frame_ok_def nth_part_def Let_def flags_parse_new adjust_reliable)
  next
    case False
    then show ?thesis
      using assms(3-5) od len s(3)
      by (auto simp: msg_frames_def frame_ok_def Let_def flags_parse_new u24_ok_iff)
  qed
qed

subsection \<open>Reassembly of a message\<close>

lemma reassemble_one_pid:
  assumes "\<forall>f \<in> set (seen @ fs). \<exists>g. f_fragment f = Some g \<and> parted_id g = p \<and> unat (parted_size g) = n"
    and "length (seen @ fs) \<le> n"
  shows "reassemble seen fs = (if fs \<noteq> [] \<and> length (seen @ fs) = n then [merged (seen @ fs)] else [])"
  using assms
proof (induction fs arbitrary: seen)
  case (Cons f fs)
  obtain g where g: "f_fragment f = Some g" "parted_id g = p" "unat (parted_size g) = n" using Cons.prems(1) by auto
  have all: "filter (has_pid p) (seen @ [f]) = seen @ [f]"
    by (rule filter_True) (use Cons.prems(1) in \<open>auto simp: has_pid_iff\<close>)
  have "reassemble (seen @ [f]) fs = (if fs \<noteq> [] \<and> length (seen @ f # fs) = n then [merged (seen @ f # fs)] else [])"
    using Cons.IH [of "seen @ [f]"] Cons.prems by simp
  moreover have "reassemble seen [f] = (if length (seen @ [f]) = n then [merged (seen @ [f])] else [])"
    using g all by (simp del: filter_append add: Let_def)
  ultimately show ?case
    using reassemble_append [of seen "[f]" fs] Cons.prems(2) by (cases fs) (auto simp del: reassemble.simps)
qed simp

lemma merged_body: "ps \<noteq> [] \<Longrightarrow> f_body (merged ps) = concat (map f_body (sort_key frame_idx ps))"
  by (simp add: merged_def Let_def reassembled_def)

lemma msg_parts:
  assumes "sendable st m" and "needs_split st m"
  obtains ps where "ps = msg_frames st m" and "length ps = part_count st m" and "ps \<noteq> []"
    and "\<And>i. i < part_count st m \<Longrightarrow> f_fragment (ps ! i) = Some \<lparr> parted_size = word_of_nat (part_count st m),
           parted_id = parted_id_write st, parted_index = word_of_nat i \<rparr>"
    and "unat (word_of_nat (part_count st m) :: u32) = part_count st m"
    and "\<And>i. i < part_count st m \<Longrightarrow> unat (word_of_nat i :: u32) = i"
proof (rule that [of "msg_frames st m"])
  have s: "28 \<le> fr_mtu st" "to_usize (reliable_write_index st) + part_count st m < 2 ^ 24"
    using assms by (simp_all add: sendable_def msg_frames_def)
  show "msg_frames st m \<noteq> []"
    using msg_frames_data [OF s(1), of m] assms(2) by (auto simp: needs_split_def)
  show "unat (word_of_nat (part_count st m) :: u32) = part_count st m"
    using s(2) by (simp add: unsigned_of_nat take_bit_nat_eq_self)
  show "unat (word_of_nat i :: u32) = i" if "i < part_count st m" for i
    using that s(2) by (simp add: unsigned_of_nat take_bit_nat_eq_self)
qed (use assms(2) in \<open>simp_all add: msg_frames_def nth_part_def\<close>)

lemma frame_idx_part: "f_fragment f = Some g \<Longrightarrow> frame_idx f = parted_index g"
  by (simp add: frame_idx_def)

lemma sorted_parts:
  assumes "sendable st m" and "needs_split st m" and "mset fs = mset (msg_frames st m)"
  shows "sort_key frame_idx fs = msg_frames st m"
proof -
  obtain ps where ps: "ps = msg_frames st m" "length ps = part_count st m"
    "\<And>i. i < part_count st m \<Longrightarrow> f_fragment (ps ! i) = Some \<lparr> parted_size = word_of_nat (part_count st m),
           parted_id = parted_id_write st, parted_index = word_of_nat i \<rparr>"
    "\<And>i. i < part_count st m \<Longrightarrow> unat (word_of_nat i :: u32) = i"
    using msg_parts [OF assms(1,2)] by metis
  have idx: "unat (frame_idx (ps ! i)) = i" if "i < length ps" for i
    using that ps by (simp add: frame_idx_part)
  have "sorted (map frame_idx ps)"
    by (simp add: sorted_iff_nth_mono word_le_nat_alt idx)
  moreover have "inj_on frame_idx (set ps)"
    by (rule inj_onI) (metis idx in_set_conv_nth)
  moreover have "set fs = set ps" using assms(3) ps(1) mset_eq_setD by blast
  ultimately show ?thesis using assms(3) ps(1) by (intro sort_key_inj_key_eq) simp_all
qed

lemma frags_eq: "frags fs = map (the \<circ> f_fragment) (filter (\<lambda>f. f_fragment f \<noteq> None) fs)"
  by (induction fs) (auto split: option.splits)

definition nth_frag :: "nat \<Rightarrow> u16 \<Rightarrow> nat \<Rightarrow> fragment" where
  "nth_frag n p i = \<lparr> parted_size = word_of_nat n, parted_id = p, parted_index = word_of_nat i \<rparr>"

lemma parts_ok_nth_frags:
  assumes frags: "mset (frags fs) = mset (map (nth_frag n p) [0..<n])"
    and n: "unat (word_of_nat n :: u32) = n" and idx: "\<And>i. i < n \<Longrightarrow> unat (word_of_nat i :: u32) = i"
    and limit: "limit = 0 \<or> n \<le> unat limit" and cap: "0 < cap"
  shows "parts_ok limit cap fs"
proof -
  let ?key = "\<lambda>g. (parted_id g, parted_index g)"
  have elems: "\<exists>i < n. g = nth_frag n p i" if "g \<in> set (frags fs)" for g
    using that unfolding mset_eq_setD [OF frags] by auto
  have bounds: "parted_index g < parted_size g" "limit = 0 \<or> parted_size g \<le> limit"
    "parted_size g = word_of_nat n" "parted_id g = p" if g: "g \<in> set (frags fs)" for g
  proof -
    obtain i where i: "i < n" "g = nth_frag n p i" using elems [OF g] by blast
    show "parted_index g < parted_size g"
      unfolding i(2) nth_frag_def by (simp only: fragment.select_convs word_less_nat_alt n idx [OF i(1)] i(1))
    show "limit = 0 \<or> parted_size g \<le> limit"
      using limit unfolding i(2) nth_frag_def by (simp only: fragment.select_convs word_le_nat_alt n)
  qed (use elems [OF g] in \<open>auto simp: nth_frag_def\<close>)
  have "inj_on (\<lambda>i. (p, word_of_nat i :: u32)) (set [0..<n])"
  proof (rule inj_onI)
    fix i j assume "i \<in> set [0..<n]" "j \<in> set [0..<n]" and eq: "(p, word_of_nat i :: u32) = (p, word_of_nat j)"
    then have "i < n" "j < n" by simp_all
    moreover from eq have "unat (word_of_nat i :: u32) = unat (word_of_nat j :: u32)" by (simp only: prod.inject)
    ultimately show "i = j" by (simp only: idx)
  qed
  then have "distinct (map (\<lambda>i. (p, word_of_nat i :: u32)) [0..<n])" by (simp only: distinct_map distinct_upt simp_thms)
  moreover have "?key (nth_frag n p i) = (p, word_of_nat i)" for i by (simp add: nth_frag_def)
  ultimately have "distinct (map ?key (map (nth_frag n p) [0..<n]))" by (simp only: map_map comp_def)
  moreover have "mset (map ?key (frags fs)) = mset (map ?key (map (nth_frag n p) [0..<n]))"
    using frags by (simp only: mset_map)
  ultimately have d: "distinct (map ?key (frags fs))" using mset_eq_imp_distinct_iff by blast
  have "parted_id ` set (frags fs) \<subseteq> {p}" using bounds(4) by blast
  then have "card (parted_id ` set (frags fs)) \<le> card {p}" by (rule card_mono [rotated]) simp
  then have "card (parted_id ` set (frags fs)) \<le> cap" using cap by simp
  moreover have "parted_size g = parted_size g'" if "g \<in> set (frags fs)" "g' \<in> set (frags fs)" for g g'
    using bounds(3) that by metis
  ultimately show ?thesis
    unfolding parts_ok_def using d bounds(1,2) by (intro conjI ballI impI) assumption+
qed

lemma permuted_parts_ok:
  assumes "sendable st m" and "needs_split st m" and "mset fs = mset (msg_frames st m)"
    and "limit = 0 \<or> part_count st m \<le> unat limit" and "0 < cap"
  shows "parts_ok limit cap fs"
    and "reassemble [] fs = [merged fs]"
proof -
  let ?n = "part_count st m" and ?p = "parted_id_write st"
  obtain ps where ps: "ps = msg_frames st m" "length ps = ?n" "ps \<noteq> []"
    "\<And>i. i < ?n \<Longrightarrow> f_fragment (ps ! i) = Some (nth_frag ?n ?p i)"
    "unat (word_of_nat ?n :: u32) = ?n" "\<And>i. i < ?n \<Longrightarrow> unat (word_of_nat i :: u32) = i"
    using msg_parts [OF assms(1,2)] unfolding nth_frag_def by metis
  have all: "\<forall>f \<in> set ps. f_fragment f \<noteq> None" using ps(2,4) by (metis in_set_conv_nth option.distinct(1))
  have "map (the \<circ> f_fragment) ps = map (nth_frag ?n ?p) [0..<?n]"
    by (rule nth_equalityI) (use ps(2,4) in simp_all)
  then have "frags ps = map (nth_frag ?n ?p) [0..<?n]"
    using all by (simp add: frags_eq filter_True del: map_map)
  moreover have "mset (frags fs) = mset (frags ps)"
    using assms(3) ps(1) by (simp add: frags_eq)
  ultimately show "parts_ok limit cap fs"
    using ps(5,6) assms(4,5) by (intro parts_ok_nth_frags) simp_all
  have perm: "mset fs = mset ps" using assms(3) ps(1) by simp
  have mem: "set fs = set ps" by (rule mset_eq_setD [OF perm])
  have len: "length fs = ?n" using mset_eq_length [OF perm] ps(2) by simp
  have "fs \<noteq> []" using perm ps(3) by auto
  have "\<forall>f \<in> set ([] @ fs). \<exists>g. f_fragment f = Some g \<and> parted_id g = ?p \<and> unat (parted_size g) = ?n"
  proof
    fix f assume "f \<in> set ([] @ fs)"
    then have "f \<in> set ps" using mem by simp
    then obtain i where i: "i < ?n" "f = ps ! i" unfolding in_set_conv_nth ps(2) by blast
    show "\<exists>g. f_fragment f = Some g \<and> parted_id g = ?p \<and> unat (parted_size g) = ?n"
      by (rule exI [of _ "nth_frag ?n ?p i"]) (use i ps(4) [OF i(1)] ps(5) in \<open>simp add: nth_frag_def del: unat_of_nat\<close>)
  qed
  from reassemble_one_pid [OF this] show "reassemble [] fs = [merged fs]" using len \<open>fs \<noteq> []\<close> by simp
qed

lemma reassemble_message:
  assumes "sendable st m" and "mset fs = mset (msg_frames st m)"
    and "limit = 0 \<or> part_count st m \<le> unat limit" and "0 < cap"
  shows "parts_ok limit cap fs \<and> (\<exists>x. reassemble [] fs = [x] \<and> f_body x = msg_data m \<and> f_fragment x = None
     \<and> f_ordered x = msg_ordered st m)"
proof (cases "needs_split st m")
  case True
  note perm = permuted_parts_ok [OF assms(1) True assms(2-4)]
  have s: "28 \<le> fr_mtu st" using assms(1) by (simp add: sendable_def)
  obtain f fs' where fs: "msg_frames st m = f # fs'"
    using msg_frames_data [OF s, of m] True by (cases "msg_frames st m") (auto simp: needs_split_def)
  then have "f \<in> set (msg_frames st m)" by simp
  then have f: "f_ordered f = msg_ordered st m" "parted (f_flags f)"
    using True by (auto simp: msg_frames_def nth_part_def)
  have "fs \<noteq> []" using fs assms(2) by auto
  have "merged fs = reassembled (f\<lparr>f_body := msg_data m\<rparr>)"
    using sorted_parts [OF assms(1) True assms(2)] msg_frames_data [OF s, of m] by (simp add: merged_def Let_def fs)
  then show ?thesis using perm f by (simp add: reassembled_def)
next
  case False
  then obtain f where f: "msg_frames st m = [f]" "f_fragment f = None" "f_body f = msg_data m" "f_ordered f = msg_ordered st m"
    by (simp add: msg_frames_def)
  then have "fs = [f]" using assms(2) by simp
  with f show ?thesis by (simp add: parts_ok_def)
qed

subsection \<open>Properties\<close>

text \<open>
  C14: sending a message on an existing channel, with room for a part in the MTU and indices left, never
  panics: it appends to the buffer, under the priority of the message, frames whose bodies make up the
  data in order and each of which fits a datagram of the MTU; the reliable index moves past the frames,
  the ordering index of the channel moves by one for the whole message.
\<close>

theorem start_send_functional:
  assumes "sendable st m"
  shows "fragment_start_send st m = (Ok (sent st m) :: (io_error, _) outcome)
     \<and> fr_buf (sent st m) = fr_buf st @ map (Pair (msg_priority m)) (msg_frames st m)
     \<and> concat (map f_body (msg_frames st m)) = msg_data m
     \<and> (\<forall>f \<in> set (msg_frames st m). FRAME_SET_HEADER_SIZE + frame_size f \<le> fr_mtu st)"
proof -
  have "28 \<le> fr_mtu st" using assms by (simp add: sendable_def)
  then show ?thesis
    using start_send_correct [OF assms] msg_frames_data msg_frames_size by (auto simp: sent_def)
qed

definition sample_sender :: "unit fragmenter" where
  "sample_sender = fragmented () 40 1"

definition sample_message :: message where
  "sample_message = message_new (map word_of_nat [0..<40])"

lemma sample_facts:
  "fr_mtu sample_sender = 40" "length (order_write_index sample_sender) = 1"
  "part_len sample_sender sample_message = 16" "part_count sample_sender sample_message = 3"
  "needs_split sample_sender sample_message" "msg_order_channel sample_message = 0"
  "reliable_write_index sample_sender = U24 0" "order_write_index sample_sender = [U24 0]"
  by (simp_all add: sample_sender_def fragmented_def part_len_def part_count_def needs_split_def sample_message_def
      message_new_def reliability_size_def)

lemma sample_sendable: "sendable sample_sender sample_message"
  by (simp add: sendable_def msg_frames_def sample_facts to_usize_def)

theorem start_send_functional_witness:
  "fragment_start_send sample_sender sample_message = (Ok (sent sample_sender sample_message) :: (io_error, _) outcome)
     \<and> length (msg_frames sample_sender sample_message) = 3
     \<and> list_all (\<lambda>f. FRAME_SET_HEADER_SIZE + frame_size f \<le> 40) (msg_frames sample_sender sample_message)"
  using start_send_functional [OF sample_sendable] by (simp add: msg_frames_def sample_facts list_all_iff)

text \<open>
  C13: fragmentation and defragmentation are inverse, whatever the network does to the order of the
  frames: when the frames of a message arrive in any order and in any grouping into frame sets, among
  polls that find nothing and errors of the stream below, the defragmentation layer delivers exactly one
  frame, and its body is the data of the message, under the ordering index it was sent with.
\<close>

theorem fragment_then_defragment:
  assumes "lru_laws A ok" and "0 < cap" and "limit = 0 \<or> part_count st m \<le> unat limit" and "sendable st m"
    and "fragment_start_send st m = (Ok st' :: (io_error, _) outcome)"
    and "fr_buf st' = fr_buf st @ map (Pair (msg_priority m)) frames"
    and "mset (frames_of s) = mset frames" and "Suc (length s) \<le> n"
  shows "\<exists>st0 outs st1 x. defragmented A limit cap = (Ok st0 :: (codec_error, _) outcome)
     \<and> polls n (defrag_poll A) st0 s = (Ok (outs, st1, []) :: (codec_error, _) outcome)
     \<and> singles_of outs = [x] \<and> f_body x = msg_data m \<and> f_fragment x = None \<and> f_ordered x = msg_ordered st m
     \<and> err_items outs = err_items s"
proof -
  have "st' = sent st m" using assms(5) start_send_correct [OF assms(4), where ?'b = io_error] by simp
  then have "map (Pair (msg_priority m)) frames = map (Pair (msg_priority m)) (msg_frames st m)"
    using assms(6) by (simp add: sent_def)
  then have "frames = msg_frames st m" by (simp add: inj_on_def inj_map_eq_map inj_def)
  then obtain x where x: "parts_ok limit cap (frames_of s)" "reassemble [] (frames_of s) = [x]"
    "f_body x = msg_data m" "f_fragment x = None" "f_ordered x = msg_ordered st m"
    using reassemble_message [OF assms(4) _ assms(3,2), of "frames_of s"] assms(7) by blast
  then obtain st0 outs st1 used rest where *: "defragmented A limit cap = (Ok st0 :: (codec_error, _) outcome)"
    "polls n (defrag_poll A) st0 s = (Ok (outs, st1, rest) :: (codec_error, _) outcome)" "s = used @ rest"
    "reassemble [] (frames_of used) = singles_of outs @ map sf_set (buffer st1)"
    "err_items outs = err_items used" "rest = [] \<and> buffer st1 = []"
    using part_cache.defrag_polls [OF part_cache.intro [OF assms(1)] assms(2) x(1), of n,
        where 'e = codec_error and 'f = codec_error] assms(8) x(2) by auto
  show ?thesis
    by (rule exI [of _ st0], rule exI [of _ outs], rule exI [of _ st1], rule exI [of _ x]) (use * x in simp)
qed

definition shuffled :: "(codec_error + frame_set) script" where
  "shuffled = [Ready (Some (Inr \<lparr> fs_seq_num = U24 0, fs_set = rev (msg_frames sample_sender sample_message) \<rparr>))]"

theorem fragment_then_defragment_witness:
  "\<exists>st0 outs st1 x. defragmented list_lru 0 1 = (Ok st0 :: (codec_error, _) outcome)
     \<and> polls 2 (defrag_poll list_lru) st0 shuffled = (Ok (outs, st1, []) :: (codec_error, _) outcome)
     \<and> singles_of outs = [x] \<and> f_body x = msg_data sample_message \<and> f_fragment x = None
     \<and> f_ordered x = msg_ordered sample_sender sample_message \<and> err_items outs = err_items shuffled"
  by (rule fragment_then_defragment [OF list_lru.lru_laws_axioms _ _ sample_sendable start_send_correct [OF sample_sendable],
        where frames = "msg_frames sample_sender sample_message"])
    (simp_all add: sent_def shuffled_def)

end
