(* ===== verification/Ordering.thy ===== *)
theory Ordering
  imports Defragment
begin

text \<open>
  The ordering layer of \<open>src/src/codec/decoder/ordered.rs\<close>: per ordering channel, frames wait in a hash
  map until their index is the next to be read.
\<close>

subsection \<open>State and operations\<close>

record ordering =
  or_map :: "u24 \<rightharpoonup> single_frame_set"
  or_read :: u24

definition ordering_default :: ordering where
  "ordering_default = \<lparr> or_map = Map.empty, or_read = U24 0 \<rparr>"

record order =
  max_channels :: nat
  ordering_of :: "ordering list"

definition ordered_new :: "nat \<Rightarrow> ('e, order) outcome" where
  "ordered_new n = (if \<not> n < 256 then Panic else if \<not> 0 < n then Panic
     else Ok \<lparr> max_channels = n, ordering_of = replicate n ordering_default \<rparr>)"

text \<open>
  \<open>for channel in 0..max_channels\<close>: the next frame of the first channel that has one.
\<close>

fun next_ready :: "nat list \<Rightarrow> ordering list \<Rightarrow> ('e, single_frame_set option \<times> ordering list) outcome" where
  "next_ready [] os = Ok (None, os)"
| "next_ready (c # cs) os =
     and_then (index os c) (\<lambda>q. case or_map q (or_read q) of
         Some x \<Rightarrow> and_then (u24_incr (or_read q)) (\<lambda>r.
           Ok (Some x, os[c := q\<lparr>or_map := (or_map q)(or_read q := None), or_read := r\<rparr>]))
       | None \<Rightarrow> next_ready cs os)"

definition channel_error :: "nat \<Rightarrow> nat \<Rightarrow> codec_error" where
  "channel_error c n = OrderedFrame (''channel '' @ decimal c @ '' >= max_channels '' @ decimal n)"

fun order_poll :: "(order, codec_error + single_frame_set, codec_error + single_frame_set, 'e) poll_fn" where
  "order_poll st s =
     and_then (next_ready [0..<max_channels st] (ordering_of st)) (\<lambda>(next, os).
     case next of
       Some x \<Rightarrow> Ok (Ready (Some (Inr x)), st\<lparr>ordering_of := os\<rparr>, s)
     | None \<Rightarrow> (case s of
         [] \<Rightarrow> Ok (Pending, st, [])
       | Pending # s \<Rightarrow> Ok (Pending, st, s)
       | Ready None # s \<Rightarrow> Ok (Ready None, st, s)
       | Ready (Some (Inl e)) # s \<Rightarrow> Ok (Ready (Some (Inl e)), st, s)
       | Ready (Some (Inr x)) # s \<Rightarrow> (case f_ordered (sf_set x) of
           Some od \<Rightarrow>
             let c = unat (channel od) in
             if max_channels st \<le> c then Ok (Ready (Some (Inl (channel_error c (max_channels st)))), st, s)
             else and_then (index (ordering_of st) c) (\<lambda>q.
               if frame_index od < or_read q then order_poll st s
               else order_poll (st\<lparr>ordering_of := (ordering_of st)[c := q\<lparr>or_map := (or_map q)(frame_index od \<mapsto> x)\<rparr>]\<rparr>) s)
         | None \<Rightarrow> Ok (Ready (Some (Inr x)), st, s))))"

declare order_poll.simps [simp del]

subsection \<open>Specification\<close>

text \<open>The ordering index of a frame on a channel, and the items of a channel.\<close>

definition on_channel :: "nat \<Rightarrow> single_frame_set \<Rightarrow> bool" where
  "on_channel c x \<longleftrightarrow> (case f_ordered (sf_set x) of None \<Rightarrow> False | Some od \<Rightarrow> unat (channel od) = c)"

definition order_idx :: "single_frame_set \<Rightarrow> nat" where
  "order_idx x = (case f_ordered (sf_set x) of None \<Rightarrow> 0 | Some od \<Rightarrow> to_usize (frame_index od))"

definition unordered :: "single_frame_set \<Rightarrow> bool" where
  "unordered x \<longleftrightarrow> f_ordered (sf_set x) = None"

definition arrived :: "nat \<Rightarrow> single_frame_set list \<Rightarrow> nat \<Rightarrow> bool" where
  "arrived c xs i \<longleftrightarrow> (\<exists>x \<in> set xs. on_channel c x \<and> order_idx x = i)"

text \<open>How many frames of a channel can be released: the first index that has not arrived.\<close>

definition released :: "nat \<Rightarrow> single_frame_set list \<Rightarrow> nat" where
  "released c xs = length (takeWhile (arrived c xs) [0..<Suc (length xs)])"

text \<open>The errors the layer reports: those of the stream below and one for every frame of an unknown channel.\<close>

fun order_errs :: "nat \<Rightarrow> (codec_error + single_frame_set) script \<Rightarrow> codec_error list" where
  "order_errs n [] = []"
| "order_errs n (Ready (Some (Inl e)) # s) = e # order_errs n s"
| "order_errs n (Ready (Some (Inr x)) # s) = (case f_ordered (sf_set x) of
      Some od \<Rightarrow> if n \<le> unat (channel od) then channel_error (unat (channel od)) n # order_errs n s else order_errs n s
    | None \<Rightarrow> order_errs n s)"
| "order_errs n (_ # s) = order_errs n s"

lemma order_errs_append [simp]: "order_errs n (s @ t) = order_errs n s @ order_errs n t"
  by (induction n s rule: order_errs.induct) (auto split: option.splits)

lemma arrived_append [simp]: "arrived c (xs @ ys) i \<longleftrightarrow> arrived c xs i \<or> arrived c ys i"
  by (auto simp: arrived_def)

lemma arrived_Nil [simp]: "\<not> arrived c [] i"
  by (simp add: arrived_def)

lemma arrived_Cons: "arrived c (x # xs) i \<longleftrightarrow> (on_channel c x \<and> order_idx x = i) \<or> arrived c xs i"
  by (auto simp: arrived_def)

lemma arrived_prefix_bound: "(\<And>i. i < k \<Longrightarrow> arrived c xs i) \<Longrightarrow> k \<le> length xs"
proof -
  assume "\<And>i. i < k \<Longrightarrow> arrived c xs i"
  then have "{..<k} \<subseteq> order_idx ` set xs" by (auto simp: arrived_def)
  then have "card {..<k} \<le> card (order_idx ` set xs)" by (rule card_mono [rotated]) simp
  also have "\<dots> \<le> length xs" using card_image_le [of "set xs" order_idx] card_length [of xs] by simp
  finally show ?thesis by simp
qed

lemma takeWhile_upt: "k \<le> n \<Longrightarrow> (\<And>i. i < k \<Longrightarrow> P i) \<Longrightarrow> k < n \<Longrightarrow> \<not> P k \<Longrightarrow> takeWhile P [0..<n] = [0..<k]"
proof -
  assume "k < n" "\<And>i. i < k \<Longrightarrow> P i" "\<not> P k"
  moreover from \<open>k < n\<close> have "[0..<n] = [0..<k] @ k # [Suc k..<n]"
    using upt_add_eq_append [of 0 k "n - k"] by (simp add: upt_conv_Cons)
  ultimately show ?thesis by (simp add: takeWhile_append)
qed

lemma released_eqI:
  assumes "\<And>i. i < k \<Longrightarrow> arrived c xs i" and "\<not> arrived c xs k"
  shows "released c xs = k"
proof -
  have "k < Suc (length xs)" using arrived_prefix_bound [of k c xs] assms(1) by (simp add: le_imp_less_Suc)
  then have "takeWhile (arrived c xs) [0..<Suc (length xs)] = [0..<k]"
    using assms by (intro takeWhile_upt) simp_all
  then show ?thesis by (simp add: released_def)
qed

lemma first_gap: "\<exists>k. (\<forall>i < k. arrived c xs i) \<and> \<not> arrived c xs k"
proof -
  have "\<exists>k. \<not> arrived c xs k" using arrived_prefix_bound [of "Suc (length xs)" c xs] by (meson Suc_n_not_le_n)
  then show ?thesis using exists_least_iff [of "\<lambda>k. \<not> arrived c xs k"] by auto
qed

lemma released_arrived: "i < released c xs \<Longrightarrow> arrived c xs i"
  and released_gap: "\<not> arrived c xs (released c xs)"
  using first_gap [of c xs] released_eqI [of _ c xs] by metis+

subsection \<open>The invariant\<close>

definition chan_inv :: "nat \<Rightarrow> single_frame_set list \<Rightarrow> ordering \<Rightarrow> bool" where
  "chan_inv c g q \<longleftrightarrow>
     (\<forall>i x. or_map q i = Some x \<longrightarrow> x \<in> set g \<and> on_channel c x \<and> order_idx x = to_usize i \<and> or_read q \<le> i)
     \<and> (\<forall>i < to_usize (or_read q). arrived c g i)
     \<and> (\<forall>i. arrived c g i \<longrightarrow> to_usize (or_read q) \<le> i \<longrightarrow> u24_of i \<in> dom (or_map q))"

definition read_of :: "order \<Rightarrow> nat \<Rightarrow> nat" where
  "read_of st c = to_usize (or_read (ordering_of st ! c))"

definition order_inv :: "single_frame_set list \<Rightarrow> order \<Rightarrow> (codec_error + single_frame_set) script \<Rightarrow> bool" where
  "order_inv g st s \<longleftrightarrow> length (ordering_of st) = max_channels st
     \<and> (\<forall>x \<in> set (g @ ok_items s). order_idx x < 2 ^ 24 - 1)
     \<and> (\<forall>c < max_channels st. chan_inv c g (ordering_of st ! c))"

definition order_trans :: "single_frame_set list \<Rightarrow> order \<Rightarrow> (codec_error + single_frame_set) script
    \<Rightarrow> (codec_error + single_frame_set) script \<Rightarrow> single_frame_set list \<Rightarrow> order \<Rightarrow> bool" where
  "order_trans g st used outs g' st' \<longleftrightarrow>
     g' = g @ ok_items used \<and> max_channels st' = max_channels st
     \<and> err_items outs = order_errs (max_channels st) used
     \<and> filter unordered (ok_items outs) = filter unordered (ok_items used)
     \<and> (\<forall>x \<in> set (ok_items outs). unordered x \<or> x \<in> set g' \<and> (\<exists>c < max_channels st. on_channel c x))
     \<and> (\<forall>c < max_channels st. read_of st c \<le> read_of st' c
         \<and> map order_idx (filter (on_channel c) (ok_items outs)) = [read_of st c..<read_of st' c])"

definition order_work :: "single_frame_set list \<Rightarrow> order \<Rightarrow> (codec_error + single_frame_set) script \<Rightarrow> nat" where
  "order_work g st s = length s + (\<Sum>c < max_channels st. released c (g @ ok_items s) - read_of st c)"

text \<open>A channel after its next frame was read.\<close>

definition advanced :: "ordering \<Rightarrow> ordering" where
  "advanced q = q\<lparr>or_map := (or_map q)(or_read q := None), or_read := u24_of (Suc (to_usize (or_read q)))\<rparr>"

lemma chan_inv_ready:
  assumes "chan_inv c g q" and "or_map q (or_read q) = Some x"
  shows "x \<in> set g" and "on_channel c x" and "order_idx x = to_usize (or_read q)"
    and "to_usize (or_read q) < released c (g @ ys)"
    and "to_usize (or_read q) < 2 ^ 24 - 1 \<Longrightarrow> chan_inv c g (advanced q)"
proof -
  let ?r = "to_usize (or_read q)"
  show x: "x \<in> set g" "on_channel c x" "order_idx x = ?r" using assms unfolding chan_inv_def by blast+
  then have here: "arrived c g ?r" by (auto simp: arrived_def)
  have below: "arrived c g i" if "i < ?r" for i using assms(1) that unfolding chan_inv_def by blast
  show "?r < released c (g @ ys)"
  proof (rule ccontr)
    assume "\<not> ?r < released c (g @ ys)"
    then have "arrived c g (released c (g @ ys))" using here below by (metis linorder_neqE_nat)
    then show False using released_gap [of c "g @ ys"] by simp
  qed
  assume lt: "?r < 2 ^ 24 - 1"
  then have r': "to_usize (u24_of (Suc ?r)) = Suc ?r" by (intro to_usize_u24_of) simp
  have le: "u24_of (Suc ?r) \<le> i" if "or_read q \<le> i" "i \<noteq> or_read q" for i
    using that r' by (metis Suc_leI le_neq_implies_less to_usize_inj u24_le_iff)
  have "u24_of i \<noteq> or_read q" if "Suc ?r \<le> i" "arrived c g i" for i
  proof -
    from that(2) obtain z where "order_idx z = i" by (auto simp: arrived_def)
    then have "i < 2 ^ 32" using unat_lt_exp [where 'a = 32] by (auto simp: order_idx_def to_usize_def split: option.splits)
    then have "to_usize (u24_of i) = i" by (simp add: to_usize_def u24_of_def unsigned_of_nat take_bit_nat_eq_self)
    then show ?thesis using that(1) by auto
  qed
  then show "chan_inv c g (advanced q)"
    using assms(1) le here below less_antisym unfolding chan_inv_def advanced_def by (auto simp: r' less_Suc_eq)
qed

lemma chan_inv_snoc_other: "chan_inv c g q \<Longrightarrow> \<not> on_channel c x \<Longrightarrow> chan_inv c (g @ [x]) q"
  by (auto simp: chan_inv_def arrived_Cons)

lemma chan_inv_snoc_old:
  assumes "chan_inv c g q" and "on_channel c x" and "order_idx x < to_usize (or_read q)"
  shows "chan_inv c (g @ [x]) q"
  using assms by (auto simp: chan_inv_def arrived_Cons)

lemma chan_inv_insert:
  assumes "chan_inv c g q" and "f_ordered (sf_set x) = Some od" and "unat (channel od) = c"
    and "or_read q \<le> frame_index od"
  shows "chan_inv c (g @ [x]) (q\<lparr>or_map := (or_map q)(frame_index od \<mapsto> x)\<rparr>)"
  using assms by (auto simp: chan_inv_def arrived_Cons on_channel_def order_idx_def)

subsection \<open>Refinement\<close>

lemma next_ready_cases:
  assumes "\<forall>c \<in> set cs. c < length os" and "\<And>c x. c < length os \<Longrightarrow> or_map (os ! c) (or_read (os ! c)) = Some x
    \<Longrightarrow> to_usize (or_read (os ! c)) < 2 ^ 24 - 1"
  obtains (idle) "(next_ready cs os :: ('e, _) outcome) = Ok (None, os)"
      "\<forall>c \<in> set cs. or_map (os ! c) (or_read (os ! c)) = None"
    | (deliver) c x where "c \<in> set cs" "or_map (os ! c) (or_read (os ! c)) = Some x"
      "(next_ready cs os :: ('e, _) outcome) = Ok (Some x, os[c := advanced (os ! c)])"
  using assms(1)
proof (induction cs arbitrary: thesis)
  case (Cons c cs)
  show thesis
  proof (cases "or_map (os ! c) (or_read (os ! c))")
    case None
    show thesis
    proof (rule Cons.IH)
      assume "(next_ready cs os :: ('e, _) outcome) = Ok (None, os)" "\<forall>c \<in> set cs. or_map (os ! c) (or_read (os ! c)) = None"
      then show thesis using Cons.prems None by (intro Cons.prems(1)) simp_all
    next
      fix d x assume "d \<in> set cs" "or_map (os ! d) (or_read (os ! d)) = Some x"
        "(next_ready cs os :: ('e, _) outcome) = Ok (Some x, os[d := advanced (os ! d)])"
      then show thesis using Cons.prems None by (intro Cons.prems(2) [of d x]) simp_all
    qed (use Cons.prems in simp)
  next
    case (Some x)
    then show thesis using Cons.prems assms(2) [of c x] by (intro Cons.prems(2) [of c x]) (simp_all add: u24_incr_eq u24_succ_eq advanced_def)
  qed
qed simp

definition order_step :: "single_frame_set list \<Rightarrow> order \<Rightarrow> (codec_error + single_frame_set) script
    \<Rightarrow> ('e, (codec_error + single_frame_set) option poll \<times> order \<times> (codec_error + single_frame_set) script) outcome \<Rightarrow> bool" where
  "order_step g st s res \<longleftrightarrow> (\<exists>r g' st' used s'. res = Ok (r, st', s') \<and> s = used @ s' \<and> order_inv g' st' s'
     \<and> order_trans g st used [r] g' st' \<and> order_work g' st' s' \<le> order_work g st s - 1)"

lemma order_stepI:
  "res = Ok (r, st', s') \<Longrightarrow> s = used @ s' \<Longrightarrow> order_inv g' st' s' \<Longrightarrow> order_trans g st used [r] g' st'
    \<Longrightarrow> order_work g' st' s' \<le> order_work g st s - 1 \<Longrightarrow> order_step g st s res"
  unfolding order_step_def by blast

lemma order_trans_refl: "order_trans g st [] [] g st"
  by (simp add: order_trans_def)

lemma upt_concat: "a \<le> b \<Longrightarrow> b \<le> c \<Longrightarrow> [a..<b] @ [b..<c] = [a..<c]"
  using upt_add_eq_append [of a b "c - b"] by simp

lemma order_trans_comp:
  assumes "order_trans g st u1 o1 g1 st1" and "order_trans g1 st1 u2 o2 g2 st2"
  shows "order_trans g st (u1 @ u2) (o1 @ o2) g2 st2"
proof -
  have "\<forall>c < max_channels st. read_of st c \<le> read_of st2 c
     \<and> map order_idx (filter (on_channel c) (ok_items (o1 @ o2))) = [read_of st c..<read_of st2 c]"
    using assms by (auto simp: order_trans_def upt_concat intro: le_trans)
  then show ?thesis using assms by (auto simp: order_trans_def)
qed

text \<open>Consuming one step of the script without changing any read index.\<close>

lemma order_work_consume:
  assumes "max_channels st' = max_channels st" and "\<And>c. c < max_channels st \<Longrightarrow> read_of st' c = read_of st c"
  shows "order_work (g @ ok_items [y]) st' s = order_work g st (y # s) - 1"
proof -
  have "ok_items (y # s) = ok_items [y] @ ok_items s" using ok_items_append [of "[y]" s] by simp
  then show ?thesis using assms by (simp add: order_work_def)
qed

lemma order_work_deliver:
  assumes "c < max_channels st" and "read_of st c < released c (g @ ok_items s)"
    and "max_channels st' = max_channels st" and "\<And>d. d < max_channels st \<Longrightarrow> read_of st' d = (if d = c then Suc (read_of st c) else read_of st d)"
  shows "order_work g st' s \<le> order_work g st s - 1"
proof -
  have "(\<Sum>d < max_channels st. released d (g @ ok_items s) - read_of st' d) < (\<Sum>d < max_channels st. released d (g @ ok_items s) - read_of st d)"
    by (rule sum_strict_mono_ex1) (use assms in \<open>auto intro!: bexI [of _ c]\<close>)
  then show ?thesis using assms(3) by (simp add: order_work_def)
qed

lemma order_inv_ready:
  assumes "order_inv g st s" and "c < max_channels st" and "or_map (ordering_of st ! c) (or_read (ordering_of st ! c)) = Some x"
  shows "read_of st c < 2 ^ 24 - 1"
proof -
  have "chan_inv c g (ordering_of st ! c)" using assms by (simp add: order_inv_def)
  note x = chan_inv_ready(1,3) [OF this assms(3)]
  have "order_idx x < 2 ^ 24 - 1" using assms(1) x(1) unfolding order_inv_def by simp
  then show ?thesis unfolding read_of_def x(2) .
qed

lemma order_deliver:
  assumes inv: "order_inv g st s" and c: "c < max_channels st"
    and x: "or_map (ordering_of st ! c) (or_read (ordering_of st ! c)) = Some x"
  shows "order_step g st s (Ok (Ready (Some (Inr x)), st\<lparr>ordering_of := (ordering_of st)[c := advanced (ordering_of st ! c)]\<rparr>, s) :: ('e, _) outcome)"
    (is "order_step _ _ _ (Ok (_, ?st, _))")
proof (rule order_stepI [where used = "[]" and g' = g and st' = ?st and s' = s, OF refl])
  let ?q = "ordering_of st ! c"
  have q: "chan_inv c g ?q" using inv c by (simp add: order_inv_def)
  note ready = chan_inv_ready [OF q x]
  have lt: "read_of st c < 2 ^ 24 - 1" by (rule order_inv_ready [OF inv c x])
  have len: "length (ordering_of st) = max_channels st" using inv by (simp add: order_inv_def)
  have read: "read_of ?st d = (if d = c then Suc (read_of st c) else read_of st d)" if "d < max_channels st" for d
    using lt len c that by (simp add: read_of_def advanced_def nth_list_update)
  show "order_inv g ?st s"
    using inv ready(5) lt len c by (auto simp: order_inv_def read_of_def nth_list_update)
  show "order_work g ?st s \<le> order_work g st s - 1"
    by (rule order_work_deliver [OF c]) (use ready(4) read in \<open>auto simp: read_of_def\<close>)
  have only: "on_channel d x \<longleftrightarrow> d = c" "\<not> unordered x" for d
    using ready(2) by (auto simp: on_channel_def unordered_def split: option.splits)
  show "order_trans g st [] [Ready (Some (Inr x))] g ?st"
    using ready(1-3) c read only by (auto simp: order_trans_def read_of_def [of st, symmetric])
qed simp

text \<open>With nothing to deliver, one step of the script is looked at.\<close>

lemma order_consume:
  assumes "order_inv g st (y # s)" and "order_inv (g @ ok_items [y]) st' s"
    and "max_channels st' = max_channels st" and "\<And>c. c < max_channels st \<Longrightarrow> read_of st' c = read_of st c"
  shows "ok_items [r] = filter unordered (ok_items [y]) \<Longrightarrow> err_items [r] = order_errs (max_channels st) [y]
      \<Longrightarrow> order_step g st (y # s) (Ok (r, st', s) :: ('e, _) outcome)"
    and "filter unordered (ok_items [y]) = [] \<Longrightarrow> order_errs (max_channels st) [y] = []
      \<Longrightarrow> order_step (g @ ok_items [y]) st' s res \<Longrightarrow> order_step g st (y # s) res"
proof -
  have w: "order_work (g @ ok_items [y]) st' s \<le> order_work g st (y # s) - 1"
    using order_work_consume [OF assms(3,4)] by simp
  have un: "filter (\<lambda>x. unordered x \<and> on_channel c x) xs = []" for c xs
    by (auto simp: filter_empty_conv on_channel_def unordered_def split: option.splits)
  show "order_step g st (y # s) (Ok (r, st', s) :: ('e, _) outcome)"
    if *: "ok_items [r] = filter unordered (ok_items [y])" "err_items [r] = order_errs (max_channels st) [y]"
  proof (rule order_stepI [where used = "[y]", OF refl _ assms(2) _ w])
    show "order_trans g st [y] [r] (g @ ok_items [y]) st'"
      unfolding order_trans_def * using assms(3,4) by (simp add: un)
  qed simp
  assume y: "filter unordered (ok_items [y]) = []" "order_errs (max_channels st) [y] = []"
    and "order_step (g @ ok_items [y]) st' s res"
  then obtain r g2 st2 used s2 where *: "res = Ok (r, st2, s2)" "s = used @ s2" "order_inv g2 st2 s2"
    "order_trans (g @ ok_items [y]) st' used [r] g2 st2" "order_work g2 st2 s2 \<le> order_work (g @ ok_items [y]) st' s - 1"
    unfolding order_step_def by blast
  have "order_trans g st [y] [] (g @ ok_items [y]) st'" using y assms(3,4) by (simp add: order_trans_def)
  from order_trans_comp [OF this *(4)] have "order_trans g st (y # used) [r] g2 st2" by simp
  then show "order_step g st (y # s) res"
    using * w by (intro order_stepI [where used = "y # used", OF *(1) _ *(3)]) auto
qed

lemma order_inv_snoc:
  assumes "order_inv g st (y # s)" and "\<And>x c. ok_items [y] = [x] \<Longrightarrow> c < max_channels st \<Longrightarrow> \<not> on_channel c x"
  shows "order_inv (g @ ok_items [y]) st s"
  using assms by (cases y rule: result_poll_cases) (auto simp: order_inv_def intro!: chan_inv_snoc_other)

lemma order_poll_input:
  assumes inv: "order_inv g st (y # s)"
    and idle: "(next_ready [0..<max_channels st] (ordering_of st) :: ('e, _) outcome) = Ok (None, ordering_of st)"
    and IH: "\<And>g st. order_inv g st s \<Longrightarrow> order_step g st s (order_poll st s :: ('e, _) outcome)"
  shows "order_step g st (y # s) (order_poll st (y # s) :: ('e, _) outcome)"
proof (cases y rule: result_poll_cases)
  case (item x)
  show ?thesis
  proof (cases "f_ordered (sf_set x)")
    case None
    then have "order_inv (g @ ok_items [y]) st s" using item by (intro order_inv_snoc [OF inv]) (simp add: on_channel_def)
    from order_consume(1) [OF inv this, of "Ready (Some (Inr x))", where 'e = 'e] show ?thesis
      using idle item None by (subst order_poll.simps) (simp add: unordered_def)
  next
    case (Some od)
    let ?c = "unat (channel od)"
    have on: "on_channel d x \<longleftrightarrow> d = ?c" "\<not> unordered x" "order_idx x = to_usize (frame_index od)" for d
      using Some by (auto simp: on_channel_def unordered_def order_idx_def)
    show ?thesis
    proof (cases "max_channels st \<le> ?c")
      case True
      then have "order_inv (g @ ok_items [y]) st s" using item on by (intro order_inv_snoc [OF inv]) simp
      from order_consume(1) [OF inv this, of "Ready (Some (Inl (channel_error ?c (max_channels st))))", where 'e = 'e]
      show ?thesis using idle item Some True on by (subst order_poll.simps) simp
    next
      case False
      define q where "q = ordering_of st ! ?c"
      have len: "length (ordering_of st) = max_channels st" using inv by (simp add: order_inv_def)
      have q: "chan_inv ?c g q" using inv False by (simp add: order_inv_def q_def)
      define q' where "q' = (if frame_index od < or_read q then q else q\<lparr>or_map := (or_map q)(frame_index od \<mapsto> x)\<rparr>)"
      let ?st = "st\<lparr>ordering_of := (ordering_of st)[?c := q']\<rparr>"
      have q': "chan_inv ?c (g @ [x]) q'"
        using chan_inv_snoc_old [OF q, of x] chan_inv_insert [OF q Some] on by (auto simp: q'_def u24_less_iff not_less u24_le_iff)
      have "chan_inv d (g @ [x]) (ordering_of ?st ! d)" if "d < max_channels st" for d
        using inv q' on len that by (cases "d = ?c") (simp_all add: order_inv_def chan_inv_snoc_other)
      then have "order_inv (g @ ok_items [y]) ?st s" using inv len item by (simp add: order_inv_def)
      moreover have "read_of ?st d = read_of st d" if "d < max_channels st" for d
        using len that by (cases "d = ?c") (simp_all add: read_of_def q'_def q_def)
      moreover have "(order_poll st (y # s) :: ('e, _) outcome) = order_poll ?st s"
        using idle item Some False len by (subst order_poll.simps) (simp add: q'_def q_def Let_def)
      ultimately show ?thesis
        using order_consume(2) [OF inv, of ?st "order_poll ?st s :: ('e, _) outcome"] IH item Some on False by simp
    qed
  qed
qed (use order_consume(1) [OF inv order_inv_snoc [OF inv], of y, where 'e = 'e] idle in \<open>subst order_poll.simps, simp\<close>)+

lemma idle_released:
  assumes "chan_inv c g q" and "or_map q (or_read q) = None"
  shows "released c g = to_usize (or_read q)"
proof (rule released_eqI)
  show "arrived c g i" if "i < to_usize (or_read q)" for i using assms(1) that by (simp add: chan_inv_def)
  show "\<not> arrived c g (to_usize (or_read q))"
    using assms unfolding chan_inv_def by (metis domIff order_refl u24_of_to_usize)
qed

lemma order_poll_law: "order_inv g st s \<Longrightarrow> order_step g st s (order_poll st s :: ('e, _) outcome)"
proof (induction s arbitrary: g st)
  case Nil
  then have cs: "\<forall>c \<in> set [0..<max_channels st]. c < length (ordering_of st)" by (simp add: order_inv_def)
  show ?case
  proof (rule next_ready_cases [where cs = "[0..<max_channels st]" and os = "ordering_of st" and 'e = 'e, OF cs])
    assume none: "(next_ready [0..<max_channels st] (ordering_of st) :: ('e, _) outcome) = Ok (None, ordering_of st)"
      and idle: "\<forall>c \<in> set [0..<max_channels st]. or_map (ordering_of st ! c) (or_read (ordering_of st ! c)) = None"
    have "(order_poll st [] :: ('e, _) outcome) = Ok (Pending, st, [])" using none by (subst order_poll.simps) simp
    moreover have "released c g = read_of st c" if "c < max_channels st" for c
      unfolding read_of_def by (rule idle_released) (use Nil idle that in \<open>simp_all add: order_inv_def\<close>)
    then have "order_work g st [] = 0" by (simp add: order_work_def)
    ultimately show ?thesis
      using Nil by (intro order_stepI [where used = "[]" and g' = g]) (auto simp: order_trans_def)
  next
    fix c x
    assume "c \<in> set [0..<max_channels st]" "or_map (ordering_of st ! c) (or_read (ordering_of st ! c)) = Some x"
      "(next_ready [0..<max_channels st] (ordering_of st) :: ('e, _) outcome) = Ok (Some x, (ordering_of st)[c := advanced (ordering_of st ! c)])"
    then show ?thesis using order_deliver [OF Nil, of c x, where 'e = 'e] by (subst order_poll.simps) simp
  qed (use order_inv_ready [OF Nil] Nil in \<open>simp add: order_inv_def read_of_def\<close>)
next
  case (Cons y s)
  then have cs: "\<forall>c \<in> set [0..<max_channels st]. c < length (ordering_of st)" by (simp add: order_inv_def)
  show ?case
  proof (rule next_ready_cases [where cs = "[0..<max_channels st]" and os = "ordering_of st" and 'e = 'e, OF cs])
    assume "(next_ready [0..<max_channels st] (ordering_of st) :: ('e, _) outcome) = Ok (None, ordering_of st)"
    then show ?thesis using order_poll_input [OF Cons.prems _ Cons.IH] by blast
  next
    fix c x
    assume "c \<in> set [0..<max_channels st]" "or_map (ordering_of st ! c) (or_read (ordering_of st ! c)) = Some x"
      "(next_ready [0..<max_channels st] (ordering_of st) :: ('e, _) outcome) = Ok (Some x, (ordering_of st)[c := advanced (ordering_of st ! c)])"
    then show ?thesis using order_deliver [OF Cons.prems, of c x, where 'e = 'e] by (subst order_poll.simps) simp
  qed (use order_inv_ready [OF Cons.prems] Cons.prems in \<open>simp add: order_inv_def read_of_def\<close>)
qed

interpretation order: layer order_poll order_inv order_trans order_work
proof unfold_locales
  fix g st s
  assume "order_inv g st s"
  from order_poll_law [OF this] show "\<exists>r g' st' used s'. order_poll st s = Ok (r, st', s') \<and> s = used @ s'
      \<and> order_inv g' st' s' \<and> order_trans g st used [r] g' st' \<and> order_work g' st' s' \<le> order_work g st s - 1"
    by (simp only: order_step_def)
qed (simp_all add: order_trans_refl order_trans_comp)

lemma read_le_released:
  assumes "order_inv g st s" and "c < max_channels st"
  shows "read_of st c \<le> released c g"
proof (rule ccontr)
  assume "\<not> read_of st c \<le> released c g"
  then have "arrived c g (released c g)" using assms by (simp add: order_inv_def chan_inv_def read_of_def)
  then show False using released_gap by blast
qed

lemma order_polls:
  assumes "0 < k" and "k < 256" and "\<forall>x \<in> set (ok_items s). order_idx x < 2 ^ 24 - 1"
  shows "\<exists>st0 outs st used rest. ordered_new k = (Ok st0 :: ('e, _) outcome)
     \<and> polls n order_poll st0 s = (Ok (outs, st, rest) :: ('f, _) outcome) \<and> s = used @ rest
     \<and> err_items outs = order_errs k used
     \<and> filter unordered (ok_items outs) = filter unordered (ok_items used)
     \<and> (\<forall>x \<in> set (ok_items outs). unordered x \<or> x \<in> set (ok_items used) \<and> (\<exists>c < k. on_channel c x))
     \<and> (\<forall>c < k. \<exists>m \<le> released c (ok_items used). map order_idx (filter (on_channel c) (ok_items outs)) = [0..<m]
          \<and> (length s + (\<Sum>c < k. released c (ok_items s)) \<le> n \<longrightarrow> m = released c (ok_items s)))
     \<and> (length s + (\<Sum>c < k. released c (ok_items s)) \<le> n \<longrightarrow> rest = [])"
proof -
  let ?st = "\<lparr> max_channels = k, ordering_of = replicate k ordering_default \<rparr>"
  have "chan_inv c [] ordering_default" for c by (simp add: chan_inv_def ordering_default_def)
  then have "order_inv [] ?st s" using assms(3) by (simp add: order_inv_def)
  from order.polls_law [OF this, of n] obtain outs g st used rest where
    *: "(polls n order_poll ?st s :: ('f, _) outcome) = Ok (outs, st, rest)" "s = used @ rest" "order_inv g st rest"
    "order_trans [] ?st used outs g st" "order_work g st rest \<le> order_work [] ?st s - n"
    by blast
  have read: "read_of ?st c = 0" if "c < k" for c using that by (simp add: read_of_def ordering_default_def)
  then have w: "order_work [] ?st s = length s + (\<Sum>c < k. released c (ok_items s))" by (simp add: order_work_def)
  have t: "g = ok_items used" "max_channels st = k" "err_items outs = order_errs k used"
    "filter unordered (ok_items outs) = filter unordered (ok_items used)"
    "\<forall>x \<in> set (ok_items outs). unordered x \<or> x \<in> set (ok_items used) \<and> (\<exists>c < k. on_channel c x)"
    "\<forall>c < k. map order_idx (filter (on_channel c) (ok_items outs)) = [0..<read_of st c]"
    using *(4) read by (auto simp: order_trans_def)
  have fin: "rest = []" "\<forall>c < k. read_of st c = released c (ok_items s)"
    if enough: "length s + (\<Sum>c < k. released c (ok_items s)) \<le> n"
  proof -
    have "order_work g st rest = 0" using *(5) enough w by simp
    then have z: "rest = []" "\<forall>c < k. released c (g @ ok_items rest) \<le> read_of st c" by (auto simp: order_work_def t(2))
    then show "rest = []" "\<forall>c < k. read_of st c = released c (ok_items s)"
      using read_le_released [OF *(3)] *(2) t(1,2) by (auto intro: le_antisym)
  qed
  have "\<forall>c < k. \<exists>m \<le> released c (ok_items used). map order_idx (filter (on_channel c) (ok_items outs)) = [0..<m]
      \<and> (length s + (\<Sum>c < k. released c (ok_items s)) \<le> n \<longrightarrow> m = released c (ok_items s))"
  proof (intro allI impI)
    fix c assume "c < k"
    then show "\<exists>m \<le> released c (ok_items used). map order_idx (filter (on_channel c) (ok_items outs)) = [0..<m]
        \<and> (length s + (\<Sum>c < k. released c (ok_items s)) \<le> n \<longrightarrow> m = released c (ok_items s))"
      using read_le_released [OF *(3)] t(1,2,6) fin(2) by (intro exI [of _ "read_of st c"]) simp
  qed
  then show ?thesis
    by - (rule exI [of _ ?st], rule exI [of _ outs], rule exI [of _ st], rule exI [of _ used], rule exI [of _ rest],
      intro conjI impI, simp add: ordered_new_def assms(1,2), rule *(1), rule *(2), rule t(3), rule t(4), rule t(5),
      assumption, rule fin(1))
qed

subsection \<open>Properties\<close>

text \<open>
  C17: ordered delivery.  Whatever frames arrive and in whatever order, with indices below the last of
  the 24-bit space, polling never fails, and on every channel the frames delivered carry the indices 0,
  1, 2, ... without gap, repetition or inversion, never going past the first index that has not arrived;
  enough polls deliver all that can be released.  Frames without ordering pass in the order of their
  arrival, every delivered frame arrived, and a frame of an unknown channel is reported as an error.
\<close>

theorem ordered_delivery:
  assumes "0 < k" and "k < 256" and "\<forall>x \<in> set (ok_items s). order_idx x < 2 ^ 24 - 1"
  shows "\<exists>st0 outs st used rest. ordered_new k = (Ok st0 :: (codec_error, _) outcome)
     \<and> polls n order_poll st0 s = (Ok (outs, st, rest) :: (codec_error, _) outcome) \<and> s = used @ rest
     \<and> err_items outs = order_errs k used
     \<and> filter unordered (ok_items outs) = filter unordered (ok_items used)
     \<and> (\<forall>x \<in> set (ok_items outs). unordered x \<or> x \<in> set (ok_items used) \<and> (\<exists>c < k. on_channel c x))
     \<and> (\<forall>c < k. \<exists>m \<le> released c (ok_items used). map order_idx (filter (on_channel c) (ok_items outs)) = [0..<m]
          \<and> (length s + (\<Sum>c < k. released c (ok_items s)) \<le> n \<longrightarrow> m = released c (ok_items s)))
     \<and> (length s + (\<Sum>c < k. released c (ok_items s)) \<le> n \<longrightarrow> rest = [])"
  by (rule order_polls [OF assms])

definition sample_ordered :: "nat \<Rightarrow> u8 \<Rightarrow> single_frame_set" where
  "sample_ordered i c = \<lparr> sf_seq_num = U24 0, sf_set = \<lparr> f_flags = flags_new ReliableOrdered False,
     reliable_frame_index = Some (u24_of i), seq_frame_index = None,
     f_ordered = Some \<lparr> frame_index = u24_of i, channel = c \<rparr>, f_fragment = None, f_body = [0xfe] \<rparr> \<rparr>"

definition sample_disorder :: "(codec_error + single_frame_set) script" where
  "sample_disorder = [Ready (Some (Inr (sample_ordered 1 0))), Pending, Ready (Some (Inr (sample_ordered 0 0)))]"

theorem ordered_delivery_witness:
  "\<exists>st0 outs st used rest. ordered_new 1 = (Ok st0 :: (codec_error, _) outcome)
     \<and> polls 5 order_poll st0 sample_disorder = (Ok (outs, st, rest) :: (codec_error, _) outcome)
     \<and> sample_disorder = used @ rest
     \<and> map order_idx (filter (on_channel 0) (ok_items outs)) = [0, 1] \<and> rest = []"
proof -
  have one: "to_usize (u24_of (Suc 0)) = Suc 0" by (rule to_usize_u24_of) simp
  have r: "released 0 (ok_items sample_disorder) = 2"
    by (rule released_eqI)
      (auto simp: sample_disorder_def arrived_Cons on_channel_def order_idx_def sample_ordered_def numeral_2_eq_2 less_Suc_eq
        one)
  have idx: "\<forall>x \<in> set (ok_items sample_disorder). order_idx x < 2 ^ 24 - 1"
    by (simp add: sample_disorder_def order_idx_def sample_ordered_def)
  have "length sample_disorder + (\<Sum>c < 1. released c (ok_items sample_disorder)) \<le> 5"
    by (simp add: r) (simp add: sample_disorder_def)
  then show ?thesis
    using ordered_delivery [OF _ _ idx, of 1 5] r by (auto simp: upt_rec numeral_2_eq_2)
qed

end
