(* ===== verification/Transmission.thy ===== *)
theory Transmission
  imports Fragmentation Ordering
begin

text \<open>
  Sequences of messages through the fragmentation sink, and what is left of them after a network that
  reorders, groups and repeats frames: the facts the correctness of the whole codec rests on.
\<close>

subsection \<open>Sending a sequence of messages\<close>

fun send_messages :: "'s fragmenter \<Rightarrow> message list \<Rightarrow> ('e, 's fragmenter) outcome" where
  "send_messages st [] = Ok st"
| "send_messages st (m # ms) = and_then (fragment_start_send st m) (\<lambda>st. send_messages st ms)"

fun sendable_all :: "'s fragmenter \<Rightarrow> message list \<Rightarrow> bool" where
  "sendable_all st [] \<longleftrightarrow> to_usize (reliable_write_index st) < 2 ^ 24"
| "sendable_all st (m # ms) \<longleftrightarrow> sendable st m \<and> sendable_all (sent st m) ms"

fun all_frames :: "'s fragmenter \<Rightarrow> message list \<Rightarrow> frame list" where
  "all_frames st [] = []"
| "all_frames st (m # ms) = msg_frames st m @ all_frames (sent st m) ms"

text \<open>What should arrive: the data of every message with its place in the order of its channel.\<close>

fun expected :: "'s fragmenter \<Rightarrow> message list \<Rightarrow> (bytes \<times> ordered option) list" where
  "expected st [] = []"
| "expected st (m # ms) = (msg_data m, msg_ordered st m) # expected (sent st m) ms"

fun split_count :: "'s fragmenter \<Rightarrow> message list \<Rightarrow> nat" where
  "split_count st [] = 0"
| "split_count st (m # ms) = (if needs_split st m then 1 else 0) + split_count (sent st m) ms"

fun parts_within :: "u32 \<Rightarrow> 's fragmenter \<Rightarrow> message list \<Rightarrow> bool" where
  "parts_within limit st [] \<longleftrightarrow> True"
| "parts_within limit st (m # ms) \<longleftrightarrow> (limit = 0 \<or> part_count st m \<le> unat limit) \<and> parts_within limit (sent st m) ms"

lemma send_messages_ok:
  assumes "sendable_all st ms"
  shows "\<exists>st'. (send_messages st ms :: ('e, _) outcome) = Ok st' \<and> map snd (fr_buf st') = map snd (fr_buf st) @ all_frames st ms"
  using assms
proof (induction ms arbitrary: st)
  case (Cons m ms)
  then have "(fragment_start_send st m :: ('e, _) outcome) = Ok (sent st m)" by (intro start_send_correct) simp
  moreover have "map snd (fr_buf (sent st m)) = map snd (fr_buf st) @ msg_frames st m" by (simp add: sent_def comp_def)
  ultimately show ?case using Cons.IH [of "sent st m"] Cons.prems by simp
qed simp

subsection \<open>Reliable indices\<close>

definition rel_idx :: "frame \<Rightarrow> nat" where
  "rel_idx f = (case reliable_frame_index f of None \<Rightarrow> 0 | Some i \<Rightarrow> to_usize i)"

definition has_rel :: "frame \<Rightarrow> bool" where
  "has_rel f \<longleftrightarrow> reliable_frame_index f \<noteq> None"

lemma rel_indices_map: "\<forall>f \<in> set fs. has_rel f \<Longrightarrow> rel_indices fs = map rel_idx fs"
  by (induction fs) (auto simp: rel_idx_def has_rel_def)

lemma msg_frames_rel:
  assumes "sendable st m" and "is_reliable (msg_reliability m)"
  shows "(\<forall>f \<in> set (msg_frames st m). has_rel f) \<and> map rel_idx (msg_frames st m)
      = [to_usize (reliable_write_index st)..<to_usize (reliable_write_index st) + length (msg_frames st m)]"
    and "to_usize (reliable_write_index (sent st m)) = to_usize (reliable_write_index st) + length (msg_frames st m)"
proof -
  let ?b = "to_usize (reliable_write_index st)"
  have b: "?b + length (msg_frames st m) < 2 ^ 24" using assms(1) by (simp add: sendable_def)
  then show "to_usize (reliable_write_index (sent st m)) = ?b + length (msg_frames st m)"
    using assms(2) by (simp add: sent_def)
  show "(\<forall>f \<in> set (msg_frames st m). has_rel f) \<and> map rel_idx (msg_frames st m) = [?b..<?b + length (msg_frames st m)]"
  proof (cases "needs_split st m")
    case True
    then have f: "msg_frames st m = map (nth_part (adjust_reliability (msg_reliability m)) ?b (msg_ordered st m)
        (word_of_nat (part_count st m)) (parted_id_write st) (part_len st m) (msg_data m)) [0..<part_count st m]"
      by (simp add: msg_frames_def)
    have "map rel_idx (msg_frames st m) = map (\<lambda>i. i + ?b) [0..<part_count st m]"
      using b unfolding f by (auto simp: rel_idx_def nth_part_def add.commute)
    also have "\<dots> = [?b..<?b + part_count st m]" by (simp add: map_add_upt add.commute)
    finally show ?thesis by (auto simp: f nth_part_def has_rel_def)
  next
    case False
    then show ?thesis using assms(2) by (simp add: msg_frames_def rel_idx_def has_rel_def upt_rec)
  qed
qed

lemma all_frames_rel:
  assumes "sendable_all st ms" and "\<forall>m \<in> set ms. is_reliable (msg_reliability m)"
  shows "(\<forall>f \<in> set (all_frames st ms). has_rel f)
     \<and> map rel_idx (all_frames st ms) = [to_usize (reliable_write_index st)..<to_usize (reliable_write_index st) + length (all_frames st ms)]
     \<and> to_usize (reliable_write_index st) + length (all_frames st ms) < 2 ^ 24"
  using assms
proof (induction ms arbitrary: st)
  case (Cons m ms)
  have m: "sendable st m" "is_reliable (msg_reliability m)" using Cons.prems by simp_all
  note rel = msg_frames_rel [OF m]
  have IH: "(\<forall>f \<in> set (all_frames (sent st m) ms). has_rel f)
     \<and> map rel_idx (all_frames (sent st m) ms) = [to_usize (reliable_write_index (sent st m))..<to_usize (reliable_write_index (sent st m)) + length (all_frames (sent st m) ms)]
     \<and> to_usize (reliable_write_index (sent st m)) + length (all_frames (sent st m) ms) < 2 ^ 24"
    by (rule Cons.IH) (use Cons.prems in simp_all)
  then show ?case
    using rel upt_add_eq_append [of "to_usize (reliable_write_index st)" "to_usize (reliable_write_index st) + length (msg_frames st m)"
        "length (all_frames (sent st m) ms)"] by (auto simp: add.assoc)
qed simp

lemma distinct_rel:
  assumes "map rel_idx F = [b..<n]"
  shows "distinct F" and "inj_on rel_idx (set F)"
  using assms distinct_upt [of b n] by (metis distinct_map)+

text \<open>Keeping first occurrences undoes any repetition of frames.\<close>

lemma first_seen_subset: "set (first_seen S fs) \<subseteq> set fs"
  by (induction S fs rule: first_seen.induct) (auto split: option.splits if_splits)

lemma first_seen_perm:
  assumes "set fs = set F" and "\<forall>f \<in> set F. has_rel f" and "map rel_idx F = [b..<n]"
  shows "mset (first_seen {} fs) = mset F"
proof -
  let ?g = "first_seen {} fs"
  have sub: "set ?g \<subseteq> set F" using first_seen_subset assms(1) by fast
  then have rel: "rel_indices ?g = map rel_idx ?g" "rel_indices fs = map rel_idx fs" using assms(1,2) by (auto intro!: rel_indices_map)
  have d: "distinct (map rel_idx ?g)" "set (map rel_idx ?g) = set (map rel_idx fs)"
    using first_seen_distinct [of "{}" fs] rel by simp_all
  have "set F \<subseteq> set ?g"
  proof
    fix f assume f: "f \<in> set F"
    then have "rel_idx f \<in> rel_idx ` set ?g" using d(2) assms(1) by auto
    then obtain g where "g \<in> set ?g" "rel_idx g = rel_idx f" by auto
    then show "f \<in> set ?g" using sub f distinct_rel(2) [OF assms(3)] by (metis inj_on_def subsetD)
  qed
  then have "set ?g = set F" using sub by blast
  moreover have "distinct ?g" using d(1) by (simp add: distinct_map)
  ultimately show ?thesis using distinct_rel(1) [OF assms(3)] by (simp add: set_eq_iff_mset_eq_distinct)
qed

subsection \<open>Reassembly of many messages\<close>

text \<open>Sets of parts under different ids do not interact.\<close>

definition same_pid :: "frame \<Rightarrow> frame \<Rightarrow> bool" where
  "same_pid f g \<longleftrightarrow> (\<exists>p. has_pid p f \<and> has_pid p g)"

lemma reassemble_partition:
  assumes "\<forall>f \<in> set (seen @ fs). \<forall>g \<in> set (seen @ fs). same_pid f g \<longrightarrow> P f = P g"
  shows "mset (reassemble seen fs) = mset (reassemble (filter P seen) (filter P fs))
     + mset (reassemble (filter (\<lambda>f. \<not> P f) seen) (filter (\<lambda>f. \<not> P f) fs))"
  using assms
proof (induction fs arbitrary: seen)
  case (Cons f fs)
  have IH: "mset (reassemble (seen @ [f]) fs) = mset (reassemble (filter P (seen @ [f])) (filter P fs))
     + mset (reassemble (filter (\<lambda>f. \<not> P f) (seen @ [f])) (filter (\<lambda>f. \<not> P f) fs))"
    using Cons.prems by (intro Cons.IH) simp
  show ?case
  proof (cases "f_fragment f")
    case None
    then show ?thesis using IH by (cases "P f") simp_all
  next
    case (Some g)
    have pid: "P f' = P f" if "f' \<in> set (seen @ [f])" "has_pid (parted_id g) f'" for f'
    proof -
      have "same_pid f' f" using that(2) Some by (auto simp: same_pid_def has_pid_def)
      then show ?thesis using Cons.prems that(1) by auto
    qed
    have "filter (has_pid (parted_id g)) (filter Q (seen @ [f])) = filter (has_pid (parted_id g)) (seen @ [f])" if "\<forall>f'. P f' = P f \<longrightarrow> Q f'" for Q
      using that pid unfolding filter_filter by (intro filter_cong) blast+
    from this [of P] this [of "\<lambda>f. \<not> P f"] show ?thesis using IH Some by (cases "P f") (simp_all add: Let_def)
  qed
qed simp

text \<open>The ids in use.\<close>

definition pids :: "frame list \<Rightarrow> u16 set" where
  "pids fs = parted_id ` set (frags fs)"

lemma pids_simps [simp]: "pids [] = {}" "pids (fs @ gs) = pids fs \<union> pids gs"
  by (auto simp: pids_def)

lemma has_pid_pids: "f \<in> set fs \<Longrightarrow> has_pid p f \<Longrightarrow> p \<in> pids fs"
  by (force simp: pids_def has_pid_iff in_frags)

lemma msg_frames_pids: "pids (msg_frames st m) \<subseteq> (if needs_split st m then {parted_id_write st} else {})"
  by (auto simp: pids_def in_frags msg_frames_def nth_part_def)

lemma all_frames_pids: "pids (all_frames st ms) \<subseteq> (\<lambda>j. parted_id_write st + word_of_nat j) ` {..<split_count st ms}"
proof (induction ms arbitrary: st)
  case (Cons m ms)
  let ?w = "parted_id_write st"
  have "pids (all_frames (sent st m) ms) \<subseteq> (\<lambda>j. ?w + word_of_nat j) ` {..<split_count st (m # ms)}"
  proof
    fix p assume "p \<in> pids (all_frames (sent st m) ms)"
    then obtain j where j: "j < split_count (sent st m) ms" "p = parted_id_write (sent st m) + word_of_nat j" using Cons.IH by blast
    then show "p \<in> (\<lambda>j. ?w + word_of_nat j) ` {..<split_count st (m # ms)}"
      by (cases "needs_split st m") (auto simp: sent_def intro: image_eqI [where x = "Suc j"])
  qed
  moreover have "pids (msg_frames st m) \<subseteq> (\<lambda>j. ?w + word_of_nat j) ` {..<split_count st (m # ms)}"
    using msg_frames_pids [of st m] by (cases "needs_split st m") (force intro: image_eqI [where x = 0])+
  ultimately show ?case by simp
qed simp

lemma pids_disjoint:
  assumes "split_count st (m # ms) \<le> 2 ^ 16"
  shows "pids (msg_frames st m) \<inter> pids (all_frames (sent st m) ms) = {}"
proof (cases "needs_split st m")
  case True
  have "word_of_nat (Suc j) \<noteq> (0 :: u16)" if "j < split_count (sent st m) ms" for j
  proof -
    have "Suc j < 2 ^ 16" using that assms True by simp
    then have "unat (word_of_nat (Suc j) :: u16) = Suc j" by (simp add: unsigned_of_nat take_bit_nat_eq_self del: of_nat_Suc)
    then show ?thesis by (metis nat.distinct(1) unat_0)
  qed
  then have "parted_id_write st \<noteq> parted_id_write (sent st m) + word_of_nat j" if "j < split_count (sent st m) ms" for j
    using that True by (auto simp: sent_def add.assoc)
  then have "parted_id_write st \<notin> pids (all_frames (sent st m) ms)" using all_frames_pids [of "sent st m" ms] by blast
  moreover have "pids (msg_frames st m) \<subseteq> {parted_id_write st}" using msg_frames_pids [of st m] True by (simp only: if_True)
  ultimately show ?thesis by blast
next
  case False
  then have "pids (msg_frames st m) = {}" using msg_frames_pids [of st m] by simp
  then show ?thesis by simp
qed

lemma parts_ok_perm: "mset fs = mset gs \<Longrightarrow> parts_ok limit cap fs \<Longrightarrow> parts_ok limit cap gs"
proof -
  assume perm: "mset fs = mset gs" and ok: "parts_ok limit cap fs"
  have m: "mset (frags fs) = mset (frags gs)" using perm by (simp add: frags_eq)
  then have "mset (map (\<lambda>g. (parted_id g, parted_index g)) (frags fs)) = mset (map (\<lambda>g. (parted_id g, parted_index g)) (frags gs))" by simp
  then have d: "distinct (map (\<lambda>g. (parted_id g, parted_index g)) (frags fs)) = distinct (map (\<lambda>g. (parted_id g, parted_index g)) (frags gs))"
    by (rule mset_eq_imp_distinct_iff)
  show ?thesis using ok unfolding parts_ok_def mset_eq_setD [OF m] d .
qed

lemma parts_ok_append:
  assumes "parts_ok limit c fs" and "parts_ok limit d gs" and "pids fs \<inter> pids gs = {}"
  shows "parts_ok limit (c + d) (fs @ gs)"
proof -
  note a = assms(1) [unfolded parts_ok_def] and b = assms(2) [unfolded parts_ok_def]
  have ne: "parted_id g \<noteq> parted_id g'" if "g \<in> set (frags fs)" "g' \<in> set (frags gs)" for g g'
    using assms(3) that unfolding pids_def by blast
  have card: "card (parted_id ` set (frags (fs @ gs))) \<le> c + d"
    using card_Un_le [of "pids fs" "pids gs"] a b by (simp add: pids_def image_Un)
  have "(\<lambda>g. (parted_id g, parted_index g)) ` set (frags fs) \<inter> (\<lambda>g. (parted_id g, parted_index g)) ` set (frags gs) = {}"
    using ne by blast
  then have dist: "distinct (map (\<lambda>g. (parted_id g, parted_index g)) (frags (fs @ gs)))" using a b by simp
  have size: "parted_size g = parted_size g'"
    if "g \<in> set (frags (fs @ gs))" "g' \<in> set (frags (fs @ gs))" "parted_id g = parted_id g'" for g g'
  proof (cases "g \<in> set (frags fs)")
    case True
    then have "g' \<in> set (frags fs)" using ne that(2,3) by auto
    then show ?thesis using a True that(3) by blast
  next
    case False
    then have g: "g \<in> set (frags gs)" using that(1) by simp
    then have "g' \<in> set (frags gs)" using ne that(2,3) by force
    then show ?thesis using b g that(3) by blast
  qed
  have idx: "\<forall>g \<in> set (frags (fs @ gs)). parted_index g < parted_size g \<and> (limit = 0 \<or> parted_size g \<le> limit)"
    unfolding frags_simps set_append ball_Un using a b by (intro conjI) (elim conjE, assumption)+
  have size': "\<forall>g \<in> set (frags (fs @ gs)). \<forall>g' \<in> set (frags (fs @ gs)). parted_id g = parted_id g' \<longrightarrow> parted_size g = parted_size g'"
    by (intro ballI impI) (rule size)
  show ?thesis unfolding parts_ok_def by (intro conjI) (rule idx size' dist card)+
qed

lemma msg_frames_parts_ok:
  assumes "sendable st m" and "limit = 0 \<or> part_count st m \<le> unat limit"
  shows "parts_ok limit (if needs_split st m then 1 else 0) (msg_frames st m)"
proof (cases "needs_split st m")
  case True
  then show ?thesis using reassemble_message [OF assms(1) refl assms(2), of 1] by simp
qed (simp add: msg_frames_def parts_ok_def)

lemma all_frames_parts_ok:
  assumes "sendable_all st ms" and "parts_within limit st ms" and "split_count st ms \<le> 2 ^ 16"
  shows "parts_ok limit (split_count st ms) (all_frames st ms)"
  using assms
proof (induction ms arbitrary: st)
  case (Cons m ms)
  have "parts_ok limit (split_count (sent st m) ms) (all_frames (sent st m) ms)"
    by (rule Cons.IH) (use Cons.prems in \<open>simp_all split: if_splits\<close>)
  then show ?case
    using parts_ok_append [OF msg_frames_parts_ok _ pids_disjoint [OF Cons.prems(3)]] Cons.prems by simp
qed (simp add: parts_ok_def)

lemma parts_ok_mono: "parts_ok limit c fs \<Longrightarrow> c \<le> d \<Longrightarrow> parts_ok limit d fs"
  unfolding parts_ok_def by (elim conjE, intro conjI, assumption+, rule order_trans)

lemma all_frames_disjoint:
  assumes "sendable_all st (m # ms)" and "\<forall>m \<in> set (m # ms). is_reliable (msg_reliability m)"
  shows "set (msg_frames st m) \<inter> set (all_frames (sent st m) ms) = {}"
proof -
  have "distinct (all_frames st (m # ms))" using all_frames_rel [OF assms] distinct_rel(1) by blast
  then show ?thesis by simp
qed

lemma filter_member_perm:
  assumes "mset fs = mset (F @ G)" and "set F \<inter> set G = {}"
  shows "mset (filter (\<lambda>f. f \<in> set F) fs) = mset F" and "mset (filter (\<lambda>f. f \<notin> set F) fs) = mset G"
proof -
  have perm: "mset (filter P fs) = mset (filter P (F @ G))" for P using assms(1) by (simp only: mset_filter)
  have "filter (\<lambda>f. f \<in> set F) (F @ G) = F" "filter (\<lambda>f. f \<notin> set F) (F @ G) = G"
    using assms(2) by (auto simp: filter_empty_conv filter_id_conv)
  with perm show "mset (filter (\<lambda>f. f \<in> set F) fs) = mset F" "mset (filter (\<lambda>f. f \<notin> set F) fs) = mset G" by metis+
qed

lemma reassemble_all:
  assumes "sendable_all st ms" and "\<forall>m \<in> set ms. is_reliable (msg_reliability m)" and "parts_within limit st ms"
    and "split_count st ms \<le> 2 ^ 16" and "mset fs = mset (all_frames st ms)"
  shows "mset (map (\<lambda>x. (f_body x, f_ordered x)) (reassemble [] fs)) = mset (expected st ms)"
  using assms
proof (induction ms arbitrary: st fs)
  case (Cons m ms)
  let ?F = "msg_frames st m" and ?G = "all_frames (sent st m) ms" and ?P = "\<lambda>f. f \<in> set (msg_frames st m)"
  have perm: "mset fs = mset (?F @ ?G)" using Cons.prems(5) by simp
  note parts = filter_member_perm [OF perm all_frames_disjoint [OF Cons.prems(1,2)]]
  have fs: "set fs = set ?F \<union> set ?G" using mset_eq_setD [OF perm] by simp
  have "?P f = ?P g" if fg: "f \<in> set fs" "g \<in> set fs" "same_pid f g" for f g
  proof -
    obtain p where p: "has_pid p f" "has_pid p g" using fg(3) by (auto simp: same_pid_def)
    have "\<not> (f \<in> set ?F \<and> g \<in> set ?G)" "\<not> (g \<in> set ?F \<and> f \<in> set ?G)"
      using p has_pid_pids pids_disjoint [OF Cons.prems(4)] by blast+
    then show ?thesis using fg(1,2) fs by blast
  qed
  then have "mset (reassemble [] fs) = mset (reassemble [] (filter ?P fs)) + mset (reassemble [] (filter (\<lambda>f. \<not> ?P f) fs))"
    using reassemble_partition [of "[]" fs ?P] by simp
  moreover obtain x where "reassemble [] (filter ?P fs) = [x]" "f_body x = msg_data m" "f_ordered x = msg_ordered st m"
    using reassemble_message [OF _ parts(1), of limit 1] Cons.prems by auto
  moreover have "mset (map (\<lambda>x. (f_body x, f_ordered x)) (reassemble [] (filter (\<lambda>f. \<not> ?P f) fs))) = mset (expected (sent st m) ms)"
    by (rule Cons.IH) (use Cons.prems parts(2) in \<open>simp_all split: if_splits\<close>)
  ultimately show ?case by simp
qed simp

subsection \<open>The order of a channel\<close>

definition of_channel :: "nat \<Rightarrow> message \<Rightarrow> bool" where
  "of_channel c m \<longleftrightarrow> unat (msg_order_channel m) = c"

definition at_channel :: "nat \<Rightarrow> bytes \<times> ordered option \<Rightarrow> bool" where
  "at_channel c x \<longleftrightarrow> (case snd x of None \<Rightarrow> False | Some od \<Rightarrow> unat (channel od) = c)"

definition place :: "bytes \<times> ordered option \<Rightarrow> nat" where
  "place x = (case snd x of None \<Rightarrow> 0 | Some od \<Rightarrow> to_usize (frame_index od))"

lemma expected_channel:
  assumes "sendable_all st ms" and "\<forall>m \<in> set ms. is_sequenced_or_ordered (msg_reliability m)" and "c < length (order_write_index st)"
  shows "map fst (filter (at_channel c) (expected st ms)) = map msg_data (filter (of_channel c) ms)"
    and "map place (filter (at_channel c) (expected st ms))
      = [to_usize (order_write_index st ! c)..<to_usize (order_write_index st ! c) + length (filter (of_channel c) ms)]"
proof -
  have "map fst (filter (at_channel c) (expected st ms)) = map msg_data (filter (of_channel c) ms)
    \<and> map place (filter (at_channel c) (expected st ms))
      = [to_usize (order_write_index st ! c)..<to_usize (order_write_index st ! c) + length (filter (of_channel c) ms)]"
    using assms
  proof (induction ms arbitrary: st)
    case (Cons m ms)
    have od: "msg_ordered st m = Some \<lparr> frame_index = order_write_index st ! unat (msg_order_channel m), channel = msg_order_channel m \<rparr>"
      using Cons.prems by (simp add: msg_ordered_def)
    have len: "length (order_write_index (sent st m)) = length (order_write_index st)" by (simp add: sent_def Let_def)
    have s: "to_usize (order_write_index st ! unat (msg_order_channel m)) < 2 ^ 24 - 1" "unat (msg_order_channel m) < length (order_write_index st)"
      using Cons.prems(1) by (simp_all add: sendable_def)
    have nxt: "to_usize (order_write_index (sent st m) ! c) = to_usize (order_write_index st ! c) + (if of_channel c m then 1 else 0)"
      using Cons.prems(2) s by (auto simp: sent_def Let_def of_channel_def nth_list_update)
    show ?case
      using Cons.IH [of "sent st m"] Cons.prems len nxt
      by (cases "of_channel c m") (simp_all add: od at_channel_def place_def of_channel_def upt_conv_Cons del: upt_Suc)
  qed simp
  then show "map fst (filter (at_channel c) (expected st ms)) = map msg_data (filter (of_channel c) ms)"
    "map place (filter (at_channel c) (expected st ms))
      = [to_usize (order_write_index st ! c)..<to_usize (order_write_index st ! c) + length (filter (of_channel c) ms)]" by simp_all
qed

end
