(* ===== verification/Clock.thy ===== *)
theory Clock
  imports Prelude
begin

text \<open>
  Time as the sources use it from the standard library: \<open>Duration\<close> and \<open>Instant\<close> as numbers of
  nanoseconds, with the panics of their checked arithmetic.
\<close>

type_synonym duration = nat
type_synonym instant = nat

definition NANOS_PER_SEC :: nat where
  "NANOS_PER_SEC = 1000000000"

definition from_secs :: "nat \<Rightarrow> duration" where
  "from_secs s = s * NANOS_PER_SEC"

definition from_millis :: "nat \<Rightarrow> duration" where
  "from_millis m = m * 1000000"

definition DURATION_MAX :: duration where
  "DURATION_MAX = (2 ^ 64 - 1) * NANOS_PER_SEC + 999999999"

definition INSTANT_MAX :: instant where
  "INSTANT_MAX = (2 ^ 63 - 1) * NANOS_PER_SEC + 999999999"

definition dur_add :: "duration \<Rightarrow> duration \<Rightarrow> ('e, duration) outcome" where
  "dur_add a b = (if a + b \<le> DURATION_MAX then Ok (a + b) else Panic)"

definition dur_sub :: "duration \<Rightarrow> duration \<Rightarrow> ('e, duration) outcome" where
  "dur_sub a b = (if b \<le> a then Ok (a - b) else Panic)"

definition dur_mul :: "nat \<Rightarrow> duration \<Rightarrow> ('e, duration) outcome" where
  "dur_mul n d = (if n * d \<le> DURATION_MAX then Ok (n * d) else Panic)"

definition dur_div :: "duration \<Rightarrow> nat \<Rightarrow> ('e, duration) outcome" where
  "dur_div d n = (if n = 0 then Panic else Ok (d div n))"

definition instant_add :: "instant \<Rightarrow> duration \<Rightarrow> ('e, instant) outcome" where
  "instant_add t d = (if t + d \<le> INSTANT_MAX then Ok (t + d) else Panic)"

definition saturating_duration_since :: "instant \<Rightarrow> instant \<Rightarrow> duration" where
  "saturating_duration_since t s = t - s"

lemma dur_Ok [simp]:
  "a + b \<le> DURATION_MAX \<Longrightarrow> dur_add a b = Ok (a + b)" "b \<le> a \<Longrightarrow> dur_sub a b = Ok (a - b)"
  "n * d \<le> DURATION_MAX \<Longrightarrow> dur_mul n d = Ok (n * d)" "0 < n \<Longrightarrow> dur_div d n = Ok (d div n)"
  "t + d \<le> INSTANT_MAX \<Longrightarrow> instant_add t d = Ok (t + d)"
  by (simp_all add: dur_add_def dur_sub_def dur_mul_def dur_div_def instant_add_def)

end
