(* ===== verification/Hash.thy ===== *)
theory Hash
  imports Prelude
begin

text \<open>
  The hashing of \<open>src/src/utils/hash.rs\<close>: the hasher that passes integer keys of at most 64 bits
  through, and \<open>combine_hashes\<close>, which makes timer keys.
\<close>

subsection \<open>The identity hasher\<close>

text \<open>What a key writes to its hasher; an \<open>iN\<close> is its bit pattern, and \<open>usize\<close> and \<open>isize\<close> are 64 bits wide.\<close>

datatype hash_input =
    WriteU8 u8 | WriteU16 u16 | WriteU32 u32 | WriteU64 u64 | WriteUsize u64
  | WriteI8 "8 word" | WriteI16 "16 word" | WriteI32 "32 word" | WriteI64 "64 word" | WriteIsize "64 word"
  | WriteU128 u128 | WriteI128 "128 word" | WriteBytes bytes

type_synonym no_hash_hasher = u64

definition build_hasher :: no_hash_hasher where
  "build_hasher = 0"

definition hash_finish :: "no_hash_hasher \<Rightarrow> u64" where
  "hash_finish h = h"

fun hash_write :: "no_hash_hasher \<Rightarrow> hash_input \<Rightarrow> ('e, no_hash_hasher) outcome" where
  "hash_write h (WriteU8 i) = Ok (ucast i)"
| "hash_write h (WriteU16 i) = Ok (ucast i)"
| "hash_write h (WriteU32 i) = Ok (ucast i)"
| "hash_write h (WriteU64 i) = Ok i"
| "hash_write h (WriteUsize i) = Ok i"
| "hash_write h (WriteI8 i) = Ok (scast i)"
| "hash_write h (WriteI16 i) = Ok (scast i)"
| "hash_write h (WriteI32 i) = Ok (scast i)"
| "hash_write h (WriteI64 i) = Ok i"
| "hash_write h (WriteIsize i) = Ok i"
| "hash_write h (WriteU128 _) = Panic"
| "hash_write h (WriteI128 _) = Panic"
| "hash_write h (WriteBytes _) = Panic"

text \<open>On the keys the crate uses, 8, 32 and 64 bits wide, different keys have different hashes.\<close>

lemma hash_write_inject:
  "hash_write h (WriteU8 a) = hash_write h (WriteU8 b) \<longleftrightarrow> a = b"
  "hash_write h (WriteU32 c) = hash_write h (WriteU32 d) \<longleftrightarrow> c = d"
  "hash_write h (WriteU64 x) = hash_write h (WriteU64 y) \<longleftrightarrow> x = y"
  by (simp_all, (transfer, simp)+)

subsection \<open>Combining hashes\<close>

definition HASH_MUL :: u64 where
  "HASH_MUL = 0x9ddfea08eb382d69"

definition combine_hashes :: "u64 \<Rightarrow> u64 \<Rightarrow> u64" where
  "combine_hashes upper lower =
     (let a = (lower XOR upper) * HASH_MUL;
          a = a XOR drop_bit 47 a;
          b = (upper XOR a) * HASH_MUL;
          b = b XOR drop_bit 47 b
      in b * HASH_MUL)"

text \<open>Its two steps can be undone: the factor is odd, and a shift by 47 of 64 bits is undone by itself.\<close>

lemma mul_cancel: "x * HASH_MUL = y * HASH_MUL \<longleftrightarrow> x = y"
proof
  assume "x * HASH_MUL = y * HASH_MUL"
  then have "x * (HASH_MUL * 0xdc56e6f5090b32d9) = y * (HASH_MUL * 0xdc56e6f5090b32d9)" by (simp only: mult.assoc [symmetric])
  moreover have "HASH_MUL * 0xdc56e6f5090b32d9 = 1" by (simp add: HASH_MUL_def)
  ultimately show "x = y" by simp
qed simp

lemma xor_shift_undo: "(x XOR drop_bit 47 x) XOR drop_bit 47 (x XOR drop_bit 47 x) = x" for x :: u64
proof (rule bit_word_eqI)
  fix n assume "n < LENGTH(64)"
  then have "\<not> bit x (n + 94)" using bit_imp_le_length [of x "n + 94"] by auto
  then show "bit ((x XOR drop_bit 47 x) XOR drop_bit 47 (x XOR drop_bit 47 x)) n = bit x n"
    by (auto simp: bit_simps add.commute)
qed

lemma xor_shift_cancel: "x XOR drop_bit 47 x = y XOR drop_bit 47 y \<longleftrightarrow> x = y" for x y :: u64
  using xor_shift_undo [of x] xor_shift_undo [of y] by metis

lemma xor_cancel: "x XOR z = y XOR z \<longleftrightarrow> x = y" "z XOR x = z XOR y \<longleftrightarrow> x = y" for x y z :: u64
  by (metis bit.xor_left_self xor.commute)+

lemma combine_hashes_inject: "combine_hashes upper x = combine_hashes upper y \<longleftrightarrow> x = y"
  by (simp only: combine_hashes_def Let_def mul_cancel xor_shift_cancel xor_cancel)

end
