(* ===== verification/Timers.thy ===== *)
theory Timers
  imports Clock Hash "HOL-Library.Product_Lexorder"
begin

text \<open>
  The timer reactor of \<open>src/src/utils/reactor.rs\<close>.  Wakers are values of a type parameter; waking one is reporting it.  The
  daemon thread and its condition variable are represented by what one round of it reports: the
  wakers woken and how long it then waits.
\<close>

subsection \<open>Ordered maps\<close>

text \<open>A \<open>BTreeMap\<close> as its entries in key order.\<close>

fun bt_insert :: "'k :: linorder \<Rightarrow> 'v \<Rightarrow> ('k \<times> 'v) list \<Rightarrow> ('k \<times> 'v) list" where
  "bt_insert k v [] = [(k, v)]"
| "bt_insert k v ((k', v') # m) =
     (if k < k' then (k, v) # (k', v') # m else if k = k' then (k, v) # m else (k', v') # bt_insert k v m)"

definition bt_wf :: "('k :: linorder \<times> 'v) list \<Rightarrow> bool" where
  "bt_wf m \<longleftrightarrow> sorted_wrt (<) (map fst m)"

lemma bt_insert_keys: "fst ` set (bt_insert k v m) = insert k (fst ` set m)"
proof (induction m)
  case (Cons e m)
  then show ?case by (cases e) (simp add: insert_commute)
qed simp

lemma bt_insert_wf: "bt_wf m \<Longrightarrow> bt_wf (bt_insert k v m)"
proof (induction m)
  case (Cons e m)
  then have "bt_wf m" "\<forall>x \<in> fst ` set m. fst e < x" by (simp_all add: bt_wf_def)
  moreover have "bt_wf (bt_insert k v m)" using Cons.IH calculation(1) .
  ultimately show ?case
    using Cons.prems bt_insert_keys [of k v m] by (cases e) (auto simp: bt_wf_def intro: less_trans)
qed (simp add: bt_wf_def)

lemma bt_wf_distinct: "bt_wf m \<Longrightarrow> distinct (map fst m)"
  by (simp add: bt_wf_def strict_sorted_iff)

lemma map_of_bt_insert: "bt_wf m \<Longrightarrow> map_of (bt_insert k v m) = (map_of m)(k \<mapsto> v)"
proof (induction m)
  case (Cons e m)
  then have "bt_wf m" "\<forall>x \<in> fst ` set m. fst e < x" by (simp_all add: bt_wf_def)
  with Cons.IH show ?case by (cases e) (auto simp: fun_eq_iff)
qed simp

lemma bt_insert_fresh: "k \<notin> fst ` set m \<Longrightarrow> mset (bt_insert k v m) = add_mset (k, v) (mset m)"
  by (induction m) auto

subsection \<open>State and operations\<close>

type_synonym 'w timers = "((instant \<times> nat) \<times> 'w) list"

text \<open>The hash map from keys to timers, in its iteration order.\<close>

type_synonym 'w reactor = "(u64 \<times> 'w timers) list"

definition reactor_new :: "'w reactor" where
  "reactor_new = []"

text \<open>
  \<open>entry(key).or_default()\<close> and the insertion through the reference it returns: the new timer is named by
  the number of timers currently registered.
\<close>

fun update_entry :: "u64 \<Rightarrow> ('w timers \<Rightarrow> 'w timers) \<Rightarrow> 'w reactor \<Rightarrow> 'w reactor" where
  "update_entry key f [] = [(key, f [])]"
| "update_entry key f ((k, ts) # r) = (if k = key then (k, f ts) # r else (k, ts) # update_entry key f r)"

definition insert_timer :: "'w reactor \<Rightarrow> u64 \<Rightarrow> instant \<Rightarrow> 'w \<Rightarrow> 'w reactor" where
  "insert_timer r key at waker = update_entry key (\<lambda>ts. bt_insert (at, length ts) waker ts) r"

definition cancel_all_timers :: "'w reactor \<Rightarrow> u64 \<Rightarrow> 'w list \<times> 'w reactor" where
  "cancel_all_timers r key =
     ((case map_of r key of None \<Rightarrow> [] | Some ts \<Rightarrow> map snd ts), filter (\<lambda>(k, _). k \<noteq> key) r)"

definition split_off :: "'k :: linorder \<Rightarrow> ('k \<times> 'v) list \<Rightarrow> ('k \<times> 'v) list \<times> ('k \<times> 'v) list" where
  "split_off k m = (filter (\<lambda>(k', _). k' < k) m, filter (\<lambda>(k', _). k \<le> k') m)"

definition next_time :: "instant \<Rightarrow> 'w timers \<Rightarrow> duration option" where
  "next_time now ts = (case ts of [] \<Rightarrow> None | ((at, _), _) # _ \<Rightarrow> Some (saturating_duration_since at now))"

definition min_dur :: "duration option \<Rightarrow> duration option \<Rightarrow> duration option" where
  "min_dur dur next = (case (dur, next) of
      (Some d, Some n) \<Rightarrow> Some (min d n)
    | (None, Some n) \<Rightarrow> Some n
    | _ \<Rightarrow> dur)"

text \<open>
  The loop over the timers of all keys: the remaining timers, the wakers woken, and the time until the
  next pending timer (\<open>None\<close> at there is none, and the reactor waits until it is notified).
\<close>

fun process_keys :: "instant \<Rightarrow> instant \<Rightarrow> duration option \<Rightarrow> 'w reactor \<Rightarrow> 'w reactor \<times> 'w list \<times> duration option" where
  "process_keys now bound dur [] = ([], [], dur)"
| "process_keys now bound dur ((k, ts) # r) =
     (case split_off (bound, 0) ts of (ready, pending) \<Rightarrow>
       (case process_keys now bound (min_dur dur (next_time now pending)) r of (r', woken, dur') \<Rightarrow>
          ((k, pending) # r', map snd ready @ woken, dur')))"

definition process_timers :: "instant \<Rightarrow> 'w reactor \<Rightarrow> ('e, 'w reactor \<times> 'w list \<times> duration option) outcome" where
  "process_timers now r = and_then (instant_add now 1) (\<lambda>bound. Ok (process_keys now bound None r))"

subsection \<open>Correctness of a round\<close>

definition all_timers :: "'w reactor \<Rightarrow> (u64 \<times> instant \<times> 'w) list" where
  "all_timers r = concat (map (\<lambda>(k, ts). map (\<lambda>((at, _), w). (k, at, w)) ts) r)"

definition reactor_wf :: "'w reactor \<Rightarrow> bool" where
  "reactor_wf r \<longleftrightarrow> distinct (map fst r) \<and> (\<forall>(k, ts) \<in> set r. bt_wf ts)"

lemma all_timers_simps [simp]:
  "all_timers [] = []" "all_timers ((k, ts) # r) = map (\<lambda>((at, _), w). (k, at, w)) ts @ all_timers r"
  by (simp_all add: all_timers_def)

lemma split_off_due:
  "split_off (Suc now, 0) (ts :: 'w timers) = (filter (\<lambda>((at, _), _). at \<le> now) ts, filter (\<lambda>((at, _), _). now < at) ts)"
  by (auto simp: split_off_def less_prod_simp less_eq_prod_simp intro!: filter_cong)

definition due :: "instant \<Rightarrow> u64 \<times> instant \<times> 'w \<Rightarrow> bool" where
  "due now = (\<lambda>(_, at, _). at \<le> now)"

text \<open>How long it is until the first of some timers: the reference the wait of a round is compared with.\<close>

definition until_first :: "instant \<Rightarrow> (u64 \<times> instant \<times> 'w) list \<Rightarrow> duration option" where
  "until_first now ts = (if ts = [] then None else Some (Min ((\<lambda>(_, at, _). at - now) ` set ts)))"

lemma until_first_append: "until_first now (ts @ us) = min_dur (until_first now ts) (until_first now us)"
  by (simp add: until_first_def min_dur_def image_Un Min_Un)

lemma min_dur_assoc: "min_dur (min_dur a b) c = min_dur a (min_dur b c)"
  by (simp add: min_dur_def min.assoc split: option.split)

lemma min_dur_None [simp]: "min_dur None b = b" "min_dur a None = a"
  by (simp_all add: min_dur_def split: option.split)

lemma next_time_first:
  assumes "bt_wf ts"
  shows "next_time now ts = until_first now (map (\<lambda>((at, _), w). (k, at, w)) ts)"
proof (cases ts)
  case (Cons e es)
  obtain at i w where e: "e = ((at, i), w)" by (metis prod.exhaust)
  have "at - now \<le> at' - now" if "((at', i'), w') \<in> set es" for at' i' w'
    using assms that by (force simp: bt_wf_def Cons e less_prod_simp)
  then have "Min (insert (at - now) ((\<lambda>((at, _), _). at - now) ` set es)) = at - now" by (intro Min_eqI) auto
  then show ?thesis
    by (simp add: Cons e next_time_def until_first_def saturating_duration_since_def image_image case_prod_unfold)
qed (simp add: next_time_def until_first_def)

lemma process_keys_correct:
  assumes "reactor_wf r"
  shows "\<exists>r'. process_keys now (Suc now) dur r
       = (r', map (snd \<circ> snd) (filter (due now) (all_timers r)), min_dur dur (until_first now (all_timers r')))
     \<and> all_timers r' = filter (\<lambda>t. \<not> due now t) (all_timers r) \<and> reactor_wf r' \<and> map fst r' = map fst r"
  using assms
proof (induction r arbitrary: dur)
  case Nil
  then show ?case by (simp add: reactor_wf_def until_first_def)
next
  case (Cons e r)
  obtain k ts where e: "e = (k, ts)" by (cases e)
  let ?p = "filter (\<lambda>((at, _), _). now < at) ts"
  have wf: "reactor_wf r" "bt_wf ts" using Cons.prems e by (auto simp: reactor_wf_def)
  have p: "bt_wf ?p" using wf(2) by (simp add: bt_wf_def sorted_wrt_map sorted_wrt_filter)
  obtain r' where IH: "process_keys now (Suc now) (min_dur dur (next_time now ?p)) r = (r', map (snd \<circ> snd) (filter (due now) (all_timers r)),
      min_dur (min_dur dur (next_time now ?p)) (until_first now (all_timers r')))"
    "all_timers r' = filter (\<lambda>t. \<not> due now t) (all_timers r)" "reactor_wf r'" "map fst r' = map fst r"
    using Cons.IH [OF wf(1), of "min_dur dur (next_time now ?p)"] by blast
  have t1: "map snd (filter (\<lambda>((at, _), _). at \<le> now) ts)
      = map (snd \<circ> snd) (filter (due now) (map (\<lambda>((at, _), w). (k, at, w)) ts))"
    by (induction ts) (auto simp: due_def)
  have t2: "map (\<lambda>((at, _), w). (k, at, w)) ?p = filter (\<lambda>t. \<not> due now t) (map (\<lambda>((at, _), w). (k, at, w)) ts)"
    by (induction ts) (auto simp: due_def)
  have run: "process_keys now (Suc now) dur (e # r) = ((k, ?p) # r', map (snd \<circ> snd) (filter (due now) (all_timers (e # r))),
      min_dur dur (until_first now (all_timers ((k, ?p) # r'))))"
    using IH(1) t1 next_time_first [OF p, of now k] by (simp add: e split_off_due until_first_append min_dur_assoc)
  have all: "all_timers ((k, ?p) # r') = filter (\<lambda>t. \<not> due now t) (all_timers (e # r))" using IH(2) t2 by (simp add: e)
  have "reactor_wf ((k, ?p) # r')" using Cons.prems IH(3,4) p e by (auto simp: reactor_wf_def)
  then show ?case using run all IH(4) e by (intro exI [of _ "(k, ?p) # r'"]) simp
qed

lemma update_entry_keys: "set (map fst (update_entry key f r)) = insert key (set (map fst r))"
proof (induction r)
  case (Cons e r)
  then show ?case by (cases e) (simp add: insert_commute)
qed simp

lemma update_entry_wf: "reactor_wf r \<Longrightarrow> (\<And>ts. bt_wf ts \<Longrightarrow> bt_wf (f ts)) \<Longrightarrow> reactor_wf (update_entry key f r)"
proof (induction r)
  case Nil
  then show ?case by (simp add: reactor_wf_def bt_wf_def)
next
  case (Cons e r)
  obtain k ts where e: "e = (k, ts)" by (cases e)
  have "reactor_wf r" using Cons.prems(1) by (simp add: reactor_wf_def e)
  then have "reactor_wf (update_entry key f r)" using Cons by blast
  then show ?case
    using Cons.prems update_entry_keys [of key f r] by (auto simp: reactor_wf_def e)
qed

lemma insert_timer_wf: "reactor_wf r \<Longrightarrow> reactor_wf (insert_timer r key at w)"
  unfolding insert_timer_def by (rule update_entry_wf) (simp_all add: bt_insert_wf)

subsection \<open>Properties\<close>

text \<open>
  C35: a round of the reactor at time \<open>now\<close> wakes exactly the wakers whose timers are due, keeps exactly
  the other timers, and then waits exactly until the first of those, or, when none is left, until it is
  notified: among the registered timers none fires early, none is dropped, none is overslept, and the reactor
  does not wake up before there is something to do.
\<close>

theorem process_timers_exact:
  assumes "reactor_wf r" and "now < INSTANT_MAX"
  shows "\<exists>r'. process_timers now r =
       (Ok (r', map (snd \<circ> snd) (filter (due now) (all_timers r)), until_first now (all_timers r')) :: (io_error, _) outcome)
     \<and> all_timers r' = filter (\<lambda>t. \<not> due now t) (all_timers r) \<and> reactor_wf r' \<and> map fst r' = map fst r"
proof -
  have "process_timers now r = (Ok (process_keys now (Suc now) None r) :: (io_error, _) outcome)"
    using assms(2) by (simp add: process_timers_def)
  then show ?thesis using process_keys_correct [OF assms(1), of now None] by (elim exE conjE) simp
qed

definition sample_reactor :: "nat reactor" where
  "sample_reactor = insert_timer (insert_timer (insert_timer (insert_timer reactor_new 7 5 1) 7 9 2) 8 5 3) 8 12 4"

theorem process_timers_exact_witness:
  "\<exists>r'. process_timers 5 sample_reactor = (Ok (r', [1, 3], Some 4) :: (io_error, _) outcome) \<and> all_timers r' = [(7, 9, 2), (8, 12, 4)]"
proof -
  have wf: "reactor_wf sample_reactor"
    unfolding sample_reactor_def by (intro insert_timer_wf) (simp add: reactor_wf_def reactor_new_def)
  have "(5 :: nat) < INSTANT_MAX" by (simp add: INSTANT_MAX_def NANOS_PER_SEC_def)
  moreover have all: "all_timers sample_reactor = [(7, 5, 1), (7, 9, 2), (8, 5, 3), (8, 12, 4)]"
    by (simp add: sample_reactor_def insert_timer_def reactor_new_def less_prod_simp)
  ultimately show ?thesis using process_timers_exact [OF wf, of 5] by (auto simp: due_def until_first_def)
qed

text \<open>
  A timer is named by the number of timers registered under its key, and that number is reused once
  earlier timers have fired: after a round has removed the first of two timers, a third one set for the
  same instant as the second takes its place, and the waker of the second is never woken.
\<close>

theorem timer_overwritten:
  "\<exists>r sleep. process_timers 5 (insert_timer (insert_timer reactor_new 7 5 (1 :: nat)) 7 9 2)
       = (Ok (r, [1], sleep) :: (io_error, _) outcome)
     \<and> fst (cancel_all_timers (insert_timer r 7 9 3) 7) = [3]"
  by (simp add: insert_timer_def reactor_new_def process_timers_def
        INSTANT_MAX_def NANOS_PER_SEC_def instant_add_def split_off_def less_prod_simp less_eq_prod_simp next_time_def
        saturating_duration_since_def min_dur_def cancel_all_timers_def)

end
