(* ===== verification/Queue_Api.thy ===== *)
theory Queue_Api
  imports Prelude
begin

text \<open>
  The interfaces of two third-party crates: the queues of \<open>concurrent_queue\<close> that connect the reading
  and the writing half of a connection, and the channels of \<open>async_channel\<close> that carry frame sets to a
  connection.  Their operations are parameters of the model; the locales state what they are documented
  to do, seen through the sequence of the items they hold.
\<close>

subsection \<open>Concurrent queues\<close>

text \<open>
  \<open>push\<close> answers whether the item was accepted; \<open>force_push\<close> is \<open>None\<close> on a closed queue and otherwise
  gives the displaced item, if any; \<open>pop\<close> is one step of \<open>try_iter\<close>, and \<open>try_iter\<close> a complete traversal.
\<close>

record ('q, 'a) queue_api =
  q_bounded :: "nat \<Rightarrow> 'q"
  q_unbounded :: 'q
  q_push :: "'q \<Rightarrow> 'a \<Rightarrow> bool \<times> 'q"
  q_force_push :: "'q \<Rightarrow> 'a \<Rightarrow> ('a option \<times> 'q) option"
  q_pop :: "'q \<Rightarrow> 'a option \<times> 'q"
  q_try_iter :: "'q \<Rightarrow> 'a list \<times> 'q"
  q_is_empty :: "'q \<Rightarrow> bool"

locale queue_laws =
  fixes Q :: "('q, 'a) queue_api"
    and items :: "'q \<Rightarrow> 'a list"
    and cap :: "'q \<Rightarrow> nat option"
  assumes bounded: "0 < n \<Longrightarrow> items (q_bounded Q n) = [] \<and> cap (q_bounded Q n) = Some n"
    and unbounded: "items (q_unbounded Q) = [] \<and> cap (q_unbounded Q) = None"
    and push: "cap q = None \<Longrightarrow> \<exists>q'. q_push Q q x = (True, q') \<and> items q' = items q @ [x] \<and> cap q' = None"
    and force_push: "cap q = Some n \<Longrightarrow> 0 < n \<Longrightarrow> length (items q) \<le> n \<Longrightarrow>
        \<exists>d q'. q_force_push Q q x = Some (d, q') \<and> cap q' = Some n
          \<and> (if length (items q) < n then d = None \<and> items q' = items q @ [x]
             else d = Some (hd (items q)) \<and> items q' = tl (items q) @ [x])"
    and pop: "\<exists>q'. q_pop Q q = (case items q of [] \<Rightarrow> None | x # _ \<Rightarrow> Some x, q') \<and> items q' = tl (items q) \<and> cap q' = cap q"
    and try_iter: "\<exists>q'. q_try_iter Q q = (items q, q') \<and> items q' = [] \<and> cap q' = cap q"
    and is_empty: "q_is_empty Q q \<longleftrightarrow> items q = []"
begin

lemma pop_cases:
  obtains (empty) q' where "items q = []" "q_pop Q q = (None, q')" "items q' = []" "cap q' = cap q"
    | (item) x xs q' where "items q = x # xs" "q_pop Q q = (Some x, q')" "items q' = xs" "cap q' = cap q"
  using pop [of q] by (cases "items q") auto

lemma try_iterE:
  assumes "q_try_iter Q q = (xs, q')"
  shows "xs = items q" and "items q' = []" and "cap q' = cap q"
  using try_iter [of q] assms by auto

end

text \<open>An executable instance: a capacity and the list of items, oldest first.\<close>

definition list_queue :: "(nat option \<times> 'a list, 'a) queue_api" where
  "list_queue = \<lparr>
     q_bounded = (\<lambda>n. (Some n, [])),
     q_unbounded = (None, []),
     q_push = (\<lambda>(c, xs) x. case c of Some n \<Rightarrow> if length xs < n then (True, c, xs @ [x]) else (False, c, xs)
                                 | None \<Rightarrow> (True, c, xs @ [x])),
     q_force_push = (\<lambda>(c, xs) x. case c of
         Some n \<Rightarrow> if length xs < n then Some (None, c, xs @ [x]) else Some (Some (hd xs), c, tl xs @ [x])
       | None \<Rightarrow> Some (None, c, xs @ [x])),
     q_pop = (\<lambda>(c, xs). (case xs of [] \<Rightarrow> None | x # _ \<Rightarrow> Some x, c, tl xs)),
     q_try_iter = (\<lambda>(c, xs). (xs, c, [])),
     q_is_empty = (\<lambda>(c, xs). xs = []) \<rparr>"

lemma list_queue_force_push:
  assumes "fst q = Some n" and "length (snd q) \<le> n"
  shows "\<exists>d q'. q_force_push list_queue q x = Some (d, q') \<and> fst q' = Some n
     \<and> (if length (snd q) < n then d = None \<and> snd q' = snd q @ [x] else d = Some (hd (snd q)) \<and> snd q' = tl (snd q) @ [x])"
  using assms by (cases q; cases "length (snd q) < n") (simp_all add: list_queue_def)

interpretation list_queue: queue_laws list_queue snd fst
  by unfold_locales (rule list_queue_force_push | auto simp: list_queue_def split: prod.splits)+

subsection \<open>Channels\<close>

record ('c, 'a) channel_api =
  ch_is_closed :: "'c \<Rightarrow> bool"
  ch_try_send :: "'c \<Rightarrow> 'a \<Rightarrow> bool \<times> 'c"

text \<open>An unbounded channel: a send on an open channel succeeds and queues the item.\<close>

locale channel_laws =
  fixes C :: "('c, 'a) channel_api"
    and sent_items :: "'c \<Rightarrow> 'a list"
  assumes try_send: "\<not> ch_is_closed C c \<Longrightarrow>
      \<exists>c'. ch_try_send C c x = (True, c') \<and> sent_items c' = sent_items c @ [x] \<and> \<not> ch_is_closed C c'"

definition list_channel :: "(bool \<times> 'a list, 'a) channel_api" where
  "list_channel = \<lparr>
     ch_is_closed = fst,
     ch_try_send = (\<lambda>(closed, xs) x. if closed then (False, closed, xs) else (True, closed, xs @ [x])) \<rparr>"

interpretation list_channel: channel_laws list_channel snd
  by unfold_locales (auto simp: list_channel_def split: prod.splits)

end
