(* ===== verification/Link.thy ===== *)
theory Link
  imports Packet Timers Queue_Api
begin

text \<open>
  The link between the reading and the writing half of a connection, \<open>TransferLink\<close>, and the \<open>Route\<close>
  that feeds it, of \<open>src/src/link.rs\<close>.  The queues and the channel are parameters; the timers a
  received acknowledgement cancels are those of the reactor.  Log output is left out.
\<close>

subsection \<open>State\<close>

record ('qa, 'qn, 'qu, 'qf) link_api =
  ack_q :: "('qa, ack_or_nack \<times> instant) queue_api"
  nack_q :: "('qn, ack_or_nack) queue_api"
  unconnected_q :: "('qu, unconnected) queue_api"
  body_q :: "('qf, frame_body) queue_api"

text \<open>
  The heap of acknowledgements to send is the sorted list of its elements; the set of negative ones is
  the sorted list without repetitions.
\<close>

record ('qa, 'qn, 'qu, 'qf) link =
  l_incoming_ack :: 'qa
  l_incoming_nack :: 'qn
  forward_waking :: bool
  outgoing_ack :: "u24 list"
  outgoing_nack :: "u24 list"
  l_unconnected :: 'qu
  l_frame_body :: 'qf
  link_role :: role
  link_peer :: peer

definition MAX_ACK_BUFFER :: nat where
  "MAX_ACK_BUFFER = 4096"

definition link_new :: "('qa, 'qn, 'qu, 'qf) link_api \<Rightarrow> role \<Rightarrow> peer \<Rightarrow> ('qa, 'qn, 'qu, 'qf) link" where
  "link_new Q role peer = \<lparr> l_incoming_ack = q_bounded (ack_q Q) MAX_ACK_BUFFER,
     l_incoming_nack = q_bounded (nack_q Q) MAX_ACK_BUFFER, forward_waking = False, outgoing_ack = [], outgoing_nack = [],
     l_unconnected = q_unbounded (unconnected_q Q), l_frame_body = q_unbounded (body_q Q),
     link_role = role, link_peer = peer \<rparr>"

subsection \<open>Operations of the link\<close>

definition turn_on_waking :: "('qa, 'qn, 'qu, 'qf) link \<Rightarrow> ('qa, 'qn, 'qu, 'qf) link" where
  "turn_on_waking l = l\<lparr>forward_waking := True\<rparr>"

definition should_waking :: "('qa, 'qn, 'qu, 'qf) link \<Rightarrow> bool" where
  "should_waking l = forward_waking l"

definition turn_off_waking :: "('qa, 'qn, 'qu, 'qf) link \<Rightarrow> ('qa, 'qn, 'qu, 'qf) link" where
  "turn_off_waking l = l\<lparr>forward_waking := False\<rparr>"

text \<open>The timer key of a connection.\<close>

definition link_key :: "role \<Rightarrow> peer \<Rightarrow> u64" where
  "link_key role peer = combine_hashes (role_guid role) (peer_guid peer)"

text \<open>The result has the wakers that were woken.\<close>

definition incoming_ack :: "('qa, 'qn, 'qu, 'qf) link_api \<Rightarrow> instant \<Rightarrow> ('qa, 'qn, 'qu, 'qf) link \<Rightarrow> 'w reactor \<Rightarrow> ack_or_nack
    \<Rightarrow> ('e, ('qa, 'qn, 'qu, 'qf) link \<times> 'w reactor \<times> 'w list) outcome" where
  "incoming_ack Q now l r recs =
     (case q_force_push (ack_q Q) (l_incoming_ack l) (recs, now) of
        None \<Rightarrow> Panic
      | Some (_, q) \<Rightarrow>
          let l = l\<lparr>l_incoming_ack := q\<rparr> in
          if should_waking l
          then (case cancel_all_timers r (link_key (link_role l) (link_peer l)) of (woken, r) \<Rightarrow> Ok (l, r, woken))
          else Ok (l, r, []))"

definition incoming_nack :: "('qa, 'qn, 'qu, 'qf) link_api \<Rightarrow> ('qa, 'qn, 'qu, 'qf) link \<Rightarrow> ack_or_nack
    \<Rightarrow> ('e, ('qa, 'qn, 'qu, 'qf) link) outcome" where
  "incoming_nack Q l recs = (case q_force_push (nack_q Q) (l_incoming_nack l) recs of
      None \<Rightarrow> Panic | Some (_, q) \<Rightarrow> Ok (l\<lparr>l_incoming_nack := q\<rparr>))"

definition send_unconnected :: "('qa, 'qn, 'qu, 'qf) link_api \<Rightarrow> ('qa, 'qn, 'qu, 'qf) link \<Rightarrow> unconnected
    \<Rightarrow> ('e, ('qa, 'qn, 'qu, 'qf) link) outcome" where
  "send_unconnected Q l p = (case q_push (unconnected_q Q) (l_unconnected l) p of
      (True, q) \<Rightarrow> Ok (l\<lparr>l_unconnected := q\<rparr>) | (False, _) \<Rightarrow> Panic)"

definition send_frame_body :: "('qa, 'qn, 'qu, 'qf) link_api \<Rightarrow> ('qa, 'qn, 'qu, 'qf) link \<Rightarrow> frame_body
    \<Rightarrow> ('e, ('qa, 'qn, 'qu, 'qf) link) outcome" where
  "send_frame_body Q l b = (case q_push (body_q Q) (l_frame_body l) b of
      (True, q) \<Rightarrow> Ok (l\<lparr>l_frame_body := q\<rparr>) | (False, _) \<Rightarrow> Panic)"

definition process_ack :: "('qa, 'qn, 'qu, 'qf) link_api \<Rightarrow> ('qa, 'qn, 'qu, 'qf) link
    \<Rightarrow> (ack_or_nack \<times> instant) list \<times> ('qa, 'qn, 'qu, 'qf) link" where
  "process_ack Q l = (case q_try_iter (ack_q Q) (l_incoming_ack l) of (xs, q) \<Rightarrow> (xs, l\<lparr>l_incoming_ack := q\<rparr>))"

definition process_nack :: "('qa, 'qn, 'qu, 'qf) link_api \<Rightarrow> ('qa, 'qn, 'qu, 'qf) link
    \<Rightarrow> ack_or_nack list \<times> ('qa, 'qn, 'qu, 'qf) link" where
  "process_nack Q l = (case q_try_iter (nack_q Q) (l_incoming_nack l) of (xs, q) \<Rightarrow> (xs, l\<lparr>l_incoming_nack := q\<rparr>))"

definition process_outgoing_ack :: "('qa, 'qn, 'qu, 'qf) link \<Rightarrow> u16
    \<Rightarrow> ('e, ack_or_nack option \<times> ('qa, 'qn, 'qu, 'qf) link) outcome" where
  "process_outgoing_ack l mtu =
     and_then (extend_from (outgoing_ack l) mtu) (\<lambda>(a, rest). Ok (a, l\<lparr>outgoing_ack := rest\<rparr>))"

definition process_outgoing_nack :: "('qa, 'qn, 'qu, 'qf) link \<Rightarrow> u16
    \<Rightarrow> ('e, ack_or_nack option \<times> ('qa, 'qn, 'qu, 'qf) link) outcome" where
  "process_outgoing_nack l mtu =
     and_then (extend_from (outgoing_nack l) mtu) (\<lambda>(a, rest). Ok (a, l\<lparr>outgoing_nack := rest\<rparr>))"

text \<open>The iterators over unconnected packets and frame bodies are stepped one at a time.\<close>

definition next_unconnected :: "('qa, 'qn, 'qu, 'qf) link_api \<Rightarrow> ('qa, 'qn, 'qu, 'qf) link
    \<Rightarrow> unconnected option \<times> ('qa, 'qn, 'qu, 'qf) link" where
  "next_unconnected Q l = (case q_pop (unconnected_q Q) (l_unconnected l) of (x, q) \<Rightarrow> (x, l\<lparr>l_unconnected := q\<rparr>))"

definition next_frame_body :: "('qa, 'qn, 'qu, 'qf) link_api \<Rightarrow> ('qa, 'qn, 'qu, 'qf) link
    \<Rightarrow> frame_body option \<times> ('qa, 'qn, 'qu, 'qf) link" where
  "next_frame_body Q l = (case q_pop (body_q Q) (l_frame_body l) of (x, q) \<Rightarrow> (x, l\<lparr>l_frame_body := q\<rparr>))"

definition outgoing_ack_empty :: "('qa, 'qn, 'qu, 'qf) link \<Rightarrow> bool" where
  "outgoing_ack_empty l \<longleftrightarrow> outgoing_ack l = []"

definition outgoing_nack_empty :: "('qa, 'qn, 'qu, 'qf) link \<Rightarrow> bool" where
  "outgoing_nack_empty l \<longleftrightarrow> outgoing_nack l = []"

definition unconnected_empty :: "('qa, 'qn, 'qu, 'qf) link_api \<Rightarrow> ('qa, 'qn, 'qu, 'qf) link \<Rightarrow> bool" where
  "unconnected_empty Q l \<longleftrightarrow> q_is_empty (unconnected_q Q) (l_unconnected l)"

definition frame_body_empty :: "('qa, 'qn, 'qu, 'qf) link_api \<Rightarrow> ('qa, 'qn, 'qu, 'qf) link \<Rightarrow> bool" where
  "frame_body_empty Q l \<longleftrightarrow> q_is_empty (body_q Q) (l_frame_body l)"

subsection \<open>The route\<close>

record 'c route =
  router_tx :: 'c
  seq_read :: u24

definition route_new :: "'c \<Rightarrow> 'c route" where
  "route_new tx = \<lparr> router_tx = tx, seq_read = U24 0 \<rparr>"

text \<open>\<open>for n in pre_read.to_u32()..seq_num.to_u32() { nack.insert(n.into()) }\<close>.\<close>

fun insert_nacks :: "nat list \<Rightarrow> u24 list \<Rightarrow> ('e, u24 list) outcome" where
  "insert_nacks [] s = Ok s"
| "insert_nacks (n # ns) s = and_then (u24_from (word_of_nat n :: u32)) (\<lambda>x. insert_nacks ns (insort_insert x s))"

definition note_arrival :: "u24 \<Rightarrow> u24 \<Rightarrow> u24 list \<Rightarrow> ('e, u24 \<times> u24 list) outcome" where
  "note_arrival seq_num pre_read nack =
     (let nack = removeAll seq_num nack in
      if pre_read \<le> seq_num
      then and_then (u24_succ seq_num) (\<lambda>next.
           and_then (insert_nacks [unat (to_u32 pre_read)..<unat (to_u32 seq_num)] nack) (\<lambda>nack. Ok (next, nack)))
      else Ok (pre_read, nack))"

definition deliver :: "('qa, 'qn, 'qu, 'qf) link_api \<Rightarrow> ('c, frame_set) channel_api \<Rightarrow> instant
    \<Rightarrow> 'c route \<Rightarrow> ('qa, 'qn, 'qu, 'qf) link \<Rightarrow> 'w reactor \<Rightarrow> connected
    \<Rightarrow> ('e, bool \<times> 'c route \<times> ('qa, 'qn, 'qu, 'qf) link \<times> 'w reactor \<times> 'w list) outcome" where
  "deliver Q C now rt l r pack =
     (if ch_is_closed C (router_tx rt) then Ok (False, rt, l, r, [])
      else case pack of
        FrameSet frames \<Rightarrow>
          let l = l\<lparr>outgoing_ack := insort (fs_seq_num frames) (outgoing_ack l)\<rparr> in
          and_then (note_arrival (fs_seq_num frames) (seq_read rt) (outgoing_nack l)) (\<lambda>(sr, nack).
            let l = l\<lparr>outgoing_nack := nack\<rparr> in
            case ch_try_send C (router_tx rt) frames of (sent, tx) \<Rightarrow>
              Ok (sent, rt\<lparr>router_tx := tx, seq_read := sr\<rparr>, l, r, []))
      | Ack ack \<Rightarrow> and_then (incoming_ack Q now l r ack) (\<lambda>(l, r, woken). Ok (True, rt, l, r, woken))
      | Nack nack \<Rightarrow> and_then (incoming_nack Q l nack) (\<lambda>l. Ok (True, rt, l, r, [])))"

subsection \<open>Acknowledgement bookkeeping\<close>

lemma insert_nacks_eq:
  assumes "\<forall>n \<in> set ns. n < 2 ^ 24" and "sorted s" and "distinct s"
  shows "\<exists>s'. (insert_nacks ns s :: ('e, _) outcome) = Ok s' \<and> sorted s' \<and> distinct s' \<and> set s' = set s \<union> u24_of ` set ns"
  using assms
proof (induction ns arbitrary: s)
  case (Cons n ns)
  have "(u24_from (word_of_nat n :: u32) :: ('e, _) outcome) = Ok (u24_of n)"
    using Cons.prems(1)
    by (simp add: u24_from_def u24_checked_def drop_bit_eq_0_iff u24_of_def unsigned_of_nat take_bit_nat_eq_self)
  moreover have "sorted (insort_insert (u24_of n) s)" "distinct (insort_insert (u24_of n) s)"
    using Cons.prems by (simp_all add: sorted_insort_insert distinct_insort_insert)
  ultimately show ?case
    using Cons.IH [of "insort_insert (u24_of n) s"] Cons.prems(1) by (auto simp: set_insort_insert)
qed simp

lemma note_arrival_eq:
  assumes "sorted nack" and "distinct nack" and "to_usize q < 2 ^ 24 - 1"
  shows "\<exists>nack'. (note_arrival q pre nack :: ('e, _) outcome) = Ok (u24_of (max (to_usize pre) (Suc (to_usize q))), nack')
     \<and> sorted nack' \<and> distinct nack' \<and> set nack' = (set nack - {q}) \<union> u24_of ` {to_usize pre..<to_usize q}"
proof -
  have s: "sorted (removeAll q nack)" "distinct (removeAll q nack)"
    using assms(1,2) by (simp_all add: removeAll_filter_not_eq sorted_wrt_filter)
  have u: "unat (to_u32 x) = to_usize x" for x by (simp add: to_u32_def to_usize_def)
  show ?thesis
  proof (cases "pre \<le> q")
    case True
    obtain s' where "(insert_nacks [to_usize pre..<to_usize q] (removeAll q nack) :: ('e, _) outcome) = Ok s'"
      "sorted s'" "distinct s'" "set s' = set (removeAll q nack) \<union> u24_of ` set [to_usize pre..<to_usize q]"
      using insert_nacks_eq [OF _ s, of "[to_usize pre..<to_usize q]", where 'e = 'e] assms(3) by auto
    then show ?thesis
      using True assms(3) by (simp add: note_arrival_def u u24_succ_eq u24_le_iff max_def)
  next
    case False
    then have "max (to_usize pre) (Suc (to_usize q)) = to_usize pre" by (simp add: u24_le_iff)
    then show ?thesis
      using s False by (auto simp: note_arrival_def u24_le_iff)
  qed
qed

text \<open>
  What a connection does with its acknowledgement state: frame sets arrive, and positive and negative
  acknowledgements are taken out for sending.
\<close>

datatype link_event = Arrive frame_set | TakeAck u16 | TakeNack u16

fun link_run :: "('qa, 'qn, 'qu, 'qf) link_api \<Rightarrow> ('c, frame_set) channel_api \<Rightarrow> link_event list
    \<Rightarrow> 'c route \<Rightarrow> ('qa, 'qn, 'qu, 'qf) link
    \<Rightarrow> ('e, ack_or_nack list \<times> ack_or_nack list \<times> 'c route \<times> ('qa, 'qn, 'qu, 'qf) link) outcome" where
  "link_run Q C [] rt l = Ok ([], [], rt, l)"
| "link_run Q C (Arrive fs # evs) rt l =
     and_then (deliver Q C 0 rt l ([] :: unit reactor) (FrameSet fs)) (\<lambda>(_, rt, l, _). link_run Q C evs rt l)"
| "link_run Q C (TakeAck mtu # evs) rt l =
     and_then (process_outgoing_ack l mtu) (\<lambda>(a, l).
     and_then (link_run Q C evs rt l) (\<lambda>(acks, nacks, r). Ok ((case a of None \<Rightarrow> [] | Some a \<Rightarrow> [a]) @ acks, nacks, r)))"
| "link_run Q C (TakeNack mtu # evs) rt l =
     and_then (process_outgoing_nack l mtu) (\<lambda>(a, l).
     and_then (link_run Q C evs rt l) (\<lambda>(acks, nacks, r). Ok (acks, (case a of None \<Rightarrow> [] | Some a \<Rightarrow> [a]) @ nacks, r)))"

fun event_ok :: "link_event \<Rightarrow> bool" where
  "event_ok (Arrive fs) \<longleftrightarrow> to_usize (fs_seq_num fs) < 2 ^ 24 - 1"
| "event_ok (TakeAck mtu) \<longleftrightarrow> 7 \<le> unat mtu"
| "event_ok (TakeNack mtu) \<longleftrightarrow> 7 \<le> unat mtu"

fun arrivals :: "link_event list \<Rightarrow> frame_set list" where
  "arrivals [] = []"
| "arrivals (Arrive fs # evs) = fs # arrivals evs"
| "arrivals (_ # evs) = arrivals evs"

definition numbers :: "ack_or_nack list \<Rightarrow> u24 list" where
  "numbers as = concat (map (ack_expand \<circ> records) as)"

lemma numbers_simps [simp]: "numbers [] = []" "numbers (a # as) = ack_expand (records a) @ numbers as" "numbers (as @ bs) = numbers as @ numbers bs"
  by (simp_all add: numbers_def)

text \<open>
  The state of the bookkeeping: \<open>seen\<close> arrived so far, \<open>asked\<close> the numbers already asked for again.  The next
  expected number follows the highest that has arrived; a number below it has arrived or is in exactly one of
  two places, waiting to be asked for or asked for, where it may still arrive in the second.
\<close>

definition next_expected :: "u24 list \<Rightarrow> nat" where
  "next_expected seen = Max (insert 0 ((\<lambda>x. Suc (to_usize x)) ` set seen))"

lemma next_expected_simps [simp]: "next_expected [] = 0" "next_expected (seen @ [q]) = max (next_expected seen) (Suc (to_usize q))"
  by (simp_all add: next_expected_def insert_commute [of 0] max.commute)

definition book_inv :: "u24 list \<Rightarrow> u24 list \<Rightarrow> 'c route \<Rightarrow> ('qa, 'qn, 'qu, 'qf) link \<Rightarrow> bool" where
  "book_inv seen asked rt l \<longleftrightarrow>
     sorted (outgoing_nack l) \<and> distinct (asked @ outgoing_nack l)
     \<and> to_usize (seq_read rt) = next_expected seen \<and> next_expected seen < 2 ^ 24
     \<and> (\<forall>x \<in> set seen \<union> set (outgoing_ack l). to_usize x < 2 ^ 24 - 1)
     \<and> (\<forall>x \<in> set seen \<union> set (outgoing_nack l) \<union> set asked. x < seq_read rt)
     \<and> set (outgoing_nack l) \<inter> set seen = {}
     \<and> (\<forall>i < to_usize (seq_read rt). u24_of i \<in> set seen \<union> set (outgoing_nack l) \<union> set asked)"

lemma take_out:
  assumes "\<forall>x \<in> set xs. to_usize x < 2 ^ 24 - 1" and "7 \<le> unat mtu"
  obtains a rest where "(extend_from xs mtu :: ('e, _) outcome) = Ok (a, rest)"
    and "xs = numbers (case a of None \<Rightarrow> [] | Some a \<Rightarrow> [a]) @ rest"
    and "a = None \<longleftrightarrow> xs = []"
proof (cases "xs = []")
  case True
  then show thesis using assms(2) that [of None "[]"] by (simp add: extend_from_def word_less_nat_alt)
next
  case False
  have "\<forall>x \<in> set xs. u24_ok x" "\<forall>x \<in> set (butlast xs). to_usize x < 2 ^ 24 - 1"
    using assms(1) in_set_butlastD by (fastforce simp: u24_ok_iff)+
  from extend_from_correct [OF assms(2) False this, where 'e = 'e] obtain a used rest where
    "(extend_from xs mtu :: ('e, _) outcome) = Ok (Some a, rest)" "xs = used @ rest" "ack_expand (records a) = used" by blast
  then show thesis using that [of "Some a" rest] False by simp
qed

lemma book_nack_small:
  assumes "book_inv seen asked rt l"
  shows "\<forall>x \<in> set (outgoing_nack l). to_usize x < 2 ^ 24 - 1"
proof
  fix x assume "x \<in> set (outgoing_nack l)"
  then have "to_usize x < to_usize (seq_read rt)" "to_usize (seq_read rt) < 2 ^ 24"
    using assms unfolding book_inv_def u24_less_iff by auto
  then show "to_usize x < 2 ^ 24 - 1" by simp
qed

lemma book_arrive:
  assumes inv: "book_inv seen asked rt l" and ok: "to_usize (fs_seq_num fs) < 2 ^ 24 - 1"
    and C: "channel_laws C sent_items" and open_ch: "\<not> ch_is_closed C (router_tx rt)"
  obtains rt' l' where "(deliver Q C t rt l r (FrameSet fs) :: ('e, _) outcome) = Ok (True, rt', l', r, [])"
    and "book_inv (seen @ [fs_seq_num fs]) asked rt' l'" and "\<not> ch_is_closed C (router_tx rt')"
    and "sent_items (router_tx rt') = sent_items (router_tx rt) @ [fs]"
    and "mset (outgoing_ack l') = add_mset (fs_seq_num fs) (mset (outgoing_ack l))"
proof -
  let ?q = "fs_seq_num fs"
  have b: "sorted (outgoing_nack l)" "distinct (outgoing_nack l)" using inv by (simp_all add: book_inv_def)
  obtain nack where n: "(note_arrival ?q (seq_read rt) (outgoing_nack l) :: ('e, _) outcome)
        = Ok (u24_of (max (to_usize (seq_read rt)) (Suc (to_usize ?q))), nack)"
    "sorted nack" "distinct nack" "set nack = (set (outgoing_nack l) - {?q}) \<union> u24_of ` {to_usize (seq_read rt)..<to_usize ?q}"
    using note_arrival_eq [OF b ok] by blast
  obtain tx where tx: "ch_try_send C (router_tx rt) fs = (True, tx)" "sent_items tx = sent_items (router_tx rt) @ [fs]"
    "\<not> ch_is_closed C tx" using channel_laws.try_send [OF C open_ch] by blast
  let ?sr = "u24_of (max (to_usize (seq_read rt)) (Suc (to_usize ?q)))"
  let ?rt = "rt\<lparr>router_tx := tx, seq_read := ?sr\<rparr>"
  let ?l = "l\<lparr>outgoing_ack := insort ?q (outgoing_ack l), outgoing_nack := nack\<rparr>"
  have sr: "to_usize ?sr = max (to_usize (seq_read rt)) (Suc (to_usize ?q))"
    using ok inv by (intro to_usize_u24_of) (simp add: book_inv_def)
  have new: "x < ?sr" "x \<notin> set seen \<union> {?q} \<union> set asked" if x: "x \<in> u24_of ` {to_usize (seq_read rt)..<to_usize ?q}" for x
  proof -
    obtain i where i: "x = u24_of i" "to_usize (seq_read rt) \<le> i" "i < to_usize ?q" using x by auto
    then have xi: "to_usize x = i" using ok by simp
    have "i < max (to_usize (seq_read rt)) (Suc (to_usize ?q))" using i(3) by simp
    then show "x < ?sr" using xi sr unfolding u24_less_iff by (simp only:)
    have "to_usize y < to_usize (seq_read rt)" if "y \<in> set seen \<union> set asked" for y
      using inv that unfolding book_inv_def u24_less_iff by blast
    then have "x \<notin> set seen \<union> set asked" using i(2) xi leD by blast
    then show "x \<notin> set seen \<union> {?q} \<union> set asked" using i(3) xi by auto
  qed
  have old: "x < ?sr" if "x < seq_read rt" for x using that by (simp add: u24_less_iff sr)
  have q: "?q < ?sr" by (simp add: u24_less_iff sr)
  have cover: "u24_of i \<in> set (seen @ [?q]) \<union> set nack \<union> set asked" if i: "i < to_usize ?sr" for i
  proof (cases "i < to_usize (seq_read rt)")
    case True
    then show ?thesis using inv n(4) unfolding book_inv_def by auto
  next
    case False
    then have "i = to_usize ?q \<or> i \<in> {to_usize (seq_read rt)..<to_usize ?q}" using i sr by auto
    then show ?thesis using n(4) by auto
  qed
  show thesis
  proof (rule that [of ?rt ?l])
    show "(deliver Q C t rt l r (FrameSet fs) :: ('e, _) outcome) = Ok (True, ?rt, ?l, r, [])"
      using open_ch n(1) tx(1) by (simp add: deliver_def Let_def)
    have sr_ok: "to_usize ?sr = next_expected (seen @ [?q])" "next_expected (seen @ [?q]) < 2 ^ 24"
      using sr ok inv by (simp_all add: book_inv_def)
    have A: "\<forall>x \<in> set (seen @ [?q]) \<union> set (outgoing_ack ?l). to_usize x < 2 ^ 24 - 1"
      using inv ok by (auto simp: book_inv_def set_insort_key)
    have B: "\<forall>x \<in> set (seen @ [?q]) \<union> set (outgoing_nack ?l) \<union> set asked. x < seq_read ?rt"
      using inv new(1) old q n(4) by (auto simp: book_inv_def)
    have D: "set (outgoing_nack ?l) \<inter> set (seen @ [?q]) = {}"
      using inv new(2) n(4) by (auto simp: book_inv_def)
    have E: "distinct (asked @ outgoing_nack ?l)" using inv n(3,4) new(2) by (auto simp: book_inv_def)
    show "book_inv (seen @ [?q]) asked ?rt ?l"
      unfolding book_inv_def using n(2) sr_ok A B D E cover by (simp del: to_usize_u24_of next_expected_simps)
  qed (use tx in simp_all)
qed

lemma link_run_correct:
  assumes C: "channel_laws C sent_items"
    and "book_inv seen asked rt l" and "\<not> ch_is_closed C (router_tx rt)" and "\<forall>ev \<in> set evs. event_ok ev"
  shows "\<exists>acks nacks rt' l'. (link_run Q C evs rt l :: ('e, _) outcome) = Ok (acks, nacks, rt', l')
     \<and> book_inv (seen @ map fs_seq_num (arrivals evs)) (asked @ numbers nacks) rt' l'
     \<and> sent_items (router_tx rt') = sent_items (router_tx rt) @ arrivals evs
     \<and> mset (numbers acks) + mset (outgoing_ack l') = mset (outgoing_ack l) + mset (map fs_seq_num (arrivals evs))"
  using assms(2-)
proof (induction evs arbitrary: seen asked rt l)
  case Nil
  then show ?case by simp
next
  case (Cons ev evs)
  have oks: "\<forall>ev \<in> set evs. event_ok ev" using Cons.prems(3) by simp
  show ?case
  proof (cases ev)
    case (Arrive fs)
    have ok: "to_usize (fs_seq_num fs) < 2 ^ 24 - 1" using Cons.prems(3) Arrive by simp
    obtain rt1 l1 where 1: "(deliver Q C 0 rt l ([] :: unit reactor) (FrameSet fs) :: ('e, _) outcome) = Ok (True, rt1, l1, [], [])"
      "book_inv (seen @ [fs_seq_num fs]) asked rt1 l1" "\<not> ch_is_closed C (router_tx rt1)"
      "sent_items (router_tx rt1) = sent_items (router_tx rt) @ [fs]"
      "mset (outgoing_ack l1) = add_mset (fs_seq_num fs) (mset (outgoing_ack l))"
      by (rule book_arrive [OF Cons.prems(1) ok C Cons.prems(2)])
    from Cons.IH [OF 1(2,3) oks] show ?thesis using 1(1,4,5) Arrive by auto
  next
    case (TakeAck mtu)
    have "\<forall>x \<in> set (outgoing_ack l). to_usize x < 2 ^ 24 - 1" using Cons.prems(1) by (simp add: book_inv_def)
    moreover have "7 \<le> unat mtu" using Cons.prems(3) TakeAck by simp
    ultimately obtain a rest where a: "(extend_from (outgoing_ack l) mtu :: ('e, _) outcome) = Ok (a, rest)"
      "outgoing_ack l = numbers (case a of None \<Rightarrow> [] | Some a \<Rightarrow> [a]) @ rest" by (rule take_out)
    have "book_inv seen asked rt (l\<lparr>outgoing_ack := rest\<rparr>)" using Cons.prems(1) a(2) unfolding book_inv_def by auto
    from Cons.IH [OF this Cons.prems(2) oks] obtain acks nacks rt' l' where
      IH: "(link_run Q C evs rt (l\<lparr>outgoing_ack := rest\<rparr>) :: ('e, _) outcome) = Ok (acks, nacks, rt', l')"
      "book_inv (seen @ map fs_seq_num (arrivals evs)) (asked @ numbers nacks) rt' l'"
      "sent_items (router_tx rt') = sent_items (router_tx rt) @ arrivals evs"
      "mset (numbers acks) + mset (outgoing_ack l') = mset rest + mset (map fs_seq_num (arrivals evs))" by auto
    have "mset (numbers ((case a of None \<Rightarrow> [] | Some a \<Rightarrow> [a]) @ acks)) + mset (outgoing_ack l')
        = mset (outgoing_ack l) + mset (map fs_seq_num (arrivals evs))"
      unfolding a(2) using IH(4) by simp
    then show ?thesis
      by - (rule exI [of _ "(case a of None \<Rightarrow> [] | Some a \<Rightarrow> [a]) @ acks"], rule exI [of _ nacks], rule exI [of _ rt'],
        rule exI [of _ l'], use a(1) IH TakeAck in \<open>simp add: process_outgoing_ack_def\<close>)
  next
    case (TakeNack mtu)
    note book_nack_small [OF Cons.prems(1)]
    moreover have "7 \<le> unat mtu" using Cons.prems(3) TakeNack by simp
    ultimately obtain a rest where a: "(extend_from (outgoing_nack l) mtu :: ('e, _) outcome) = Ok (a, rest)"
      "outgoing_nack l = numbers (case a of None \<Rightarrow> [] | Some a \<Rightarrow> [a]) @ rest" by (rule take_out)
    let ?a = "case a of None \<Rightarrow> [] | Some a \<Rightarrow> [a]"
    have "book_inv seen (asked @ numbers ?a) rt (l\<lparr>outgoing_nack := rest\<rparr>)"
      using Cons.prems(1) unfolding book_inv_def a(2) by (auto simp: sorted_append)
    from Cons.IH [OF this Cons.prems(2) oks] obtain acks nacks rt' l' where
      IH: "(link_run Q C evs rt (l\<lparr>outgoing_nack := rest\<rparr>) :: ('e, _) outcome) = Ok (acks, nacks, rt', l')"
      "book_inv (seen @ map fs_seq_num (arrivals evs)) (asked @ numbers (?a @ nacks)) rt' l'"
      "sent_items (router_tx rt') = sent_items (router_tx rt) @ arrivals evs"
      "mset (numbers acks) + mset (outgoing_ack l') = mset (outgoing_ack l) + mset (map fs_seq_num (arrivals evs))" by auto
    show ?thesis
      by - (rule exI [of _ acks], rule exI [of _ "?a @ nacks"], rule exI [of _ rt'], rule exI [of _ l'],
        use a(1) IH TakeNack in \<open>simp add: process_outgoing_nack_def\<close>)
  qed
qed

subsection \<open>Properties\<close>

text \<open>
  What is asked for is exactly what is missing: a number waits to be asked for if and only if it is below the
  next expected one, has not arrived and has not been asked for.
\<close>

lemma book_missing:
  assumes "book_inv seen asked rt l"
  shows "set (outgoing_nack l) = u24_of ` {..<next_expected seen} - set seen - set asked"
proof -
  have below: "x \<in> u24_of ` {..<next_expected seen}" if "x \<in> set (outgoing_nack l)" for x
  proof -
    have "to_usize x < next_expected seen" "x = u24_of (to_usize x)" using assms that by (auto simp: book_inv_def u24_less_iff)
    then show ?thesis by blast
  qed
  have "set (outgoing_nack l) \<inter> (set seen \<union> set asked) = {}" using assms by (auto simp: book_inv_def)
  moreover have "u24_of ` {..<next_expected seen} \<subseteq> set seen \<union> set (outgoing_nack l) \<union> set asked"
    using assms by (auto simp: book_inv_def)
  ultimately show ?thesis using below by blast
qed

lemma book_take_nack:
  assumes "book_inv seen asked rt l" and "7 \<le> unat mtu"
  shows "\<exists>a l'. (process_outgoing_nack l mtu :: ('e, _) outcome) = Ok (a, l') \<and> (a = None \<longleftrightarrow> outgoing_nack l = [])
     \<and> outgoing_nack l = numbers (case a of None \<Rightarrow> [] | Some a \<Rightarrow> [a]) @ outgoing_nack l'"
proof -
  obtain a rest where a: "(extend_from (outgoing_nack l) mtu :: ('e, _) outcome) = Ok (a, rest)"
    "outgoing_nack l = numbers (case a of None \<Rightarrow> [] | Some a \<Rightarrow> [a]) @ rest" "a = None \<longleftrightarrow> outgoing_nack l = []"
    by (rule take_out [OF book_nack_small [OF assms(1)] assms(2)])
  then show ?thesis by (intro exI [of _ a] exI [of _ "l\<lparr>outgoing_nack := rest\<rparr>"]) (simp add: process_outgoing_nack_def)
qed

text \<open>
  C22: acknowledgement bookkeeping of a connection, for any interleaving of arriving frame sets (in any
  order, lost or repeated, numbered below \<open>0xFFFFFF\<close>) with positive and negative acknowledgements being taken out
  for sending, each into a packet of at least 7 bytes.  Nothing panics; every frame set is handed to the
  connection in the order of arrival; every arrival is acknowledged exactly once, in a packet already sent or
  still waiting; the next expected number follows the highest one that has arrived.  What is asked for again is
  exactly what is missing: the numbers waiting to be asked for are those below the next expected one that
  have neither arrived nor been asked for, in increasing order; no number is asked for twice; and the next
  negative acknowledgement, whatever its size, takes the first of the waiting numbers, at least one of them if there is any,
  and nothing else.
\<close>

theorem link_bookkeeping:
  assumes "channel_laws C sent_items" and "\<not> ch_is_closed C tx" and "sent_items tx = []" and "\<forall>ev \<in> set evs. event_ok ev"
  shows "\<exists>acks nacks rt l. link_run Q C evs (route_new tx) (link_new Q role peer) = (Ok (acks, nacks, rt, l) :: (io_error, _) outcome)
     \<and> sent_items (router_tx rt) = arrivals evs
     \<and> mset (numbers acks @ outgoing_ack l) = mset (map fs_seq_num (arrivals evs))
     \<and> to_usize (seq_read rt) = next_expected (map fs_seq_num (arrivals evs))
     \<and> set (outgoing_nack l) = u24_of ` {..<to_usize (seq_read rt)} - fs_seq_num ` set (arrivals evs) - set (numbers nacks)
     \<and> sorted (outgoing_nack l) \<and> distinct (numbers nacks @ outgoing_nack l)
     \<and> (\<forall>x \<in> set (numbers nacks). to_usize x < to_usize (seq_read rt))
     \<and> (\<forall>mtu. 7 \<le> unat mtu \<longrightarrow> (\<exists>a l'. process_outgoing_nack l mtu = (Ok (a, l') :: (io_error, _) outcome)
          \<and> (a = None \<longleftrightarrow> outgoing_nack l = [])
          \<and> outgoing_nack l = numbers (case a of None \<Rightarrow> [] | Some a \<Rightarrow> [a]) @ outgoing_nack l'))"
proof -
  have inv: "book_inv [] [] (route_new tx) (link_new Q role peer)" by (simp add: book_inv_def route_new_def link_new_def)
  have "\<not> ch_is_closed C (router_tx (route_new tx))" using assms(2) by (simp add: route_new_def)
  from link_run_correct [OF assms(1) inv this assms(4), where 'e = io_error and Q = Q]
  obtain acks nacks rt l where *: "link_run Q C evs (route_new tx) (link_new Q role peer) = (Ok (acks, nacks, rt, l) :: (io_error, _) outcome)"
    "book_inv (map fs_seq_num (arrivals evs)) (numbers nacks) rt l"
    "sent_items (router_tx rt) = sent_items tx @ arrivals evs"
    "mset (numbers acks) + mset (outgoing_ack l) = mset (map fs_seq_num (arrivals evs))"
    by (fastforce simp: route_new_def link_new_def)
  have sr: "to_usize (seq_read rt) = next_expected (map fs_seq_num (arrivals evs))" "sorted (outgoing_nack l)"
    "distinct (numbers nacks @ outgoing_nack l)" "\<forall>x \<in> set (numbers nacks). to_usize x < to_usize (seq_read rt)"
    using *(2) unfolding book_inv_def u24_less_iff by blast+
  have "set (outgoing_nack l) = u24_of ` {..<to_usize (seq_read rt)} - fs_seq_num ` set (arrivals evs) - set (numbers nacks)"
    using book_missing [OF *(2)] sr(1) by simp
  then show ?thesis using *(1,3,4) sr assms(3) book_take_nack [OF *(2), where 'e = io_error]
    by (intro exI [of _ acks] exI [of _ nacks] exI [of _ rt] exI [of _ l] conjI allI impI) simp_all
qed

definition sample_link_api where
  "sample_link_api = \<lparr> ack_q = list_queue, nack_q = list_queue, unconnected_q = list_queue, body_q = list_queue \<rparr>"

definition sample_peer :: peer where
  "sample_peer = \<lparr> peer_guid = 1, peer_addr = V4 0 0, peer_mtu = 1000 \<rparr>"

definition sample_arrival :: "nat \<Rightarrow> link_event" where
  "sample_arrival n = Arrive \<lparr> fs_seq_num = u24_of n, fs_set = [] \<rparr>"

theorem link_bookkeeping_witness:
  "\<exists>acks nacks rt l. link_run sample_link_api list_channel [sample_arrival 3, TakeNack 100, sample_arrival 1, TakeAck 100]
       (route_new (False, [])) (link_new sample_link_api (Client 0) sample_peer) = (Ok (acks, nacks, rt, l) :: (io_error, _) outcome)
     \<and> mset (numbers acks @ outgoing_ack l) = {# u24_of 1, u24_of 3 #}"
  using link_bookkeeping [OF list_channel.channel_laws_axioms,
      of "(False, [])" "[sample_arrival 3, TakeNack 100, sample_arrival 1, TakeAck 100]" sample_link_api "Client 0" sample_peer]
  by (force simp: sample_arrival_def list_channel_def add_mset_commute)

text \<open>
  The route cannot take the last sequence number: delivering a frame set numbered \<open>0xFFFFFF\<close> computes
  its successor and panics, so a single datagram of a peer brings down the task that feeds all routes.
\<close>

theorem last_sequence_panics:
  "deliver sample_link_api list_channel 0 (route_new (False, [])) (link_new sample_link_api (Client 0) sample_peer)
     ([] :: unit reactor) (FrameSet \<lparr> fs_seq_num = U24 0xFFFFFF, fs_set = [] \<rparr>) = (Panic :: (io_error, _) outcome)"
  by (simp add: deliver_def list_channel_def route_new_def note_arrival_def u24_succ_eq to_usize_def u24_le_iff Let_def)

text \<open>
  Connections of one endpoint never share timers.  The timer key made by \<open>combine_hashes\<close> from the guid of the
  endpoint and that of the peer determines the guid of the peer, so cancelling the timers of one connection leaves
  those of every other connection of the endpoint alone.
\<close>

lemma timer_keys_distinct:
  "link_key role peer = link_key role peer' \<longleftrightarrow> peer_guid peer = peer_guid peer'"
  by (simp add: link_key_def combine_hashes_inject)

end
