(* ===== verification/Body.thy ===== *)
theory Body
  imports Ordering Link Sinks
begin

text \<open>
  The outermost layers of the codec: the tracer and the body decoder of \<open>src/src/codec/decoder\<close>, which turns frames into frame
  bodies, and the body encoder of \<open>src/src/codec/encoder/body.rs\<close>, which turns frame bodies into messages and
  also sends the bodies that the reading half has put on the link.  Tracing spans are left out.
\<close>

subsection \<open>Decoding\<close>

text \<open>\<open>PendingTracer\<close> hands every poll on.\<close>

fun trace_poll :: "('st, 'i, 'i, 'e) poll_fn" where
  "trace_poll st [] = Ok (Pending, st, [])"
| "trace_poll st (r # s) = Ok (r, st, s)"

fun body_poll :: "bytes_api \<Rightarrow> ('st, codec_error + single_frame_set, codec_error + frame_body, 'e) poll_fn" where
  "body_poll B st [] = Ok (Pending, st, [])"
| "body_poll B st (Pending # s) = Ok (Pending, st, s)"
| "body_poll B st (Ready None # s) = Ok (Ready None, st, s)"
| "body_poll B st (Ready (Some (Inl e)) # s) = Ok (Ready (Some (Inl e)), st, s)"
| "body_poll B st (Ready (Some (Inr x)) # s) = (case frame_body_read B (f_body (sf_set x)) of
      Ok body \<Rightarrow> Ok (Ready (Some (Inr body)), st, s)
    | Err e \<Rightarrow> Ok (Ready (Some (Inl e)), st, s)
    | Panic \<Rightarrow> Panic)"

lemma trace_polls: "\<exists>outs. (polls n trace_poll () s :: ('e, _) outcome) = Ok (outs, (), drop n s) \<and> ready_items outs = ready_items (take n s)"
proof (induction n arbitrary: s)
  case (Suc n)
  show ?case
  proof (cases s)
    case Nil
    then show ?thesis using Suc.IH [of "[]"] by auto
  next
    case (Cons r s')
    from Suc.IH [of s'] obtain outs where "(polls n trace_poll () s' :: ('e, _) outcome) = Ok (outs, (), drop n s')" "ready_items outs = ready_items (take n s')" by blast
    then show ?thesis
      using ready_items_append [of "[r]" outs] ready_items_append [of "[r]" "take n s'"] by (simp add: Cons)
  qed
qed simp

text \<open>When every body on the stream can be read, the layer delivers the bodies in order.\<close>

lemma body_polls:
  assumes "\<forall>x \<in> set (ok_items s). frame_body_read B (f_body (sf_set x)) = Ok (body x)"
  shows "\<exists>outs. (polls n (body_poll B) () s :: ('e, _) outcome) = Ok (outs, (), drop n s) \<and> ok_items outs = map body (ok_items (take n s))
     \<and> err_items outs = err_items (take n s)"
  using assms
proof (induction n arbitrary: s)
  case (Suc n)
  show ?case
  proof (cases s)
    case Nil
    then show ?thesis using Suc.IH [of "[]"] by auto
  next
    case (Cons r s')
    have "\<forall>x \<in> set (ok_items s'). frame_body_read B (f_body (sf_set x)) = Ok (body x)"
      using Suc.prems unfolding Cons by (cases r rule: result_poll_cases) simp_all
    from Suc.IH [OF this] obtain outs where "(polls n (body_poll B) () s' :: ('e, _) outcome) = Ok (outs, (), drop n s')"
      "ok_items outs = map body (ok_items (take n s'))" "err_items outs = err_items (take n s')" by blast
    then show ?thesis using Suc.prems unfolding Cons by (cases r rule: result_poll_cases) auto
  qed
qed simp

subsection \<open>Encoding\<close>

definition DEFAULT_FRAME_BODY_ORDERED_CHANNEL :: u8 where
  "DEFAULT_FRAME_BODY_ORDERED_CHANNEL = 0"

definition DEFAULT_FRAME_BODY_PRIORITY :: priority where
  "DEFAULT_FRAME_BODY_PRIORITY = Medium"

fun body_reliability :: "frame_body \<Rightarrow> ('e, reliability) outcome" where
  "body_reliability (ConnectedPing _) = Ok Unreliable"
| "body_reliability (ConnectedPong _ _) = Ok Unreliable"
| "body_reliability (ConnectionRequest _ _ _) = Ok ReliableOrdered"
| "body_reliability (ConnectionRequestAccepted _ _ _ _ _) = Ok Reliable"
| "body_reliability (NewIncomingConnection _ _ _ _) = Ok ReliableOrdered"
| "body_reliability DisconnectNotification = Ok Reliable"
| "body_reliability DetectLostConnections = Ok Reliable"
| "body_reliability (User _) = Panic"

definition encode :: "bytes_api \<Rightarrow> frame_body \<Rightarrow> ('e, message) outcome" where
  "encode B body = and_then (body_reliability body) (\<lambda>r.
     Ok (message_priority (message_order_channel (message_reliability (message_new (frame_body_write B body)) r)
       DEFAULT_FRAME_BODY_ORDERED_CHANNEL) DEFAULT_FRAME_BODY_PRIORITY))"

text \<open>
  The encoder is the sink below; the link is passed along.  The loop of \<open>poll_empty\<close> takes one body after the
  other off the link, with a bound on the number of rounds.
\<close>

record 's body_encoder =
  be_frame :: 's

definition body_encoded :: "'s \<Rightarrow> 's body_encoder" where
  "body_encoded s = \<lparr> be_frame = s \<rparr>"

type_synonym ('s, 'qa, 'qn, 'qu, 'qf, 'e) encoder_result =
  "('e, (io_error + unit) poll \<times> 's body_encoder \<times> ('qa, 'qn, 'qu, 'qf) link) outcome"

fun send_bodies :: "nat \<Rightarrow> bytes_api \<Rightarrow> ('qa, 'qn, 'qu, 'qf) link_api \<Rightarrow> ('s, message) sink_api \<Rightarrow> 's body_encoder
    \<Rightarrow> ('qa, 'qn, 'qu, 'qf) link \<Rightarrow> ('s, 'qa, 'qn, 'qu, 'qf, 'e) encoder_result option" where
  "send_bodies 0 B Q K st l = None"
| "send_bodies (Suc n) B Q K st l = (case next_frame_body Q l of
      (None, l) \<Rightarrow> Some (Ok (Ready (Inr ()), st, l))
    | (Some body, l) \<Rightarrow> (case sink_poll_ready K (be_frame st) of
        (Pending, s) \<Rightarrow> Some (Ok (Pending, st\<lparr>be_frame := s\<rparr>, l))
      | (Ready (Inl e), s) \<Rightarrow> Some (Ok (Ready (Inl e), st\<lparr>be_frame := s\<rparr>, l))
      | (Ready (Inr _), s) \<Rightarrow> (case encode B body of
            Ok m \<Rightarrow> (case sink_start_send K s m of
                (Inl e, s) \<Rightarrow> Some (Ok (Ready (Inl e), st\<lparr>be_frame := s\<rparr>, l))
              | (Inr _, s) \<Rightarrow> send_bodies n B Q K (st\<lparr>be_frame := s\<rparr>) l)
          | Err e \<Rightarrow> Some (Err e)
          | Panic \<Rightarrow> Some Panic)))"

definition body_poll_empty :: "nat \<Rightarrow> bytes_api \<Rightarrow> ('qa, 'qn, 'qu, 'qf) link_api \<Rightarrow> ('s, message) sink_api \<Rightarrow> 's body_encoder
    \<Rightarrow> ('qa, 'qn, 'qu, 'qf) link \<Rightarrow> ('s, 'qa, 'qn, 'qu, 'qf, 'e) encoder_result option" where
  "body_poll_empty n B Q K st l =
     (if frame_body_empty Q l then Some (Ok (Ready (Inr ()), st, l)) else send_bodies n B Q K st l)"

definition body_poll_ready :: "('s, message) sink_api \<Rightarrow> 's body_encoder \<Rightarrow> (io_error + unit) poll \<times> 's body_encoder" where
  "body_poll_ready K st = (case sink_poll_ready K (be_frame st) of
      (Pending, s) \<Rightarrow> (Pending, st\<lparr>be_frame := s\<rparr>)
    | (Ready (Inl e), s) \<Rightarrow> (Ready (Inl e), st\<lparr>be_frame := s\<rparr>)
    | (Ready (Inr _), s) \<Rightarrow> (Ready (Inr ()), st\<lparr>be_frame := s\<rparr>))"

definition body_send_message :: "('s, message) sink_api \<Rightarrow> 's body_encoder \<Rightarrow> message \<Rightarrow> (io_error + unit) \<times> 's body_encoder" where
  "body_send_message K st m = (case sink_start_send K (be_frame st) m of (r, s) \<Rightarrow> (r, st\<lparr>be_frame := s\<rparr>))"

definition body_start_send :: "bytes_api \<Rightarrow> ('s, message) sink_api \<Rightarrow> 's body_encoder \<Rightarrow> frame_body
    \<Rightarrow> ('e, (io_error + unit) \<times> 's body_encoder) outcome" where
  "body_start_send B K st body = and_then (encode B body) (\<lambda>m. Ok (body_send_message K st m))"

text \<open>\<open>ready!(self.poll_empty(cx))?\<close>, then the inner operation.\<close>

definition after_bodies :: "('s \<Rightarrow> (io_error + unit) poll \<times> 's) \<Rightarrow> ('s, 'qa, 'qn, 'qu, 'qf, 'e) encoder_result option
    \<Rightarrow> ('s, 'qa, 'qn, 'qu, 'qf, 'e) encoder_result option" where
  "after_bodies inner = map_option (\<lambda>res. and_then res (\<lambda>(r, st, l). case r of
      Ready (Inr _) \<Rightarrow> (case inner (be_frame st) of (r, s) \<Rightarrow> Ok (r, st\<lparr>be_frame := s\<rparr>, l))
    | _ \<Rightarrow> Ok (r, st, l)))"

definition body_poll_flush :: "nat \<Rightarrow> bytes_api \<Rightarrow> ('qa, 'qn, 'qu, 'qf) link_api \<Rightarrow> ('s, message) sink_api \<Rightarrow> 's body_encoder
    \<Rightarrow> ('qa, 'qn, 'qu, 'qf) link \<Rightarrow> ('s, 'qa, 'qn, 'qu, 'qf, 'e) encoder_result option" where
  "body_poll_flush n B Q K st l = after_bodies (sink_poll_flush K) (body_poll_empty n B Q K st l)"

definition body_poll_close :: "nat \<Rightarrow> bytes_api \<Rightarrow> ('qa, 'qn, 'qu, 'qf) link_api \<Rightarrow> ('s, message) sink_api \<Rightarrow> 's body_encoder
    \<Rightarrow> ('qa, 'qn, 'qu, 'qf) link \<Rightarrow> ('s, 'qa, 'qn, 'qu, 'qf, 'e) encoder_result option" where
  "body_poll_close n B Q K st l = after_bodies (sink_poll_close K) (body_poll_empty n B Q K st l)"

text \<open>
  One poll of \<open>SinkExt::send\<close> as it is documented: the item is handed over when the sink is ready, then the sink is flushed; what is left to hand over is kept
  with the sink.  \<open>ping\<close> of \<open>src/src/opts.rs\<close> sends a ping with the time it is called at.
\<close>

definition send_poll :: "('s, 'i) sink_api \<Rightarrow> 'i option \<times> 's \<Rightarrow> (io_error + unit) poll \<times> 'i option \<times> 's" where
  "send_poll K x = (case x of
      (None, s) \<Rightarrow> (case sink_poll_flush K s of (r, s) \<Rightarrow> (r, None, s))
    | (Some i, s) \<Rightarrow> (case sink_poll_ready K s of
        (Ready (Inr _), s) \<Rightarrow> (case sink_start_send K s i of
            (Inl e, s) \<Rightarrow> (Ready (Inl e), None, s)
          | (Inr _, s) \<Rightarrow> (case sink_poll_flush K s of (r, s) \<Rightarrow> (r, None, s)))
      | (r, s) \<Rightarrow> (r, Some i, s)))"

definition ping :: "('s, frame_body) sink_api \<Rightarrow> i64 \<Rightarrow> 's \<Rightarrow> (io_error + unit) poll \<times> frame_body option \<times> 's" where
  "ping K timestamp s = send_poll K (Some (ConnectedPing timestamp), s)"

subsection \<open>Sending queued bodies\<close>

text \<open>The message of a body that can be encoded.\<close>

definition encoded :: "bytes_api \<Rightarrow> frame_body \<Rightarrow> message" where
  "encoded B body = \<lparr> msg_reliability = (case body_reliability body :: (io_error, _) outcome of Ok r \<Rightarrow> r | _ \<Rightarrow> Unreliable),
     msg_order_channel = 0, msg_priority = Medium, msg_data = frame_body_write B body \<rparr>"

definition is_user :: "frame_body \<Rightarrow> bool" where
  "is_user body = (case body of User _ \<Rightarrow> True | _ \<Rightarrow> False)"

lemma encode_ok: "\<not> is_user body \<Longrightarrow> encode B body = Ok (encoded B body)"
  by (cases body) (simp_all add: encode_def encoded_def is_user_def message_new_def message_reliability_def message_order_channel_def
      message_priority_def DEFAULT_FRAME_BODY_ORDERED_CHANNEL_def DEFAULT_FRAME_BODY_PRIORITY_def)

locale body_env = sink_laws K log + fq: queue_laws "body_q Q" fitems fcap
  for K :: "('s, message) sink_api" and log :: "'s \<Rightarrow> message list"
    and Q :: "('qa, 'qn, 'qu, 'qf) link_api" and fitems :: "'qf \<Rightarrow> frame_body list" and fcap :: "'qf \<Rightarrow> nat option"
begin

lemma send_bodies_ok:
  assumes "always_ready K" and "\<forall>b \<in> set (fitems (l_frame_body l)). \<not> is_user b" and "length (fitems (l_frame_body l)) < n"
  shows "\<exists>s q. (send_bodies n B Q K st l :: ('s, 'qa, 'qn, 'qu, 'qf, 'e) encoder_result option)
       = Some (Ok (Ready (Inr ()), st\<lparr>be_frame := s\<rparr>, l\<lparr>l_frame_body := q\<rparr>))
     \<and> log s = log (be_frame st) @ map (encoded B) (fitems (l_frame_body l)) \<and> fitems q = []"
  using assms(2,3)
proof (induction n arbitrary: st l)
  case (Suc n)
  show ?case
  proof (cases rule: fq.pop_cases [of "l_frame_body l"])
    case (empty q)
    then show ?thesis by (intro exI [of _ "be_frame st"] exI [of _ q]) (simp add: next_frame_body_def)
  next
    case (item b bs q)
    obtain s1 where s1: "sink_poll_ready K (be_frame st) = (Ready (Inr ()), s1)" "log s1 = log (be_frame st)"
      using assms(1) ready_log unfolding always_ready_def by (metis prod.collapse)
    obtain s2 where s2: "sink_start_send K s1 (encoded B b) = (Inr (), s2)" "log s2 = log s1 @ [encoded B b]"
      using assms(1) send_log [of s1 "encoded B b" "Inr ()"] unfolding always_ready_def by (metis prod.collapse sum.case(2))
    have "(encode B b :: ('e, _) outcome) = Ok (encoded B b)" using Suc.prems(1) item(1) by (intro encode_ok) simp
    moreover from Suc.IH [of "l\<lparr>l_frame_body := q\<rparr>" "st\<lparr>be_frame := s2\<rparr>"] Suc.prems item obtain s q' where
      "(send_bodies n B Q K (st\<lparr>be_frame := s2\<rparr>) (l\<lparr>l_frame_body := q\<rparr>) :: ('s, 'qa, 'qn, 'qu, 'qf, 'e) encoder_result option)
       = Some (Ok (Ready (Inr ()), st\<lparr>be_frame := s\<rparr>, l\<lparr>l_frame_body := q'\<rparr>))"
      "log s = log s2 @ map (encoded B) bs" "fitems q' = []" by auto
    ultimately show ?thesis
      using s1 s2 item by (intro exI [of _ s] exI [of _ q']) (simp add: next_frame_body_def)
  qed
qed simp

lemma body_lost:
  assumes "fitems (l_frame_body l) = b # bs" and "sink_poll_ready K (be_frame st) = (Pending, s)"
  shows "\<exists>q. (body_poll_empty (Suc n) B Q K st l :: ('s, 'qa, 'qn, 'qu, 'qf, 'e) encoder_result option)
       = Some (Ok (Pending, st\<lparr>be_frame := s\<rparr>, l\<lparr>l_frame_body := q\<rparr>)) \<and> fitems q = bs \<and> log s = log (be_frame st)"
proof (cases rule: fq.pop_cases [of "l_frame_body l"])
  case (item x xs q)
  then show ?thesis
    using assms ready_log [OF assms(2)]
    by (intro exI [of _ q]) (simp add: body_poll_empty_def frame_body_empty_def fq.is_empty next_frame_body_def)
qed (use assms(1) in simp)

end

interpretation log_bodies: body_env log_sink "\<lambda>xs. xs" sample_link_api snd fst
  by (simp add: body_env_def sample_link_api_def list_queue.queue_laws_axioms log_sink.sink_laws_axioms)

interpretation script_bodies: body_env script_sink snd sample_link_api snd fst
  by (simp add: body_env_def sample_link_api_def list_queue.queue_laws_axioms script_sink.sink_laws_axioms)

subsection \<open>Theorems\<close>

text \<open>
  C24: the control messages of a connection get through.  Emptying the body queue of the link over a sink that
  takes everything ends, hands every queued body to the sink as one message, in order and once, leaves
  the queue empty, and reading the data of these messages gives the bodies back.
\<close>

theorem queued_bodies_sent:
  assumes "body_env K log Q fitems fcap" and "bytes_laws B" and "always_ready K"
    and "\<forall>b \<in> set (fitems (l_frame_body l)). \<not> is_user b \<and> frame_body_ok b" and "length (fitems (l_frame_body l)) < n"
  shows "\<exists>st' q ms. body_poll_empty n B Q K st l = Some (Ok (Ready (Inr ()), st', l\<lparr>l_frame_body := q\<rparr>) :: (io_error, _) outcome)
     \<and> log (be_frame st') = log (be_frame st) @ ms \<and> fitems q = []
     \<and> map (\<lambda>m. frame_body_read B (msg_data m)) ms = map Ok (fitems (l_frame_body l))
     \<and> list_all (\<lambda>m. msg_order_channel m = 0 \<and> msg_priority m = Medium) ms"
proof -
  let ?bs = "fitems (l_frame_body l)"
  obtain s q where *: "send_bodies n B Q K st l = Some (Ok (Ready (Inr ()), st\<lparr>be_frame := s\<rparr>, l\<lparr>l_frame_body := q\<rparr>) :: (io_error, _) outcome)"
    "log s = log (be_frame st) @ map (encoded B) ?bs" "fitems q = []"
    using body_env.send_bodies_ok [OF assms(1,3) _ assms(5), of B st, where 'e = io_error] assms(4) by blast
  have rt: "map (\<lambda>m. frame_body_read B (msg_data m)) (map (encoded B) ?bs) = map Ok ?bs"
    using assms(4) bytes_laws.frame_body_round_trip [OF assms(2)] by (simp add: encoded_def)
  have empty: "frame_body_empty Q l \<longleftrightarrow> ?bs = []"
    using queue_laws.is_empty [of "body_q Q" fitems fcap] assms(1) by (simp add: frame_body_empty_def body_env_def)
  show ?thesis
  proof (cases "?bs = []")
    case True
    then show ?thesis
      by (intro exI [of _ st] exI [of _ "l_frame_body l"] exI [of _ "[]"]) (simp add: body_poll_empty_def empty)
  next
    case False
    then show ?thesis
      using * rt by (intro exI [of _ "st\<lparr>be_frame := s\<rparr>"] exI [of _ q] exI [of _ "map (encoded B) ?bs"])
        (simp add: body_poll_empty_def empty list_all_iff encoded_def)
  qed
qed

definition sample_bodies where
  "sample_bodies = (link_new sample_link_api (Client 0) sample_peer)\<lparr>l_frame_body := (None, [ConnectedPing 7, DisconnectNotification])\<rparr>"

theorem queued_bodies_sent_witness:
  "\<exists>st' q ms. body_poll_empty 3 std_bytes sample_link_api log_sink (body_encoded []) sample_bodies
       = Some (Ok (Ready (Inr ()), st', sample_bodies\<lparr>l_frame_body := q\<rparr>) :: (io_error, _) outcome)
     \<and> be_frame st' = ms \<and> map (\<lambda>m. frame_body_read std_bytes (msg_data m)) ms = [Ok (ConnectedPing 7), Ok DisconnectNotification]"
proof -
  have f: "snd (l_frame_body sample_bodies) = [ConnectedPing 7, DisconnectNotification]" "be_frame (body_encoded []) = []"
    by (simp_all add: sample_bodies_def body_encoded_def)
  have h: "\<forall>b \<in> set (snd (l_frame_body sample_bodies)). \<not> is_user b \<and> frame_body_ok b" "length (snd (l_frame_body sample_bodies)) < 3"
    by (simp_all add: f is_user_def)
  show ?thesis
    by (insert queued_bodies_sent [OF log_bodies.body_env_axioms std.bytes_laws_axioms log_sink_ready h, of "body_encoded []"],
        unfold f list.map append_Nil, elim exE conjE, intro exI conjI)
qed

text \<open>
  A control message is lost when the sink is not ready.  \<open>poll_empty\<close> takes the body off the link before it
  asks the sink; when the sink is pending, the body is neither sent nor still on the link.
\<close>

theorem pending_sink_loses_body:
  assumes "body_env K log Q fitems fcap" and "fitems (l_frame_body l) = b # bs" and "sink_poll_ready K (be_frame st) = (Pending, s)"
  shows "\<exists>q. body_poll_empty (Suc n) B Q K st l = Some (Ok (Pending, st\<lparr>be_frame := s\<rparr>, l\<lparr>l_frame_body := q\<rparr>) :: (io_error, _) outcome)
     \<and> fitems q = bs \<and> log s = log (be_frame st)"
  by (rule body_env.body_lost [OF assms])

theorem pending_sink_loses_body_witness:
  "\<exists>q. body_poll_empty 1 std_bytes sample_link_api script_sink (body_encoded ([Pending], [])) sample_bodies
       = Some (Ok (Pending, body_encoded ([], []), sample_bodies\<lparr>l_frame_body := q\<rparr>) :: (io_error, _) outcome)
     \<and> snd q = [DisconnectNotification]"
  using pending_sink_loses_body [OF script_bodies.body_env_axioms, of sample_bodies "ConnectedPing 7" "[DisconnectNotification]"
      "body_encoded ([Pending], [])" "([], [])" 0 std_bytes]
  by (simp add: sample_bodies_def body_encoded_def script_sink_def)

end
