(* ===== verification/Codec.thy ===== *)
theory Codec
  imports Transmission Body
begin

text \<open>
  The codec of \<open>src/src/codec/mod.rs\<close>: the pipeline of the decoder layers and the stack of the encoder
  sinks, with their configuration.  The streams between the layers are the scripts the lower layers
  produce when they are polled often enough.
\<close>

subsection \<open>Configuration and composition\<close>

record codec_config =
  max_parted_size :: u32
  max_parted_count :: nat
  config_max_channels :: nat

definition codec_config_default :: codec_config where
  "codec_config_default = \<lparr> max_parted_size = 256, max_parted_count = 256, config_max_channels = 1 \<rparr>"

text \<open>What a layer makes of a stream in \<open>n\<close> polls.\<close>

definition through :: "nat \<Rightarrow> ('st, 'i, 'o, 'e) poll_fn \<Rightarrow> 'st \<Rightarrow> 'i script \<Rightarrow> ('e, 'o script) outcome" where
  "through n poll_next st s = and_then (polls n poll_next st s) (\<lambda>(outs, st, rest). Ok outs)"

definition map_ok :: "'a script \<Rightarrow> (codec_error + 'a) script" where
  "map_ok s = map (map_poll (map_option Inr)) s"

text \<open>\<open>frame_decoded\<close>, with the number of polls of each of the five layers.\<close>

definition frame_decoded :: "bytes_api \<Rightarrow> ('c, u16, part_heap) lru_api \<Rightarrow> codec_config \<Rightarrow> nat \<times> nat \<times> nat \<times> nat \<times> nat
    \<Rightarrow> frame_set script \<Rightarrow> ('e, (codec_error + frame_body) script) outcome" where
  "frame_decoded B A config = (\<lambda>(n1, n2, n3, n4, n5) s.
     and_then (through n1 trace_poll () (map_ok s)) (\<lambda>s.
     and_then (through n2 dedup_poll window_default s) (\<lambda>s.
     and_then (defragmented A (max_parted_size config) (max_parted_count config)) (\<lambda>st.
     and_then (through n3 (defrag_poll A) st s) (\<lambda>s.
     and_then (ordered_new (config_max_channels config)) (\<lambda>st.
     and_then (through n4 order_poll st s) (\<lambda>s.
       through n5 (body_poll B) () s)))))))"

definition frame_encoded :: "'s \<Rightarrow> u16 \<Rightarrow> codec_config \<Rightarrow> 's fragmenter body_encoder" where
  "frame_encoded s mtu config = body_encoded (fragmented s (unat mtu) (config_max_channels config))"

subsection \<open>Ordering a permutation of what was sent\<close>

definition view :: "single_frame_set \<Rightarrow> bytes \<times> ordered option" where
  "view x = (f_body (sf_set x), f_ordered (sf_set x))"

lemma view_simps: "on_channel c x = at_channel c (view x)" "order_idx x = place (view x)" "unordered x \<longleftrightarrow> snd (view x) = None"
  by (simp_all add: on_channel_def at_channel_def order_idx_def place_def unordered_def view_def)

lemma order_idx_view: "order_idx = place \<circ> view"
  by (rule ext) (simp add: view_simps)

lemma channels_disjoint: "(\<Sum>c < k. length (filter (at_channel c) E)) \<le> length E"
proof (induction E)
  case (Cons e E)
  have "(\<Sum>c < k. if at_channel c e then 1 else 0 :: nat) \<le> 1"
  proof (cases "snd e")
    case (Some od)
    have "(\<Sum>c < k. if at_channel c e then 1 else 0 :: nat) = (\<Sum>c < k. if c = unat (channel od) then 1 else 0)"
      by (rule sum.cong) (auto simp: at_channel_def Some)
    then show ?thesis by simp
  qed (simp add: at_channel_def)
  moreover have "(\<Sum>c < k. length (filter (at_channel c) (e # E)))
      = (\<Sum>c < k. if at_channel c e then 1 else 0) + (\<Sum>c < k. length (filter (at_channel c) E))"
    unfolding sum.distrib [symmetric] by (rule sum.cong) simp_all
  ultimately show ?case using Cons.IH by simp
qed simp

lemma no_order_errs:
  assumes "err_items s = []" and "\<forall>x \<in> set (ok_items s). \<exists>c < k. on_channel c x"
  shows "order_errs k s = []"
  using assms by (induction k s rule: order_errs.induct) (auto simp: on_channel_def split: option.splits)

lemma order_stage:
  assumes k: "0 < k" "k < 256" and perm: "mset (map view (ok_items s)) = mset E" and errs: "err_items s = []"
    and chans: "\<forall>e \<in> set E. (\<exists>c < k. at_channel c e) \<and> place e < 2 ^ 24 - 1"
    and places: "\<forall>c < k. map place (filter (at_channel c) E) = [0..<num c]"
    and n: "length s + length E \<le> n"
  shows "\<exists>st0 outs st. ordered_new k = (Ok st0 :: ('e, _) outcome) \<and> polls n order_poll st0 s = (Ok (outs, st, []) :: ('e, _) outcome)
     \<and> err_items outs = [] \<and> set (ok_items outs) \<subseteq> set (ok_items s)
     \<and> (\<forall>c < k. map view (filter (on_channel c) (ok_items outs)) = filter (at_channel c) E)"
proof -
  have mem: "view ` set (ok_items s) = set E" using mset_eq_setD [OF perm] by simp
  have idx: "\<forall>x \<in> set (ok_items s). order_idx x < 2 ^ 24 - 1" using chans mem unfolding view_simps by blast
  have len: "length (filter (at_channel c) E) = num c" if "c < k" for c
    using places that by (metis diff_zero length_map length_upt)
  have arr: "arrived c (ok_items s) i \<longleftrightarrow> i < num c" if "c < k" for c i
  proof -
    have "arrived c (ok_items s) i \<longleftrightarrow> (\<exists>e \<in> view ` set (ok_items s). at_channel c e \<and> place e = i)"
      by (simp add: arrived_def view_simps)
    also have "\<dots> \<longleftrightarrow> i \<in> set (map place (filter (at_channel c) E))" unfolding mem by auto
    finally show ?thesis using places that by simp
  qed
  have rel: "released c (ok_items s) = num c" if "c < k" for c
    by (rule released_eqI) (simp_all add: arr [OF that])
  have "(\<Sum>c < k. released c (ok_items s)) = (\<Sum>c < k. length (filter (at_channel c) E))"
    by (rule sum.cong) (simp_all add: rel len)
  then have work: "length s + (\<Sum>c < k. released c (ok_items s)) \<le> n" using n channels_disjoint [of E k] by simp
  from order_polls [OF k idx, of n, where 'e = 'e and 'f = 'e] work obtain st0 outs st where
    o: "ordered_new k = (Ok st0 :: ('e, _) outcome)" "polls n order_poll st0 s = (Ok (outs, st, []) :: ('e, _) outcome)"
    "err_items outs = order_errs k s" "filter unordered (ok_items outs) = filter unordered (ok_items s)"
    "\<forall>x \<in> set (ok_items outs). unordered x \<or> x \<in> set (ok_items s) \<and> (\<exists>c < k. on_channel c x)"
    "\<forall>c < k. map order_idx (filter (on_channel c) (ok_items outs)) = [0..<released c (ok_items s)]"
    by auto
  have on: "\<forall>x \<in> set (ok_items s). \<exists>c < k. on_channel c x" using chans mem unfolding view_simps by blast
  have sub: "set (ok_items outs) \<subseteq> set (ok_items s)"
  proof
    fix x assume x: "x \<in> set (ok_items outs)"
    show "x \<in> set (ok_items s)"
    proof (cases "unordered x")
      case True
      then have "x \<in> set (filter unordered (ok_items outs))" using x by simp
      then show ?thesis unfolding o(4) by simp
    qed (use o(5) x in blast)
  qed
  have "map view (filter (on_channel c) (ok_items outs)) = filter (at_channel c) E" if c: "c < k" for c
  proof (rule map_inj_on)
    have "distinct (map place (filter (at_channel c) E))" using places c by simp
    then have inj: "inj_on place (set (filter (at_channel c) E))" by (simp add: distinct_map)
    have "set (map view (filter (on_channel c) (ok_items outs))) \<subseteq> set (filter (at_channel c) E)"
      using sub mem by (auto simp: view_simps)
    then show "inj_on place (set (map view (filter (on_channel c) (ok_items outs))) \<union> set (filter (at_channel c) E))"
      using inj by (simp add: sup.absorb2)
    show "map place (map view (filter (on_channel c) (ok_items outs))) = map place (filter (at_channel c) E)"
      using o(6) places c rel by (simp add: order_idx_view)
  qed
  then show ?thesis using o(1-3) sub no_order_errs [OF errs on] by (intro exI [of _ st0] exI [of _ outs] exI [of _ st]) simp
qed

subsection \<open>From sender to receiver\<close>

lemma map_ok_items: "ok_items (map_ok s) = ready_items s" "err_items (map_ok s) = []"
  by (induction s rule: ready_items.induct) (simp_all add: map_ok_def)

lemma items_ready: "ready_items s = ready_items t \<Longrightarrow> ok_items s = ok_items t \<and> err_items s = err_items t"
  by (simp add: ok_items_def err_items_def)

definition received_frames :: "frame_set script \<Rightarrow> frame list" where
  "received_frames s = concat (map fs_set (ready_items s))"

lemma dedup_stage:
  assumes "set (received_frames s) = set F" and "\<forall>f \<in> set F. has_rel f" and "map rel_idx F = [b..<e]" and "e < 2 ^ 24"
    and "length s \<le> n1" and "n1 \<le> n2"
  shows "\<exists>outs. and_then (through n1 trace_poll () (map_ok s)) (through n2 dedup_poll window_default) = (Ok outs :: ('e, _) outcome)
     \<and> length outs = n2 \<and> mset (frames_of outs) = mset F \<and> err_items outs = []"
proof -
  from trace_polls [of n1 "map_ok s", where 'e = 'e] assms(5) obtain t where
    t: "(polls n1 trace_poll () (map_ok s) :: ('e, _) outcome) = Ok (t, (), [])" "ready_items t = ready_items (map_ok s)"
    by (auto simp: map_ok_def)
  have ft: "frames_of t = received_frames s" "err_items t = []" "length t = n1"
    using items_ready [OF t(2)] map_ok_items [of s] polls_length [OF t(1)] by (simp_all add: frames_of_def received_frames_def)
  have idx: "rel_indices (frames_of t) = map rel_idx (frames_of t)" using assms(1,2) ft(1) by (simp add: rel_indices_map)
  have "rel_idx ` set F = {b..<e}" using assms(3) by (metis list.set_map set_upt)
  then have set: "set (rel_indices (frames_of t)) = {b..<e}" using assms(1) ft(1) idx by simp
  have "dedup_inv () window_default t"
    using assms(4) set by (auto simp: dedup_inv_def window_default_correct indices_ok_def room_def intro: exI [of _ e])
  from dedup.polls_law [OF this, of n2] obtain outs w used rest g where
    o: "(polls n2 dedup_poll window_default t :: ('e, _) outcome) = Ok (outs, w, rest)" "t = used @ rest" "length outs = n2"
    "dedup_trans () window_default used outs g w" "length rest \<le> length t - n2" by blast
  then have "rest = []" "used = t" using assms(6) ft(3) by simp_all
  then have "frames_of outs = first_seen {} (frames_of t)" "err_items outs = []"
    using o(4) ft(2) by (simp_all add: dedup_trans_def window_default_correct(2))
  moreover have "mset (first_seen {} (frames_of t)) = mset F" unfolding ft(1) by (rule first_seen_perm [OF assms(1-3)])
  ultimately show ?thesis using t(1) o(1,3) by (intro exI [of _ outs]) (simp add: through_def)
qed

lemma defrag_stage:
  assumes "lru_laws A ok" and "0 < cap" and "parts_ok limit cap (frames_of s)"
    and "length s + length (reassemble [] (frames_of s)) \<le> n"
  shows "\<exists>st0 outs. defragmented A limit cap = (Ok st0 :: ('e, _) outcome) \<and> through n (defrag_poll A) st0 s = (Ok outs :: ('e, _) outcome)
     \<and> length outs = n \<and> singles_of outs = reassemble [] (frames_of s) \<and> err_items outs = err_items s"
proof -
  from part_cache.defrag_polls [OF part_cache.intro [OF assms(1)] assms(2,3), of n, where 'e = 'e and 'f = 'e] assms(4)
  obtain st0 outs st where "defragmented A limit cap = (Ok st0 :: ('e, _) outcome)"
    "polls n (defrag_poll A) st0 s = (Ok (outs, st, []) :: ('e, _) outcome)"
    "singles_of outs = reassemble [] (frames_of s)" "err_items outs = err_items s" by auto
  then show ?thesis using polls_length by (intro exI [of _ st0] exI [of _ outs]) (auto simp: through_def)
qed

text \<open>What is sent from a fresh sender, and when it can be.\<close>

definition transmissible :: "codec_config \<Rightarrow> 's fragmenter \<Rightarrow> message list \<Rightarrow> bool" where
  "transmissible config st ms \<longleftrightarrow> sendable_all st ms \<and> parts_within (max_parted_size config) st ms
     \<and> split_count st ms \<le> max_parted_count config \<and> split_count st ms \<le> 2 ^ 16
     \<and> (\<forall>m \<in> set ms. is_reliable (msg_reliability m) \<and> is_sequenced_or_ordered (msg_reliability m)
         \<and> msg_data m \<noteq> [] \<and> hd (msg_data m) \<notin> reserved_ids)"

lemma length_expected: "length (expected st ms) = length ms"
  by (induction ms arbitrary: st) simp_all

lemma expected_ordered:
  assumes "sendable_all st ms" and "\<forall>m \<in> set ms. is_sequenced_or_ordered (msg_reliability m)" and "(d, od) \<in> set (expected st ms)"
  shows "(\<exists>c < length (order_write_index st). at_channel c (d, od)) \<and> place (d, od) < 2 ^ 24 - 1 \<and> d \<in> msg_data ` set ms"
  using assms
proof (induction ms arbitrary: st)
  case (Cons m ms)
  have len: "length (order_write_index (sent st m)) = length (order_write_index st)" by (simp add: sent_def Let_def)
  show ?case
  proof (cases "(d, od) = (msg_data m, msg_ordered st m)")
    case True
    then show ?thesis using Cons.prems by (auto simp: msg_ordered_def at_channel_def place_def sendable_def)
  next
    case False
    then show ?thesis using Cons.IH [of "sent st m"] Cons.prems len by auto
  qed
qed simp

lemma deliver_all:
  fixes s0 :: 's and mtu :: nat and config :: codec_config
  defines "st0 \<equiv> fragmented s0 mtu (config_max_channels config)"
  assumes A: "lru_laws A ok" and cfg: "0 < max_parted_count config" "0 < config_max_channels config" "config_max_channels config < 256"
    and ms: "transmissible config st0 ms"
    and net: "set (received_frames s) = set (all_frames st0 ms)"
    and n: "length s \<le> n1" "n1 \<le> n2" "n2 + length ms \<le> n3" "n3 + length ms \<le> n4" "n4 \<le> n5"
  shows "\<exists>outs xs. frame_decoded B A config (n1, n2, n3, n4, n5) s = (Ok outs :: ('e, _) outcome)
     \<and> ok_items outs = map (\<lambda>x. User (fst x)) xs \<and> err_items outs = []
     \<and> (\<forall>c < config_max_channels config. map fst (filter (at_channel c) xs) = map msg_data (filter (of_channel c) ms))
     \<and> (\<forall>x \<in> set xs. \<exists>c < config_max_channels config. at_channel c x)"
proof -
  let ?k = "config_max_channels config" and ?F = "all_frames st0 ms" and ?E = "expected st0 ms"
  have m: "sendable_all st0 ms" "parts_within (max_parted_size config) st0 ms" "split_count st0 ms \<le> max_parted_count config"
    "split_count st0 ms \<le> 2 ^ 16" "\<forall>m \<in> set ms. is_reliable (msg_reliability m)"
    "\<forall>m \<in> set ms. is_sequenced_or_ordered (msg_reliability m)"
    "\<forall>d \<in> msg_data ` set ms. frame_body_read B d = Ok (User d)"
    using ms by (auto simp: transmissible_def user_data_read)
  have fresh: "length (order_write_index st0) = ?k" "\<forall>c < ?k. to_usize (order_write_index st0 ! c) = 0"
    by (simp_all add: st0_def fragmented_def)
  note rel = all_frames_rel [OF m(1,5)]
  obtain s1 where s1: "and_then (through n1 trace_poll () (map_ok s)) (through n2 dedup_poll window_default) = (Ok s1 :: ('e, _) outcome)"
    "length s1 = n2" "mset (frames_of s1) = mset ?F" "err_items s1 = []"
    using dedup_stage [OF net conjunct1 [OF rel] conjunct1 [OF conjunct2 [OF rel]] conjunct2 [OF conjunct2 [OF rel]] n(1,2)] by blast
  have "parts_ok (max_parted_size config) (max_parted_count config) (frames_of s1)"
    by (rule parts_ok_perm [OF s1(3) [symmetric] parts_ok_mono [OF all_frames_parts_ok [OF m(1,2,4)] m(3)]])
  moreover have E: "mset (map (\<lambda>x. (f_body x, f_ordered x)) (reassemble [] (frames_of s1))) = mset ?E"
    by (rule reassemble_all [OF m(1,5,2,4) s1(3)])
  then have len: "length (reassemble [] (frames_of s1)) = length ms"
    by (metis length_expected length_map size_mset)
  ultimately obtain st1 s2 where s2: "defragmented A (max_parted_size config) (max_parted_count config) = (Ok st1 :: ('e, _) outcome)"
    "through n3 (defrag_poll A) st1 s1 = (Ok s2 :: ('e, _) outcome)" "length s2 = n3"
    "singles_of s2 = reassemble [] (frames_of s1)" "err_items s2 = []"
    using defrag_stage [OF A cfg(1), of "max_parted_size config" s1 n3, where 'e = 'e] s1(2,4) n(3) by auto
  have view: "mset (map view (ok_items s2)) = mset ?E"
    using E unfolding s2(4) [symmetric] by (simp add: singles_of_def view_def [abs_def] comp_def)
  have E': "\<forall>e \<in> set ?E. (\<exists>c < ?k. at_channel c e) \<and> place e < 2 ^ 24 - 1"
    using expected_ordered [OF m(1,6)] fresh(1) by (metis prod.collapse)
  have places: "\<forall>c < ?k. map place (filter (at_channel c) ?E) = [0..<length (filter (of_channel c) ms)]"
    using expected_channel(2) [OF m(1,6)] fresh by simp
  obtain st2 s3 st3 where s3: "ordered_new ?k = (Ok st2 :: ('e, _) outcome)" "polls n4 order_poll st2 s2 = (Ok (s3, st3, []) :: ('e, _) outcome)"
    "err_items s3 = []" "set (ok_items s3) \<subseteq> set (ok_items s2)"
    "\<forall>c < ?k. map view (filter (on_channel c) (ok_items s3)) = filter (at_channel c) ?E"
    using order_stage [OF cfg(2,3) view s2(5) E' places, of n4, where 'e = 'e] s2(3) n(4) length_expected [of st0 ms] by auto
  have body: "\<forall>x \<in> set (ok_items s3). frame_body_read B (f_body (sf_set x)) = Ok (User (f_body (sf_set x)))"
  proof
    fix x assume "x \<in> set (ok_items s3)"
    then have "view x \<in> set ?E" using s3(4) mset_eq_setD [OF view] by auto
    then have "f_body (sf_set x) \<in> msg_data ` set ms" using expected_ordered [OF m(1,6)] by (auto simp: view_def)
    then show "frame_body_read B (f_body (sf_set x)) = Ok (User (f_body (sf_set x)))" using m(7) by blast
  qed
  have "length s3 = n4" by (rule polls_length [OF s3(2)])
  then obtain outs where outs: "(polls n5 (body_poll B) () s3 :: ('e, _) outcome) = Ok (outs, (), drop n5 s3)"
    "ok_items outs = map (\<lambda>x. User (f_body (sf_set x))) (ok_items s3)" "err_items outs = []"
    using body_polls [OF body, of n5, where 'e = 'e] s3(3) n(5) by auto
  have "frame_decoded B A config (n1, n2, n3, n4, n5) s = (Ok outs :: ('e, _) outcome)"
    using s1(1) s2(1,2) s3(1,2) outs(1) unfolding frame_decoded_def by (auto simp: and_then_eq_Ok through_def)
  moreover have "map fst (filter (at_channel c) (map view (ok_items s3))) = map msg_data (filter (of_channel c) ms)" if "c < ?k" for c
    using s3(5) that expected_channel(1) [OF m(1,6)] fresh(1) by (simp add: filter_map comp_def view_simps(1) [symmetric])
  moreover have "view ` set (ok_items s3) \<subseteq> set ?E" using s3(4) mset_eq_setD [OF view] by auto
  then have "\<forall>x \<in> set (map view (ok_items s3)). \<exists>c < ?k. at_channel c x" using E' by auto
  ultimately show ?thesis
    using outs(2,3) by (intro exI [of _ outs] exI [of _ "map view (ok_items s3)"]) (simp add: view_def comp_def)
qed

subsection \<open>Theorems\<close>

text \<open>
  C3: reliable ordered delivery, end to end.  When a sequence of reliable ordered messages, on any channels and
  split or not, goes through the fragmentation sink, and the receiver gets the resulting frames in any
  order, in any grouping into frame sets, each any number of times and at least once, then the decoder
  never fails, reports no error, and delivers on every channel exactly the data of the messages
  sent on it, in the order they were sent, each once.  The number of polls only has to suffice for each layer
  to work off its input.

  The messages are \<open>transmissible\<close>: their channels exist, their data is not empty and does not start with the id of a
  control message, which the decoder would take it for, none has more parts than the receiver takes, no more messages are
  split in the whole sequence than the receiver can have in progress, and the 24-bit indices suffice.
\<close>

theorem end_to_end_delivery:
  fixes s0 :: 's
  assumes "lru_laws A ok" and "0 < max_parted_count config" and "0 < config_max_channels config" and "config_max_channels config < 256"
    and "transmissible config (fragmented s0 mtu (config_max_channels config)) ms"
    and "send_messages (fragmented s0 mtu (config_max_channels config)) ms = (Ok st1 :: (io_error, _) outcome)"
    and "set (received_frames s) = set (map snd (fr_buf st1))"
    and "length s \<le> n1" and "n1 \<le> n2" and "n2 + length ms \<le> n3" and "n3 + length ms \<le> n4" and "n4 \<le> n5"
  shows "\<exists>outs xs. frame_decoded B A config (n1, n2, n3, n4, n5) s = (Ok outs :: (codec_error, _) outcome)
     \<and> ok_items outs = map (\<lambda>x. User (fst x)) xs \<and> err_items outs = []
     \<and> (\<forall>c < config_max_channels config. map fst (filter (at_channel c) xs) = map msg_data (filter (of_channel c) ms))
     \<and> (\<forall>x \<in> set xs. \<exists>c < config_max_channels config. at_channel c x)"
proof -
  let ?st = "fragmented s0 mtu (config_max_channels config)"
  obtain st' where "send_messages ?st ms = (Ok st' :: (io_error, _) outcome)" "map snd (fr_buf st') = map snd (fr_buf ?st) @ all_frames ?st ms"
    using send_messages_ok [of ?st ms, where 'e = io_error] assms(5) by (auto simp: transmissible_def)
  then have "map snd (fr_buf st1) = all_frames ?st ms" using assms(6) by (simp add: fragmented_def)
  then show ?thesis
    using deliver_all [OF assms(1-5) _ assms(8-12), where 'e = codec_error] assms(7) by simp
qed

definition sample_messages :: "message list" where
  "sample_messages = [message_new (map word_of_nat [100..<140]), message_new [200, 201]]"

definition sample_sent :: "unit fragmenter" where
  "sample_sent = (let st = fragmented () 40 1 in sent (sent st (sample_messages ! 0)) (sample_messages ! 1))"

text \<open>All frames twice, the second message first.\<close>

definition sample_network :: "frame_set script" where
  "sample_network = [Ready (Some \<lparr> fs_seq_num = u24_of 0, fs_set = rev (map snd (fr_buf sample_sent)) \<rparr>),
     Ready (Some \<lparr> fs_seq_num = u24_of 1, fs_set = map snd (fr_buf sample_sent) \<rparr>)]"

lemma sample_transmissible:
  "transmissible codec_config_default (fragmented s 40 (config_max_channels codec_config_default)) sample_messages"
  "length (all_frames (fragmented s 40 (config_max_channels codec_config_default)) sample_messages) = 4"
proof -
  let ?st = "fragmented s 40 1"
  define m0 m1 where "m0 = message_new (map word_of_nat [100..<140])" and "m1 = message_new [200, 201]"
  have ms: "sample_messages = [m0, m1]" by (simp add: sample_messages_def m0_def m1_def)
  have m: "msg_reliability m0 = ReliableOrdered" "msg_order_channel m0 = 0" "length (msg_data m0) = 40" "hd (msg_data m0) = 100"
    "msg_reliability m1 = ReliableOrdered" "msg_order_channel m1 = 0" "msg_data m1 = [200, 201]"
    by (simp_all add: m0_def m1_def message_new_def upt_conv_Cons)
  have 0: "needs_split ?st m0" "part_len ?st m0 = 16" "part_count ?st m0 = 3" "length (msg_frames ?st m0) = 3"
    by (simp_all add: fragmented_def needs_split_def part_len_def part_count_def msg_frames_def m reliability_size_def)
  have 1: "fr_mtu (sent ?st m0) = 40" "\<not> needs_split (sent ?st m0) m1" "length (msg_frames (sent ?st m0) m1) = 1"
    "to_usize (reliable_write_index (sent ?st m0)) = 3" "order_write_index (sent ?st m0) = [u24_of 1]" "part_count (sent ?st m0) m1 = 1"
    using 0 by (simp_all add: sent_def fragmented_def needs_split_def part_len_def part_count_def msg_frames_def m reliability_size_def Let_def)
  have send: "sendable ?st m0" "sendable (sent ?st m0) m1"
    using 0 1 by (simp_all add: sendable_def m fragmented_def)
  have 2: "to_usize (reliable_write_index (sent (sent ?st m0) m1)) < 2 ^ 24"
    using 1 by (simp add: sent_def m)
  have d: "msg_data m0 \<noteq> []" using m(3) by force
  show "transmissible codec_config_default (fragmented s 40 (config_max_channels codec_config_default)) sample_messages"
    using 0 1 2 send m d by (simp add: transmissible_def codec_config_default_def ms reserved_ids_def)
  show "length (all_frames (fragmented s 40 (config_max_channels codec_config_default)) sample_messages) = 4"
    using 0(4) 1(3) by (simp add: codec_config_default_def ms)
qed

lemma sample_transmission:
  "transmissible codec_config_default (fragmented () 40 (config_max_channels codec_config_default)) sample_messages"
  "send_messages (fragmented () 40 (config_max_channels codec_config_default)) sample_messages = (Ok sample_sent :: (io_error, _) outcome)"
  "set (received_frames sample_network) = set (map snd (fr_buf sample_sent))"
  "length sample_network \<le> 2" "length sample_messages = 2"
proof -
  let ?st = "fragmented () 40 1 :: unit fragmenter" and ?m0 = "sample_messages ! 0" and ?m1 = "sample_messages ! 1"
  have ms: "sample_messages = [?m0, ?m1]" by (simp add: sample_messages_def)
  show t: "transmissible codec_config_default (fragmented () 40 (config_max_channels codec_config_default)) sample_messages"
    by (rule sample_transmissible)
  have "sendable_all ?st [?m0, ?m1]" using t unfolding transmissible_def ms [symmetric] by (simp add: codec_config_default_def)
  then have send: "sendable ?st ?m0" "sendable (sent ?st ?m0) ?m1" by simp_all
  have "send_messages ?st [?m0, ?m1] = (Ok sample_sent :: (io_error, _) outcome)"
    using start_send_correct [OF send(1), where ?'b = io_error] start_send_correct [OF send(2), where ?'b = io_error]
    by (simp add: sample_sent_def Let_def del: nth_Cons_0 nth_Cons_numeral)
  then show "send_messages (fragmented () 40 (config_max_channels codec_config_default)) sample_messages = (Ok sample_sent :: (io_error, _) outcome)"
    unfolding ms [symmetric] by (simp add: codec_config_default_def)
  show "set (received_frames sample_network) = set (map snd (fr_buf sample_sent))"
    by (simp add: sample_network_def received_frames_def)
  show "length sample_network \<le> 2" "length sample_messages = 2" by (simp_all add: sample_network_def sample_messages_def)
qed

lemma sample_single_channel:
  assumes "\<forall>c < 1. map fst (filter (at_channel c) xs) = map msg_data (filter (of_channel c) sample_messages)" and "\<forall>x \<in> set xs. \<exists>c < 1. at_channel c x"
  shows "map fst xs = [map word_of_nat [100..<140], [200, 201]]"
proof -
  have "filter (at_channel 0) xs = xs" using assms(2) by (simp add: filter_id_conv)
  then show ?thesis using assms(1) by (simp add: sample_messages_def of_channel_def message_new_def)
qed

theorem end_to_end_delivery_witness:
  "\<exists>outs. frame_decoded std_bytes list_lru codec_config_default (2, 2, 4, 6, 6) sample_network = (Ok outs :: (codec_error, _) outcome)
     \<and> ok_items outs = [User (map word_of_nat [100..<140]), User [200, 201]] \<and> err_items outs = []"
proof -
  obtain outs xs where o: "frame_decoded std_bytes list_lru codec_config_default (2, 2, 4, 6, 6) sample_network = (Ok outs :: (codec_error, _) outcome)"
    "ok_items outs = map (\<lambda>x. User (fst x)) xs" "err_items outs = []"
    "\<forall>c < 1. map fst (filter (at_channel c) xs) = map msg_data (filter (of_channel c) sample_messages)" "\<forall>x \<in> set xs. \<exists>c < 1. at_channel c x"
    using end_to_end_delivery [OF list_lru.lru_laws_axioms _ _ _ sample_transmission(1-4), of 2 4 6 6 std_bytes] sample_transmission(5)
    by (auto simp: codec_config_default_def)
  have "map (\<lambda>x. User (fst x)) xs = map User [map word_of_nat [100..<140], [200, 201]]"
    unfolding sample_single_channel [OF o(4,5), symmetric] by simp
  then show ?thesis using o(1-3) by (intro exI [of _ outs]) simp
qed

end
