(* ===== verification/Send_Buffer.thy ===== *)
theory Send_Buffer
  imports Frame_Set
begin

text \<open>
  The priority buffer of outgoing frames, \<open>SendBuffer\<close> of \<open>src/src/reliable.rs\<close>.  A binary heap ordered
  by reversed penalty is the list of its elements sorted by penalty: its head is what \<open>peek\<close> shows.
  The order among equal penalties, which the heap leaves open, is not relied on by any statement.
\<close>

subsection \<open>State and operations\<close>

record penalty_frame =
  pf_penalty :: u8
  pf_frame :: frame

definition heap_insert :: "penalty_frame \<Rightarrow> penalty_frame list \<Rightarrow> penalty_frame list" where
  "heap_insert p h = insort_key pf_penalty p h"

record send_buffer =
  send_high :: "penalty_frame list"
  send_medium :: "frame list"
  send_low :: "penalty_frame list"
  resend :: "penalty_frame list"

definition send_buffer_new :: send_buffer where
  "send_buffer_new = \<lparr> send_high = [], send_medium = [], send_low = [], resend = [] \<rparr>"

fun buffer_send :: "send_buffer \<Rightarrow> priority \<times> frame \<Rightarrow> send_buffer" where
  "buffer_send b (High penalty, f) = b\<lparr>send_high := heap_insert \<lparr> pf_penalty = penalty, pf_frame = f \<rparr> (send_high b)\<rparr>"
| "buffer_send b (Medium, f) = b\<lparr>send_medium := send_medium b @ [f]\<rparr>"
| "buffer_send b (Low penalty, f) = b\<lparr>send_low := heap_insert \<lparr> pf_penalty = penalty, pf_frame = f \<rparr> (send_low b)\<rparr>"

text \<open>\<open>cmp::max(frame.penalty, 1).saturating_mul(2)\<close>.\<close>

definition saturating_mul_u8 :: "u8 \<Rightarrow> u8 \<Rightarrow> u8" where
  "saturating_mul_u8 a b = (if unat a * unat b < 256 then a * b else 255)"

definition backoff :: "u8 \<Rightarrow> u8" where
  "backoff p = saturating_mul_u8 (max p 1) 2"

definition buffer_resend :: "send_buffer \<Rightarrow> penalty_frame list \<Rightarrow> send_buffer" where
  "buffer_resend b frames =
     b\<lparr>resend := foldl (\<lambda>h p. heap_insert (p\<lparr>pf_penalty := backoff (pf_penalty p)\<rparr>) h) (resend b) frames\<rparr>"

text \<open>
  The four loops of \<open>pop\<close>.  Each takes frames from the front of its queue while they fit what remains of
  the datagram, with the variables \<open>remain\<close>, \<open>reliable\<close>, \<open>penalty_sum\<close> and \<open>frames\<close> passed along.
\<close>

type_synonym pop_vars = "nat \<times> bool \<times> nat \<times> frame list"

definition take_frame :: "(nat \<Rightarrow> nat) \<Rightarrow> frame \<Rightarrow> pop_vars \<Rightarrow> pop_vars" where
  "take_frame upd f = (\<lambda>(remain, reliable, penalty_sum, frames).
     (remain - frame_size f, if is_reliable (reliability (f_flags f)) then True else reliable, upd penalty_sum, frames @ [f]))"

fun pop_resend :: "penalty_frame list \<Rightarrow> pop_vars \<Rightarrow> penalty_frame list \<times> pop_vars" where
  "pop_resend [] v = ([], v)"
| "pop_resend (p # h) v =
     (if frame_size (pf_frame p) \<le> fst v then pop_resend h (take_frame (\<lambda>s. s + unat (pf_penalty p)) (pf_frame p) v)
      else (p # h, v))"

fun pop_heap :: "penalty_frame list \<Rightarrow> pop_vars \<Rightarrow> penalty_frame list \<times> pop_vars" where
  "pop_heap [] v = ([], v)"
| "pop_heap (p # h) v =
     (if frame_size (pf_frame p) \<le> fst v then pop_heap h (take_frame (\<lambda>_. 0) (pf_frame p) v) else (p # h, v))"

fun pop_queue :: "frame list \<Rightarrow> pop_vars \<Rightarrow> frame list \<times> pop_vars" where
  "pop_queue [] v = ([], v)"
| "pop_queue (f # q) v = (if frame_size f \<le> fst v then pop_queue q (take_frame (\<lambda>_. 0) f v) else (f # q, v))"

definition buffer_len :: "send_buffer \<Rightarrow> nat" where
  "buffer_len b = length (send_high b) + length (send_medium b) + length (send_low b) + length (resend b)"

definition buffer_is_empty :: "send_buffer \<Rightarrow> bool" where
  "buffer_is_empty b \<longleftrightarrow> buffer_len b = 0"

text \<open>The result: the buffer left, and the final values of \<open>reliable\<close>, \<open>penalty\<close> and \<open>frames\<close>.\<close>

definition buffer_pop :: "nat \<Rightarrow> bool \<Rightarrow> frame list \<Rightarrow> send_buffer \<Rightarrow> ('e, send_buffer \<times> bool \<times> u8 \<times> frame list) outcome" where
  "buffer_pop mtu reliable frames b =
     and_then (usub mtu FRAME_SET_HEADER_SIZE) (\<lambda>remain.
       let (rs, v) = pop_resend (resend b) (remain, reliable, 0, frames);
           (hi, v) = pop_heap (send_high b) v;
           (md, v) = pop_queue (send_medium b) v;
           (lo, v) = pop_heap (send_low b) v;
           b = \<lparr> send_high = hi, send_medium = md, send_low = lo, resend = rs \<rparr>;
           (remain, reliable, penalty_sum, frames) = v
       in if \<not> (buffer_is_empty b \<or> frames \<noteq> []) then Panic
          else if frames = [] then Ok (b, reliable, 0, frames)
          else Ok (b, reliable, word_of_nat (penalty_sum div length frames), frames))"

subsection \<open>What is taken\<close>

definition frames_size :: "frame list \<Rightarrow> nat" where
  "frames_size fs = sum_list (map frame_size fs)"

text \<open>The frames of a buffer in the order in which \<open>pop\<close> looks at them, and as a multiset.\<close>

definition buffered :: "send_buffer \<Rightarrow> frame multiset" where
  "buffered b = mset (map pf_frame (resend b) @ map pf_frame (send_high b) @ send_medium b @ map pf_frame (send_low b))"

definition buffer_sorted :: "send_buffer \<Rightarrow> bool" where
  "buffer_sorted b \<longleftrightarrow> sorted (map pf_penalty (resend b)) \<and> sorted (map pf_penalty (send_high b)) \<and> sorted (map pf_penalty (send_low b))"

text \<open>What a loop does: it takes a prefix that fits, and stops only before a frame that does not.\<close>

definition taken :: "frame list \<Rightarrow> frame list \<Rightarrow> frame list \<Rightarrow> pop_vars \<Rightarrow> pop_vars \<Rightarrow> bool" where
  "taken fs pre suf v w \<longleftrightarrow> fs = pre @ suf \<and> frames_size pre \<le> fst v \<and> fst w = fst v - frames_size pre
     \<and> fst (snd w) = (fst (snd v) \<or> (\<exists>f \<in> set pre. is_reliable (reliability (f_flags f))))
     \<and> snd (snd (snd w)) = snd (snd (snd v)) @ pre \<and> (suf \<noteq> [] \<longrightarrow> fst w < frame_size (hd suf))"

lemma taken_Nil: "taken [] [] [] v v"
  by (simp add: taken_def frames_size_def)

lemma taken_stop: "fst v < frame_size f \<Longrightarrow> taken (f # fs) [] (f # fs) v v"
  by (simp add: taken_def frames_size_def)

lemma taken_step:
  assumes "frame_size f \<le> fst v" and "taken fs pre suf (take_frame upd f v) w"
  shows "taken (f # fs) (f # pre) suf v w"
  using assms by (cases v) (auto simp: taken_def take_frame_def frames_size_def)

lemma pop_queue_taken: "pop_queue q v = (q', w) \<Longrightarrow> \<exists>pre. taken q pre q' v w"
proof (induction q v rule: pop_queue.induct)
  case (2 f q v)
  show ?case
  proof (cases "frame_size f \<le> fst v")
    case True
    then obtain pre where "taken q pre q' (take_frame (\<lambda>_. 0) f v) w" using 2 by auto
    then show ?thesis using taken_step [OF True] by blast
  next
    case False
    then show ?thesis using taken_stop [of v f q] 2 by auto
  qed
qed (auto intro: exI [of _ "[]"] taken_Nil)

lemma pop_heap_taken: "pop_heap h v = (h', w) \<Longrightarrow> \<exists>k pre. h' = drop k h \<and> taken (map pf_frame h) pre (map pf_frame h') v w"
proof (induction h v rule: pop_heap.induct)
  case (2 p h v)
  show ?case
  proof (cases "frame_size (pf_frame p) \<le> fst v")
    case True
    then obtain k pre where "h' = drop k h" "taken (map pf_frame h) pre (map pf_frame h') (take_frame (\<lambda>_. 0) (pf_frame p) v) w"
      using 2 by auto
    then show ?thesis using taken_step [OF True]
      by - (rule exI [of _ "Suc k"], rule exI [of _ "pf_frame p # pre"], simp)
  next
    case False
    then show ?thesis using taken_stop [of v "pf_frame p" "map pf_frame h"] 2
      by - (rule exI [of _ 0], rule exI [of _ "[]"], auto)
  qed
qed (auto intro: exI [of _ "[]"] taken_Nil)

lemma pop_resend_taken: "pop_resend h v = (h', w) \<Longrightarrow> \<exists>k pre. h' = drop k h \<and> taken (map pf_frame h) pre (map pf_frame h') v w"
proof (induction h v rule: pop_resend.induct)
  case (2 p h v)
  show ?case
  proof (cases "frame_size (pf_frame p) \<le> fst v")
    case True
    then obtain k pre where "h' = drop k h"
      "taken (map pf_frame h) pre (map pf_frame h') (take_frame (\<lambda>s. s + unat (pf_penalty p)) (pf_frame p) v) w"
      using 2 by auto
    then show ?thesis using taken_step [OF True]
      by - (rule exI [of _ "Suc k"], rule exI [of _ "pf_frame p # pre"], simp)
  next
    case False
    then show ?thesis using taken_stop [of v "pf_frame p" "map pf_frame h"] 2
      by - (rule exI [of _ 0], rule exI [of _ "[]"], auto)
  qed
qed (auto intro: exI [of _ "[]"] taken_Nil)

text \<open>
  The specification of \<open>pop\<close>: from each queue a prefix, retransmissions first; the datagram fits the MTU and
  is full, in that the next frame of no queue would still fit; no frame is lost or invented.
\<close>

definition heads :: "send_buffer \<Rightarrow> frame list" where
  "heads b = take 1 (map pf_frame (resend b)) @ take 1 (map pf_frame (send_high b)) @ take 1 (send_medium b)
     @ take 1 (map pf_frame (send_low b))"

definition pop_spec :: "nat \<Rightarrow> send_buffer \<Rightarrow> send_buffer \<Rightarrow> bool \<Rightarrow> frame list \<Rightarrow> bool" where
  "pop_spec mtu b b' reliable frames \<longleftrightarrow>
     (\<exists>rs hi md lo. frames = rs @ hi @ md @ lo
        \<and> map pf_frame (resend b) = rs @ map pf_frame (resend b') \<and> map pf_frame (send_high b) = hi @ map pf_frame (send_high b')
        \<and> send_medium b = md @ send_medium b' \<and> map pf_frame (send_low b) = lo @ map pf_frame (send_low b'))
     \<and> FRAME_SET_HEADER_SIZE + frames_size frames \<le> mtu
     \<and> (\<forall>f \<in> set (heads b'). mtu < FRAME_SET_HEADER_SIZE + frames_size frames + frame_size f)
     \<and> (reliable \<longleftrightarrow> (\<exists>f \<in> set frames. is_reliable (reliability (f_flags f))))
     \<and> buffered b = mset frames + buffered b'
     \<and> (buffer_sorted b \<longrightarrow> buffer_sorted b')"

lemma frames_size_simps [simp]:
  "frames_size [] = 0" "frames_size (f # fs) = frame_size f + frames_size fs" "frames_size (fs @ gs) = frames_size fs + frames_size gs"
  by (simp_all add: frames_size_def)

lemma sorted_drop_map: "sorted (map k xs) \<Longrightarrow> sorted (map k (drop n xs))"
  by (simp add: drop_map [symmetric] sorted_wrt_drop)

lemma head_member: "f \<in> set (take 1 xs) \<Longrightarrow> xs \<noteq> [] \<and> f = hd xs"
  by (cases xs) auto

lemma taken_head: "taken fs pre suf v w \<Longrightarrow> f \<in> set (take 1 suf) \<Longrightarrow> fst w < frame_size f"
  using head_member [of f suf] unfolding taken_def by blast

lemma taken_rel:
  "taken fs pre suf v w \<Longrightarrow> fst (snd w) \<longleftrightarrow> fst (snd v) \<or> (\<exists>f \<in> set pre. is_reliable (reliability (f_flags f)))"
  unfolding taken_def by (elim conjE)

lemma taken_le: "taken fs pre suf v w \<Longrightarrow> fst w \<le> fst v"
  by (simp add: taken_def)

lemma buffer_pop_cases:
  assumes "FRAME_SET_HEADER_SIZE \<le> mtu"
  obtains (panic) b' reliable frames where "(buffer_pop mtu False [] b :: ('e, _) outcome) = Panic"
      "pop_spec mtu b b' reliable frames" "frames = []" "\<not> buffer_is_empty b'"
    | (result) b' reliable penalty frames where "(buffer_pop mtu False [] b :: ('e, _) outcome) = Ok (b', reliable, penalty, frames)"
      "pop_spec mtu b b' reliable frames" "frames \<noteq> [] \<or> buffer_is_empty b'"
proof -
  let ?v = "(mtu - FRAME_SET_HEADER_SIZE, False, 0 :: nat, [] :: frame list)"
  obtain rs v1 where 1: "pop_resend (resend b) ?v = (rs, v1)" by (rule prod.exhaust)
  obtain hi v2 where 2: "pop_heap (send_high b) v1 = (hi, v2)" by (rule prod.exhaust)
  obtain md v3 where 3: "pop_queue (send_medium b) v2 = (md, v3)" by (rule prod.exhaust)
  obtain lo remain reliable psum frames where 4: "pop_heap (send_low b) v3 = (lo, remain, reliable, psum, frames)"
    by (metis prod_cases5)
  obtain k1 p1 where t1: "rs = drop k1 (resend b)" "taken (map pf_frame (resend b)) p1 (map pf_frame rs) ?v v1"
    using pop_resend_taken [OF 1] by blast
  obtain k2 p2 where t2: "hi = drop k2 (send_high b)" "taken (map pf_frame (send_high b)) p2 (map pf_frame hi) v1 v2"
    using pop_heap_taken [OF 2] by blast
  obtain p3 where t3: "taken (send_medium b) p3 md v2 v3" using pop_queue_taken [OF 3] by blast
  obtain k4 p4 where t4: "lo = drop k4 (send_low b)" "taken (map pf_frame (send_low b)) p4 (map pf_frame lo) v3 (remain, reliable, psum, frames)"
    using pop_heap_taken [OF 4] by blast
  let ?b = "\<lparr> send_high = hi, send_medium = md, send_low = lo, resend = rs \<rparr>"
  have frames: "frames = p1 @ p2 @ p3 @ p4" using t1(2) t2(2) t3 t4(2) by (simp add: taken_def)
  have parts: "map pf_frame (resend b) = p1 @ map pf_frame rs" "map pf_frame (send_high b) = p2 @ map pf_frame hi"
    "send_medium b = p3 @ md" "map pf_frame (send_low b) = p4 @ map pf_frame lo"
    using t1(2) t2(2) t3 t4(2) by (simp_all add: taken_def)
  have remain: "frames_size frames \<le> mtu - FRAME_SET_HEADER_SIZE" "remain = mtu - FRAME_SET_HEADER_SIZE - frames_size frames"
  proof -
    have "frames_size p1 \<le> mtu - FRAME_SET_HEADER_SIZE" "fst v1 = mtu - FRAME_SET_HEADER_SIZE - frames_size p1"
      using t1(2) unfolding taken_def fst_conv by blast+
    moreover have "frames_size p2 \<le> fst v1" "fst v2 = fst v1 - frames_size p2" using t2(2) unfolding taken_def by blast+
    moreover have "frames_size p3 \<le> fst v2" "fst v3 = fst v2 - frames_size p3" using t3 unfolding taken_def by blast+
    moreover have "frames_size p4 \<le> fst v3" "remain = fst v3 - frames_size p4" using t4(2) unfolding taken_def fst_conv by blast+
    moreover have "frames_size frames = frames_size p1 + frames_size p2 + frames_size p3 + frames_size p4" by (simp add: frames)
    ultimately show "frames_size frames \<le> mtu - FRAME_SET_HEADER_SIZE" "remain = mtu - FRAME_SET_HEADER_SIZE - frames_size frames"
      by linarith+
  qed
  have "remain < frame_size f" if "f \<in> set (heads ?b)" for f
  proof -
    have "remain \<le> fst v3" "fst v3 \<le> fst v2" "fst v2 \<le> fst v1"
      using taken_le [OF t4(2)] taken_le [OF t3] taken_le [OF t2(2)] by simp_all
    moreover have "fst v1 < frame_size f \<or> fst v2 < frame_size f \<or> fst v3 < frame_size f \<or> remain < frame_size f"
      using that taken_head [OF t1(2)] taken_head [OF t2(2)] taken_head [OF t3] taken_head [OF t4(2)]
      unfolding heads_def set_append by (auto simp del: One_nat_def)
    ultimately show ?thesis by linarith
  qed
  then have full: "\<forall>f \<in> set (heads ?b). mtu < FRAME_SET_HEADER_SIZE + frames_size frames + frame_size f"
    unfolding remain(2) by (intro ballI) (drule meta_spec, drule (1) meta_mp, linarith)
  have rel: "reliable \<longleftrightarrow> (\<exists>f \<in> set frames. is_reliable (reliability (f_flags f)))"
    using taken_rel [OF t1(2)] taken_rel [OF t2(2)] taken_rel [OF t3] taken_rel [OF t4(2)]
    unfolding frames set_append bex_Un fst_conv snd_conv by argo
  have spec: "pop_spec mtu b ?b reliable frames"
    unfolding pop_spec_def
  proof (intro conjI)
    show "\<exists>rs hi md lo. frames = rs @ hi @ md @ lo \<and> map pf_frame (resend b) = rs @ map pf_frame (resend ?b)
        \<and> map pf_frame (send_high b) = hi @ map pf_frame (send_high ?b) \<and> send_medium b = md @ send_medium ?b
        \<and> map pf_frame (send_low b) = lo @ map pf_frame (send_low ?b)"
      by (rule exI [of _ p1], rule exI [of _ p2], rule exI [of _ p3], rule exI [of _ p4]) (simp add: frames parts)
    show "FRAME_SET_HEADER_SIZE + frames_size frames \<le> mtu" using remain(1) assms by simp
    show "buffered b = mset frames + buffered ?b" by (simp add: buffered_def frames parts del: mset_map)
    show "buffer_sorted b \<longrightarrow> buffer_sorted ?b" by (simp add: buffer_sorted_def t1(1) t2(1) t4(1) sorted_drop_map)
  qed (use full rel in simp_all)
  have run: "(buffer_pop mtu False [] b :: ('e, _) outcome) = (if \<not> (buffer_is_empty ?b \<or> frames \<noteq> []) then Panic
      else if frames = [] then Ok (?b, reliable, 0, frames) else Ok (?b, reliable, word_of_nat (psum div length frames), frames))"
    using assms 1 2 3 4 by (simp add: buffer_pop_def)
  show thesis
  proof (cases "frames = [] \<and> \<not> buffer_is_empty ?b")
    case True
    then show thesis using panic [OF _ spec] run by simp
  next
    case False
    then show thesis using result [OF _ spec] run by (cases "frames = []") auto
  qed
qed

definition fits :: "nat \<Rightarrow> frame multiset \<Rightarrow> bool" where
  "fits mtu M \<longleftrightarrow> FRAME_SET_HEADER_SIZE \<le> mtu \<and> (\<forall>f \<in># M. FRAME_SET_HEADER_SIZE + frame_size f \<le> mtu)"

lemma heads_buffered: "f \<in> set (heads b) \<Longrightarrow> f \<in># buffered b"
  unfolding heads_def buffered_def by (auto dest!: in_set_takeD simp del: One_nat_def)

lemma heads_nonempty: "\<not> buffer_is_empty b \<Longrightarrow> heads b \<noteq> []"
  by (auto simp: buffer_is_empty_def buffer_len_def heads_def)

lemma buffer_empty_iff: "buffer_is_empty b \<longleftrightarrow> buffered b = {#}"
  by (auto simp: buffer_is_empty_def buffer_len_def buffered_def)

lemma size_buffered: "size (buffered b) = buffer_len b"
  by (simp add: buffered_def buffer_len_def)

lemma buffer_pop_ok:
  assumes "fits mtu (buffered b)"
  obtains b' reliable penalty frames where "(buffer_pop mtu False [] b :: ('e, _) outcome) = Ok (b', reliable, penalty, frames)"
    and "pop_spec mtu b b' reliable frames" and "frames = [] \<longleftrightarrow> buffer_is_empty b"
proof (rule buffer_pop_cases [where 'e = 'e and mtu = mtu and b = b])
  show "FRAME_SET_HEADER_SIZE \<le> mtu" using assms by (simp add: fits_def)
next
  fix b' reliable and frames :: "frame list"
  assume *: "pop_spec mtu b b' reliable frames" "frames = []" "\<not> buffer_is_empty b'"
  obtain f where f: "f \<in> set (heads b')" using heads_nonempty [OF *(3)] by (cases "heads b'") auto
  have "mtu < FRAME_SET_HEADER_SIZE + frames_size frames + frame_size f" using *(1) f unfolding pop_spec_def by blast
  moreover have "f \<in># buffered b" using heads_buffered [OF f] *(1) unfolding pop_spec_def by simp
  ultimately show thesis using assms *(2) unfolding fits_def by fastforce
next
  fix b' reliable penalty frames
  assume run: "(buffer_pop mtu False [] b :: ('e, _) outcome) = Ok (b', reliable, penalty, frames)"
    and spec: "pop_spec mtu b b' reliable frames" and ne: "frames \<noteq> [] \<or> buffer_is_empty b'"
  have "buffered b = mset frames + buffered b'" using spec unfolding pop_spec_def by blast
  then have "frames = [] \<longleftrightarrow> buffer_is_empty b" using ne by (auto simp: buffer_empty_iff)
  then show thesis by (rule that [OF run spec])
qed

text \<open>Adding frames.\<close>

lemma buffer_send_buffered [simp]: "buffered (buffer_send b (p, f)) = add_mset f (buffered b)"
  by (cases p) (simp_all add: buffered_def heap_insert_def)

lemma buffer_send_sorted: "buffer_sorted b \<Longrightarrow> buffer_sorted (buffer_send b (p, f))"
  by (cases p) (simp_all add: buffer_sorted_def heap_insert_def sorted_insort_key)

lemma heap_fold:
  "image_mset pf_frame (mset (foldl (\<lambda>h p. heap_insert (p\<lparr>pf_penalty := backoff (pf_penalty p)\<rparr>) h) h ps))
     = image_mset pf_frame (mset h) + mset (map pf_frame ps)"
  "sorted (map pf_penalty h) \<Longrightarrow>
     sorted (map pf_penalty (foldl (\<lambda>h p. heap_insert (p\<lparr>pf_penalty := backoff (pf_penalty p)\<rparr>) h) h ps))"
  by (induction ps arbitrary: h) (simp_all add: heap_insert_def sorted_insort_key)

lemma buffer_resend_buffered [simp]: "buffered (buffer_resend b ps) = buffered b + mset (map pf_frame ps)"
  by (simp add: buffered_def buffer_resend_def heap_fold(1))

lemma buffer_resend_sorted: "buffer_sorted b \<Longrightarrow> buffer_sorted (buffer_resend b ps)"
  by (simp add: buffer_sorted_def buffer_resend_def heap_fold(2))

lemma backoff_bounds: "2 \<le> backoff p" "p < 128 \<Longrightarrow> 0 < p \<Longrightarrow> backoff p = 2 * p" "128 \<le> p \<Longrightarrow> backoff p = 255"
proof -
  have m: "unat (max p 1) = max (unat p) 1" by (simp add: max_def word_le_nat_alt)
  show "2 \<le> backoff p"
  proof (cases "unat p < 128")
    case True
    then have "unat (backoff p) = 2 * max (unat p) 1"
      using m by (simp add: backoff_def saturating_mul_u8_def unat_word_ariths)
    then show ?thesis by (simp add: word_le_nat_alt)
  next
    case False
    then show ?thesis using m by (simp add: backoff_def saturating_mul_u8_def)
  qed
  show "backoff p = 2 * p" if "p < 128" "0 < p"
  proof -
    have "1 \<le> p" "unat p < 128" using that by (simp_all add: word_le_nat_alt word_less_nat_alt Suc_leI)
    then show ?thesis by (simp add: backoff_def saturating_mul_u8_def max_absorb1 mult.commute)
  qed
  show "backoff p = 255" if "128 \<le> p"
    using that m by (simp add: backoff_def saturating_mul_u8_def word_le_nat_alt)
qed

subsection \<open>Properties\<close>

text \<open>
  C21: filling a datagram.  When every buffered frame fits a datagram of the MTU on its own, \<open>pop\<close> never
  panics and takes retransmissions first, then frames of high, medium and low priority, from each queue a
  prefix in penalty order; the frames taken fit the MTU together with the header, the next frame of no
  queue would still fit, no frame is lost, duplicated or invented, the datagram is marked reliable exactly
  when one of its frames is, and it is empty only when the buffer is.
\<close>

theorem pop_fills_datagram:
  assumes "fits mtu (buffered b)" and "buffer_sorted b"
  shows "\<exists>b' reliable penalty frames. buffer_pop mtu False [] b = (Ok (b', reliable, penalty, frames) :: (io_error, _) outcome)
     \<and> (\<exists>rs hi md lo. frames = rs @ hi @ md @ lo
          \<and> map pf_frame (resend b) = rs @ map pf_frame (resend b') \<and> map pf_frame (send_high b) = hi @ map pf_frame (send_high b')
          \<and> send_medium b = md @ send_medium b' \<and> map pf_frame (send_low b) = lo @ map pf_frame (send_low b'))
     \<and> FRAME_SET_HEADER_SIZE + frames_size frames \<le> mtu
     \<and> (\<forall>f \<in> set (heads b'). mtu < FRAME_SET_HEADER_SIZE + frames_size frames + frame_size f)
     \<and> (reliable \<longleftrightarrow> (\<exists>f \<in> set frames. is_reliable (reliability (f_flags f))))
     \<and> buffered b = mset frames + buffered b' \<and> buffer_sorted b'
     \<and> (frames = [] \<longleftrightarrow> buffer_is_empty b)"
proof (rule buffer_pop_ok [OF assms(1), where 'e = io_error])
  fix b' reliable penalty frames
  assume "buffer_pop mtu False [] b = (Ok (b', reliable, penalty, frames) :: (io_error, _) outcome)"
    "pop_spec mtu b b' reliable frames" "frames = [] \<longleftrightarrow> buffer_is_empty b"
  then show ?thesis
    using assms(2) unfolding pop_spec_def
    by - (rule exI [of _ b'], rule exI [of _ reliable], rule exI [of _ penalty], rule exI [of _ frames], blast)
qed

definition plain_frame :: "reliability \<Rightarrow> nat \<Rightarrow> frame" where
  "plain_frame r n = \<lparr> f_flags = flags_new r False, reliable_frame_index = None, seq_frame_index = None, f_ordered = None,
     f_fragment = None, f_body = replicate n 0 \<rparr>"

definition sample_buffer :: send_buffer where
  "sample_buffer = buffer_send (buffer_send (buffer_send send_buffer_new (Low 1, plain_frame Unreliable 5))
     (Medium, plain_frame Reliable 10)) (High 3, plain_frame Unreliable 20)"

theorem pop_fills_datagram_witness:
  "\<exists>b' reliable penalty frames. buffer_pop 45 False [] sample_buffer = (Ok (b', reliable, penalty, frames) :: (io_error, _) outcome)
     \<and> 4 + frames_size frames \<le> 45 \<and> buffered sample_buffer = mset frames + buffered b'"
proof -
  have "fits 45 (buffered sample_buffer)"
    by (simp add: fits_def sample_buffer_def plain_frame_def buffered_def send_buffer_new_def frame_size_def FRAME_SET_HEADER_SIZE_def
        reliability_size_def flags_new_def Let_def heap_insert_def)
  moreover have "buffer_sorted sample_buffer"
    by (simp add: buffer_sorted_def sample_buffer_def send_buffer_new_def heap_insert_def)
  ultimately show ?thesis
    using pop_fills_datagram [of 45 sample_buffer] unfolding FRAME_SET_HEADER_SIZE_def by blast
qed

end
