(* ===== verification/Flush_Strategy.thy ===== *)
theory Flush_Strategy
  imports Link Send_Buffer Sinks
begin

text \<open>
  The flush strategies of \<open>src/src/opts.rs\<close>: three counters, each switched off by the value \<open>-1\<close>, that
  steer what a flush sends and report how much it sent; and the wrapper that gives access to the peer of
  a connection.
\<close>

subsection \<open>Strategies\<close>

record flush_strategy =
  ack_tag :: int
  nack_tag :: int
  pack_tag :: int

definition strategy_default :: flush_strategy where
  "strategy_default = \<lparr> ack_tag = 0, nack_tag = 0, pack_tag = 0 \<rparr>"

definition strategy_new :: "bool \<Rightarrow> bool \<Rightarrow> bool \<Rightarrow> flush_strategy" where
  "strategy_new ack nack pack = \<lparr> ack_tag = (if ack then 0 else -1), nack_tag = (if nack then 0 else -1),
     pack_tag = (if pack then 0 else -1) \<rparr>"

text \<open>\<open>tag as usize\<close> and \<open>cnt as isize\<close> at 64 bits, and the checked addition on \<open>isize\<close>.\<close>

definition as_usize :: "int \<Rightarrow> nat" where
  "as_usize i = nat (i mod 2 ^ 64)"

definition as_isize :: "nat \<Rightarrow> int" where
  "as_isize n = (let m = int n mod 2 ^ 64 in if m < 2 ^ 63 then m else m - 2 ^ 64)"

definition isize_add :: "int \<Rightarrow> int \<Rightarrow> ('e, int) outcome" where
  "isize_add a b = (if - (2 ^ 63) \<le> a + b \<and> a + b < 2 ^ 63 then Ok (a + b) else Panic)"

definition flushed :: "int \<Rightarrow> ('e, nat) outcome" where
  "flushed tag = (if tag \<noteq> -1 then Ok (as_usize tag) else Panic)"

definition flushed_ack :: "flush_strategy \<Rightarrow> ('e, nat) outcome" where
  "flushed_ack s = flushed (ack_tag s)"

definition flushed_nack :: "flush_strategy \<Rightarrow> ('e, nat) outcome" where
  "flushed_nack s = flushed (nack_tag s)"

definition flushed_pack :: "flush_strategy \<Rightarrow> ('e, nat) outcome" where
  "flushed_pack s = flushed (pack_tag s)"

definition flush_ack :: "flush_strategy \<Rightarrow> bool" where
  "flush_ack s \<longleftrightarrow> ack_tag s \<noteq> -1"

definition flush_nack :: "flush_strategy \<Rightarrow> bool" where
  "flush_nack s \<longleftrightarrow> nack_tag s \<noteq> -1"

definition flush_pack :: "flush_strategy \<Rightarrow> bool" where
  "flush_pack s \<longleftrightarrow> pack_tag s \<noteq> -1"

definition check_flushed :: "('qa, 'qn, 'qu, 'qf) link_api \<Rightarrow> flush_strategy \<Rightarrow> ('qa, 'qn, 'qu, 'qf) link \<Rightarrow> send_buffer \<Rightarrow> bool" where
  "check_flushed Q s l buf =
     (let ret = True;
          ret = (if ack_tag s \<noteq> -1 then ret \<and> outgoing_ack_empty l else ret);
          ret = (if nack_tag s \<noteq> -1 then ret \<and> outgoing_nack_empty l else ret);
          ret = (if pack_tag s \<noteq> -1 then ret \<and> (unconnected_empty Q l \<and> buffer_is_empty buf) else ret)
      in ret)"

definition mark_flushed :: "int \<Rightarrow> nat \<Rightarrow> ('e, int) outcome" where
  "mark_flushed tag cnt = (if tag = -1 then Ok tag else isize_add tag (as_isize cnt))"

definition mark_flushed_ack :: "flush_strategy \<Rightarrow> nat \<Rightarrow> ('e, flush_strategy) outcome" where
  "mark_flushed_ack s cnt = and_then (mark_flushed (ack_tag s) cnt) (\<lambda>t. Ok (s\<lparr>ack_tag := t\<rparr>))"

definition mark_flushed_nack :: "flush_strategy \<Rightarrow> nat \<Rightarrow> ('e, flush_strategy) outcome" where
  "mark_flushed_nack s cnt = and_then (mark_flushed (nack_tag s) cnt) (\<lambda>t. Ok (s\<lparr>nack_tag := t\<rparr>))"

definition mark_flushed_pack :: "flush_strategy \<Rightarrow> nat \<Rightarrow> ('e, flush_strategy) outcome" where
  "mark_flushed_pack s cnt = and_then (mark_flushed (pack_tag s) cnt) (\<lambda>t. Ok (s\<lparr>pack_tag := t\<rparr>))"

lemma mark_then_flushed:
  assumes "0 \<le> tag" and "tag + int n < 2 ^ 63"
  shows "mark_flushed tag n = Ok (tag + int n)" and "flushed (tag + int n) = Ok (nat tag + n)"
  using assms by (simp_all add: mark_flushed_def flushed_def as_isize_def as_usize_def isize_add_def Let_def nat_add_distrib)

subsection \<open>Connection information\<close>

record 'i connection_info =
  ci_inner :: 'i
  ci_peer :: peer

definition wrap_connection_info :: "'i \<Rightarrow> peer \<Rightarrow> 'i connection_info" where
  "wrap_connection_info inner peer = \<lparr> ci_inner = inner, ci_peer = peer \<rparr>"

definition ci_mtu :: "'i connection_info \<Rightarrow> u16" where
  "ci_mtu c = peer_mtu (ci_peer c)"

definition ci_remote_addr :: "'i connection_info \<Rightarrow> socket_addr" where
  "ci_remote_addr c = peer_addr (ci_peer c)"

definition ci_guid :: "'i connection_info \<Rightarrow> u64" where
  "ci_guid c = peer_guid (ci_peer c)"

text \<open>The wrapper is a sink again: every operation is that of the inner sink.\<close>

definition on_inner :: "('i \<Rightarrow> 'r \<times> 'i) \<Rightarrow> 'i connection_info \<Rightarrow> 'r \<times> 'i connection_info" where
  "on_inner f c = (case f (ci_inner c) of (r, i) \<Rightarrow> (r, c\<lparr>ci_inner := i\<rparr>))"

definition connection_sink :: "('i, 't) sink_api \<Rightarrow> ('i connection_info, 't) sink_api" where
  "connection_sink K = \<lparr>
     sink_poll_ready = on_inner (sink_poll_ready K),
     sink_start_send = (\<lambda>c x. on_inner (\<lambda>i. sink_start_send K i x) c),
     sink_poll_flush = on_inner (sink_poll_flush K),
     sink_poll_close = on_inner (sink_poll_close K) \<rparr>"

lemma connection_sink_laws:
  assumes "sink_laws K log"
  shows "sink_laws (connection_sink K) (\<lambda>c. log (ci_inner c))"
  using assms
  by (auto simp: sink_laws_def connection_sink_def on_inner_def split: prod.splits)

end
