(* ===== verification/Estimator.thy ===== *)
theory Estimator
  imports Clock
begin

text \<open>
  The round-trip estimator of \<open>src/src/estimator.rs\<close>.
\<close>

subsection \<open>State and operations\<close>

record rfc6298 =
  latest :: duration
  smoothed :: "duration option"
  rtt_var :: duration

definition INITIAL_RTT :: duration where
  "INITIAL_RTT = from_millis 500"

definition TIMER_GRANULARITY :: duration where
  "TIMER_GRANULARITY = from_millis 1"

definition rfc6298_new :: rfc6298 where
  "rfc6298_new = \<lparr> latest = INITIAL_RTT, smoothed = None, rtt_var = 0 \<rparr>"

definition est_rtt :: "rfc6298 \<Rightarrow> duration" where
  "est_rtt e = (case smoothed e of Some s \<Rightarrow> s | None \<Rightarrow> latest e)"

definition est_rto :: "rfc6298 \<Rightarrow> ('e, duration) outcome" where
  "est_rto e = and_then (dur_mul 4 (rtt_var e)) (\<lambda>v. dur_add (est_rtt e) (max TIMER_GRANULARITY v))"

definition est_clear :: "rfc6298 \<Rightarrow> rfc6298" where
  "est_clear e = e\<lparr>smoothed := None\<rparr>"

definition est_update :: "rfc6298 \<Rightarrow> duration \<Rightarrow> ('e, rfc6298) outcome" where
  "est_update e rtt =
     (let e = e\<lparr>latest := rtt\<rparr> in
      case smoothed e of
        Some s \<Rightarrow>
          and_then (if rtt < s then dur_sub s rtt else dur_sub rtt s) (\<lambda>var_sample.
          and_then (dur_mul 3 (rtt_var e)) (\<lambda>v.
          and_then (dur_add v var_sample) (\<lambda>v.
          and_then (dur_div v 4) (\<lambda>v.
          and_then (dur_mul 7 s) (\<lambda>s7.
          and_then (dur_add s7 rtt) (\<lambda>t.
          and_then (dur_div t 8) (\<lambda>s'. Ok (e\<lparr>rtt_var := v, smoothed := Some s'\<rparr>))))))))
      | None \<Rightarrow>
          and_then (dur_div rtt 2) (\<lambda>v. Ok (e\<lparr>smoothed := Some rtt, rtt_var := v\<rparr>)))"

subsection \<open>Runs\<close>

text \<open>An estimator is fed samples and cleared after timeouts.\<close>

datatype est_event = Sample duration | Timeout

fun est_run :: "rfc6298 \<Rightarrow> est_event list \<Rightarrow> ('e, rfc6298) outcome" where
  "est_run e [] = Ok e"
| "est_run e (Sample r # evs) = and_then (est_update e r) (\<lambda>e. est_run e evs)"
| "est_run e (Timeout # evs) = est_run (est_clear e) evs"

text \<open>
  The estimate stays between bounds on the samples: \<open>lo \<le> rtt \<le> hi\<close>, and the variance below \<open>hi\<close>.
\<close>

definition est_inv :: "nat \<Rightarrow> nat \<Rightarrow> rfc6298 \<Rightarrow> bool" where
  "est_inv lo hi e \<longleftrightarrow> lo \<le> latest e \<and> latest e \<le> hi \<and> rtt_var e \<le> hi
     \<and> (case smoothed e of None \<Rightarrow> True | Some s \<Rightarrow> lo \<le> s \<and> s \<le> hi)"

lemma mean_between:
  fixes s r :: nat
  shows "lo \<le> s \<Longrightarrow> lo \<le> r \<Longrightarrow> lo \<le> (7 * s + r) div 8" and "s \<le> hi \<Longrightarrow> r \<le> hi \<Longrightarrow> (7 * s + r) div 8 \<le> hi"
  by linarith+

lemma est_update_inv:
  assumes "est_inv lo hi e" and "lo \<le> r" and "r \<le> hi" and "8 * hi \<le> DURATION_MAX"
  shows "\<exists>e'. (est_update e r :: ('e, _) outcome) = Ok e' \<and> est_inv lo hi e' \<and> latest e' = r \<and> smoothed e' \<noteq> None"
proof (cases "smoothed e")
  case None
  then show ?thesis using assms by (auto simp: est_update_def est_inv_def)
next
  case (Some s)
  let ?d = "if r < s then s - r else r - s"
  have b: "s \<le> hi" "lo \<le> s" "rtt_var e \<le> hi" using assms(1) Some by (simp_all add: est_inv_def)
  then have d: "?d \<le> hi" using assms(3) by auto
  have fits: "3 * rtt_var e \<le> DURATION_MAX" "3 * rtt_var e + ?d \<le> DURATION_MAX" "7 * s \<le> DURATION_MAX" "7 * s + r \<le> DURATION_MAX"
    using b d assms(3,4) by linarith+
  have "(est_update e r :: ('e, _) outcome)
      = Ok (e\<lparr>latest := r, rtt_var := (3 * rtt_var e + ?d) div 4, smoothed := Some ((7 * s + r) div 8)\<rparr>)"
    using Some fits by (simp add: est_update_def Let_def split: if_splits)
  moreover have "(3 * rtt_var e + ?d) div 4 \<le> hi" using b(3) d by linarith
  ultimately show ?thesis
    using mean_between [of lo s r] mean_between(2) [of s hi r] b assms(2,3) by (simp add: est_inv_def)
qed

lemma est_run_inv:
  assumes "est_inv lo hi e" and "\<And>r. Sample r \<in> set evs \<Longrightarrow> lo \<le> r \<and> r \<le> hi" and "8 * hi \<le> DURATION_MAX"
  shows "\<exists>e'. (est_run e evs :: ('e, _) outcome) = Ok e' \<and> est_inv lo hi e'"
  using assms
proof (induction evs arbitrary: e)
  case (Cons ev evs)
  show ?case
  proof (cases ev)
    case (Sample r)
    obtain e1 where "(est_update e r :: ('e, _) outcome) = Ok e1" "est_inv lo hi e1"
      using est_update_inv [OF Cons.prems(1) _ _ Cons.prems(3), of r] Cons.prems(2) [of r] Sample by auto
    then show ?thesis using Cons.IH [of e1] Cons.prems(2,3) Sample by simp
  next
    case Timeout
    have "est_inv lo hi (est_clear e)" using Cons.prems(1) by (simp add: est_inv_def est_clear_def)
    then show ?thesis using Cons.IH [of "est_clear e"] Cons.prems(2,3) Timeout by simp
  qed
qed simp

lemma est_rto_eq:
  assumes "est_inv lo hi e" and "8 * hi + TIMER_GRANULARITY \<le> DURATION_MAX"
  shows "est_rto e = Ok (est_rtt e + max TIMER_GRANULARITY (4 * rtt_var e))"
    and "lo \<le> est_rtt e" and "est_rtt e \<le> hi" and "rtt_var e \<le> hi"
proof -
  show b: "lo \<le> est_rtt e" "est_rtt e \<le> hi" "rtt_var e \<le> hi"
    using assms(1) by (auto simp: est_inv_def est_rtt_def split: option.splits)
  have "4 * rtt_var e \<le> DURATION_MAX" "est_rtt e + max TIMER_GRANULARITY (4 * rtt_var e) \<le> DURATION_MAX"
    using b assms(2) by (auto simp: max_def)
  then show "est_rto e = Ok (est_rtt e + max TIMER_GRANULARITY (4 * rtt_var e))" by (simp add: est_rto_def)
qed

subsection \<open>The estimate of RFC 6298\<close>

text \<open>
  What RFC 6298 computes from the samples of one burst: the first sets the smoothed round-trip time and the
  variation, every later one moves them by an eighth and by a quarter.
\<close>

fun rfc_step :: "duration \<times> duration \<Rightarrow> duration \<Rightarrow> duration \<times> duration" where
  "rfc_step (s, v) r = ((7 * s + r) div 8, (3 * v + (max s r - min s r)) div 4)"

fun rfc_estimate :: "duration list \<Rightarrow> duration \<times> duration" where
  "rfc_estimate [] = (INITIAL_RTT, 0)"
| "rfc_estimate (r # rs) = foldl rfc_step (r, r div 2) rs"

fun samples :: "est_event list \<Rightarrow> duration list" where
  "samples [] = []"
| "samples (Sample r # evs) = r # samples evs"
| "samples (Timeout # evs) = samples evs"

text \<open>The samples since the last timeout, and the last burst of samples, whether a timeout has ended it or not.\<close>

definition since_timeout :: "est_event list \<Rightarrow> duration list" where
  "since_timeout evs = samples (rev (takeWhile (\<lambda>ev. ev \<noteq> Timeout) (rev evs)))"

definition last_burst :: "est_event list \<Rightarrow> duration list" where
  "last_burst evs = since_timeout (rev (dropWhile (\<lambda>ev. ev = Timeout) (rev evs)))"

lemma samples_append [simp]: "samples (evs @ evs') = samples evs @ samples evs'"
  by (induction evs rule: samples.induct) simp_all

lemma since_timeout_simps [simp]:
  "since_timeout [] = []" "since_timeout (evs @ [Timeout]) = []" "since_timeout (evs @ [Sample r]) = since_timeout evs @ [r]"
  by (simp_all add: since_timeout_def)

lemma last_burst_simps [simp]:
  "last_burst [] = []" "last_burst (evs @ [Timeout]) = last_burst evs" "last_burst (evs @ [Sample r]) = since_timeout evs @ [r]"
  by (simp_all add: last_burst_def)

lemma last_burst_open: "since_timeout evs \<noteq> [] \<Longrightarrow> last_burst evs = since_timeout evs"
proof (cases evs rule: rev_cases)
  case (snoc evs' ev)
  then show "since_timeout evs \<noteq> [] \<Longrightarrow> last_burst evs = since_timeout evs" by (cases ev) simp_all
qed simp

lemma rfc_estimate_snoc: "rs \<noteq> [] \<Longrightarrow> rfc_estimate (rs @ [r]) = rfc_step (rfc_estimate rs) r"
  by (cases rs) simp_all

lemma rfc_estimate_between:
  assumes "rs \<noteq> []" and "\<forall>r \<in> set rs. lo \<le> r \<and> r \<le> hi"
  shows "lo \<le> fst (rfc_estimate rs)" and "fst (rfc_estimate rs) \<le> hi"
proof -
  have "lo \<le> fst (foldl rfc_step (s, v) rs) \<and> fst (foldl rfc_step (s, v) rs) \<le> hi"
    if "\<forall>r \<in> set rs. lo \<le> r \<and> r \<le> hi" "lo \<le> s" "s \<le> hi" for rs s v
    using that
  proof (induction rs arbitrary: s v)
    case (Cons r rs)
    then show ?case using mean_between [of lo s r] mean_between(2) [of s hi r] by simp
  qed simp
  then show "lo \<le> fst (rfc_estimate rs)" "fst (rfc_estimate rs) \<le> hi" using assms by (cases rs; simp)+
qed

lemma set_since_timeout: "set (since_timeout evs) \<subseteq> set (samples evs)"
proof (induction evs rule: rev_induct)
  case (snoc ev evs)
  then show ?case by (cases ev) auto
qed simp

lemma samples_set [simp]: "r \<in> set (samples evs) \<longleftrightarrow> Sample r \<in> set evs"
  by (induction evs rule: samples.induct) auto

text \<open>The state of the estimator after a run, from the samples of the run.\<close>

definition estimates :: "est_event list \<Rightarrow> rfc6298 \<Rightarrow> bool" where
  "estimates evs e \<longleftrightarrow> latest e = last (INITIAL_RTT # samples evs) \<and> rtt_var e = snd (rfc_estimate (last_burst evs))
     \<and> smoothed e = (if since_timeout evs = [] then None else Some (fst (rfc_estimate (since_timeout evs))))"

lemma est_update_estimates:
  assumes "estimates evs e" and "(est_update e r :: ('e, _) outcome) = Ok e'"
  shows "estimates (evs @ [Sample r]) e'"
proof (cases "since_timeout evs = []")
  case True
  then show ?thesis using assms by (auto simp: estimates_def est_update_def Let_def and_then_eq_Ok)
next
  case False
  let ?b = "since_timeout evs"
  obtain s v where b: "rfc_estimate ?b = (s, v)" by fastforce
  then have "smoothed e = Some s" "rtt_var e = v" using assms(1) False by (simp_all add: estimates_def last_burst_open)
  then have "latest e' = r \<and> smoothed e' = Some ((7 * s + r) div 8) \<and> rtt_var e' = (3 * v + (max s r - min s r)) div 4"
    using assms(2) by (auto simp: est_update_def Let_def and_then_eq_Ok dur_add_def dur_mul_def dur_sub_def dur_div_def max_def min_def split: if_splits)
  then show ?thesis using b False by (simp add: estimates_def rfc_estimate_snoc)
qed

lemma est_run_snoc: "est_run e (evs @ [ev]) = and_then (est_run e evs) (\<lambda>e. est_run e [ev])"
proof (induction evs arbitrary: e)
  case (Cons ev' evs)
  then show ?case by (cases ev') (simp_all add: and_then_assoc)
qed simp

lemma est_run_estimates:
  assumes "(est_run rfc6298_new evs :: ('e, _) outcome) = Ok e"
  shows "estimates evs e"
  using assms
proof (induction evs arbitrary: e rule: rev_induct)
  case Nil
  then show ?case by (auto simp: estimates_def rfc6298_new_def)
next
  case (snoc ev evs)
  then obtain e1 where e1: "(est_run rfc6298_new evs :: ('e, _) outcome) = Ok e1" "(est_run e1 [ev] :: ('e, _) outcome) = Ok e"
    unfolding est_run_snoc and_then_eq_Ok by blast
  show ?case
  proof (cases ev)
    case (Sample r)
    then show ?thesis using e1(2) est_update_estimates [OF snoc.IH [OF e1(1)], of r e] by (simp add: and_then_eq_Ok)
  next
    case Timeout
    then show ?thesis using e1(2) snoc.IH [OF e1(1)] by (auto simp: estimates_def est_clear_def)
  qed
qed

lemma est_run_fits:
  assumes "\<forall>r. Sample r \<in> set evs \<longrightarrow> r \<le> hi" and "8 * hi + TIMER_GRANULARITY \<le> DURATION_MAX"
  obtains e where "(est_run rfc6298_new evs :: ('e, _) outcome) = Ok e"
    and "(est_rto e :: ('e, _) outcome) = Ok (est_rtt e + max TIMER_GRANULARITY (4 * rtt_var e))"
proof -
  let ?hi = "max hi INITIAL_RTT"
  have fits: "8 * ?hi + TIMER_GRANULARITY \<le> DURATION_MAX"
    using assms(2) by (auto simp: max_def INITIAL_RTT_def TIMER_GRANULARITY_def from_millis_def DURATION_MAX_def NANOS_PER_SEC_def)
  have "est_inv 0 ?hi rfc6298_new" by (simp add: est_inv_def rfc6298_new_def)
  moreover have "0 \<le> r \<and> r \<le> ?hi" if "Sample r \<in> set evs" for r using assms(1) that by (simp add: max.coboundedI1)
  ultimately obtain e where e: "(est_run rfc6298_new evs :: ('e, _) outcome) = Ok e" "est_inv 0 ?hi e"
    using est_run_inv [of 0 ?hi rfc6298_new evs, where 'e = 'e] fits by auto
  show thesis by (rule that [OF e(1) est_rto_eq(1) [OF e(2) fits]])
qed

subsection \<open>Properties\<close>

text \<open>
  C36: the estimator computes RFC 6298.  After any mixture of samples and timeouts, with samples far from the
  end of \<open>Duration\<close>, no duration arithmetic overflows.  Once a sample has come in since the last timeout the
  round-trip time is exactly the smoothed value RFC 6298 gives for the samples since then, and so lies between
  any bounds of those samples; before that it is the latest sample of all, or 500 ms if there has been none.
  The variation is the one of the last burst of samples, and the retransmission timeout is the round-trip
  time plus four times the variation, or plus one millisecond if that is more.
\<close>

theorem estimator_computes_rfc6298:
  assumes "\<forall>r. Sample r \<in> set evs \<longrightarrow> r \<le> hi" and "8 * hi + TIMER_GRANULARITY \<le> DURATION_MAX"
  shows "\<exists>e. est_run rfc6298_new evs = (Ok e :: (io_error, _) outcome)
     \<and> est_rtt e = (if since_timeout evs = [] then last (INITIAL_RTT # samples evs) else fst (rfc_estimate (since_timeout evs)))
     \<and> rtt_var e = snd (rfc_estimate (last_burst evs))
     \<and> est_rto e = (Ok (est_rtt e + max TIMER_GRANULARITY (4 * rtt_var e)) :: (io_error, _) outcome)
     \<and> (since_timeout evs \<noteq> [] \<longrightarrow> Min (set (since_timeout evs)) \<le> est_rtt e \<and> est_rtt e \<le> Max (set (since_timeout evs)))"
proof -
  obtain e where e: "est_run rfc6298_new evs = (Ok e :: (io_error, _) outcome)"
    "est_rto e = (Ok (est_rtt e + max TIMER_GRANULARITY (4 * rtt_var e)) :: (io_error, _) outcome)"
    by (rule est_run_fits [OF assms])
  have st: "estimates evs e" by (rule est_run_estimates [OF e(1)])
  then have rtt: "est_rtt e = (if since_timeout evs = [] then last (INITIAL_RTT # samples evs) else fst (rfc_estimate (since_timeout evs)))"
    by (simp add: estimates_def est_rtt_def)
  have "Min (set rs) \<le> fst (rfc_estimate rs) \<and> fst (rfc_estimate rs) \<le> Max (set rs)" if "rs \<noteq> []" for rs
    using rfc_estimate_between [OF that, of "Min (set rs)" "Max (set rs)"] by simp
  then show ?thesis using e st rtt by (auto simp: estimates_def)
qed

theorem estimator_computes_rfc6298_witness:
  "\<exists>e. est_run rfc6298_new [Sample (from_millis 100), Timeout, Sample (from_millis 300), Sample (from_millis 220)]
       = (Ok e :: (io_error, _) outcome) \<and> est_rtt e = from_millis 290
     \<and> rtt_var e = 132500000 \<and> est_rto e = (Ok (from_millis 820) :: (io_error, _) outcome)"
proof -
  let ?evs = "[Sample (from_millis 100), Timeout, Sample (from_millis 300), Sample (from_millis 220)]"
  have b: "since_timeout ?evs = [from_millis 300, from_millis 220]" "last_burst ?evs = [from_millis 300, from_millis 220]"
    by (simp_all add: last_burst_def since_timeout_def)
  have "\<forall>r. Sample r \<in> set ?evs \<longrightarrow> r \<le> from_millis 300" by (auto simp: from_millis_def)
  moreover have "8 * from_millis 300 + TIMER_GRANULARITY \<le> DURATION_MAX"
    by (simp add: from_millis_def TIMER_GRANULARITY_def DURATION_MAX_def NANOS_PER_SEC_def)
  ultimately obtain e where e: "est_run rfc6298_new ?evs = (Ok e :: (io_error, _) outcome)"
    "est_rtt e = fst (rfc_estimate [from_millis 300, from_millis 220])" "rtt_var e = snd (rfc_estimate [from_millis 300, from_millis 220])"
    "est_rto e = (Ok (est_rtt e + max TIMER_GRANULARITY (4 * rtt_var e)) :: (io_error, _) outcome)"
    using estimator_computes_rfc6298 [of ?evs "from_millis 300"] unfolding b by auto
  have "rfc_estimate [from_millis 300, from_millis 220] = (from_millis 290, 132500000)" by (simp add: from_millis_def)
  with e(2,3) have "est_rtt e = from_millis 290" "rtt_var e = 132500000" by simp_all
  moreover from this e(4) have "est_rto e = (Ok (from_millis 820) :: (io_error, _) outcome)"
    by (simp add: from_millis_def TIMER_GRANULARITY_def)
  ultimately show ?thesis using e(1) by blast
qed

end
