(* ===== verification/Resend.thy ===== *)
theory Resend
  imports Send_Buffer Link Estimator "HOL-Library.AList"
begin

text \<open>
  The map of reliable frame sets in flight, \<open>ResendMap\<close> of \<open>src/src/reliable.rs\<close>.  The hash map is the
  association list of its entries in iteration order; \<open>Instant::now()\<close> is an argument; the boxed estimator
  is the one the source constructs.  Log output is left out, the debug assertions are not.
\<close>

subsection \<open>State and operations\<close>

record resend_entry =
  re_penalty :: u8
  re_frames :: "frame list option"
  send_at :: instant
  expired_at :: instant

record resend_map =
  rm_reliable :: "(u24 \<times> resend_entry) list"
  inflight :: nat
  rm_role :: role
  rm_peer :: peer
  last_record_expired_at :: instant
  rm_estimator :: rfc6298

definition resend_map_new :: "instant \<Rightarrow> role \<Rightarrow> peer \<Rightarrow> rfc6298 \<Rightarrow> resend_map" where
  "resend_map_new now role peer est = \<lparr> rm_reliable = [], inflight = 0, rm_role = role, rm_peer = peer,
     last_record_expired_at = now, rm_estimator = est \<rparr>"

fun count_inflight :: "(u24 \<times> resend_entry) list \<Rightarrow> ('e, nat) outcome" where
  "count_inflight [] = Ok 0"
| "count_inflight ((_, e) # m) = (case re_frames e of
      None \<Rightarrow> Panic
    | Some fs \<Rightarrow> and_then (count_inflight m) (\<lambda>n. Ok (length fs + n)))"

definition debug_assert_inflight :: "resend_map \<Rightarrow> ('e, resend_map) outcome" where
  "debug_assert_inflight rm = and_then (count_inflight (rm_reliable rm)) (\<lambda>n. if n = inflight rm then Ok rm else Panic)"

definition MAX_PENALTY_DUR :: duration where
  "MAX_PENALTY_DUR = from_secs 30"

definition rm_record :: "instant \<Rightarrow> resend_map \<Rightarrow> u24 \<Rightarrow> u8 \<Rightarrow> frame list \<Rightarrow> ('e, resend_map) outcome" where
  "rm_record now rm seq_num penalty frames =
     and_then (est_rto (rm_estimator rm)) (\<lambda>rto.
     and_then (dur_mul (unat penalty) rto) (\<lambda>d.
     let penalty_dur = min d MAX_PENALTY_DUR in
     and_then (instant_add now rto) (\<lambda>t.
     and_then (instant_add t penalty_dur) (\<lambda>expired.
       debug_assert_inflight (rm\<lparr>inflight := inflight rm + length frames,
         rm_reliable := AList.update seq_num
           \<lparr> re_penalty = penalty, re_frames = Some frames, send_at = now, expired_at = expired \<rparr> (rm_reliable rm)\<rparr>)))))"

text \<open>
  \<open>for i in start.to_u32()..=end.to_u32() { ... i.into() ... }\<close> and the loop over the records, for any loop
  body \<open>f\<close>.
\<close>

fun for_range :: "(u24 \<Rightarrow> 's \<Rightarrow> ('e, 's) outcome) \<Rightarrow> nat list \<Rightarrow> 's \<Rightarrow> ('e, 's) outcome" where
  "for_range f [] s = Ok s"
| "for_range f (n # ns) s = and_then (u24_from (word_of_nat n :: u32)) (\<lambda>i. and_then (f i s) (for_range f ns))"

fun for_records :: "(u24 \<Rightarrow> 's \<Rightarrow> ('e, 's) outcome) \<Rightarrow> ack_record list \<Rightarrow> 's \<Rightarrow> ('e, 's) outcome" where
  "for_records f [] s = Ok s"
| "for_records f (Range start lst # rs) s =
     and_then (for_range f [unat (to_u32 start)..<Suc (unat (to_u32 lst))] s) (for_records f rs)"
| "for_records f (Single seq_num # rs) s = and_then (f seq_num s) (for_records f rs)"

definition ack_one :: "instant \<Rightarrow> u24 \<Rightarrow> resend_map \<Rightarrow> ('e, resend_map) outcome" where
  "ack_one received_at seq_num rm = (case map_of (rm_reliable rm) seq_num of
      None \<Rightarrow> Ok rm
    | Some e \<Rightarrow>
        let rm = rm\<lparr>rm_reliable := AList.delete seq_num (rm_reliable rm)\<rparr> in
        (case re_frames e of
           None \<Rightarrow> Ok rm
         | Some frames \<Rightarrow>
             and_then (est_update (rm_estimator rm) (saturating_duration_since received_at (send_at e))) (\<lambda>est.
             and_then (usub (inflight rm) (length frames)) (\<lambda>n. Ok (rm\<lparr>rm_estimator := est, inflight := n\<rparr>)))))"

definition on_ack :: "resend_map \<Rightarrow> ack_or_nack \<Rightarrow> instant \<Rightarrow> ('e, resend_map) outcome" where
  "on_ack rm ack received_at = and_then (for_records (ack_one received_at) (records ack) rm) debug_assert_inflight"

definition penalized :: "u8 \<Rightarrow> frame list \<Rightarrow> penalty_frame list" where
  "penalized p frames = map (\<lambda>f. \<lparr> pf_penalty = p, pf_frame = f \<rparr>) frames"

definition nack_one :: "u24 \<Rightarrow> resend_map \<times> send_buffer \<Rightarrow> ('e, resend_map \<times> send_buffer) outcome" where
  "nack_one seq_num = (\<lambda>(rm, buf). case map_of (rm_reliable rm) seq_num of
      None \<Rightarrow> Ok (rm, buf)
    | Some e \<Rightarrow>
        let rm = rm\<lparr>rm_reliable := AList.delete seq_num (rm_reliable rm)\<rparr> in
        (case re_frames e of
           None \<Rightarrow> Panic
         | Some frames \<Rightarrow>
             and_then (usub (inflight rm) (length frames)) (\<lambda>n.
               Ok (rm\<lparr>inflight := n\<rparr>, buffer_resend buf (penalized (re_penalty e) frames)))))"

definition on_nack_into :: "resend_map \<Rightarrow> ack_or_nack \<Rightarrow> send_buffer \<Rightarrow> ('e, resend_map \<times> send_buffer) outcome" where
  "on_nack_into rm nack buf =
     and_then (for_records nack_one (records nack) (rm, buf)) (\<lambda>(rm, buf).
     and_then (debug_assert_inflight rm) (\<lambda>rm. Ok (rm, buf)))"

definition MAX_SKIP_SCAN_RTO :: duration where
  "MAX_SKIP_SCAN_RTO = from_secs 3"

text \<open>The closure of \<open>retain\<close> over the entries, with \<open>inflight\<close>, \<open>min_expired_at\<close> and the buffer it updates.\<close>

fun retain_fresh :: "instant \<Rightarrow> (u24 \<times> resend_entry) list \<Rightarrow> nat \<Rightarrow> instant \<Rightarrow> send_buffer
    \<Rightarrow> ('e, (u24 \<times> resend_entry) list \<times> nat \<times> instant \<times> send_buffer) outcome" where
  "retain_fresh now [] n mn buf = Ok ([], n, mn, buf)"
| "retain_fresh now ((k, e) # m) n mn buf =
     (if expired_at e \<le> now then
        (case re_frames e of
           None \<Rightarrow> Panic
         | Some frames \<Rightarrow> and_then (usub n (length frames)) (\<lambda>n.
             retain_fresh now m n mn (buffer_resend buf (penalized (re_penalty e) frames))))
      else and_then (retain_fresh now m n (min mn (expired_at e)) buf) (\<lambda>(kept, r). Ok ((k, e) # kept, r)))"

definition process_stales :: "instant \<Rightarrow> resend_map \<Rightarrow> send_buffer \<Rightarrow> ('e, resend_map \<times> send_buffer) outcome" where
  "process_stales now rm buf =
     (if rm_reliable rm = [] then Ok (rm, buf)
      else if now < last_record_expired_at rm then Ok (rm, buf)
      else
        and_then (est_rto (rm_estimator rm)) (\<lambda>rto.
        and_then (instant_add now (min rto MAX_SKIP_SCAN_RTO)) (\<lambda>min_expired_at.
        and_then (retain_fresh now (rm_reliable rm) (inflight rm) min_expired_at buf) (\<lambda>(kept, n, min_expired_at, buf).
          if \<not> now \<le> min_expired_at then Panic
          else
            let len_before = length (rm_reliable rm);
                rm = rm\<lparr>rm_reliable := kept, inflight := n, last_record_expired_at := min_expired_at\<rparr>;
                rm = (if length kept < len_before then rm\<lparr>rm_estimator := est_clear (rm_estimator rm)\<rparr> else rm)
            in and_then (debug_assert_inflight rm) (\<lambda>rm. Ok (rm, buf))))))"

definition rm_is_empty :: "resend_map \<Rightarrow> bool" where
  "rm_is_empty rm \<longleftrightarrow> rm_reliable rm = []"

text \<open>\<open>min_by_key\<close>: the first entry with the least expiry.\<close>

fun min_entry :: "(u24 \<times> resend_entry) list \<Rightarrow> (u24 \<times> resend_entry) option" where
  "min_entry [] = None"
| "min_entry (e # m) = (case min_entry m of
      None \<Rightarrow> Some e
    | Some e' \<Rightarrow> if expired_at (snd e') < expired_at (snd e) then Some e' else Some e)"

definition poll_wait :: "instant \<Rightarrow> 'w \<Rightarrow> resend_map \<Rightarrow> 'w reactor \<Rightarrow> unit poll \<times> 'w reactor" where
  "poll_wait now waker rm r = (case min_entry (rm_reliable rm) of
      Some (seq, e) \<Rightarrow>
        if now < expired_at e
        then (Pending, insert_timer r (link_key (rm_role rm) (rm_peer rm)) (expired_at e) waker)
        else (Ready (), r)
    | None \<Rightarrow> (Ready (), r))"

subsection \<open>Invariant\<close>

text \<open>
  Keys are distinct, every entry has its frames, the counter agrees with them, and the estimator is within
  the bound on time readings: \<open>2^60\<close> nanoseconds, some 36 years of running.
\<close>

definition TIME_BOUND :: nat where
  "TIME_BOUND = 2 ^ 60"

definition entry_frames :: "resend_entry \<Rightarrow> frame list" where
  "entry_frames e = (case re_frames e of None \<Rightarrow> [] | Some fs \<Rightarrow> fs)"

definition in_flight :: "(u24 \<times> resend_entry) list \<Rightarrow> frame multiset" where
  "in_flight m = mset (concat (map (entry_frames \<circ> snd) m))"

definition rm_inv :: "resend_map \<Rightarrow> bool" where
  "rm_inv rm \<longleftrightarrow> distinct (map fst (rm_reliable rm)) \<and> (\<forall>(k, e) \<in> set (rm_reliable rm). re_frames e \<noteq> None)
     \<and> inflight rm = size (in_flight (rm_reliable rm)) \<and> est_inv 0 TIME_BOUND (rm_estimator rm)"

lemma in_flight_simps [simp]: "in_flight [] = {#}" "in_flight ((k, e) # m) = mset (entry_frames e) + in_flight m"
  by (simp_all add: in_flight_def)

lemma count_inflight_eq: "\<forall>(k, e) \<in> set m. re_frames e \<noteq> None \<Longrightarrow> count_inflight m = Ok (size (in_flight m))"
  by (induction m) (auto simp: entry_frames_def)

lemma debug_assert_ok: "rm_inv rm \<Longrightarrow> debug_assert_inflight rm = Ok rm"
  by (simp add: debug_assert_inflight_def rm_inv_def count_inflight_eq)

lemma in_flight_delete:
  assumes "distinct (map fst m)" and "map_of m k = Some e"
  shows "in_flight m = mset (entry_frames e) + in_flight (AList.delete k m)"
  using assms
proof (induction m)
  case (Cons x m)
  show ?case
  proof (cases "fst x = k")
    case True
    then have "k \<notin> fst ` set m" using Cons.prems(1) by auto
    then have "AList.delete k m = m" by simp
    then show ?thesis using True Cons.prems(2) by (cases x) simp
  next
    case False
    then show ?thesis using Cons by (cases x) simp
  qed
qed simp

lemma rto_fits: "rm_inv rm \<Longrightarrow> \<exists>rto \<le> 5 * TIME_BOUND + TIMER_GRANULARITY. est_rto (rm_estimator rm) = Ok rto"
proof -
  assume "rm_inv rm"
  then have e: "est_inv 0 TIME_BOUND (rm_estimator rm)" by (simp add: rm_inv_def)
  have "8 * TIME_BOUND + TIMER_GRANULARITY \<le> DURATION_MAX"
    by (simp add: TIME_BOUND_def TIMER_GRANULARITY_def DURATION_MAX_def from_millis_def NANOS_PER_SEC_def)
  from est_rto_eq [OF e this] show ?thesis
    by (intro exI [of _ "est_rtt (rm_estimator rm) + max TIMER_GRANULARITY (4 * rtt_var (rm_estimator rm))"]) (auto simp: max_def)
qed

lemma update_fresh: "k \<notin> fst ` set m \<Longrightarrow> AList.update k v m = m @ [(k, v)]"
  by (induction m) auto

lemma in_flight_append: "in_flight (m @ m') = in_flight m + in_flight m'"
  by (simp add: in_flight_def)

lemma rm_record_ok:
  assumes inv: "rm_inv rm" and fresh: "seq \<notin> fst ` set (rm_reliable rm)" and now: "now < TIME_BOUND"
  obtains rm' e where "(rm_record now rm seq penalty frames :: ('e, _) outcome) = Ok rm'" and "rm_inv rm'"
    and "rm_reliable rm' = rm_reliable rm @ [(seq, e)]" and "re_frames e = Some frames" and "now < expired_at e"
    and "re_penalty e = penalty" and "rm_role rm' = rm_role rm" and "rm_peer rm' = rm_peer rm"
proof -
  obtain rto where rto: "(est_rto (rm_estimator rm) :: ('e, _) outcome) = Ok rto" "rto \<le> 5 * TIME_BOUND + TIMER_GRANULARITY"
    using rto_fits [OF inv] by blast
  have pos: "0 < rto"
    using rto(1) by (auto simp: est_rto_def and_then_eq_Ok dur_add_def TIMER_GRANULARITY_def from_millis_def split: if_splits)
  have "unat penalty < 256" using unat_lt_exp [of penalty] by simp
  then have "unat penalty * rto \<le> 256 * (5 * TIME_BOUND + TIMER_GRANULARITY)" using rto(2) by (intro mult_le_mono) simp_all
  also have "\<dots> \<le> DURATION_MAX" by (simp add: TIME_BOUND_def TIMER_GRANULARITY_def DURATION_MAX_def from_millis_def NANOS_PER_SEC_def)
  finally have d: "unat penalty * rto \<le> DURATION_MAX" .
  let ?pd = "min (unat penalty * rto) MAX_PENALTY_DUR"
  have "now + rto + ?pd \<le> TIME_BOUND + (5 * TIME_BOUND + TIMER_GRANULARITY) + MAX_PENALTY_DUR" using now rto(2) by simp
  also have "\<dots> \<le> INSTANT_MAX"
    by (simp add: TIME_BOUND_def TIMER_GRANULARITY_def INSTANT_MAX_def from_millis_def from_secs_def NANOS_PER_SEC_def MAX_PENALTY_DUR_def)
  finally have t: "now + rto + ?pd \<le> INSTANT_MAX" .
  let ?e = "\<lparr> re_penalty = penalty, re_frames = Some frames, send_at = now, expired_at = now + rto + ?pd \<rparr>"
  let ?rm = "rm\<lparr>inflight := inflight rm + length frames, rm_reliable := rm_reliable rm @ [(seq, ?e)]\<rparr>"
  have inv': "rm_inv ?rm"
    using inv fresh by (auto simp: rm_inv_def in_flight_append entry_frames_def)
  have "(rm_record now rm seq penalty frames :: ('e, _) outcome) = Ok ?rm"
    using rto(1) d t by (simp add: rm_record_def Let_def update_fresh [OF fresh] debug_assert_ok [OF inv'])
  then show thesis by (rule that [OF _ inv', of ?e]) (use pos in simp_all)
qed

subsection \<open>Acknowledgements\<close>

text \<open>Iteration over the records is iteration over the sequence numbers they stand for.\<close>

fun each :: "(u24 \<Rightarrow> 's \<Rightarrow> ('e, 's) outcome) \<Rightarrow> u24 list \<Rightarrow> 's \<Rightarrow> ('e, 's) outcome" where
  "each f [] s = Ok s"
| "each f (x # xs) s = and_then (f x s) (each f xs)"

lemma each_append: "each f (xs @ ys) s = and_then (each f xs s) (each f ys)"
proof (induction xs arbitrary: s)
  case (Cons x xs)
  have "each f (xs @ ys) = (\<lambda>s. and_then (each f xs s) (each f ys))" by (rule ext) (rule Cons.IH)
  then show ?case by (simp add: and_then_assoc)
qed simp

lemma for_range_each:
  fixes f :: "u24 \<Rightarrow> 's \<Rightarrow> ('e, 's) outcome"
  shows "\<forall>n \<in> set ns. n < 2 ^ 24 \<Longrightarrow> for_range f ns s = each f (map u24_of ns) s"
proof (induction ns arbitrary: s)
  case (Cons n ns)
  have "(u24_from (word_of_nat n :: u32) :: ('e, _) outcome) = Ok (u24_of n)"
    using Cons.prems by (simp add: u24_from_def u24_checked_def drop_bit_eq_0_iff u24_of_def unsigned_of_nat take_bit_nat_eq_self)
  moreover have "for_range f ns = each f (map u24_of ns)" using Cons by (intro ext) simp
  ultimately show ?case by simp
qed simp

text \<open>Records as they come from the wire: both ends fit 24 bits.\<close>

fun record_wire :: "ack_record \<Rightarrow> bool" where
  "record_wire (Range s e) \<longleftrightarrow> u24_ok s \<and> u24_ok e"
| "record_wire (Single s) \<longleftrightarrow> u24_ok s"

lemma for_records_each:
  fixes f :: "u24 \<Rightarrow> 's \<Rightarrow> ('e, 's) outcome"
  shows "\<forall>r \<in> set rs. record_wire r \<Longrightarrow> for_records f rs s = each f (ack_expand rs) s"
proof (induction rs arbitrary: s)
  case (Cons r rs)
  have IH: "for_records f rs = each f (ack_expand rs)" using Cons by (intro ext) simp
  show ?case
  proof (cases r)
    case (Range a b)
    have "\<forall>n \<in> set [to_usize a..<Suc (to_usize b)]. n < 2 ^ 24" using Cons.prems Range by (auto simp: u24_ok_iff)
    from for_range_each [OF this, of f s] show ?thesis
      using IH Range by (simp add: each_append to_u32_def flip: to_usize_def del: upt_Suc)
  next
    case (Single a)
    then show ?thesis using IH by simp
  qed
qed simp

lemma rm_inv_delete:
  assumes inv: "rm_inv rm" and e: "map_of (rm_reliable rm) k = Some e"
  shows "re_frames e = Some (entry_frames e)" and "length (entry_frames e) \<le> inflight rm"
    and "est_inv 0 TIME_BOUND est \<Longrightarrow> rm_inv (rm\<lparr>rm_reliable := AList.delete k (rm_reliable rm), rm_estimator := est,
      inflight := inflight rm - length (entry_frames e)\<rparr>)"
proof -
  have mem: "(k, e) \<in> set (rm_reliable rm)" using e by (rule map_of_SomeD)
  then show "re_frames e = Some (entry_frames e)" using inv by (auto simp: rm_inv_def entry_frames_def)
  have d: "in_flight (rm_reliable rm) = mset (entry_frames e) + in_flight (AList.delete k (rm_reliable rm))"
    using in_flight_delete [OF _ e] inv by (simp add: rm_inv_def)
  then show "length (entry_frames e) \<le> inflight rm" using inv by (simp add: rm_inv_def)
  show "rm_inv (rm\<lparr>rm_reliable := AList.delete k (rm_reliable rm), rm_estimator := est,
      inflight := inflight rm - length (entry_frames e)\<rparr>)" if "est_inv 0 TIME_BOUND est"
    using inv d that by (auto simp: rm_inv_def AList.delete_eq distinct_map_filter)
qed

lemma ack_one_ok:
  assumes inv: "rm_inv rm" and at: "at \<le> TIME_BOUND"
  obtains rm' where "(ack_one at q rm :: ('e, _) outcome) = Ok rm'" and "rm_inv rm'"
    and "rm_reliable rm' = AList.delete q (rm_reliable rm)" and "rm_role rm' = rm_role rm" and "rm_peer rm' = rm_peer rm"
proof (cases "map_of (rm_reliable rm) q")
  case None
  then have "AList.delete q (rm_reliable rm) = rm_reliable rm" by (simp add: map_of_eq_None_iff)
  then show thesis using that [of rm] inv None by (simp add: ack_one_def)
next
  case (Some e)
  note del = rm_inv_delete [OF inv Some]
  have "8 * TIME_BOUND \<le> DURATION_MAX" by (simp add: TIME_BOUND_def DURATION_MAX_def NANOS_PER_SEC_def)
  moreover have "est_inv 0 TIME_BOUND (rm_estimator rm)" using inv by (simp add: rm_inv_def)
  moreover have "saturating_duration_since at (send_at e) \<le> TIME_BOUND" using at by (simp add: saturating_duration_since_def)
  ultimately obtain est where est: "(est_update (rm_estimator rm) (saturating_duration_since at (send_at e)) :: ('e, _) outcome) = Ok est"
    "est_inv 0 TIME_BOUND est" using est_update_inv [of 0 TIME_BOUND] by blast
  show thesis
    by (rule that [OF _ del(3) [OF est(2)]]) (use Some del(1,2) est(1) in \<open>simp_all add: ack_one_def Let_def\<close>)
qed

definition without :: "u24 list \<Rightarrow> (u24 \<times> resend_entry) list \<Rightarrow> (u24 \<times> resend_entry) list" where
  "without qs m = filter (\<lambda>(k, _). k \<notin> set qs) m"

lemma without_simps: "without [] m = m" "without (q # qs) m = without qs (AList.delete q m)"
  by (auto simp: without_def AList.delete_eq intro: filter_cong)

lemma each_ack_ok:
  assumes "rm_inv rm" and "at \<le> TIME_BOUND"
  shows "\<exists>rm'. (each (ack_one at) qs rm :: ('e, _) outcome) = Ok rm' \<and> rm_inv rm' \<and> rm_reliable rm' = without qs (rm_reliable rm)
     \<and> rm_role rm' = rm_role rm \<and> rm_peer rm' = rm_peer rm"
  using assms(1)
proof (induction qs arbitrary: rm)
  case (Cons q qs)
  obtain rm1 where 1: "(ack_one at q rm :: ('e, _) outcome) = Ok rm1" "rm_inv rm1" "rm_reliable rm1 = AList.delete q (rm_reliable rm)"
    "rm_role rm1 = rm_role rm" "rm_peer rm1 = rm_peer rm" by (rule ack_one_ok [OF Cons.prems assms(2)])
  from Cons.IH [OF 1(2)] show ?case using 1 by (auto simp: without_simps(2))
qed (simp add: without_simps)

lemma on_ack_ok:
  assumes "rm_inv rm" and "at \<le> TIME_BOUND" and "\<forall>r \<in> set (records a). record_wire r"
  obtains rm' where "(on_ack rm a at :: ('e, _) outcome) = Ok rm'" and "rm_inv rm'"
    and "rm_reliable rm' = without (ack_expand (records a)) (rm_reliable rm)" and "rm_role rm' = rm_role rm" and "rm_peer rm' = rm_peer rm"
proof -
  obtain rm' where *: "(each (ack_one at) (ack_expand (records a)) rm :: ('e, _) outcome) = Ok rm'" "rm_inv rm'"
    "rm_reliable rm' = without (ack_expand (records a)) (rm_reliable rm)" "rm_role rm' = rm_role rm" "rm_peer rm' = rm_peer rm"
    using each_ack_ok [OF assms(1,2)] by blast
  have "(on_ack rm a at :: ('e, _) outcome) = Ok rm'"
    using *(1) debug_assert_ok [OF *(2)] by (simp add: on_ack_def for_records_each [OF assms(3)])
  then show thesis using that *(2-) by blast
qed

lemma map_penalized [simp]: "map pf_frame (penalized p fs) = fs"
  by (simp add: penalized_def comp_def)

lemma nack_one_ok:
  assumes inv: "rm_inv rm"
  obtains rm' buf' where "(nack_one q (rm, buf) :: ('e, _) outcome) = Ok (rm', buf')" and "rm_inv rm'"
    and "rm_reliable rm' = AList.delete q (rm_reliable rm)"
    and "in_flight (rm_reliable rm') + buffered buf' = in_flight (rm_reliable rm) + buffered buf"
    and "buffer_sorted buf \<longrightarrow> buffer_sorted buf'" and "rm_role rm' = rm_role rm" and "rm_peer rm' = rm_peer rm"
proof (cases "map_of (rm_reliable rm) q")
  case None
  then have "AList.delete q (rm_reliable rm) = rm_reliable rm" by (simp add: map_of_eq_None_iff)
  then show thesis using that [of rm buf] inv None by (simp add: nack_one_def)
next
  case (Some e)
  note del = rm_inv_delete [OF inv Some]
  let ?rm = "rm\<lparr>rm_reliable := AList.delete q (rm_reliable rm), rm_estimator := rm_estimator rm,
      inflight := inflight rm - length (entry_frames e)\<rparr>"
  let ?buf = "buffer_resend buf (penalized (re_penalty e) (entry_frames e))"
  have inv': "rm_inv ?rm" using inv by (intro del(3)) (simp add: rm_inv_def)
  have "(nack_one q (rm, buf) :: ('e, _) outcome) = Ok (?rm, ?buf)" using Some del(1,2) by (simp add: nack_one_def Let_def)
  moreover have "in_flight (rm_reliable ?rm) + buffered ?buf = in_flight (rm_reliable rm) + buffered buf"
    using in_flight_delete [OF _ Some] inv by (simp add: rm_inv_def del: mset_map)
  ultimately show thesis using that [of ?rm ?buf] inv' by (simp add: buffer_resend_sorted)
qed

lemma each_nack_ok:
  assumes "rm_inv rm"
  shows "\<exists>rm' buf'. (each nack_one qs (rm, buf) :: ('e, _) outcome) = Ok (rm', buf') \<and> rm_inv rm'
     \<and> rm_reliable rm' = without qs (rm_reliable rm)
     \<and> in_flight (rm_reliable rm') + buffered buf' = in_flight (rm_reliable rm) + buffered buf
     \<and> (buffer_sorted buf \<longrightarrow> buffer_sorted buf') \<and> rm_role rm' = rm_role rm \<and> rm_peer rm' = rm_peer rm"
  using assms
proof (induction qs arbitrary: rm buf)
  case (Cons q qs)
  obtain rm1 buf1 where 1: "(nack_one q (rm, buf) :: ('e, _) outcome) = Ok (rm1, buf1)" "rm_inv rm1"
    "rm_reliable rm1 = AList.delete q (rm_reliable rm)"
    "in_flight (rm_reliable rm1) + buffered buf1 = in_flight (rm_reliable rm) + buffered buf"
    "buffer_sorted buf \<longrightarrow> buffer_sorted buf1" "rm_role rm1 = rm_role rm" "rm_peer rm1 = rm_peer rm"
    by (rule nack_one_ok [OF Cons.prems])
  from Cons.IH [OF 1(2), of buf1] show ?case using 1 by (auto simp: without_simps(2))
qed (simp add: without_simps)

lemma on_nack_ok:
  assumes "rm_inv rm" and "\<forall>r \<in> set (records a). record_wire r"
  obtains rm' buf' where "(on_nack_into rm a buf :: ('e, _) outcome) = Ok (rm', buf')" and "rm_inv rm'"
    and "rm_reliable rm' = without (ack_expand (records a)) (rm_reliable rm)"
    and "in_flight (rm_reliable rm') + buffered buf' = in_flight (rm_reliable rm) + buffered buf"
    and "buffer_sorted buf \<longrightarrow> buffer_sorted buf'" and "rm_role rm' = rm_role rm" and "rm_peer rm' = rm_peer rm"
proof -
  obtain rm' buf' where *: "(each nack_one (ack_expand (records a)) (rm, buf) :: ('e, _) outcome) = Ok (rm', buf')" "rm_inv rm'"
    "rm_reliable rm' = without (ack_expand (records a)) (rm_reliable rm)"
    "in_flight (rm_reliable rm') + buffered buf' = in_flight (rm_reliable rm) + buffered buf"
    "buffer_sorted buf \<longrightarrow> buffer_sorted buf'" "rm_role rm' = rm_role rm" "rm_peer rm' = rm_peer rm"
    using each_nack_ok [OF assms(1)] by blast
  have "(on_nack_into rm a buf :: ('e, _) outcome) = Ok (rm', buf')"
    using *(1) debug_assert_ok [OF *(2), where 'a = 'e] by (simp add: on_nack_into_def for_records_each [OF assms(2)])
  then show thesis using that *(2-) by blast
qed

subsection \<open>Timeouts\<close>

lemma retain_fresh_ok:
  assumes "\<forall>(k, e) \<in> set m. re_frames e \<noteq> None" and "size (in_flight m) \<le> n"
  shows "\<exists>mn' buf'. (retain_fresh now m n mn buf :: ('e, _) outcome)
       = Ok (filter (\<lambda>(k, e). now < expired_at e) m, n - size (in_flight (filter (\<lambda>(k, e). expired_at e \<le> now) m)), mn', buf')
     \<and> (now \<le> mn \<longrightarrow> now \<le> mn') \<and> mn' \<le> mn \<and> (\<forall>(k, e) \<in> set m. now < expired_at e \<longrightarrow> mn' \<le> expired_at e)
     \<and> buffered buf' = buffered buf + in_flight (filter (\<lambda>(k, e). expired_at e \<le> now) m)
     \<and> (buffer_sorted buf \<longrightarrow> buffer_sorted buf')"
  using assms
proof (induction m arbitrary: n mn buf)
  case Nil
  then show ?case by simp
next
  case (Cons x m)
  obtain k e where x: "x = (k, e)" by (cases x)
  have fr: "re_frames e = Some (entry_frames e)" using Cons.prems(1) by (auto simp: x entry_frames_def)
  have all: "\<forall>(k, e) \<in> set m. re_frames e \<noteq> None" using Cons.prems(1) by simp
  show ?case
  proof (cases "expired_at e \<le> now")
    case True
    let ?n = "n - length (entry_frames e)" and ?buf = "buffer_resend buf (penalized (re_penalty e) (entry_frames e))"
    have le: "length (entry_frames e) \<le> n" "size (in_flight m) \<le> ?n" using Cons.prems(2) by (simp_all add: x)
    from Cons.IH [OF all le(2), of mn ?buf] show ?thesis
      using True fr le(1) by (auto simp: x buffer_resend_sorted simp del: mset_map)
  next
    case False
    have "size (in_flight m) \<le> n" using Cons.prems(2) by (simp add: x)
    from Cons.IH [OF all this, of "min mn (expired_at e)" buf] show ?thesis
      using False by (auto simp: x)
  qed
qed

lemma in_flight_partition: "in_flight m = in_flight (filter P m) + in_flight (filter (\<lambda>x. \<not> P x) m)"
  by (induction m) auto

lemma process_stales_ok:
  assumes inv: "rm_inv rm" and now: "now < TIME_BOUND"
  obtains rm' buf' where "(process_stales now rm buf :: ('e, _) outcome) = Ok (rm', buf')" and "rm_inv rm'"
    and "\<exists>P. rm_reliable rm' = filter P (rm_reliable rm)"
    and "in_flight (rm_reliable rm') + buffered buf' = in_flight (rm_reliable rm) + buffered buf"
    and "buffer_sorted buf \<longrightarrow> buffer_sorted buf'" and "rm_role rm' = rm_role rm" and "rm_peer rm' = rm_peer rm"
    and "last_record_expired_at rm \<le> now \<longrightarrow> (\<forall>(k, e) \<in> set (rm_reliable rm'). now < expired_at e)"
proof (cases "rm_reliable rm = [] \<or> now < last_record_expired_at rm")
  case True
  then have "(process_stales now rm buf :: ('e, _) outcome) = Ok (rm, buf)" by (auto simp: process_stales_def)
  moreover have "\<exists>P. rm_reliable rm = filter P (rm_reliable rm)" by (rule exI [of _ "\<lambda>_. True"]) simp
  ultimately show thesis by (rule that [OF _ inv]) (use True in auto)
next
  case False
  let ?fresh = "filter (\<lambda>(k, e). now < expired_at e) (rm_reliable rm)"
  let ?stale = "filter (\<lambda>(k, e). expired_at e \<le> now) (rm_reliable rm)"
  obtain rto where rto: "(est_rto (rm_estimator rm) :: ('e, _) outcome) = Ok rto" using rto_fits [OF inv] by blast
  have t: "now + min rto MAX_SKIP_SCAN_RTO \<le> INSTANT_MAX"
    using now by (simp add: TIME_BOUND_def INSTANT_MAX_def MAX_SKIP_SCAN_RTO_def from_secs_def NANOS_PER_SEC_def min_def)
  have i: "\<forall>(k, e) \<in> set (rm_reliable rm). re_frames e \<noteq> None" "inflight rm = size (in_flight (rm_reliable rm))"
    "distinct (map fst (rm_reliable rm))" "est_inv 0 TIME_BOUND (rm_estimator rm)" using inv by (simp_all add: rm_inv_def)
  obtain mn buf' where r: "(retain_fresh now (rm_reliable rm) (inflight rm) (now + min rto MAX_SKIP_SCAN_RTO) buf :: ('e, _) outcome)
       = Ok (?fresh, inflight rm - size (in_flight ?stale), mn, buf')" "now \<le> mn"
    "buffered buf' = buffered buf + in_flight ?stale" "buffer_sorted buf \<longrightarrow> buffer_sorted buf'"
    using retain_fresh_ok [OF i(1), of "inflight rm" now "now + min rto MAX_SKIP_SCAN_RTO" buf, where 'e = 'e] i(2) by auto
  have part: "in_flight (rm_reliable rm) = in_flight ?stale + in_flight ?fresh"
    using in_flight_partition [of "rm_reliable rm" "\<lambda>(k, e). expired_at e \<le> now"] by (simp add: not_le case_prod_unfold)
  let ?rm = "rm\<lparr>rm_reliable := ?fresh, inflight := inflight rm - size (in_flight ?stale), last_record_expired_at := mn,
      rm_estimator := if length ?fresh < length (rm_reliable rm) then est_clear (rm_estimator rm) else rm_estimator rm\<rparr>"
  have "est_inv 0 TIME_BOUND (est_clear (rm_estimator rm))" using i(4) by (simp add: est_inv_def est_clear_def)
  then have inv': "rm_inv ?rm" using i part by (auto simp: rm_inv_def distinct_map_filter)
  have "(process_stales now rm buf :: ('e, _) outcome) = and_then (debug_assert_inflight ?rm) (\<lambda>rm. Ok (rm, buf'))"
    using False rto t r(1,2) by (simp add: process_stales_def Let_def)
  then have run: "(process_stales now rm buf :: ('e, _) outcome) = Ok (?rm, buf')"
    by (simp only: debug_assert_ok [OF inv'] and_then.simps)
  show thesis
  proof (rule that [OF run inv'])
    show "\<exists>P. rm_reliable ?rm = filter P (rm_reliable rm)" by (rule exI [of _ "\<lambda>(k, e). now < expired_at e"]) simp
    show "in_flight (rm_reliable ?rm) + buffered buf' = in_flight (rm_reliable rm) + buffered buf" using part r(3) by simp
  qed (use r(4) in auto)
qed

subsection \<open>Runs\<close>

text \<open>
  The life of the map: frame sets are recorded under increasing sequence numbers, acknowledged, asked for
  again, and scanned for timeouts.
\<close>

datatype resend_event = Recorded instant u8 "frame list" | Acked ack_or_nack instant | Nacked ack_or_nack | Scanned instant

fun resend_run :: "resend_event list \<Rightarrow> nat \<Rightarrow> resend_map \<Rightarrow> send_buffer \<Rightarrow> ('e, resend_map \<times> send_buffer) outcome" where
  "resend_run [] n rm buf = Ok (rm, buf)"
| "resend_run (Recorded now p fs # evs) n rm buf =
     and_then (rm_record now rm (u24_of n) p fs) (\<lambda>rm. resend_run evs (Suc n) rm buf)"
| "resend_run (Acked a at # evs) n rm buf = and_then (on_ack rm a at) (\<lambda>rm. resend_run evs n rm buf)"
| "resend_run (Nacked a # evs) n rm buf = and_then (on_nack_into rm a buf) (\<lambda>(rm, buf). resend_run evs n rm buf)"
| "resend_run (Scanned now # evs) n rm buf = and_then (process_stales now rm buf) (\<lambda>(rm, buf). resend_run evs n rm buf)"

fun resend_event_ok :: "resend_event \<Rightarrow> bool" where
  "resend_event_ok (Recorded now _ _) \<longleftrightarrow> now < TIME_BOUND"
| "resend_event_ok (Acked a at) \<longleftrightarrow> at \<le> TIME_BOUND \<and> (\<forall>r \<in> set (records a). record_wire r)"
| "resend_event_ok (Nacked a) \<longleftrightarrow> (\<forall>r \<in> set (records a). record_wire r)"
| "resend_event_ok (Scanned now) \<longleftrightarrow> now < TIME_BOUND"

text \<open>All frames recorded, and those recorded under a number that some acknowledgement names.\<close>

fun recorded_sets :: "nat \<Rightarrow> resend_event list \<Rightarrow> (u24 \<times> frame list) list" where
  "recorded_sets n [] = []"
| "recorded_sets n (Recorded _ _ fs # evs) = (u24_of n, fs) # recorded_sets (Suc n) evs"
| "recorded_sets n (_ # evs) = recorded_sets n evs"

fun acked_numbers :: "resend_event list \<Rightarrow> u24 list" where
  "acked_numbers [] = []"
| "acked_numbers (Acked a _ # evs) = ack_expand (records a) @ acked_numbers evs"
| "acked_numbers (_ # evs) = acked_numbers evs"

definition set_frames :: "(u24 \<times> frame list) list \<Rightarrow> frame multiset" where
  "set_frames ss = mset (concat (map snd ss))"

lemma set_frames_simps [simp]: "set_frames [] = {#}" "set_frames ((k, fs) # ss) = mset fs + set_frames ss"
  by (simp_all add: set_frames_def)

definition below :: "nat \<Rightarrow> (u24 \<times> resend_entry) list \<Rightarrow> bool" where
  "below n m \<longleftrightarrow> (\<forall>(k, e) \<in> set m. to_usize k < n)"

text \<open>
  A frame that is neither in flight nor waiting to be sent again was recorded under an acknowledged number:
  for every frame set with no acknowledged number, its frames are all still there.
\<close>

definition unacked :: "u24 set \<Rightarrow> (u24 \<times> 'a) list \<Rightarrow> (u24 \<times> 'a) list" where
  "unacked A ss = filter (\<lambda>(k, _). k \<notin> A) ss"

lemma unacked_simps [simp]:
  "unacked A [] = []" "unacked A ((k, x) # ss) = (if k \<in> A then unacked A ss else (k, x) # unacked A ss)"
  "unacked A (ss @ ts) = unacked A ss @ unacked A ts" "unacked {} ss = ss"
  by (auto simp: unacked_def case_prod_unfold)

lemma in_flight_mono: "in_flight (filter P m) \<subseteq># in_flight m"
  using in_flight_partition [of m P] by (simp add: mset_subset_eq_add_left)

lemma set_frames_mono: "A \<subseteq> B \<Longrightarrow> set_frames (unacked B ss) \<subseteq># set_frames (unacked A ss)"
proof (induction ss)
  case (Cons s ss)
  obtain k fs where s: "s = (k, fs)" by (cases s)
  have IH: "set_frames (unacked B ss) \<subseteq># set_frames (unacked A ss)" using Cons by blast
  then have "set_frames (unacked B ss) \<subseteq># mset fs + set_frames (unacked A ss)" by (rule subset_mset.add_increasing [OF empty_le])
  then show ?case using IH Cons.prems by (auto simp: s)
qed simp

lemma unacked_without: "unacked (set qs \<union> A) m = unacked A (without qs m)"
  by (auto simp: unacked_def without_def intro: filter_cong)

text \<open>Frames that leave the map for the buffer are not lost.\<close>

lemma moved_ok:
  assumes "m' = filter P m" and "in_flight m' + buffered buf' = in_flight m + buffered buf"
  shows "in_flight (unacked A m) + buffered buf \<subseteq># in_flight (unacked A m') + buffered buf'"
proof -
  let ?gone = "filter (\<lambda>x. \<not> P x) m"
  have "in_flight m = in_flight m' + in_flight ?gone" using in_flight_partition [of m P] assms(1) by simp
  then have buf: "buffered buf' = in_flight ?gone + buffered buf" using assms(2) by simp
  have "in_flight (unacked A m) = in_flight (unacked A m') + in_flight (unacked A ?gone)"
    using in_flight_partition [of "unacked A m" P] by (simp add: unacked_def assms(1) conj_commute)
  moreover have "in_flight (unacked A ?gone) \<subseteq># in_flight ?gone" unfolding unacked_def by (rule in_flight_mono)
  ultimately show ?thesis by (simp add: buf)
qed

lemma below_filter: "below n m \<Longrightarrow> below n (filter P m)"
  by (auto simp: below_def)

text \<open>
  \<open>kept A ss m buf m' buf'\<close>: after recording the frame sets \<open>ss\<close> and acknowledging the numbers \<open>A\<close>, every frame
  of an unacknowledged set is in flight or buffered, and nothing else is.
\<close>

definition kept :: "u24 set \<Rightarrow> (u24 \<times> frame list) list \<Rightarrow> (u24 \<times> resend_entry) list \<Rightarrow> send_buffer
    \<Rightarrow> (u24 \<times> resend_entry) list \<Rightarrow> send_buffer \<Rightarrow> bool" where
  "kept A ss m buf m' buf' \<longleftrightarrow>
     in_flight (unacked A m) + buffered buf + set_frames (unacked A ss) \<subseteq># in_flight m' + buffered buf'
     \<and> in_flight m' + buffered buf' \<subseteq># in_flight m + buffered buf + set_frames ss"

lemma kept_move:
  assumes "kept A ss m1 buf1 m' buf'" and "m1 = filter P m" and "in_flight m1 + buffered buf1 = in_flight m + buffered buf"
  shows "kept A ss m buf m' buf'"
proof -
  have "in_flight (unacked A m) + buffered buf \<subseteq># in_flight (unacked A m1) + buffered buf1"
    by (rule moved_ok [OF assms(2,3)])
  then have "in_flight (unacked A m) + buffered buf + set_frames (unacked A ss)
      \<subseteq># in_flight (unacked A m1) + buffered buf1 + set_frames (unacked A ss)" by (rule subset_mset.add_right_mono)
  then show ?thesis using assms(1,3) unfolding kept_def by (metis subset_mset.trans)
qed

lemma kept_ack:
  assumes "kept A ss (without qs m) buf m' buf'"
  shows "kept (set qs \<union> A) ss m buf m' buf'"
proof -
  have "set_frames (unacked (set qs \<union> A) ss) \<subseteq># set_frames (unacked A ss)" by (rule set_frames_mono) simp
  then have "in_flight (unacked (set qs \<union> A) m) + buffered buf + set_frames (unacked (set qs \<union> A) ss)
      \<subseteq># in_flight (unacked A (without qs m)) + buffered buf + set_frames (unacked A ss)"
    unfolding unacked_without by (rule subset_mset.add_left_mono)
  moreover have "in_flight (without qs m) \<subseteq># in_flight m" unfolding without_def by (rule in_flight_mono)
  then have "in_flight (without qs m) + buffered buf + set_frames ss \<subseteq># in_flight m + buffered buf + set_frames ss"
    by (intro subset_mset.add_right_mono)
  ultimately show ?thesis using assms unfolding kept_def by (meson subset_mset.trans)
qed

lemma kept_record:
  assumes "kept A ss (m @ [(k, e)]) buf m' buf'" and "re_frames e = Some fs"
  shows "kept A ((k, fs) # ss) m buf m' buf'"
proof -
  have e: "entry_frames e = fs" using assms(2) by (simp add: entry_frames_def)
  have "in_flight (unacked A (m @ [(k, e)])) + buffered buf + set_frames (unacked A ss)
      = in_flight (unacked A m) + buffered buf + set_frames (unacked A ((k, fs) # ss))"
    "in_flight (m @ [(k, e)]) + buffered buf + set_frames ss = in_flight m + buffered buf + set_frames ((k, fs) # ss)"
    by (simp_all add: in_flight_append e)
  then show ?thesis using assms(1) by (simp only: kept_def)
qed

lemma resend_run_ok:
  assumes "rm_inv rm" and "below n (rm_reliable rm)" and "n + length (recorded_sets n evs) < 2 ^ 24"
    and "\<forall>ev \<in> set evs. resend_event_ok ev"
  shows "\<exists>rm' buf'. (resend_run evs n rm buf :: ('e, _) outcome) = Ok (rm', buf') \<and> rm_inv rm'
     \<and> kept (set (acked_numbers evs)) (recorded_sets n evs) (rm_reliable rm) buf (rm_reliable rm') buf'"
  using assms
proof (induction evs arbitrary: n rm buf)
  case Nil
  then show ?case by (simp add: kept_def)
next
  case (Cons ev evs)
  have oks: "\<forall>ev \<in> set evs. resend_event_ok ev" and ev: "resend_event_ok ev" using Cons.prems(4) by simp_all
  show ?case
  proof (cases ev)
    case (Recorded now p fs)
    have n: "n < 2 ^ 24" "to_usize (u24_of n) = n" using Cons.prems(3) Recorded by simp_all
    have "u24_of n \<notin> fst ` set (rm_reliable rm)" using Cons.prems(2) n(2) by (auto simp: below_def)
    moreover have "now < TIME_BOUND" using ev Recorded by simp
    ultimately obtain rm1 e where 1: "(rm_record now rm (u24_of n) p fs :: ('e, _) outcome) = Ok rm1" "rm_inv rm1"
      "rm_reliable rm1 = rm_reliable rm @ [(u24_of n, e)]" "re_frames e = Some fs"
      using rm_record_ok [OF Cons.prems(1), where 'e = 'e] by metis
    have b: "below (Suc n) (rm_reliable rm1)" using Cons.prems(2) n(2) by (auto simp: below_def 1(3))
    have l: "Suc n + length (recorded_sets (Suc n) evs) < 2 ^ 24" using Cons.prems(3) Recorded by simp
    from Cons.IH [OF 1(2) b l oks, of buf] show ?thesis
      using 1(1) kept_record [OF _ 1(4)] unfolding 1(3) by (auto simp: Recorded)
  next
    case (Acked a at)
    have "at \<le> TIME_BOUND" "\<forall>r \<in> set (records a). record_wire r" using ev Acked by simp_all
    then obtain rm1 where 1: "(on_ack rm a at :: ('e, _) outcome) = Ok rm1" "rm_inv rm1"
      "rm_reliable rm1 = without (ack_expand (records a)) (rm_reliable rm)" by (rule on_ack_ok [OF Cons.prems(1)])
    have b: "below n (rm_reliable rm1)" using below_filter [OF Cons.prems(2)] by (simp add: 1(3) without_def)
    have l: "n + length (recorded_sets n evs) < 2 ^ 24" using Cons.prems(3) Acked by simp
    from Cons.IH [OF 1(2) b l oks, of buf] show ?thesis
      using 1(1) kept_ack unfolding 1(3) by (fastforce simp: Acked)
  next
    case (Nacked a)
    have "\<forall>r \<in> set (records a). record_wire r" using ev Nacked by simp
    then obtain rm1 buf1 where 1: "(on_nack_into rm a buf :: ('e, _) outcome) = Ok (rm1, buf1)" "rm_inv rm1"
      "rm_reliable rm1 = without (ack_expand (records a)) (rm_reliable rm)"
      "in_flight (rm_reliable rm1) + buffered buf1 = in_flight (rm_reliable rm) + buffered buf"
      by (rule on_nack_ok [OF Cons.prems(1)])
    have b: "below n (rm_reliable rm1)" using below_filter [OF Cons.prems(2)] by (simp add: 1(3) without_def)
    have l: "n + length (recorded_sets n evs) < 2 ^ 24" using Cons.prems(3) Nacked by simp
    from Cons.IH [OF 1(2) b l oks, of buf1] show ?thesis
      using 1(1) kept_move [OF _ 1(3) [unfolded without_def] 1(4)] by (auto simp: Nacked)
  next
    case (Scanned now)
    have "now < TIME_BOUND" using ev Scanned by simp
    then obtain rm1 buf1 where 1: "(process_stales now rm buf :: ('e, _) outcome) = Ok (rm1, buf1)" "rm_inv rm1"
      "\<exists>P. rm_reliable rm1 = filter P (rm_reliable rm)"
      "in_flight (rm_reliable rm1) + buffered buf1 = in_flight (rm_reliable rm) + buffered buf"
      by (rule process_stales_ok [OF Cons.prems(1)])
    from 1(3) obtain P where P: "rm_reliable rm1 = filter P (rm_reliable rm)" by blast
    have b: "below n (rm_reliable rm1)" using below_filter [OF Cons.prems(2)] by (simp add: P)
    have l: "n + length (recorded_sets n evs) < 2 ^ 24" using Cons.prems(3) Scanned by simp
    from Cons.IH [OF 1(2) b l oks, of buf1] show ?thesis
      using 1(1) kept_move [OF _ P 1(4)] by (auto simp: Scanned)
  qed
qed

lemma resend_map_new_inv: "rm_inv (resend_map_new now role peer rfc6298_new)"
  by (simp add: rm_inv_def resend_map_new_def est_inv_def rfc6298_new_def INITIAL_RTT_def from_millis_def TIME_BOUND_def)

text \<open>The time of the next scan changes only in a scan.\<close>

lemma for_range_keeps:
  assumes "\<And>q s s'. f q s = Ok s' \<Longrightarrow> g s' = g s" and "for_range f ns s = Ok s'"
  shows "g s' = g s"
  using assms(2)
proof (induction ns arbitrary: s)
  case (Cons n ns)
  then obtain i s1 where "f i s = Ok s1" "for_range f ns s1 = Ok s'" by (auto simp: and_then_eq_Ok)
  then show ?case using assms(1) [of i s s1] Cons.IH [of s1] by (simp only:)
qed simp

lemma for_records_keeps:
  assumes "\<And>q s s'. f q s = Ok s' \<Longrightarrow> g s' = g s" and "for_records f rs s = Ok s'"
  shows "g s' = g s"
  using assms(2)
proof (induction rs arbitrary: s)
  case (Cons r rs)
  show ?case
  proof (cases r)
    case (Range a b)
    then obtain s1 where 1: "for_range f [unat (to_u32 a)..<Suc (unat (to_u32 b))] s = Ok s1" "for_records f rs s1 = Ok s'"
      using Cons.prems by (auto simp: and_then_eq_Ok simp del: upt_Suc)
    have "g s1 = g s" by (rule for_range_keeps [OF assms(1) 1(1)])
    then show ?thesis using Cons.IH [OF 1(2)] by (simp only:)
  next
    case (Single q)
    then obtain s1 where "f q s = Ok s1" "for_records f rs s1 = Ok s'" using Cons.prems by (auto simp: and_then_eq_Ok)
    then show ?thesis using assms(1) [of q s s1] Cons.IH [of s1] by (simp only:)
  qed
qed simp

lemma debug_assert_same: "debug_assert_inflight rm = Ok rm' \<Longrightarrow> rm' = rm"
  by (auto simp: debug_assert_inflight_def and_then_eq_Ok split: if_splits)

lemma on_ack_scan:
  assumes "on_ack rm a t = (Ok rm' :: ('e, _) outcome)"
  shows "last_record_expired_at rm' = last_record_expired_at rm"
proof -
  obtain rm1 where 1: "for_records (ack_one t) (records a) rm = (Ok rm1 :: ('e, _) outcome)" "debug_assert_inflight rm1 = (Ok rm' :: ('e, _) outcome)"
    using assms by (auto simp: on_ack_def and_then_eq_Ok)
  have "last_record_expired_at rm1 = last_record_expired_at rm"
    by (rule for_records_keeps [OF _ 1(1)]) (auto simp: ack_one_def and_then_eq_Ok Let_def split: option.splits)
  then show ?thesis using debug_assert_same [OF 1(2)] by simp
qed

lemma on_nack_scan:
  assumes "on_nack_into rm a buf = (Ok (rm', buf') :: ('e, _) outcome)"
  shows "last_record_expired_at rm' = last_record_expired_at rm"
proof -
  obtain rm1 where 1: "for_records nack_one (records a) (rm, buf) = (Ok (rm1, buf') :: ('e, _) outcome)" "debug_assert_inflight rm1 = (Ok rm' :: ('e, _) outcome)"
    using assms by (auto simp: on_nack_into_def and_then_eq_Ok)
  have "last_record_expired_at (fst (rm1, buf')) = last_record_expired_at (fst (rm, buf))"
    by (rule for_records_keeps [where g = "\<lambda>x. last_record_expired_at (fst x)", OF _ 1(1)])
      (auto simp: nack_one_def and_then_eq_Ok Let_def split: option.splits)
  then show ?thesis using debug_assert_same [OF 1(2)] by simp
qed

text \<open>Entries that have expired, and what is left of a map when only fresh ones stay.\<close>

definition stale :: "instant \<Rightarrow> (u24 \<times> resend_entry) list \<Rightarrow> (u24 \<times> resend_entry) list" where
  "stale now m = filter (\<lambda>(k, e). expired_at e \<le> now) m"

lemma stale_moved:
  assumes "\<forall>(k, e) \<in> set (filter P m). now < expired_at e" and "in_flight (filter P m) + B' = in_flight m + B"
  shows "in_flight (stale now m) + B \<subseteq># B'"
proof -
  have "stale now m = stale now (filter (\<lambda>x. \<not> P x) m)"
    using assms(1) unfolding stale_def filter_filter by (intro filter_cong) force+
  then have "in_flight (stale now m) \<subseteq># in_flight (filter (\<lambda>x. \<not> P x) m)"
    using in_flight_mono [of "\<lambda>(k, e). expired_at e \<le> now" "filter (\<lambda>x. \<not> P x) m"] by (simp only: stale_def)
  moreover have "B' = in_flight (filter (\<lambda>x. \<not> P x) m) + B"
    using assms(2) in_flight_partition [of m P] by (simp add: add.assoc)
  ultimately show ?thesis by (simp add: subset_mset.add_right_mono)
qed

subsection \<open>Properties\<close>

text \<open>
  C20: no reliable frame is lost before it is acknowledged.  For any sequence of frame sets recorded under
  consecutive numbers, of acknowledgements and negative acknowledgements (naming any 24-bit numbers, also
  repeated or never sent) and of timeout scans, at times within 36 years of each other, nothing panics, in
  particular the assertion that the counter of frames in flight is exact always holds; every frame of a set
  no acknowledgement names is still in flight or waiting to be sent again; and nothing but recorded frames is.
\<close>

theorem no_frame_lost:
  assumes "\<forall>ev \<in> set evs. resend_event_ok ev" and "length (recorded_sets 0 evs) < 2 ^ 24"
  shows "\<exists>rm buf. resend_run evs 0 (resend_map_new now role peer rfc6298_new) send_buffer_new = (Ok (rm, buf) :: (io_error, _) outcome)
     \<and> inflight rm = size (in_flight (rm_reliable rm))
     \<and> set_frames (unacked (set (acked_numbers evs)) (recorded_sets 0 evs)) \<subseteq># in_flight (rm_reliable rm) + buffered buf
     \<and> in_flight (rm_reliable rm) + buffered buf \<subseteq># set_frames (recorded_sets 0 evs)"
proof -
  have "below 0 (rm_reliable (resend_map_new now role peer rfc6298_new))" by (simp add: below_def resend_map_new_def)
  from resend_run_ok [OF resend_map_new_inv this _ assms(1), where buf = send_buffer_new and 'e = io_error] assms(2)
  show ?thesis by (auto simp: kept_def rm_inv_def resend_map_new_def buffered_def send_buffer_new_def)
qed

definition sample_events :: "resend_event list" where
  "sample_events = [Recorded 10 0 [plain_frame Reliable 3], Recorded 20 0 [plain_frame Reliable 4], Acked \<lparr> records = [Single (u24_of 0)] \<rparr> 30,
     Nacked \<lparr> records = [Range (u24_of 1) (u24_of 2)] \<rparr>, Scanned 40]"

theorem no_frame_lost_witness:
  "\<exists>rm buf. resend_run sample_events 0 (resend_map_new 0 (Client 0) sample_peer rfc6298_new) send_buffer_new
       = (Ok (rm, buf) :: (io_error, _) outcome)
     \<and> {# plain_frame Reliable 4 #} \<subseteq># in_flight (rm_reliable rm) + buffered buf"
proof -
  have ok: "\<forall>ev \<in> set sample_events. resend_event_ok ev" by (simp add: sample_events_def TIME_BOUND_def)
  have ne: "u24_of (Suc 0) \<noteq> u24_of 0" by (simp add: u24_of_def)
  show ?thesis
    using no_frame_lost [OF ok, of 0 "Client 0" sample_peer] ne by (auto simp: sample_events_def)
qed

end
