(* ===== verification/Reliable.thy ===== *)
theory Reliable
  imports Flush_Strategy Resend
begin

text \<open>
  The reliability layer of \<open>src/src/reliable.rs\<close>: acknowledgements, negative acknowledgements,
  unconnected packets and frame sets are sent through the sink below; reliable frame sets are kept until
  they are acknowledged.  The link is shared with the reading half and is passed along beside the state.
  \<open>now\<close> stands for the readings of \<open>Instant::now()\<close> during a call; log output is left out.
\<close>

subsection \<open>State\<close>

record 's reliable_layer =
  rl_frame :: 's
  seq_num_write_index :: u24
  rl_peer :: peer
  rl_role :: role
  rl_buf :: send_buffer
  rl_resend :: resend_map

definition wrap_reliable :: "'s \<Rightarrow> instant \<Rightarrow> peer \<Rightarrow> role \<Rightarrow> 's reliable_layer" where
  "wrap_reliable frame now peer role = \<lparr> rl_frame = frame, seq_num_write_index = U24 0, rl_peer = peer, rl_role = role,
     rl_buf = send_buffer_new, rl_resend = resend_map_new now role peer rfc6298_new \<rparr>"

type_synonym datagram = "packet \<times> socket_addr"

subsection \<open>Processing what came in\<close>

fun on_acks :: "(ack_or_nack \<times> instant) list \<Rightarrow> resend_map \<Rightarrow> ('e, resend_map) outcome" where
  "on_acks [] rm = Ok rm"
| "on_acks ((ack, received_at) # as) rm = and_then (on_ack rm ack received_at) (on_acks as)"

fun on_nacks :: "ack_or_nack list \<Rightarrow> resend_map \<Rightarrow> send_buffer \<Rightarrow> ('e, resend_map \<times> send_buffer) outcome" where
  "on_nacks [] rm buf = Ok (rm, buf)"
| "on_nacks (nack # ns) rm buf = and_then (on_nack_into rm nack buf) (\<lambda>(rm, buf). on_nacks ns rm buf)"

definition process_inflight :: "('qa, 'qn, 'qu, 'qf) link_api \<Rightarrow> instant \<Rightarrow> 's reliable_layer \<Rightarrow> ('qa, 'qn, 'qu, 'qf) link
    \<Rightarrow> ('e, 's reliable_layer \<times> ('qa, 'qn, 'qu, 'qf) link) outcome" where
  "process_inflight Q now st l =
     (case process_ack Q l of (acks, l) \<Rightarrow>
        and_then (on_acks acks (rl_resend st)) (\<lambda>rm.
        (case process_nack Q l of (nacks, l) \<Rightarrow>
           and_then (on_nacks nacks rm (rl_buf st)) (\<lambda>(rm, buf).
           and_then (process_stales now rm buf) (\<lambda>(rm, buf). Ok (st\<lparr>rl_resend := rm, rl_buf := buf\<rparr>, l))))))"

subsection \<open>Flushing\<close>

text \<open>
  What a step of the loop in \<open>try_empty\<close> does next: go on with new counters for acknowledgements, negative
  acknowledgements and packets, or return from the function.
\<close>

type_synonym counts = "nat \<times> nat \<times> nat"

datatype step = Continue counts | Stop "(io_error + unit) poll"

type_synonym ('s, 'qa, 'qn, 'qu, 'qf, 'e) step_result =
  "('e, step \<times> 's reliable_layer \<times> ('qa, 'qn, 'qu, 'qf) link) outcome"

definition then_step :: "('s, 'qa, 'qn, 'qu, 'qf, 'e) step_result
    \<Rightarrow> (counts \<Rightarrow> 's reliable_layer \<Rightarrow> ('qa, 'qn, 'qu, 'qf) link \<Rightarrow> ('s, 'qa, 'qn, 'qu, 'qf, 'e) step_result)
    \<Rightarrow> ('s, 'qa, 'qn, 'qu, 'qf, 'e) step_result" where
  "then_step m f = and_then m (\<lambda>(r, st, l). case r of Continue c \<Rightarrow> f c st l | Stop p \<Rightarrow> Ok (Stop p, st, l))"

text \<open>\<open>ready!(this.frame.as_mut().poll_ready(cx))?\<close>, then \<open>k\<close>.\<close>

definition when_ready :: "('s, datagram) sink_api \<Rightarrow> ('s reliable_layer \<Rightarrow> ('s, 'qa, 'qn, 'qu, 'qf, 'e) step_result)
    \<Rightarrow> 's reliable_layer \<Rightarrow> ('qa, 'qn, 'qu, 'qf) link \<Rightarrow> ('s, 'qa, 'qn, 'qu, 'qf, 'e) step_result" where
  "when_ready K k st l = (case sink_poll_ready K (rl_frame st) of
      (Pending, s) \<Rightarrow> Ok (Stop Pending, st\<lparr>rl_frame := s\<rparr>, l)
    | (Ready (Inl e), s) \<Rightarrow> Ok (Stop (Ready (Inl e)), st\<lparr>rl_frame := s\<rparr>, l)
    | (Ready (Inr _), s) \<Rightarrow> k (st\<lparr>rl_frame := s\<rparr>))"

text \<open>\<open>this.frame.as_mut().start_send((packet, this.peer.addr))?\<close>, then \<open>k\<close>.\<close>

definition send_then :: "('s, datagram) sink_api \<Rightarrow> packet \<Rightarrow> ('s reliable_layer \<Rightarrow> ('s, 'qa, 'qn, 'qu, 'qf, 'e) step_result)
    \<Rightarrow> 's reliable_layer \<Rightarrow> ('qa, 'qn, 'qu, 'qf) link \<Rightarrow> ('s, 'qa, 'qn, 'qu, 'qf, 'e) step_result" where
  "send_then K p k st l = (case sink_start_send K (rl_frame st) (p, peer_addr (rl_peer st)) of
      (Inl e, s) \<Rightarrow> Ok (Stop (Ready (Inl e)), st\<lparr>rl_frame := s\<rparr>, l)
    | (Inr _, s) \<Rightarrow> k (st\<lparr>rl_frame := s\<rparr>))"

definition flush_acks :: "('s, datagram) sink_api \<Rightarrow> flush_strategy \<Rightarrow> counts \<Rightarrow> 's reliable_layer \<Rightarrow> ('qa, 'qn, 'qu, 'qf) link
    \<Rightarrow> ('s, 'qa, 'qn, 'qu, 'qf, 'e) step_result" where
  "flush_acks K strategy = (\<lambda>(ack_cnt, nack_cnt, pack_cnt) st l. when_ready K (\<lambda>st.
     if flush_ack strategy
     then and_then (process_outgoing_ack l (peer_mtu (rl_peer st))) (\<lambda>(a, l). case a of
         Some ack \<Rightarrow> and_then (total_cnt ack) (\<lambda>n.
           send_then K (Connected (Ack ack)) (\<lambda>st. Ok (Continue (ack_cnt + n, nack_cnt, pack_cnt), st, l)) st l)
       | None \<Rightarrow> Ok (Continue (ack_cnt, nack_cnt, pack_cnt), st, l))
     else Ok (Continue (ack_cnt, nack_cnt, pack_cnt), st, l)) st l)"

definition flush_nacks :: "('s, datagram) sink_api \<Rightarrow> flush_strategy \<Rightarrow> counts \<Rightarrow> 's reliable_layer \<Rightarrow> ('qa, 'qn, 'qu, 'qf) link
    \<Rightarrow> ('s, 'qa, 'qn, 'qu, 'qf, 'e) step_result" where
  "flush_nacks K strategy = (\<lambda>(ack_cnt, nack_cnt, pack_cnt) st l. when_ready K (\<lambda>st.
     if flush_nack strategy
     then and_then (process_outgoing_nack l (peer_mtu (rl_peer st))) (\<lambda>(a, l). case a of
         Some nack \<Rightarrow> and_then (total_cnt nack) (\<lambda>n.
           send_then K (Connected (Nack nack)) (\<lambda>st. Ok (Continue (ack_cnt, nack_cnt + n, pack_cnt), st, l)) st l)
       | None \<Rightarrow> Ok (Continue (ack_cnt, nack_cnt, pack_cnt), st, l))
     else Ok (Continue (ack_cnt, nack_cnt, pack_cnt), st, l)) st l)"

definition flush_unconnected :: "('qa, 'qn, 'qu, 'qf) link_api \<Rightarrow> ('s, datagram) sink_api \<Rightarrow> counts \<Rightarrow> 's reliable_layer
    \<Rightarrow> ('qa, 'qn, 'qu, 'qf) link \<Rightarrow> ('s, 'qa, 'qn, 'qu, 'qf, 'e) step_result" where
  "flush_unconnected Q K = (\<lambda>(ack_cnt, nack_cnt, pack_cnt) st l. when_ready K (\<lambda>st.
     case next_unconnected Q l of
       (Some p, l) \<Rightarrow> send_then K (Unconnected p) (\<lambda>st. Ok (Continue (ack_cnt, nack_cnt, pack_cnt + 1), st, l)) st l
     | (None, l) \<Rightarrow> Ok (Continue (ack_cnt, nack_cnt, pack_cnt), st, l)) st l)"

definition flush_frames :: "('s, datagram) sink_api \<Rightarrow> instant \<Rightarrow> counts \<Rightarrow> 's reliable_layer \<Rightarrow> ('qa, 'qn, 'qu, 'qf) link
    \<Rightarrow> ('s, 'qa, 'qn, 'qu, 'qf, 'e) step_result" where
  "flush_frames K now = (\<lambda>(ack_cnt, nack_cnt, pack_cnt) st l. when_ready K (\<lambda>st.
     and_then (buffer_pop (unat (peer_mtu (rl_peer st))) False [] (rl_buf st)) (\<lambda>(buf, reliable, penalty, frames).
       let st = st\<lparr>rl_buf := buf\<rparr>; seq = seq_num_write_index st in
       if frames = [] then Ok (Continue (ack_cnt, nack_cnt, pack_cnt), st, l)
       else send_then K (Connected (FrameSet \<lparr> fs_seq_num = seq, fs_set = frames \<rparr>)) (\<lambda>st.
         and_then (if reliable then rm_record now (rl_resend st) seq penalty frames else Ok (rl_resend st)) (\<lambda>rm.
         and_then (u24_incr seq) (\<lambda>next.
           Ok (Continue (ack_cnt, nack_cnt, pack_cnt + 1), st\<lparr>rl_resend := rm, seq_num_write_index := next\<rparr>, l)))) st l)) st l)"

definition flush_round :: "('qa, 'qn, 'qu, 'qf) link_api \<Rightarrow> ('s, datagram) sink_api \<Rightarrow> flush_strategy \<Rightarrow> instant
    \<Rightarrow> counts \<Rightarrow> 's reliable_layer \<Rightarrow> ('qa, 'qn, 'qu, 'qf) link \<Rightarrow> ('s, 'qa, 'qn, 'qu, 'qf, 'e) step_result" where
  "flush_round Q K strategy now c st l =
     then_step (flush_acks K strategy c st l) (\<lambda>c st l.
     then_step (flush_nacks K strategy c st l) (\<lambda>c st l.
     if \<not> flush_pack strategy then Ok (Continue c, st, l)
     else then_step (flush_unconnected Q K c st l) (flush_frames K now)))"

text \<open>The loop of \<open>try_empty\<close> with a bound on its rounds; \<open>None\<close> when the bound is reached.\<close>

fun flush_loop :: "nat \<Rightarrow> ('qa, 'qn, 'qu, 'qf) link_api \<Rightarrow> ('s, datagram) sink_api \<Rightarrow> flush_strategy \<Rightarrow> instant
    \<Rightarrow> counts \<Rightarrow> 's reliable_layer \<Rightarrow> ('qa, 'qn, 'qu, 'qf) link \<Rightarrow> ('s, 'qa, 'qn, 'qu, 'qf, 'e) step_result option" where
  "flush_loop 0 Q K strategy now c st l = None"
| "flush_loop (Suc n) Q K strategy now c st l =
     (if check_flushed Q strategy l (rl_buf st) then Some (Ok (Continue c, st, l))
      else (case flush_round Q K strategy now c st l of
          Ok (Continue c, st, l) \<Rightarrow> flush_loop n Q K strategy now c st l
        | r \<Rightarrow> Some r))"

text \<open>
  \<open>try_empty\<close>: the strategy is the extension data of the context, when there is one, and is updated.
\<close>

definition mark_all :: "flush_strategy option \<Rightarrow> counts \<Rightarrow> ('e, flush_strategy option) outcome" where
  "mark_all ext = (\<lambda>(ack_cnt, nack_cnt, pack_cnt). case ext of
      None \<Rightarrow> Ok None
    | Some s \<Rightarrow>
        and_then (mark_flushed_ack s ack_cnt) (\<lambda>s.
        and_then (mark_flushed_nack s nack_cnt) (\<lambda>s.
        and_then (mark_flushed_pack s pack_cnt) (\<lambda>s. Ok (Some s)))))"

definition strategy_of :: "flush_strategy option \<Rightarrow> flush_strategy" where
  "strategy_of ext = (case ext of Some s \<Rightarrow> s | None \<Rightarrow> strategy_default)"

type_synonym ('s, 'qa, 'qn, 'qu, 'qf, 'e) flush_result =
  "('e, (io_error + unit) poll \<times> flush_strategy option \<times> 's reliable_layer \<times> ('qa, 'qn, 'qu, 'qf) link) outcome"

definition try_empty :: "nat \<Rightarrow> ('qa, 'qn, 'qu, 'qf) link_api \<Rightarrow> ('s, datagram) sink_api \<Rightarrow> flush_strategy option \<Rightarrow> instant
    \<Rightarrow> 's reliable_layer \<Rightarrow> ('qa, 'qn, 'qu, 'qf) link \<Rightarrow> ('s, 'qa, 'qn, 'qu, 'qf, 'e) flush_result option" where
  "try_empty n Q K ext now st l = (case process_inflight Q now st l of
      Ok (st, l) \<Rightarrow> (case flush_loop n Q K (strategy_of ext) now (0, 0, 0) st l of
          None \<Rightarrow> None
        | Some r \<Rightarrow> Some (and_then r (\<lambda>(s, st, l). case s of
              Continue c \<Rightarrow> and_then (mark_all ext c) (\<lambda>ext. Ok (Ready (Inr ()), ext, st, l))
            | Stop p \<Rightarrow> Ok (p, ext, st, l))))
    | Err e \<Rightarrow> Some (Err e)
    | Panic \<Rightarrow> Some Panic)"

subsection \<open>The sink\<close>

definition rl_poll_ready :: "('qa, 'qn, 'qu, 'qf) link_api \<Rightarrow> instant \<Rightarrow> 's reliable_layer \<Rightarrow> ('qa, 'qn, 'qu, 'qf) link
    \<Rightarrow> ('e, (io_error + unit) poll \<times> 's reliable_layer \<times> ('qa, 'qn, 'qu, 'qf) link) outcome" where
  "rl_poll_ready Q now st l = and_then (process_inflight Q now st l) (\<lambda>(st, l). Ok (Ready (Inr ()), st, l))"

definition rl_start_send :: "'s reliable_layer \<Rightarrow> priority \<times> frame \<Rightarrow> (io_error + unit) \<times> 's reliable_layer" where
  "rl_start_send st item = (Inr (), st\<lparr>rl_buf := buffer_send (rl_buf st) item\<rparr>)"

definition rl_poll_flush :: "nat \<Rightarrow> ('qa, 'qn, 'qu, 'qf) link_api \<Rightarrow> ('s, datagram) sink_api \<Rightarrow> flush_strategy option \<Rightarrow> instant
    \<Rightarrow> 's reliable_layer \<Rightarrow> ('qa, 'qn, 'qu, 'qf) link \<Rightarrow> ('s, 'qa, 'qn, 'qu, 'qf, 'e) flush_result option" where
  "rl_poll_flush n Q K ext now st l = (case try_empty n Q K ext now st l of
      None \<Rightarrow> None
    | Some r \<Rightarrow> Some (and_then r (\<lambda>(p, ext, st, l). case p of
          Ready (Inr _) \<Rightarrow> (case sink_poll_flush K (rl_frame st) of (p, s) \<Rightarrow> Ok (p, ext, st\<lparr>rl_frame := s\<rparr>, l))
        | _ \<Rightarrow> Ok (p, ext, st, l))))"

text \<open>
  The loop of \<open>poll_close\<close>: one round for every clock reading of the list, \<open>None\<close> when the readings run
  out while the loop still goes on.  The result has the timers set.
\<close>

fun close_loop :: "instant list \<Rightarrow> nat \<Rightarrow> ('qa, 'qn, 'qu, 'qf) link_api \<Rightarrow> ('s, datagram) sink_api \<Rightarrow> 'w \<Rightarrow> flush_strategy option
    \<Rightarrow> 's reliable_layer \<Rightarrow> ('qa, 'qn, 'qu, 'qf) link \<Rightarrow> 'w reactor
    \<Rightarrow> ('e, (io_error + unit) poll \<times> flush_strategy option \<times> 's reliable_layer \<times> ('qa, 'qn, 'qu, 'qf) link \<times> 'w reactor) outcome option" where
  "close_loop [] n Q K waker ext st l r = None"
| "close_loop (now # ts) n Q K waker ext st l r = (case try_empty n Q K ext now st l of
      None \<Rightarrow> None
    | Some Panic \<Rightarrow> Some Panic
    | Some (Err e) \<Rightarrow> Some (Err e)
    | Some (Ok (p, ext, st, l)) \<Rightarrow> (case p of
        Ready (Inr _) \<Rightarrow>
          if \<not> (buffer_is_empty (rl_buf st) \<and> unconnected_empty Q l \<and> outgoing_ack_empty l \<and> outgoing_nack_empty l) then Some Panic
          else (case sink_poll_flush K (rl_frame st) of
              (Ready (Inr _), s) \<Rightarrow>
                let st = st\<lparr>rl_frame := s\<rparr> in
                if rm_is_empty (rl_resend st) then
                  (case sink_poll_close K (rl_frame st) of (p, s) \<Rightarrow> Some (Ok (p, ext, st\<lparr>rl_frame := s\<rparr>, turn_off_waking l, r)))
                else (case poll_wait now waker (rl_resend st) r of
                    (Pending, r) \<Rightarrow> Some (Ok (Pending, ext, st, l, r))
                  | (Ready _, r) \<Rightarrow> close_loop ts n Q K waker ext st l r)
            | (p, s) \<Rightarrow> Some (Ok (p, ext, st\<lparr>rl_frame := s\<rparr>, l, r)))
      | _ \<Rightarrow> Some (Ok (p, ext, st, l, r))))"

definition rl_poll_close :: "instant list \<Rightarrow> nat \<Rightarrow> ('qa, 'qn, 'qu, 'qf) link_api \<Rightarrow> ('s, datagram) sink_api \<Rightarrow> 'w \<Rightarrow> flush_strategy option
    \<Rightarrow> 's reliable_layer \<Rightarrow> ('qa, 'qn, 'qu, 'qf) link \<Rightarrow> 'w reactor
    \<Rightarrow> ('e, (io_error + unit) poll \<times> flush_strategy option \<times> 's reliable_layer \<times> ('qa, 'qn, 'qu, 'qf) link \<times> 'w reactor) outcome option" where
  "rl_poll_close ts n Q K waker ext st l r = close_loop ts n Q K waker ext st (turn_on_waking l) r"

subsection \<open>What a flush does\<close>

text \<open>The contents of a sequence of datagrams.\<close>

fun ack_part :: "packet \<Rightarrow> u24 list" where
  "ack_part (Connected (Ack a)) = ack_expand (records a)"
| "ack_part _ = []"

fun nack_part :: "packet \<Rightarrow> u24 list" where
  "nack_part (Connected (Nack a)) = ack_expand (records a)"
| "nack_part _ = []"

fun unconnected_part :: "packet \<Rightarrow> unconnected list" where
  "unconnected_part (Unconnected p) = [p]"
| "unconnected_part _ = []"

fun set_part :: "packet \<Rightarrow> frame_set list" where
  "set_part (Connected (FrameSet fs)) = [fs]"
| "set_part _ = []"

definition collect :: "(packet \<Rightarrow> 'a list) \<Rightarrow> datagram list \<Rightarrow> 'a list" where
  "collect part ds = concat (map (part \<circ> fst) ds)"

lemma collect_simps [simp]:
  "collect part [] = []" "collect part ((p, a) # ds) = part p @ collect part ds" "collect part (ds @ es) = collect part ds @ collect part es"
  by (simp_all add: collect_def)

definition set_reliable :: "frame_set \<Rightarrow> bool" where
  "set_reliable fs \<longleftrightarrow> (\<exists>f \<in> set (fs_set fs). is_reliable (reliability (f_flags f)))"

definition frames_in :: "frame_set list \<Rightarrow> frame multiset" where
  "frames_in fss = mset (concat (map fs_set fss))"

lemma frames_in_simps [simp]:
  "frames_in [] = {#}" "frames_in (fs # fss) = mset (fs_set fs) + frames_in fss" "frames_in (fss @ gss) = frames_in fss + frames_in gss"
  by (simp_all add: frames_in_def)

text \<open>A frame set that is worth sending and fits a datagram.\<close>

definition set_fits :: "nat \<Rightarrow> frame_set \<Rightarrow> bool" where
  "set_fits mtu fs \<longleftrightarrow> fs_set fs \<noteq> [] \<and> FRAME_SET_HEADER_SIZE + frames_size (fs_set fs) \<le> mtu"

text \<open>
  The accounts of a flush from \<open>st0\<close>, \<open>l0\<close> to \<open>st\<close>, \<open>l\<close>, by what the sink accepted in between: what was waiting
  has been sent, in order, or is still waiting; the frame sets are not empty, carry consecutive sequence numbers and
  fit the MTU; reliable ones are in flight.
\<close>

definition acct :: "('s \<Rightarrow> datagram list) \<Rightarrow> ('qu \<Rightarrow> unconnected list) \<Rightarrow> 's reliable_layer \<Rightarrow> ('qa, 'qn, 'qu, 'qf) link
    \<Rightarrow> 's reliable_layer \<Rightarrow> ('qa, 'qn, 'qu, 'qf) link \<Rightarrow> bool" where
  "acct log uitems st0 l0 st l \<longleftrightarrow> rl_peer st = rl_peer st0 \<and> to_usize (seq_num_write_index st0) \<le> to_usize (seq_num_write_index st)
     \<and> (\<exists>ds. log (rl_frame st) = log (rl_frame st0) @ ds \<and> (\<forall>d \<in> set ds. snd d = peer_addr (rl_peer st0))
        \<and> collect ack_part ds @ outgoing_ack l = outgoing_ack l0 \<and> collect nack_part ds @ outgoing_nack l = outgoing_nack l0
        \<and> collect unconnected_part ds @ uitems (l_unconnected l) = uitems (l_unconnected l0)
        \<and> map fs_seq_num (collect set_part ds) = map u24_of [to_usize (seq_num_write_index st0)..<to_usize (seq_num_write_index st)]
        \<and> (\<forall>fs \<in> set (collect set_part ds). set_fits (unat (peer_mtu (rl_peer st0))) fs)
        \<and> frames_in (collect set_part ds) + buffered (rl_buf st) = buffered (rl_buf st0)
        \<and> in_flight (rm_reliable (rl_resend st)) = in_flight (rm_reliable (rl_resend st0)) + frames_in (filter set_reliable (collect set_part ds)))"

lemma acct_refl: "acct log uitems st l st l"
  unfolding acct_def by (intro conjI exI [of _ "[]"]) simp_all

lemma acct_trans:
  assumes "acct log uitems st0 l0 st1 l1" and "acct log uitems st1 l1 st2 l2"
  shows "acct log uitems st0 l0 st2 l2"
proof -
  obtain ds where 1: "log (rl_frame st1) = log (rl_frame st0) @ ds" "\<forall>d \<in> set ds. snd d = peer_addr (rl_peer st0)"
    "collect ack_part ds @ outgoing_ack l1 = outgoing_ack l0" "collect nack_part ds @ outgoing_nack l1 = outgoing_nack l0"
    "collect unconnected_part ds @ uitems (l_unconnected l1) = uitems (l_unconnected l0)"
    "map fs_seq_num (collect set_part ds) = map u24_of [to_usize (seq_num_write_index st0)..<to_usize (seq_num_write_index st1)]"
    "\<forall>fs \<in> set (collect set_part ds). set_fits (unat (peer_mtu (rl_peer st0))) fs"
    "frames_in (collect set_part ds) + buffered (rl_buf st1) = buffered (rl_buf st0)"
    "in_flight (rm_reliable (rl_resend st1)) = in_flight (rm_reliable (rl_resend st0)) + frames_in (filter set_reliable (collect set_part ds))"
    using assms(1) unfolding acct_def by blast
  obtain es where 2: "log (rl_frame st2) = log (rl_frame st1) @ es" "\<forall>d \<in> set es. snd d = peer_addr (rl_peer st1)"
    "collect ack_part es @ outgoing_ack l2 = outgoing_ack l1" "collect nack_part es @ outgoing_nack l2 = outgoing_nack l1"
    "collect unconnected_part es @ uitems (l_unconnected l2) = uitems (l_unconnected l1)"
    "map fs_seq_num (collect set_part es) = map u24_of [to_usize (seq_num_write_index st1)..<to_usize (seq_num_write_index st2)]"
    "\<forall>fs \<in> set (collect set_part es). set_fits (unat (peer_mtu (rl_peer st1))) fs"
    "frames_in (collect set_part es) + buffered (rl_buf st2) = buffered (rl_buf st1)"
    "in_flight (rm_reliable (rl_resend st2)) = in_flight (rm_reliable (rl_resend st1)) + frames_in (filter set_reliable (collect set_part es))"
    using assms(2) unfolding acct_def by blast
  have p: "rl_peer st1 = rl_peer st0" "rl_peer st2 = rl_peer st0"
    "to_usize (seq_num_write_index st0) \<le> to_usize (seq_num_write_index st1)"
    "to_usize (seq_num_write_index st1) \<le> to_usize (seq_num_write_index st2)"
    using assms by (simp_all add: acct_def)
  have u: "[to_usize (seq_num_write_index st0)..<to_usize (seq_num_write_index st1)]
      @ [to_usize (seq_num_write_index st1)..<to_usize (seq_num_write_index st2)]
      = [to_usize (seq_num_write_index st0)..<to_usize (seq_num_write_index st2)]"
    using upt_add_eq_append [OF p(3), of "to_usize (seq_num_write_index st2) - to_usize (seq_num_write_index st1)"] p(4) by simp
  have q: "map fs_seq_num (collect set_part (ds @ es))
      = map u24_of [to_usize (seq_num_write_index st0)..<to_usize (seq_num_write_index st2)]"
    by (simp only: collect_simps map_append 1(6) 2(6) u [symmetric])
  have f: "frames_in (collect set_part (ds @ es)) + buffered (rl_buf st2) = buffered (rl_buf st0)"
    using 1(8) 2(8) by (simp add: add.assoc)
  show ?thesis
    unfolding acct_def
  proof (intro conjI exI [of _ "ds @ es"])
    show "\<forall>d \<in> set (ds @ es). snd d = peer_addr (rl_peer st0)" using 1(2) 2(2) p(1) by auto
    show "\<forall>fs \<in> set (collect set_part (ds @ es)). set_fits (unat (peer_mtu (rl_peer st0))) fs"
      using 1(7) 2(7) p(1) by auto
    show "to_usize (seq_num_write_index st0) \<le> to_usize (seq_num_write_index st2)" using p(3,4) by simp
  qed (use 1 2 p q f in simp_all)
qed

subsection \<open>Invariant and progress\<close>

definition layer_inv :: "'s reliable_layer \<Rightarrow> ('qa, 'qn, 'qu, 'qf) link \<Rightarrow> bool" where
  "layer_inv st l \<longleftrightarrow> rm_inv (rl_resend st) \<and> below (to_usize (seq_num_write_index st)) (rm_reliable (rl_resend st))
     \<and> buffer_sorted (rl_buf st) \<and> 7 \<le> unat (peer_mtu (rl_peer st))
     \<and> fits (unat (peer_mtu (rl_peer st))) (buffered (rl_buf st) + in_flight (rm_reliable (rl_resend st)))
     \<and> to_usize (seq_num_write_index st) + buffer_len (rl_buf st) < 2 ^ 24
     \<and> (\<forall>x \<in> set (outgoing_ack l) \<union> set (outgoing_nack l). to_usize x < 2 ^ 24 - 1)"

lemma layer_inv_frame [simp]: "layer_inv (st\<lparr>rl_frame := s\<rparr>) l \<longleftrightarrow> layer_inv st l"
  by (simp add: layer_inv_def)

text \<open>
  Where a step may lead: always to a state with the invariant; on to the next step, or out with \<open>Pending\<close>,
  only with the accounts \<open>A\<close> kept and, in the first case, the progress \<open>M\<close> made; out at all only if the sink
  below is not always ready.
\<close>

definition step_ok :: "bool \<Rightarrow> ('s reliable_layer \<Rightarrow> ('qa, 'qn, 'qu, 'qf) link \<Rightarrow> bool) \<Rightarrow> ('s reliable_layer \<Rightarrow> ('qa, 'qn, 'qu, 'qf) link \<Rightarrow> bool)
    \<Rightarrow> ('s, 'qa, 'qn, 'qu, 'qf, 'e) step_result \<Rightarrow> bool" where
  "step_ok ready A M res \<longleftrightarrow> (\<exists>r st l. res = Ok (r, st, l) \<and> layer_inv st l
     \<and> (case r of Continue c \<Rightarrow> A st l \<and> M st l | Stop Pending \<Rightarrow> A st l \<and> \<not> ready | Stop (Ready x) \<Rightarrow> \<not> ready \<and> isl x))"

lemma step_ok_Continue: "layer_inv st l \<Longrightarrow> A st l \<Longrightarrow> M st l \<Longrightarrow> step_ok ready A M (Ok (Continue c, st, l))"
  by (simp add: step_ok_def)

lemma step_ok_mono:
  assumes "step_ok ready A M res" and "\<And>st l. A st l \<Longrightarrow> A' st l" and "\<And>st l. A st l \<Longrightarrow> M st l \<Longrightarrow> M' st l"
  shows "step_ok ready A' M' res"
proof -
  obtain r st l where *: "res = Ok (r, st, l)" "layer_inv st l"
    "case r of Continue c \<Rightarrow> A st l \<and> M st l | Stop Pending \<Rightarrow> A st l \<and> \<not> ready | Stop (Ready x) \<Rightarrow> \<not> ready \<and> isl x"
    using assms(1) unfolding step_ok_def by blast
  have "case r of Continue c \<Rightarrow> A' st l \<and> M' st l | Stop Pending \<Rightarrow> A' st l \<and> \<not> ready | Stop (Ready x) \<Rightarrow> \<not> ready \<and> isl x"
    using *(3) assms(2,3) by (auto split: step.split_asm poll.split_asm)
  then show ?thesis using *(1,2) unfolding step_ok_def by blast
qed

lemma then_step_ok:
  assumes "step_ok ready A M1 res" and "\<And>c st l. layer_inv st l \<Longrightarrow> A st l \<Longrightarrow> M1 st l \<Longrightarrow> step_ok ready A M (f c st l)"
  shows "step_ok ready A M (then_step res f)"
proof -
  obtain r st l where *: "res = Ok (r, st, l)" "layer_inv st l"
    "case r of Continue c \<Rightarrow> A st l \<and> M1 st l | Stop Pending \<Rightarrow> A st l \<and> \<not> ready | Stop (Ready x) \<Rightarrow> \<not> ready \<and> isl x"
    using assms(1) unfolding step_ok_def by blast
  show ?thesis
  proof (cases r)
    case (Continue c)
    then show ?thesis using * assms(2) by (simp add: then_step_def)
  next
    case (Stop p)
    then show ?thesis using * by (auto simp: then_step_def step_ok_def)
  qed
qed

lemma step_ok_ready:
  assumes "step_ok True A M res"
  obtains c st l where "res = Ok (Continue c, st, l)" and "layer_inv st l" and "A st l" and "M st l"
proof -
  obtain r st l where *: "res = Ok (r, st, l)" "layer_inv st l"
    "case r of Continue c \<Rightarrow> A st l \<and> M st l | Stop Pending \<Rightarrow> A st l \<and> \<not> True | Stop (Ready x) \<Rightarrow> \<not> True \<and> isl x"
    using assms unfolding step_ok_def by blast
  then show thesis using that by (auto split: step.split_asm poll.split_asm)
qed

lemma total_cnt_taken:
  assumes "\<forall>x \<in> set xs. to_usize x < 2 ^ 24 - 1" and "7 \<le> unat mtu"
  obtains (none) "(extend_from xs mtu :: ('e, _) outcome) = Ok (None, [])" "xs = []"
    | (some) a rest n where "(extend_from xs mtu :: ('e, _) outcome) = Ok (Some a, rest)" "xs = ack_expand (records a) @ rest"
      "ack_expand (records a) \<noteq> []" "(total_cnt a :: ('e, _) outcome) = Ok n"
proof (cases "xs = []")
  case True
  then show thesis using assms(2) by (intro none) (simp_all add: extend_from_def word_less_nat_alt)
next
  case False
  have ok: "\<forall>x \<in> set xs. u24_ok x" "\<forall>x \<in> set (butlast xs). to_usize x < 2 ^ 24 - 1"
    using assms(1) in_set_butlastD by (fastforce simp: u24_ok_iff)+
  from extend_from_correct [OF assms(2) False ok, where 'e = 'e] obtain a used rest where
    a: "(extend_from xs mtu :: ('e, _) outcome) = Ok (Some a, rest)" "xs = used @ rest" "used \<noteq> []" "ack_expand (records a) = used"
    "\<forall>r \<in> set (records a). \<exists>s e. r = close_record s e \<and> s \<le> e" by blast
  have "record_ok r" if r: "r \<in> set (records a)" for r
  proof -
    obtain s e where se: "r = close_record s e" "s \<le> e" using a(5) r by blast
    have sub: "set (record_expand r) \<subseteq> set xs" using a(2,4) r by (auto simp: ack_expand_def)
    have "u24_of n \<in> set (record_expand r)" if "to_usize s \<le> n" "n \<le> to_usize e" for n
      using that unfolding se(1) close_record_expand [OF se(2)] by (simp del: upt_Suc)
    from this [of "to_usize s"] this [of "to_usize e"] se(2) sub have "s \<in> set xs" "e \<in> set xs" by (auto simp: u24_le_iff)
    then show ?thesis using assms(1) ok(1) se by (auto intro!: close_record_ok)
  qed
  then have "(total_cnt a :: ('e, _) outcome) = Ok (length (ack_expand (records a)))"
    unfolding total_cnt_def by (intro sum_ack_cnt_expand) blast
  then show thesis using some [OF a(1)] a(2-4) by simp
qed

text \<open>After \<open>pop\<close>, with or without the frame set recorded.\<close>

lemma fits_mono: "fits mtu M \<Longrightarrow> M' \<subseteq># M \<Longrightarrow> fits mtu M'"
  by (auto simp: fits_def dest: mset_subset_eqD)

lemma layer_inv_popped:
  assumes inv: "layer_inv st l" and spec: "pop_spec mtu (rl_buf st) buf reliable frames"
  shows "layer_inv (st\<lparr>rl_buf := buf\<rparr>) l"
    and "length frames + buffer_len buf = buffer_len (rl_buf st)"
proof -
  have b: "buffered (rl_buf st) = mset frames + buffered buf" "buffer_sorted buf"
    using spec inv unfolding pop_spec_def layer_inv_def by blast+
  then show len: "length frames + buffer_len buf = buffer_len (rl_buf st)" by (metis size_buffered size_mset size_union)
  have "buffered buf + in_flight (rm_reliable (rl_resend st)) \<subseteq># buffered (rl_buf st) + in_flight (rm_reliable (rl_resend st))"
    by (simp add: b(1))
  then show "layer_inv (st\<lparr>rl_buf := buf\<rparr>) l"
    using inv b(2) len fits_mono unfolding layer_inv_def by auto
qed

lemma layer_inv_recorded:
  assumes inv: "layer_inv st l" and spec: "pop_spec mtu (rl_buf st) buf reliable frames" and ne: "frames \<noteq> []"
    and now: "now < TIME_BOUND"
  obtains rm nxt where "(if reliable then rm_record now (rl_resend st) (seq_num_write_index st) penalty frames
        else Ok (rl_resend st) :: ('e, _) outcome) = Ok rm"
    and "(u24_incr (seq_num_write_index st) :: ('e, _) outcome) = Ok nxt" and "to_usize nxt = Suc (to_usize (seq_num_write_index st))"
    and "layer_inv (st\<lparr>rl_buf := buf, rl_resend := rm, seq_num_write_index := nxt\<rparr>) l"
    and "in_flight (rm_reliable rm) = in_flight (rm_reliable (rl_resend st)) + (if reliable then mset frames else {#})"
proof -
  let ?seq = "seq_num_write_index st" and ?n = "to_usize (seq_num_write_index st)"
  note popped = layer_inv_popped [OF inv spec]
  have n: "Suc ?n + buffer_len buf < 2 ^ 24"
    using inv popped(2) ne unfolding layer_inv_def by (cases frames) simp_all
  have i: "rm_inv (rl_resend st)" "below ?n (rm_reliable (rl_resend st))" using inv by (simp_all add: layer_inv_def)
  have fresh: "?seq \<notin> fst ` set (rm_reliable (rl_resend st))" using i(2) by (auto simp: below_def)
  have nxt: "(u24_incr ?seq :: ('e, _) outcome) = Ok (u24_of (Suc ?n))" "to_usize (u24_of (Suc ?n)) = Suc ?n"
    using n by (simp_all add: u24_incr_eq u24_succ_eq)
  have fit: "fits (unat (peer_mtu (rl_peer st))) (mset frames + buffered buf + in_flight (rm_reliable (rl_resend st)))"
    using inv spec unfolding layer_inv_def pop_spec_def by simp
  obtain rm where rm: "(if reliable then rm_record now (rl_resend st) ?seq penalty frames else Ok (rl_resend st) :: ('e, _) outcome) = Ok rm"
    "rm_inv rm" "below (Suc ?n) (rm_reliable rm)"
    "in_flight (rm_reliable rm) = in_flight (rm_reliable (rl_resend st)) + (if reliable then mset frames else {#})"
  proof (cases reliable)
    case True
    obtain rm e where 1: "(rm_record now (rl_resend st) ?seq penalty frames :: ('e, _) outcome) = Ok rm" "rm_inv rm"
      "rm_reliable rm = rm_reliable (rl_resend st) @ [(?seq, e)]" "re_frames e = Some frames"
      by (rule rm_record_ok [OF i(1) fresh now])
    have "below (Suc ?n) (rm_reliable rm)" using i(2) by (auto simp: below_def 1(3))
    then show thesis using that 1 True by (simp add: in_flight_append entry_frames_def)
  next
    case False
    have "below (Suc ?n) (rm_reliable (rl_resend st))" using i(2) by (auto simp: below_def)
    then show thesis using that [of "rl_resend st"] i(1) False by simp
  qed
  have "buffered buf + in_flight (rm_reliable rm) \<subseteq># mset frames + buffered buf + in_flight (rm_reliable (rl_resend st))"
    using rm(4) by simp
  then have "fits (unat (peer_mtu (rl_peer st))) (buffered buf + in_flight (rm_reliable rm))" by (rule fits_mono [OF fit])
  then have "layer_inv (st\<lparr>rl_buf := buf, rl_resend := rm, seq_num_write_index := u24_of (Suc ?n)\<rparr>) l"
    using popped(1) rm(2,3) nxt(2) n unfolding layer_inv_def by (simp del: to_usize_u24_of)
  then show thesis using that rm(1,4) nxt by blast
qed

text \<open>What came in: acknowledgements from the wire, received at sensible times.\<close>

definition ack_wire :: "ack_or_nack \<Rightarrow> bool" where
  "ack_wire a \<longleftrightarrow> (\<forall>r \<in> set (records a). record_wire r)"

definition acks_wire :: "(ack_or_nack \<times> instant) list \<Rightarrow> bool" where
  "acks_wire as \<longleftrightarrow> (\<forall>(a, t) \<in> set as. ack_wire a \<and> t \<le> TIME_BOUND)"

definition acks_expand :: "(ack_or_nack \<times> instant) list \<Rightarrow> u24 list" where
  "acks_expand as = concat (map (\<lambda>(a, t). ack_expand (records a)) as)"

lemma on_acks_scan: "on_acks as rm = (Ok rm' :: ('e, _) outcome) \<Longrightarrow> last_record_expired_at rm' = last_record_expired_at rm"
proof (induction as arbitrary: rm)
  case (Cons x as)
  obtain a t where x: "x = (a, t)" by fastforce
  obtain rm1 where "on_ack rm a t = (Ok rm1 :: ('e, _) outcome)" "on_acks as rm1 = (Ok rm' :: ('e, _) outcome)"
    using Cons.prems by (auto simp: x and_then_eq_Ok)
  then show ?case using Cons.IH [of rm1] on_ack_scan by fastforce
qed simp

lemma on_nacks_scan: "on_nacks as rm buf = (Ok (rm', buf') :: ('e, _) outcome) \<Longrightarrow> last_record_expired_at rm' = last_record_expired_at rm"
proof (induction as arbitrary: rm buf)
  case (Cons a as)
  obtain rm1 buf1 where "on_nack_into rm a buf = (Ok (rm1, buf1) :: ('e, _) outcome)" "on_nacks as rm1 buf1 = (Ok (rm', buf') :: ('e, _) outcome)"
    using Cons.prems by (auto simp: and_then_eq_Ok)
  then show ?case using Cons.IH [of rm1 buf1] on_nack_scan by fastforce
qed simp

lemma on_acks_ok:
  assumes "rm_inv rm" and "acks_wire as"
  shows "\<exists>rm'. (on_acks as rm :: ('e, _) outcome) = Ok rm' \<and> rm_inv rm' \<and> rm_reliable rm' = without (acks_expand as) (rm_reliable rm)"
  using assms
proof (induction as arbitrary: rm)
  case (Cons x as)
  obtain a t where x: "x = (a, t)" by (cases x)
  have ok: "t \<le> TIME_BOUND" "\<forall>r \<in> set (records a). record_wire r" "acks_wire as"
    using Cons.prems(2) by (auto simp: x acks_wire_def ack_wire_def)
  obtain rm1 where 1: "(on_ack rm a t :: ('e, _) outcome) = Ok rm1" "rm_inv rm1"
    "rm_reliable rm1 = without (ack_expand (records a)) (rm_reliable rm)"
    by (rule on_ack_ok [OF Cons.prems(1) ok(1,2)])
  from Cons.IH [OF 1(2) ok(3)] obtain rm' where
    2: "(on_acks as rm1 :: ('e, _) outcome) = Ok rm'" "rm_inv rm'" "rm_reliable rm' = without (acks_expand as) (rm_reliable rm1)"
    by blast
  have "without (acks_expand as) (without (ack_expand (records a)) (rm_reliable rm)) = without (acks_expand (x # as)) (rm_reliable rm)"
    by (auto simp: without_def acks_expand_def x intro: filter_cong)
  then show ?case using 1 2 by (intro exI [of _ rm']) (simp add: x)
qed (simp add: acks_expand_def without_simps)

lemma on_nacks_ok:
  assumes "rm_inv rm" and "\<forall>a \<in> set as. ack_wire a" and "buffer_sorted buf"
  shows "\<exists>rm' buf' P. (on_nacks as rm buf :: ('e, _) outcome) = Ok (rm', buf') \<and> rm_inv rm' \<and> buffer_sorted buf'
     \<and> rm_reliable rm' = filter P (rm_reliable rm)
     \<and> in_flight (rm_reliable rm') + buffered buf' = in_flight (rm_reliable rm) + buffered buf"
  using assms
proof (induction as arbitrary: rm buf)
  case Nil
  then show ?case by (intro exI [of _ rm] exI [of _ buf] exI [of _ "\<lambda>_. True"]) simp
next
  case (Cons a as)
  have ok: "\<forall>r \<in> set (records a). record_wire r" "\<forall>a \<in> set as. ack_wire a" using Cons.prems(2) by (auto simp: ack_wire_def)
  obtain rm1 buf1 where 1: "(on_nack_into rm a buf :: ('e, _) outcome) = Ok (rm1, buf1)" "rm_inv rm1"
    "rm_reliable rm1 = without (ack_expand (records a)) (rm_reliable rm)"
    "in_flight (rm_reliable rm1) + buffered buf1 = in_flight (rm_reliable rm) + buffered buf"
    "buffer_sorted buf \<longrightarrow> buffer_sorted buf1"
    by (rule on_nack_ok [OF Cons.prems(1) ok(1)])
  from Cons.IH [OF 1(2) ok(2)] 1(5) Cons.prems(3) obtain rm' buf' P where
    2: "(on_nacks as rm1 buf1 :: ('e, _) outcome) = Ok (rm', buf')" "rm_inv rm'" "buffer_sorted buf'"
      "rm_reliable rm' = filter P (rm_reliable rm1)"
      "in_flight (rm_reliable rm') + buffered buf' = in_flight (rm_reliable rm1) + buffered buf1" by blast
  have f: "rm_reliable rm' = filter (\<lambda>x. P x \<and> fst x \<notin> set (ack_expand (records a))) (rm_reliable rm)"
    using 1(3) 2(4) by (auto simp: without_def case_prod_unfold intro: filter_cong)
  show ?case
    using 1(1,4) 2(1-3,5) f by (intro exI [of _ rm'] exI [of _ buf'] exI) (intro conjI, simp_all)
qed

lemma moved_grows:
  assumes "m' = filter P m" and "in_flight m' + buffered buf' = in_flight m + buffered buf"
  shows "buffered buf \<subseteq># buffered buf'"
  using assms in_flight_partition [of m P] by simp

lemma layer_inv_moved:
  assumes inv: "layer_inv st l" and room: "to_usize (seq_num_write_index st) + buffer_len (rl_buf st) + size (in_flight (rm_reliable (rl_resend st))) < 2 ^ 24"
    and rm: "rm_inv rm" "buffer_sorted buf" "set (rm_reliable rm) \<subseteq> set (rm_reliable (rl_resend st))"
    and sub: "in_flight (rm_reliable rm) + buffered buf \<subseteq># in_flight (rm_reliable (rl_resend st)) + buffered (rl_buf st)"
    and l': "outgoing_ack l' = outgoing_ack l" "outgoing_nack l' = outgoing_nack l"
  shows "layer_inv (st\<lparr>rl_resend := rm, rl_buf := buf\<rparr>) l'"
proof -
  have "size (in_flight (rm_reliable rm)) + buffer_len buf \<le> size (in_flight (rm_reliable (rl_resend st))) + buffer_len (rl_buf st)"
    using size_mset_mono [OF sub] by (simp add: size_buffered)
  moreover have "below (to_usize (seq_num_write_index st)) (rm_reliable rm)"
    using inv rm(3) unfolding layer_inv_def below_def by blast
  moreover have "fits (unat (peer_mtu (rl_peer st))) (buffered buf + in_flight (rm_reliable rm))"
    using inv fits_mono sub unfolding layer_inv_def by (metis add.commute)
  ultimately show ?thesis using inv room rm(1,2) l' unfolding layer_inv_def by simp
qed

text \<open>How much a flush has to send at most.\<close>

definition waiting :: "('qu \<Rightarrow> unconnected list) \<Rightarrow> 's reliable_layer \<Rightarrow> ('qa, 'qn, 'qu, 'qf) link \<Rightarrow> nat" where
  "waiting uitems st l = length (outgoing_ack l) + length (outgoing_nack l) + length (uitems (l_unconnected l)) + buffer_len (rl_buf st)"

text \<open>What a complete flush sent.\<close>

definition flushed_all :: "('qu \<Rightarrow> unconnected list) \<Rightarrow> ('qa \<Rightarrow> (ack_or_nack \<times> instant) list) \<Rightarrow> instant \<Rightarrow> 's reliable_layer
    \<Rightarrow> ('qa, 'qn, 'qu, 'qf) link \<Rightarrow> datagram list \<Rightarrow> 's reliable_layer \<Rightarrow> bool" where
  "flushed_all uitems aitems now st l ds st' \<longleftrightarrow>
     collect ack_part ds = outgoing_ack l \<and> collect nack_part ds = outgoing_nack l \<and> collect unconnected_part ds = uitems (l_unconnected l)
     \<and> map fs_seq_num (collect set_part ds) = map u24_of [to_usize (seq_num_write_index st)..<to_usize (seq_num_write_index st')]
     \<and> (\<forall>fs \<in> set (collect set_part ds). set_fits (unat (peer_mtu (rl_peer st))) fs)
     \<and> buffered (rl_buf st) \<subseteq># frames_in (collect set_part ds)
     \<and> frames_in (collect set_part ds) \<subseteq># in_flight (rm_reliable (rl_resend st)) + buffered (rl_buf st)
     \<and> (last_record_expired_at (rl_resend st) \<le> now \<longrightarrow>
          in_flight (stale now (unacked (set (acks_expand (aitems (l_incoming_ack l)))) (rm_reliable (rl_resend st)))) + buffered (rl_buf st)
          \<subseteq># frames_in (collect set_part ds))
     \<and> in_flight (unacked (set (acks_expand (aitems (l_incoming_ack l)))) (rm_reliable (rl_resend st))) + buffered (rl_buf st)
        \<subseteq># in_flight (rm_reliable (rl_resend st')) + frames_in (filter (\<lambda>fs. \<not> set_reliable fs) (collect set_part ds))"

lemma frames_in_partition: "frames_in fss = frames_in (filter P fss) + frames_in (filter (\<lambda>fs. \<not> P fs) fss)"
  by (induction fss) (simp_all add: ac_simps)

text \<open>The environment of the layer: the sink below and the queues of the link.\<close>

locale reliable_env = sink_laws K log + uq: queue_laws "unconnected_q Q" uitems ucap
    + aq: queue_laws "ack_q Q" aitems acap + nq: queue_laws "nack_q Q" nitems ncap
  for K :: "('s, datagram) sink_api" and log :: "'s \<Rightarrow> datagram list"
    and Q :: "('qa, 'qn, 'qu, 'qf) link_api" and uitems :: "'qu \<Rightarrow> unconnected list" and ucap :: "'qu \<Rightarrow> nat option"
    and aitems :: "'qa \<Rightarrow> (ack_or_nack \<times> instant) list" and acap :: "'qa \<Rightarrow> nat option"
    and nitems :: "'qn \<Rightarrow> ack_or_nack list" and ncap :: "'qn \<Rightarrow> nat option" +
  fixes ready :: bool
  assumes ready: "ready \<Longrightarrow> always_ready K"
begin

lemma acct_frame: "log s = log (rl_frame st) \<Longrightarrow> acct log uitems st l (st\<lparr>rl_frame := s\<rparr>) l"
  unfolding acct_def by (intro conjI exI [of _ "[]"]) simp_all

lemma when_ready_ok:
  assumes "layer_inv st l" and "\<And>s. log s = log (rl_frame st) \<Longrightarrow> A (st\<lparr>rl_frame := s\<rparr>) l"
    and "\<And>s. log s = log (rl_frame st) \<Longrightarrow> step_ok ready A M (k (st\<lparr>rl_frame := s\<rparr>))"
  shows "step_ok ready A M (when_ready K k st l)"
proof -
  obtain r s where r: "sink_poll_ready K (rl_frame st) = (r, s)" by fastforce
  then have log: "log s = log (rl_frame st)" by (rule ready_log)
  have "ready \<Longrightarrow> r = Ready (Inr ())" using ready r unfolding always_ready_def by (metis fst_conv)
  then show ?thesis
    using assms(1) assms(2,3) [OF log] r
    by (cases r) (auto simp: when_ready_def step_ok_def [of _ _ _ "Ok (Stop _, _)"] split: sum.splits)
qed

lemma send_then_ok:
  assumes "layer_inv st l"
    and "\<And>s. log s = log (rl_frame st) @ [(p, peer_addr (rl_peer st))] \<Longrightarrow> step_ok ready A M (k (st\<lparr>rl_frame := s\<rparr>))"
  shows "step_ok ready A M (send_then K p k st l)"
proof -
  obtain r s where r: "sink_start_send K (rl_frame st) (p, peer_addr (rl_peer st)) = (r, s)" by fastforce
  have rdy: "ready \<Longrightarrow> r = Inr ()" using ready r unfolding always_ready_def by (metis fst_conv)
  show ?thesis
  proof (cases r)
    case (Inl e)
    then show ?thesis using assms(1) r rdy by (auto simp: send_then_def step_ok_def)
  next
    case (Inr u)
    then have "log s = log (rl_frame st) @ [(p, peer_addr (rl_peer st))]" using send_log [OF r] by simp
    then show ?thesis using assms(2) r Inr by (simp add: send_then_def)
  qed
qed

text \<open>The four stages of a round.\<close>

lemma flush_acks_ok:
  assumes "layer_inv st l"
  shows "step_ok ready (acct log uitems st l)
     (\<lambda>st' l'. l' = l\<lparr>outgoing_ack := outgoing_ack l'\<rparr> \<and> rl_buf st' = rl_buf st
        \<and> length (outgoing_ack l') \<le> length (outgoing_ack l)
        \<and> (flush_ack strategy \<and> outgoing_ack l \<noteq> [] \<longrightarrow> length (outgoing_ack l') < length (outgoing_ack l)))
     (flush_acks K strategy c st l :: ('s, 'qa, 'qn, 'qu, 'qf, 'e) step_result)"
    (is "step_ok ready ?A ?M _")
proof -
  obtain ca cn cp where c: "c = (ca, cn, cp)" by (cases c)
  have inv: "\<forall>x \<in> set (outgoing_ack l). to_usize x < 2 ^ 24 - 1" "7 \<le> unat (peer_mtu (rl_peer st))"
    using assms by (simp_all add: layer_inv_def)
  show ?thesis
    unfolding flush_acks_def c prod.case
  proof (rule when_ready_ok [OF assms])
    fix s assume log: "log s = log (rl_frame st)"
    then show "?A (st\<lparr>rl_frame := s\<rparr>) l" by (rule acct_frame)
    let ?st = "st\<lparr>rl_frame := s\<rparr>"
    let ?k = "\<lambda>(a, l). case a of
         Some ack \<Rightarrow> and_then (total_cnt ack) (\<lambda>n.
           send_then K (Connected (Ack ack)) (\<lambda>st. Ok (Continue (ca + n, cn, cp), st, l)) ?st l)
       | None \<Rightarrow> Ok (Continue (ca, cn, cp), ?st, l)"
    show "step_ok ready ?A ?M ((if flush_ack strategy then and_then (process_outgoing_ack l (peer_mtu (rl_peer ?st))) ?k
        else Ok (Continue (ca, cn, cp), ?st, l)) :: ('s, 'qa, 'qn, 'qu, 'qf, 'e) step_result)"
    proof (cases "flush_ack strategy")
      case False
      then show ?thesis using assms acct_frame [OF log] by (auto intro!: step_ok_Continue)
    next
      case True
      from inv show ?thesis
      proof (cases rule: total_cnt_taken [where 'e = 'e])
        case none
        have "(process_outgoing_ack l (peer_mtu (rl_peer st)) :: ('e, _) outcome) = Ok (None, l)"
          using none by (cases l) (simp add: process_outgoing_ack_def)
        then show ?thesis using none(2) assms acct_frame [OF log] True by (auto intro!: step_ok_Continue)
      next
        case (some a rest n)
        let ?l = "l\<lparr>outgoing_ack := rest\<rparr>"
        have inv': "layer_inv ?st ?l" using assms some(2) by (auto simp: layer_inv_def)
        have "step_ok ready ?A ?M (send_then K (Connected (Ack a)) (\<lambda>st. Ok (Continue (ca + n, cn, cp), st, ?l)) ?st ?l
            :: ('s, 'qa, 'qn, 'qu, 'qf, 'e) step_result)"
        proof (rule send_then_ok [OF inv'])
          fix s' assume "log s' = log (rl_frame ?st) @ [(Connected (Ack a), peer_addr (rl_peer ?st))]"
          then have "?A (?st\<lparr>rl_frame := s'\<rparr>) ?l"
            using log some(2) unfolding acct_def by (intro conjI exI [of _ "[(Connected (Ack a), peer_addr (rl_peer st))]"]) simp_all
          then show "step_ok ready ?A ?M (Ok (Continue (ca + n, cn, cp), ?st\<lparr>rl_frame := s'\<rparr>, ?l) :: ('s, 'qa, 'qn, 'qu, 'qf, 'e) step_result)"
            using inv' some(2,3) by (intro step_ok_Continue) simp_all
        qed
        then show ?thesis using True some(1,4) by (simp add: process_outgoing_ack_def)
      qed
    qed
  qed
qed

lemma flush_nacks_ok:
  assumes "layer_inv st l"
  shows "step_ok ready (acct log uitems st l)
     (\<lambda>st' l'. l' = l\<lparr>outgoing_nack := outgoing_nack l'\<rparr> \<and> rl_buf st' = rl_buf st
        \<and> length (outgoing_nack l') \<le> length (outgoing_nack l)
        \<and> (flush_nack strategy \<and> outgoing_nack l \<noteq> [] \<longrightarrow> length (outgoing_nack l') < length (outgoing_nack l)))
     (flush_nacks K strategy c st l :: ('s, 'qa, 'qn, 'qu, 'qf, 'e) step_result)"
    (is "step_ok ready ?A ?M _")
proof -
  obtain ca cn cp where c: "c = (ca, cn, cp)" by (cases c)
  have inv: "\<forall>x \<in> set (outgoing_nack l). to_usize x < 2 ^ 24 - 1" "7 \<le> unat (peer_mtu (rl_peer st))"
    using assms by (simp_all add: layer_inv_def)
  show ?thesis
    unfolding flush_nacks_def c prod.case
  proof (rule when_ready_ok [OF assms])
    fix s assume log: "log s = log (rl_frame st)"
    then show "?A (st\<lparr>rl_frame := s\<rparr>) l" by (rule acct_frame)
    let ?st = "st\<lparr>rl_frame := s\<rparr>"
    let ?k = "\<lambda>(a, l). case a of
         Some ack \<Rightarrow> and_then (total_cnt ack) (\<lambda>n.
           send_then K (Connected (Nack ack)) (\<lambda>st. Ok (Continue (ca, cn + n, cp), st, l)) ?st l)
       | None \<Rightarrow> Ok (Continue (ca, cn, cp), ?st, l)"
    show "step_ok ready ?A ?M ((if flush_nack strategy then and_then (process_outgoing_nack l (peer_mtu (rl_peer ?st))) ?k
        else Ok (Continue (ca, cn, cp), ?st, l)) :: ('s, 'qa, 'qn, 'qu, 'qf, 'e) step_result)"
    proof (cases "flush_nack strategy")
      case False
      then show ?thesis using assms acct_frame [OF log] by (auto intro!: step_ok_Continue)
    next
      case True
      from inv show ?thesis
      proof (cases rule: total_cnt_taken [where 'e = 'e])
        case none
        have "(process_outgoing_nack l (peer_mtu (rl_peer st)) :: ('e, _) outcome) = Ok (None, l)"
          using none by (cases l) (simp add: process_outgoing_nack_def)
        then show ?thesis using none(2) assms acct_frame [OF log] True by (auto intro!: step_ok_Continue)
      next
        case (some a rest n)
        let ?l = "l\<lparr>outgoing_nack := rest\<rparr>"
        have inv': "layer_inv ?st ?l" using assms some(2) by (auto simp: layer_inv_def)
        have "step_ok ready ?A ?M (send_then K (Connected (Nack a)) (\<lambda>st. Ok (Continue (ca, cn + n, cp), st, ?l)) ?st ?l
            :: ('s, 'qa, 'qn, 'qu, 'qf, 'e) step_result)"
        proof (rule send_then_ok [OF inv'])
          fix s' assume "log s' = log (rl_frame ?st) @ [(Connected (Nack a), peer_addr (rl_peer ?st))]"
          then have "?A (?st\<lparr>rl_frame := s'\<rparr>) ?l"
            using log some(2) unfolding acct_def by (intro conjI exI [of _ "[(Connected (Nack a), peer_addr (rl_peer st))]"]) simp_all
          then show "step_ok ready ?A ?M (Ok (Continue (ca, cn + n, cp), ?st\<lparr>rl_frame := s'\<rparr>, ?l) :: ('s, 'qa, 'qn, 'qu, 'qf, 'e) step_result)"
            using inv' some(2,3) by (intro step_ok_Continue) simp_all
        qed
        then show ?thesis using True some(1,4) by (simp add: process_outgoing_nack_def)
      qed
    qed
  qed
qed

lemma flush_unconnected_ok:
  assumes "layer_inv st l"
  shows "step_ok ready (acct log uitems st l)
     (\<lambda>st' l'. l' = l\<lparr>l_unconnected := l_unconnected l'\<rparr> \<and> rl_buf st' = rl_buf st
        \<and> length (uitems (l_unconnected l')) \<le> length (uitems (l_unconnected l))
        \<and> (uitems (l_unconnected l) \<noteq> [] \<longrightarrow> length (uitems (l_unconnected l')) < length (uitems (l_unconnected l))))
     (flush_unconnected Q K c st l :: ('s, 'qa, 'qn, 'qu, 'qf, 'e) step_result)"
    (is "step_ok ready ?A ?M _")
proof -
  obtain ca cn cp where c: "c = (ca, cn, cp)" by (cases c)
  show ?thesis
    unfolding flush_unconnected_def c prod.case
  proof (rule when_ready_ok [OF assms])
    fix s assume log: "log s = log (rl_frame st)"
    then show "?A (st\<lparr>rl_frame := s\<rparr>) l" by (rule acct_frame)
    let ?st = "st\<lparr>rl_frame := s\<rparr>"
    show "step_ok ready ?A ?M ((case next_unconnected Q l of
        (None, l) \<Rightarrow> Ok (Continue (ca, cn, cp), ?st, l)
      | (Some p, l) \<Rightarrow> send_then K (Unconnected p) (\<lambda>st. Ok (Continue (ca, cn, cp + 1), st, l)) ?st l)
        :: ('s, 'qa, 'qn, 'qu, 'qf, 'e) step_result)"
    proof (cases rule: uq.pop_cases [of "l_unconnected l"])
      case (empty q')
      let ?l = "l\<lparr>l_unconnected := q'\<rparr>"
      have "?A ?st ?l" using log empty unfolding acct_def by (intro conjI exI [of _ "[]"]) simp_all
      moreover have "layer_inv ?st ?l" using assms by (simp add: layer_inv_def)
      ultimately show ?thesis using empty by (simp add: next_unconnected_def step_ok_Continue)
    next
      case (item p xs q')
      let ?l = "l\<lparr>l_unconnected := q'\<rparr>"
      have inv': "layer_inv ?st ?l" using assms by (simp add: layer_inv_def)
      have "step_ok ready ?A ?M (send_then K (Unconnected p) (\<lambda>st. Ok (Continue (ca, cn, cp + 1), st, ?l)) ?st ?l
          :: ('s, 'qa, 'qn, 'qu, 'qf, 'e) step_result)"
      proof (rule send_then_ok [OF inv'])
        fix s' assume "log s' = log (rl_frame ?st) @ [(Unconnected p, peer_addr (rl_peer ?st))]"
        then have "?A (?st\<lparr>rl_frame := s'\<rparr>) ?l"
          using log item unfolding acct_def by (intro conjI exI [of _ "[(Unconnected p, peer_addr (rl_peer st))]"]) simp_all
        then show "step_ok ready ?A ?M (Ok (Continue (ca, cn, cp + 1), ?st\<lparr>rl_frame := s'\<rparr>, ?l) :: ('s, 'qa, 'qn, 'qu, 'qf, 'e) step_result)"
          using inv' item by (intro step_ok_Continue) simp_all
      qed
      then show ?thesis using item by (simp add: next_unconnected_def)
    qed
  qed
qed

lemma flush_frames_ok:
  assumes inv: "layer_inv st l" and now: "now < TIME_BOUND"
  shows "step_ok ready (acct log uitems st l)
     (\<lambda>st' l'. l' = l \<and> buffer_len (rl_buf st') \<le> buffer_len (rl_buf st)
        \<and> (\<not> buffer_is_empty (rl_buf st) \<longrightarrow> buffer_len (rl_buf st') < buffer_len (rl_buf st)))
     (flush_frames K now c st l :: ('s, 'qa, 'qn, 'qu, 'qf, 'e) step_result)"
    (is "step_ok ready ?A ?M _")
proof -
  obtain ca cn cp where c: "c = (ca, cn, cp)" by (cases c)
  let ?mtu = "unat (peer_mtu (rl_peer st))" and ?seq = "seq_num_write_index st"
  have "fits ?mtu (buffered (rl_buf st))" using inv fits_mono [of ?mtu] unfolding layer_inv_def by (meson mset_subset_eq_add_left)
  then obtain buf reliable penalty frames where pop:
    "(buffer_pop ?mtu False [] (rl_buf st) :: ('e, _) outcome) = Ok (buf, reliable, penalty, frames)"
    "pop_spec ?mtu (rl_buf st) buf reliable frames" "frames = [] \<longleftrightarrow> buffer_is_empty (rl_buf st)"
    by (rule buffer_pop_ok)
  note popped = layer_inv_popped [OF inv pop(2)]
  have spec: "buffered (rl_buf st) = mset frames + buffered buf" "FRAME_SET_HEADER_SIZE + frames_size frames \<le> ?mtu"
    "reliable \<longleftrightarrow> (\<exists>f \<in> set frames. is_reliable (reliability (f_flags f)))" using pop(2) unfolding pop_spec_def by blast+
  show ?thesis
    unfolding flush_frames_def c prod.case
  proof (rule when_ready_ok [OF inv])
    fix s assume log: "log s = log (rl_frame st)"
    then show "?A (st\<lparr>rl_frame := s\<rparr>) l" by (rule acct_frame)
    let ?st = "st\<lparr>rl_frame := s, rl_buf := buf\<rparr>"
    let ?fs = "\<lparr> fs_seq_num = ?seq, fs_set = frames \<rparr>"
    let ?k = "\<lambda>st. and_then (if reliable then rm_record now (rl_resend st) ?seq penalty frames else Ok (rl_resend st)) (\<lambda>rm.
         and_then (u24_incr ?seq) (\<lambda>nxt.
           Ok (Continue (ca, cn, cp + 1), st\<lparr>rl_resend := rm, seq_num_write_index := nxt\<rparr>, l)))
        :: ('s, 'qa, 'qn, 'qu, 'qf, 'e) step_result"
    have inv': "layer_inv ?st l" using popped(1) by (simp add: layer_inv_def)
    have sent: "step_ok ready ?A ?M (send_then K (Connected (FrameSet ?fs)) ?k ?st l)" if ne: "frames \<noteq> []"
    proof (rule send_then_ok [OF inv'])
      fix s' assume log': "log s' = log (rl_frame ?st) @ [(Connected (FrameSet ?fs), peer_addr (rl_peer ?st))]"
      obtain rm nxt where rec: "(if reliable then rm_record now (rl_resend st) ?seq penalty frames else Ok (rl_resend st) :: ('e, _) outcome) = Ok rm"
        "(u24_incr ?seq :: ('e, _) outcome) = Ok nxt" "to_usize nxt = Suc (to_usize ?seq)"
        "layer_inv (st\<lparr>rl_buf := buf, rl_resend := rm, seq_num_write_index := nxt\<rparr>) l"
        "in_flight (rm_reliable rm) = in_flight (rm_reliable (rl_resend st)) + (if reliable then mset frames else {#})"
        by (rule layer_inv_recorded [OF inv pop(2) ne now])
      let ?st' = "?st\<lparr>rl_frame := s', rl_resend := rm, seq_num_write_index := nxt\<rparr>"
      have A: "?A ?st' l"
        using log log' rec(3,5) spec ne unfolding acct_def
        by (intro conjI exI [of _ "[(Connected (FrameSet ?fs), peer_addr (rl_peer st))]"]) (simp_all add: set_reliable_def set_fits_def)
      have i: "layer_inv ?st' l" using rec(4) by (simp add: layer_inv_def)
      have M: "?M ?st' l" using popped(2) ne by (cases frames) simp_all
      have k: "?k (?st\<lparr>rl_frame := s'\<rparr>) = Ok (Continue (ca, cn, cp + 1), ?st', l)"
        using rec(1,2) by (cases reliable) auto
      show "step_ok ready ?A ?M (?k (?st\<lparr>rl_frame := s'\<rparr>))"
        unfolding k by (rule step_ok_Continue [where A = ?A and M = ?M, OF i A M])
    qed
    have idle: "step_ok ready ?A ?M (Ok (Continue (ca, cn, cp), ?st, l) :: ('s, 'qa, 'qn, 'qu, 'qf, 'e) step_result)" if e: "frames = []"
    proof (rule step_ok_Continue [OF inv'])
      show "?A ?st l" using log spec(1) e unfolding acct_def by (intro conjI exI [of _ "[]"]) simp_all
      show "?M ?st l" using popped(2) pop(3) e by simp
    qed
    let ?body = "and_then (buffer_pop (unat (peer_mtu (rl_peer (st\<lparr>rl_frame := s\<rparr>)))) False [] (rl_buf (st\<lparr>rl_frame := s\<rparr>)))
        (\<lambda>(buf, reliable, penalty, frames).
          let st = st\<lparr>rl_frame := s\<rparr>\<lparr>rl_buf := buf\<rparr>; seq = seq_num_write_index st in
          if frames = [] then Ok (Continue (ca, cn, cp), st, l)
          else send_then K (Connected (FrameSet \<lparr> fs_seq_num = seq, fs_set = frames \<rparr>)) (\<lambda>st.
            and_then (if reliable then rm_record now (rl_resend st) seq penalty frames else Ok (rl_resend st)) (\<lambda>rm.
            and_then (u24_incr seq) (\<lambda>nxt.
              Ok (Continue (ca, cn, cp + 1), st\<lparr>rl_resend := rm, seq_num_write_index := nxt\<rparr>, l)))) st l)
        :: ('s, 'qa, 'qn, 'qu, 'qf, 'e) step_result"
    show "step_ok ready ?A ?M ?body"
    proof (cases "frames = []")
      case True
      then have "?body = Ok (Continue (ca, cn, cp), ?st, l)" using pop(1) by (simp add: Let_def)
      then show ?thesis using idle [OF True] by (simp only:)
    next
      case False
      then have "?body = send_then K (Connected (FrameSet ?fs)) ?k ?st l" using pop(1) by (simp add: Let_def cong: if_cong)
      then show ?thesis using sent [OF False] by (simp only:)
    qed
  qed
qed

text \<open>A round that was needed makes progress.\<close>

lemma check_flushed_iff:
  "check_flushed Q strategy l buf \<longleftrightarrow> (flush_ack strategy \<longrightarrow> outgoing_ack l = []) \<and> (flush_nack strategy \<longrightarrow> outgoing_nack l = [])
     \<and> (flush_pack strategy \<longrightarrow> uitems (l_unconnected l) = [] \<and> buffer_is_empty buf)"
  by (auto simp: check_flushed_def flush_ack_def flush_nack_def flush_pack_def outgoing_ack_empty_def outgoing_nack_empty_def
      unconnected_empty_def uq.is_empty Let_def)

text \<open>A stage after others.\<close>

lemma stage_ok:
  assumes "acct log uitems st0 l0 st l" and "step_ok ready (acct log uitems st l) M res" and "\<And>st' l'. M st' l' \<Longrightarrow> M' st' l'"
  shows "step_ok ready (acct log uitems st0 l0) M' res"
  using assms(2) by (rule step_ok_mono) (use assms(1,3) acct_trans in blast)+

lemma flush_round_ok:
  assumes inv: "layer_inv st l" and now: "now < TIME_BOUND" and todo: "\<not> check_flushed Q strategy l (rl_buf st)"
  shows "step_ok ready (acct log uitems st l) (\<lambda>st' l'. waiting uitems st' l' < waiting uitems st l)
     (flush_round Q K strategy now c st l :: ('s, 'qa, 'qn, 'qu, 'qf, 'e) step_result)"
    (is "step_ok ready ?A ?M _")
  unfolding flush_round_def
proof (rule then_step_ok [OF flush_acks_ok [OF inv, where strategy = strategy and c = c]])
  let ?less = "\<lambda>b x y. x \<le> y \<and> (b \<and> y \<noteq> (0 :: nat) \<longrightarrow> x < y)"
  let ?a = "\<lambda>l. length (outgoing_ack l)" and ?n = "\<lambda>l. length (outgoing_nack l)"
    and ?u = "\<lambda>l. length (uitems (l_unconnected l))" and ?b = "\<lambda>st. buffer_len (rl_buf st)"
  fix c st1 and l1 :: "('qa, 'qn, 'qu, 'qf) link"
  assume inv1: "layer_inv st1 l1" and A1: "?A st1 l1"
    and M1: "l1 = l\<lparr>outgoing_ack := outgoing_ack l1\<rparr> \<and> rl_buf st1 = rl_buf st \<and> ?a l1 \<le> ?a l
        \<and> (flush_ack strategy \<and> outgoing_ack l \<noteq> [] \<longrightarrow> ?a l1 < ?a l)"
  have "step_ok ready ?A (\<lambda>st2 l2. ?less (flush_ack strategy) (?a l2) (?a l) \<and> ?less (flush_nack strategy) (?n l2) (?n l)
      \<and> l_unconnected l2 = l_unconnected l \<and> rl_buf st2 = rl_buf st)
      (flush_nacks K strategy c st1 l1 :: ('s, 'qa, 'qn, 'qu, 'qf, 'e) step_result)"
  proof (rule stage_ok [OF A1 flush_nacks_ok [OF inv1]])
    fix st2 l2
    assume M2: "l2 = l1\<lparr>outgoing_nack := outgoing_nack l2\<rparr> \<and> rl_buf st2 = rl_buf st1 \<and> ?n l2 \<le> ?n l1
        \<and> (flush_nack strategy \<and> outgoing_nack l1 \<noteq> [] \<longrightarrow> ?n l2 < ?n l1)"
    obtain xs ys where xs: "l1 = l\<lparr>outgoing_ack := xs\<rparr>" and ys: "l2 = l1\<lparr>outgoing_nack := ys\<rparr>" using M1 M2 by blast
    show "?less (flush_ack strategy) (?a l2) (?a l) \<and> ?less (flush_nack strategy) (?n l2) (?n l)
      \<and> l_unconnected l2 = l_unconnected l \<and> rl_buf st2 = rl_buf st"
      using M1 M2 unfolding ys xs by simp
  qed
  then show "step_ok ready ?A ?M (then_step (flush_nacks K strategy c st1 l1) (\<lambda>c st l. if \<not> flush_pack strategy then Ok (Continue c, st, l)
      else then_step (flush_unconnected Q K c st l) (flush_frames K now)) :: ('s, 'qa, 'qn, 'qu, 'qf, 'e) step_result)"
  proof (rule then_step_ok)
    fix c st2 and l2 :: "('qa, 'qn, 'qu, 'qf) link"
    assume inv2: "layer_inv st2 l2" and A2: "?A st2 l2"
      and M2: "?less (flush_ack strategy) (?a l2) (?a l) \<and> ?less (flush_nack strategy) (?n l2) (?n l)
      \<and> l_unconnected l2 = l_unconnected l \<and> rl_buf st2 = rl_buf st"
    show "step_ok ready ?A ?M ((if \<not> flush_pack strategy then Ok (Continue c, st2, l2)
      else then_step (flush_unconnected Q K c st2 l2) (flush_frames K now)) :: ('s, 'qa, 'qn, 'qu, 'qf, 'e) step_result)"
    proof (cases "flush_pack strategy")
      case False
      then have "?M st2 l2" using M2 todo unfolding waiting_def check_flushed_iff by auto
      then show ?thesis using False step_ok_Continue [where A = ?A and M = ?M, OF inv2 A2] by simp
    next
      case True
      have "step_ok ready ?A (\<lambda>st3 l3. l3 = l2\<lparr>l_unconnected := l_unconnected l3\<rparr> \<and> rl_buf st3 = rl_buf st \<and> ?less True (?u l3) (?u l))
          (flush_unconnected Q K c st2 l2 :: ('s, 'qa, 'qn, 'qu, 'qf, 'e) step_result)"
        by (rule stage_ok [OF A2 flush_unconnected_ok [OF inv2]]) (use M2 in simp)
      then have "step_ok ready ?A ?M (then_step (flush_unconnected Q K c st2 l2) (flush_frames K now)
          :: ('s, 'qa, 'qn, 'qu, 'qf, 'e) step_result)"
      proof (rule then_step_ok)
        fix c st3 and l3 :: "('qa, 'qn, 'qu, 'qf) link"
        assume inv3: "layer_inv st3 l3" and A3: "?A st3 l3"
          and M3: "l3 = l2\<lparr>l_unconnected := l_unconnected l3\<rparr> \<and> rl_buf st3 = rl_buf st \<and> ?less True (?u l3) (?u l)"
        obtain q where q: "l3 = l2\<lparr>l_unconnected := q\<rparr>" using M3 by blast
        have M: "?M st4 l4" if "l4 = l3 \<and> buffer_len (rl_buf st4) \<le> buffer_len (rl_buf st3)
            \<and> (\<not> buffer_is_empty (rl_buf st3) \<longrightarrow> buffer_len (rl_buf st4) < buffer_len (rl_buf st3))"
          for st4 :: "'s reliable_layer" and l4
          using that M2 M3 todo unfolding waiting_def check_flushed_iff q by auto
        show "step_ok ready ?A ?M (flush_frames K now c st3 l3 :: ('s, 'qa, 'qn, 'qu, 'qf, 'e) step_result)"
          by (rule stage_ok [OF A3 flush_frames_ok [OF inv3 now] M])
      qed
      then show ?thesis using True by simp
    qed
  qed
qed

lemma flush_loop_ok:
  assumes "layer_inv st l" and "now < TIME_BOUND" and "waiting uitems st l < n"
  shows "\<exists>r. (flush_loop n Q K strategy now c st l :: ('s, 'qa, 'qn, 'qu, 'qf, 'e) step_result option) = Some r
     \<and> step_ok ready (acct log uitems st l) (\<lambda>st' l'. check_flushed Q strategy l' (rl_buf st')) r"
  using assms
proof (induction n arbitrary: c st l)
  case (Suc n)
  let ?A = "acct log uitems st l" and ?M = "\<lambda>st' l'. check_flushed Q strategy l' (rl_buf st')"
  show ?case
  proof (cases "check_flushed Q strategy l (rl_buf st)")
    case True
    then show ?thesis
      using step_ok_Continue [where A = ?A and M = ?M, OF Suc.prems(1) acct_refl] by simp
  next
    case False
    from flush_round_ok [OF Suc.prems(1,2) False, where c = c and 'e = 'e] obtain r st1 l1 where
      round: "(flush_round Q K strategy now c st l :: ('s, 'qa, 'qn, 'qu, 'qf, 'e) step_result) = Ok (r, st1, l1)" "layer_inv st1 l1"
      "case r of Continue c \<Rightarrow> ?A st1 l1 \<and> waiting uitems st1 l1 < waiting uitems st l | Stop Pending \<Rightarrow> ?A st1 l1 \<and> \<not> ready
        | Stop (Ready x) \<Rightarrow> \<not> ready \<and> isl x"
      unfolding step_ok_def by blast
    show ?thesis
    proof (cases r)
      case (Continue c1)
      then have "?A st1 l1" "waiting uitems st1 l1 < n" using round(3) Suc.prems(3) by simp_all
      from Suc.IH [OF round(2) Suc.prems(2) this(2), of c1] stage_ok [OF this(1)] show ?thesis
        using False Continue round(1) by auto
    next
      case (Stop p)
      then show ?thesis using False round by (auto simp: step_ok_def)
    qed
  qed
qed simp

text \<open>Acknowledgements, negative acknowledgements and timeouts.\<close>

lemma process_inflight_ok:
  assumes inv: "layer_inv st l" and now: "now < TIME_BOUND"
    and room: "to_usize (seq_num_write_index st) + buffer_len (rl_buf st) + size (in_flight (rm_reliable (rl_resend st))) < 2 ^ 24"
    and acks: "acks_wire (aitems (l_incoming_ack l))" and nacks: "\<forall>a \<in> set (nitems (l_incoming_nack l)). ack_wire a"
  obtains rm buf qa qn where "(process_inflight Q now st l :: ('e, _) outcome)
       = Ok (st\<lparr>rl_resend := rm, rl_buf := buf\<rparr>, l\<lparr>l_incoming_ack := qa, l_incoming_nack := qn\<rparr>)"
    and "layer_inv (st\<lparr>rl_resend := rm, rl_buf := buf\<rparr>) (l\<lparr>l_incoming_ack := qa, l_incoming_nack := qn\<rparr>)"
    and "aitems qa = []" and "nitems qn = []"
    and "kept (set (acks_expand (aitems (l_incoming_ack l)))) [] (rm_reliable (rl_resend st)) (rl_buf st) (rm_reliable rm) buf"
    and "buffered (rl_buf st) \<subseteq># buffered buf"
    and "last_record_expired_at (rl_resend st) \<le> now \<longrightarrow>
      in_flight (stale now (unacked (set (acks_expand (aitems (l_incoming_ack l)))) (rm_reliable (rl_resend st)))) + buffered (rl_buf st) \<subseteq># buffered buf"
proof -
  let ?as = "aitems (l_incoming_ack l)" and ?ns = "nitems (l_incoming_nack l)" and ?m = "rm_reliable (rl_resend st)"
  obtain qa where qa: "q_try_iter (ack_q Q) (l_incoming_ack l) = (?as, qa)" "aitems qa = []" using aq.try_iter by blast
  obtain qn where qn: "q_try_iter (nack_q Q) (l_incoming_nack l) = (?ns, qn)" "nitems qn = []" using nq.try_iter by blast
  have i: "rm_inv (rl_resend st)" "buffer_sorted (rl_buf st)" using inv by (simp_all add: layer_inv_def)
  obtain rm1 where 1: "(on_acks ?as (rl_resend st) :: ('e, _) outcome) = Ok rm1" "rm_inv rm1"
    "rm_reliable rm1 = without (acks_expand ?as) ?m" using on_acks_ok [OF i(1) acks] by blast
  obtain rm2 buf2 P where 2: "(on_nacks ?ns rm1 (rl_buf st) :: ('e, _) outcome) = Ok (rm2, buf2)" "rm_inv rm2" "buffer_sorted buf2"
    "rm_reliable rm2 = filter P (rm_reliable rm1)"
    "in_flight (rm_reliable rm2) + buffered buf2 = in_flight (rm_reliable rm1) + buffered (rl_buf st)"
    using on_nacks_ok [OF 1(2) nacks i(2)] by blast
  obtain rm buf where 3: "(process_stales now rm2 buf2 :: ('e, _) outcome) = Ok (rm, buf)" "rm_inv rm"
    "\<exists>P. rm_reliable rm = filter P (rm_reliable rm2)"
    "in_flight (rm_reliable rm) + buffered buf = in_flight (rm_reliable rm2) + buffered buf2" "buffer_sorted buf2 \<longrightarrow> buffer_sorted buf"
    "last_record_expired_at rm2 \<le> now \<longrightarrow> (\<forall>(k, e) \<in> set (rm_reliable rm). now < expired_at e)"
    by (rule process_stales_ok [OF 2(2) now])
  obtain P' where P': "rm_reliable rm = filter P' (rm_reliable rm2)" using 3(3) by blast
  have "kept {} [] (rm_reliable rm) buf (rm_reliable rm) buf" by (simp add: kept_def)
  then have "kept {} [] (rm_reliable rm1) (rl_buf st) (rm_reliable rm) buf"
    using kept_move [OF _ P' 3(4)] kept_move [OF _ 2(4,5)] by blast
  then have kp: "kept (set (acks_expand ?as)) [] ?m (rl_buf st) (rm_reliable rm) buf" using kept_ack 1(3) by fastforce
  then have "in_flight (rm_reliable rm) + buffered buf \<subseteq># in_flight ?m + buffered (rl_buf st)" by (simp add: kept_def)
  moreover have "set (rm_reliable rm) \<subseteq> set ?m" using 1(3) 2(4) P' by (auto simp: without_def)
  ultimately have inv': "layer_inv (st\<lparr>rl_resend := rm, rl_buf := buf\<rparr>) (l\<lparr>l_incoming_ack := qa, l_incoming_nack := qn\<rparr>)"
    by (intro layer_inv_moved [OF inv room 3(2)]) (use 3(5) 2(3) in simp_all)
  have grows: "buffered (rl_buf st) \<subseteq># buffered buf"
    using moved_grows [OF 2(4,5)] moved_grows [OF P' 3(4)] by (rule subset_mset.trans)
  have "(process_inflight Q now st l :: ('e, _) outcome)
       = Ok (st\<lparr>rl_resend := rm, rl_buf := buf\<rparr>, l\<lparr>l_incoming_ack := qa, l_incoming_nack := qn\<rparr>)"
    using 1(1) 2(1) 3(1) qa(1) qn(1) by (simp add: process_inflight_def process_ack_def process_nack_def)
  moreover have "in_flight (stale now (unacked (set (acks_expand ?as)) ?m)) + buffered (rl_buf st) \<subseteq># buffered buf"
    if "last_record_expired_at (rl_resend st) \<le> now"
  proof -
    have "rm_reliable rm = filter (\<lambda>x. P x \<and> P' x) (rm_reliable rm1)" using P' 2(4) by (simp add: conj_commute)
    moreover have "in_flight (rm_reliable rm) + buffered buf = in_flight (rm_reliable rm1) + buffered (rl_buf st)" using 3(4) 2(5) by simp
    moreover have "\<forall>(k, e) \<in> set (rm_reliable rm). now < expired_at e"
      using 3(6) that on_acks_scan [OF 1(1)] on_nacks_scan [OF 2(1)] by simp
    ultimately have "in_flight (stale now (rm_reliable rm1)) + buffered (rl_buf st) \<subseteq># buffered buf" using stale_moved by metis
    then show ?thesis using 1(3) by (simp add: without_def unacked_def)
  qed
  ultimately show thesis using that inv' qa(2) qn(2) kp grows by blast
qed

text \<open>Everything together, over a sink that takes all it is given.\<close>

lemma flush_sends_all:
  assumes rdy: "ready" and inv: "layer_inv st l" and now: "now < TIME_BOUND"
    and room: "to_usize (seq_num_write_index st) + buffer_len (rl_buf st) + size (in_flight (rm_reliable (rl_resend st))) < 2 ^ 24"
    and wire: "acks_wire (aitems (l_incoming_ack l))" "\<forall>a \<in> set (nitems (l_incoming_nack l)). ack_wire a"
    and fuel: "waiting uitems st l + size (in_flight (rm_reliable (rl_resend st))) < n"
  shows "\<exists>st' l' ds. (try_empty n Q K None now st l :: ('s, 'qa, 'qn, 'qu, 'qf, 'e) flush_result option) = Some (Ok (Ready (Inr ()), None, st', l'))
     \<and> layer_inv st' l' \<and> check_flushed Q strategy_default l' (rl_buf st')
     \<and> log (rl_frame st') = log (rl_frame st) @ ds \<and> (\<forall>d \<in> set ds. snd d = peer_addr (rl_peer st)) \<and> flushed_all uitems aitems now st l ds st'"
proof -
  let ?A = "set (acks_expand (aitems (l_incoming_ack l)))"
  obtain rm buf qa qn where 1: "(process_inflight Q now st l :: ('e, _) outcome)
       = Ok (st\<lparr>rl_resend := rm, rl_buf := buf\<rparr>, l\<lparr>l_incoming_ack := qa, l_incoming_nack := qn\<rparr>)"
    "layer_inv (st\<lparr>rl_resend := rm, rl_buf := buf\<rparr>) (l\<lparr>l_incoming_ack := qa, l_incoming_nack := qn\<rparr>)"
    "kept ?A [] (rm_reliable (rl_resend st)) (rl_buf st) (rm_reliable rm) buf" "buffered (rl_buf st) \<subseteq># buffered buf"
    "last_record_expired_at (rl_resend st) \<le> now \<longrightarrow> in_flight (stale now (unacked ?A (rm_reliable (rl_resend st)))) + buffered (rl_buf st) \<subseteq># buffered buf"
    by (rule process_inflight_ok [OF inv now room wire])
  let ?st = "st\<lparr>rl_resend := rm, rl_buf := buf\<rparr>" and ?l = "l\<lparr>l_incoming_ack := qa, l_incoming_nack := qn\<rparr>"
  have k: "in_flight (unacked ?A (rm_reliable (rl_resend st))) + buffered (rl_buf st) \<subseteq># in_flight (rm_reliable rm) + buffered buf"
    "in_flight (rm_reliable rm) + buffered buf \<subseteq># in_flight (rm_reliable (rl_resend st)) + buffered (rl_buf st)"
    using 1(3) by (simp_all add: kept_def)
  have "waiting uitems ?st ?l < n" using size_mset_mono [OF k(2)] fuel by (simp add: waiting_def size_buffered)
  from flush_loop_ok [OF 1(2) now this, of strategy_default "(0, 0, 0)", where 'e = 'e] rdy obtain r where
    r: "(flush_loop n Q K strategy_default now (0, 0, 0) ?st ?l :: ('s, 'qa, 'qn, 'qu, 'qf, 'e) step_result option) = Some r"
      "step_ok True (acct log uitems ?st ?l) (\<lambda>st' l'. check_flushed Q strategy_default l' (rl_buf st')) r" by auto
  from r(2) obtain c st' l' where c: "r = Ok (Continue c, st', l')" "layer_inv st' l'" "acct log uitems ?st ?l st' l'"
    "check_flushed Q strategy_default l' (rl_buf st')" by (rule step_ok_ready)
  have
    2: "(flush_loop n Q K strategy_default now (0, 0, 0) ?st ?l :: ('s, 'qa, 'qn, 'qu, 'qf, 'e) step_result option) = Some (Ok (Continue c, st', l'))"
      "layer_inv st' l'" "acct log uitems ?st ?l st' l'" "check_flushed Q strategy_default l' (rl_buf st')"
    using r(1) c by simp_all
  have e: "outgoing_ack l' = []" "outgoing_nack l' = []" "uitems (l_unconnected l') = []" "buffered (rl_buf st') = {#}"
    using 2(4) size_buffered [of "rl_buf st'"]
    by (simp_all add: check_flushed_iff flush_ack_def flush_nack_def flush_pack_def strategy_default_def buffer_is_empty_def)
  from 2(3) obtain ds where ds: "log (rl_frame st') = log (rl_frame st) @ ds" "\<forall>d \<in> set ds. snd d = peer_addr (rl_peer st)"
    "collect ack_part ds = outgoing_ack l" "collect nack_part ds = outgoing_nack l" "collect unconnected_part ds = uitems (l_unconnected l)"
    "map fs_seq_num (collect set_part ds) = map u24_of [to_usize (seq_num_write_index st)..<to_usize (seq_num_write_index st')]"
    "\<forall>fs \<in> set (collect set_part ds). set_fits (unat (peer_mtu (rl_peer st))) fs"
    "frames_in (collect set_part ds) = buffered buf"
    "in_flight (rm_reliable (rl_resend st')) = in_flight (rm_reliable rm) + frames_in (filter set_reliable (collect set_part ds))"
    using e unfolding acct_def by auto
  have "in_flight (rm_reliable rm) + buffered buf = in_flight (rm_reliable (rl_resend st')) + frames_in (filter (\<lambda>fs. \<not> set_reliable fs) (collect set_part ds))"
    using ds(8,9) frames_in_partition [of "collect set_part ds" set_reliable] by simp
  moreover have "frames_in (collect set_part ds) \<subseteq># in_flight (rm_reliable (rl_resend st)) + buffered (rl_buf st)"
    using ds(8) k(2) by (metis mset_subset_eq_add_right subset_mset.order_trans)
  ultimately have "flushed_all uitems aitems now st l ds st'" using ds(3-8) k(1) 1(4,5) by (simp add: flushed_all_def)
  moreover have "(try_empty n Q K None now st l :: ('s, 'qa, 'qn, 'qu, 'qf, 'e) flush_result option) = Some (Ok (Ready (Inr ()), None, st', l'))"
    using 1(1) 2(1) by (simp add: try_empty_def strategy_of_def mark_all_def split: prod.splits)
  ultimately show ?thesis using 2(2,4) ds(1,2) by blast
qed

text \<open>Nothing to do: the state in which \<open>poll_close\<close> waits for acknowledgements.\<close>

lemma idle_flush:
  assumes "aitems (l_incoming_ack l) = []" "nitems (l_incoming_nack l) = []" "uitems (l_unconnected l) = []"
    and "outgoing_ack l = []" "outgoing_nack l = []" "buffer_is_empty (rl_buf st)" and "now < last_record_expired_at (rl_resend st)"
  obtains qa qn where "(try_empty (Suc n) Q K None now st l :: ('s, 'qa, 'qn, 'qu, 'qf, 'e) flush_result option)
       = Some (Ok (Ready (Inr ()), None, st, l\<lparr>l_incoming_ack := qa, l_incoming_nack := qn\<rparr>))"
    and "aitems qa = []" and "nitems qn = []"
proof -
  obtain qa where qa: "q_try_iter (ack_q Q) (l_incoming_ack l) = ([], qa)" "aitems qa = []" using aq.try_iter assms(1) by metis
  obtain qn where qn: "q_try_iter (nack_q Q) (l_incoming_nack l) = ([], qn)" "nitems qn = []" using nq.try_iter assms(2) by metis
  let ?l = "l\<lparr>l_incoming_ack := qa, l_incoming_nack := qn\<rparr>"
  have "(process_inflight Q now st l :: ('e, _) outcome) = Ok (st, ?l)"
    using qa(1) qn(1) assms(7) by (simp add: process_inflight_def process_ack_def process_nack_def process_stales_def)
  moreover have "check_flushed Q strategy_default ?l (rl_buf st)" using assms(3-6) by (simp add: check_flushed_iff)
  ultimately show thesis using that qa(2) qn(2) by (simp add: try_empty_def strategy_of_def mark_all_def)
qed

lemma close_spins:
  assumes "aitems (l_incoming_ack l) = []" "nitems (l_incoming_nack l) = []" "uitems (l_unconnected l) = []"
    and "outgoing_ack l = []" "outgoing_nack l = []" "buffer_is_empty (rl_buf st)"
    and "min_entry (rm_reliable (rl_resend st)) = Some (k, e)"
    and "\<And>t. t \<in> set ts \<Longrightarrow> expired_at e \<le> t \<and> t < last_record_expired_at (rl_resend st)"
    and flush: "\<And>s. fst (sink_poll_flush K s) = Ready (Inr ())"
  shows "(close_loop ts (Suc n) Q K w None st l r :: ('e, _) outcome option) = None"
  using assms(1-8)
proof (induction ts arbitrary: st l)
  case (Cons t ts)
  have t: "t < last_record_expired_at (rl_resend st)" "expired_at e \<le> t" using Cons.prems(8) by simp_all
  obtain qa qn where 1: "(try_empty (Suc n) Q K None t st l :: ('s, 'qa, 'qn, 'qu, 'qf, 'e) flush_result option)
      = Some (Ok (Ready (Inr ()), None, st, l\<lparr>l_incoming_ack := qa, l_incoming_nack := qn\<rparr>))" "aitems qa = []" "nitems qn = []"
    by (rule idle_flush [OF Cons.prems(1-6) t(1)])
  obtain s where s: "sink_poll_flush K (rl_frame st) = (Ready (Inr ()), s)" using flush by (metis prod.collapse)
  have "poll_wait t w (rl_resend st) r = (Ready (), r)" using t(2) Cons.prems(7) by (simp add: poll_wait_def)
  moreover have "\<not> rm_is_empty (rl_resend st)" using Cons.prems(7) by (auto simp: rm_is_empty_def)
  moreover have "(close_loop ts (Suc n) Q K w None (st\<lparr>rl_frame := s\<rparr>) (l\<lparr>l_incoming_ack := qa, l_incoming_nack := qn\<rparr>) r :: ('e, _) outcome option) = None"
    by (rule Cons.IH) (use Cons.prems 1(2,3) in simp_all)
  ultimately show ?case
    using 1(1) s Cons.prems(3-6)
    by (simp add: unconnected_empty_def outgoing_ack_empty_def outgoing_nack_empty_def uq.is_empty)
qed simp

end

lemma close_loop_done:
  assumes "close_loop ts n Q K waker ext st l r = Some (Ok (Ready (Inr u), ext', st', l', r') :: ('e, _) outcome)"
  shows "buffer_is_empty (rl_buf st') \<and> rm_is_empty (rl_resend st') \<and> unconnected_empty Q l' \<and> outgoing_ack_empty l'
     \<and> outgoing_nack_empty l' \<and> \<not> should_waking l'"
  using assms
proof (induction ts arbitrary: ext st l r)
  case (Cons t ts)
  note simps = unconnected_empty_def outgoing_ack_empty_def outgoing_nack_empty_def turn_off_waking_def should_waking_def
  from Cons.prems consider
      (again) ext1 st1 l1 r1 where "close_loop ts n Q K waker ext1 st1 l1 r1 = Some (Ok (Ready (Inr u), ext', st', l', r') :: ('e, _) outcome)"
    | (finished) st1 l1 s where "buffer_is_empty (rl_buf st1)" "unconnected_empty Q l1" "outgoing_ack_empty l1" "outgoing_nack_empty l1"
        "rm_is_empty (rl_resend st1)" "st' = st1\<lparr>rl_frame := s\<rparr>" "l' = turn_off_waking l1"
    by (auto simp: Let_def split: option.split_asm outcome.split_asm poll.split_asm sum.split_asm if_split_asm prod.split_asm)
  then show ?case by cases (use Cons.IH in \<open>auto simp: simps\<close>)
qed simp

subsection \<open>Theorems\<close>

text \<open>
  C18: flushing terminates and loses nothing, whatever the sink below does.  From a state with the invariant,
  with any strategy, a number of rounds above the number of waiting items is enough for the loop of
  \<open>try_empty\<close> to come to an end without a panic.  If the loop completes, everything the strategy selects has been
  flushed.  Unless the sink failed, the accounts are exact: the log of the sink is extended by datagrams to
  the peer that carry, in order and once, the acknowledgements, negative acknowledgements and unconnected
  packets that are no longer waiting, and frame sets with consecutive numbers that fit the MTU and hold
  exactly the frames that left the buffer; the sets with a reliable frame are in flight.
\<close>

theorem flush_terminates:
  assumes "reliable_env K log Q uitems ucap aitems acap nitems ncap False"
    and "layer_inv st l" and "now < TIME_BOUND" and "waiting uitems st l < n"
  shows "\<exists>r st' l'. flush_loop n Q K strategy now c st l = Some (Ok (r, st', l') :: (io_error, _) outcome) \<and> layer_inv st' l'
     \<and> (case r of
          Continue c' \<Rightarrow> check_flushed Q strategy l' (rl_buf st') \<and> acct log uitems st l st' l'
        | Stop Pending \<Rightarrow> acct log uitems st l st' l'
        | Stop (Ready x) \<Rightarrow> isl x)"
proof -
  from reliable_env.flush_loop_ok [OF assms(1-4), of strategy c, where 'e = io_error] obtain r st' l' where
    "flush_loop n Q K strategy now c st l = Some (Ok (r, st', l') :: (io_error, _) outcome)" "layer_inv st' l'"
    "case r of Continue c \<Rightarrow> acct log uitems st l st' l' \<and> check_flushed Q strategy l' (rl_buf st') | Stop Pending \<Rightarrow> acct log uitems st l st' l' \<and> \<not> False
       | Stop (Ready x) \<Rightarrow> \<not> False \<and> isl x"
    unfolding step_ok_def by blast
  then show ?thesis by (auto split: step.split_asm step.split poll.split_asm poll.split)
qed

text \<open>
  C19: over a sink that takes everything, a flush sends everything.  All acknowledgements,
  negative acknowledgements and unconnected packets go out in order and once, all buffered frames go out in frame sets with
  consecutive numbers that fit the MTU, no frame goes out that was not buffered or in flight, when a scan for timeouts is due every frame
  of an expired frame set without an acknowledgement goes out again, nothing remains waiting, and every frame that was buffered or in
  flight without an acknowledgement having come in is in flight afterwards or in a frame set sent with unreliable
  frames only.  Incoming acknowledgements name any numbers; the wrapping of sequence numbers is out of reach by
  the bound on the numbers used.
\<close>

theorem flush_sends_everything:
  assumes "reliable_env K log Q uitems ucap aitems acap nitems ncap True"
    and "layer_inv st l" and "now < TIME_BOUND"
    and "to_usize (seq_num_write_index st) + buffer_len (rl_buf st) + size (in_flight (rm_reliable (rl_resend st))) < 2 ^ 24"
    and "acks_wire (aitems (l_incoming_ack l))" and "\<forall>a \<in> set (nitems (l_incoming_nack l)). ack_wire a"
    and "waiting uitems st l + size (in_flight (rm_reliable (rl_resend st))) < n"
  shows "\<exists>st' l' ds. try_empty n Q K None now st l = Some (Ok (Ready (Inr ()), None, st', l') :: (io_error, _) outcome)
     \<and> layer_inv st' l' \<and> check_flushed Q strategy_default l' (rl_buf st')
     \<and> log (rl_frame st') = log (rl_frame st) @ ds \<and> (\<forall>d \<in> set ds. snd d = peer_addr (rl_peer st)) \<and> flushed_all uitems aitems now st l ds st'"
  by (rule reliable_env.flush_sends_all [OF assms(1) _ assms(2-7)]) simp

text \<open>
  C23: closing succeeds only when all is done.  If \<open>poll_close\<close> reports success, after any number of rounds at
  any times, then no frame is buffered or in flight without an acknowledgement and no acknowledgement, negative
  acknowledgement or unconnected packet is waiting.
\<close>

theorem close_after_all_acknowledged:
  assumes "rl_poll_close ts n Q K waker ext st l r = Some (Ok (Ready (Inr u), ext', st', l', r') :: (io_error, _) outcome)"
  shows "buffer_is_empty (rl_buf st') \<and> rm_is_empty (rl_resend st') \<and> unconnected_empty Q l' \<and> outgoing_ack_empty l'
     \<and> outgoing_nack_empty l' \<and> \<not> should_waking l'"
  using assms unfolding rl_poll_close_def by (rule close_loop_done)

text \<open>
  C40: closing can keep a thread busy.  When an entry has expired but the next scan for timeouts is due later
  (\<open>record\<close> does not bring \<open>last_record_expired_at\<close> forward, and entries recorded after the round trip estimate has
  dropped expire before it), then the loop of \<open>poll_close\<close> neither waits nor resends: at any clock
  readings until the scan is due it goes round without returning.
\<close>

theorem poll_close_spins:
  assumes "reliable_env K log Q uitems ucap aitems acap nitems ncap True"
    and "aitems (l_incoming_ack l) = []" "nitems (l_incoming_nack l) = []" "uitems (l_unconnected l) = []"
    and "outgoing_ack l = []" "outgoing_nack l = []" "buffer_is_empty (rl_buf st)"
    and "min_entry (rm_reliable (rl_resend st)) = Some (k, e)"
    and "\<forall>t \<in> set ts. expired_at e \<le> t \<and> t < last_record_expired_at (rl_resend st)"
    and "\<forall>s. fst (sink_poll_flush K s) = Ready (Inr ())"
  shows "rl_poll_close ts (Suc n) Q K w None st l r = (None :: (io_error, _) outcome option)"
  unfolding rl_poll_close_def
  by (rule reliable_env.close_spins [OF assms(1), where k = k and e = e]) (use assms(2-10) in \<open>simp_all add: turn_on_waking_def\<close>)

subsection \<open>A concrete environment\<close>

interpretation log_env: reliable_env log_sink "\<lambda>xs. xs" sample_link_api snd fst snd fst snd fst True
  by (simp add: reliable_env_def reliable_env_axioms_def sample_link_api_def list_queue.queue_laws_axioms log_sink.sink_laws_axioms log_sink_ready)

interpretation script_env: reliable_env script_sink snd sample_link_api snd fst snd fst snd fst False
  by (simp add: reliable_env_def reliable_env_axioms_def sample_link_api_def list_queue.queue_laws_axioms script_sink.sink_laws_axioms)

definition sample_link where
  "sample_link = (link_new sample_link_api (Client 0) sample_peer)\<lparr>outgoing_ack := [u24_of 4, u24_of 5]\<rparr>"

definition sample_layer :: "'s \<Rightarrow> 's reliable_layer" where
  "sample_layer s = snd (rl_start_send (wrap_reliable s 0 sample_peer (Client 0)) (Medium, plain_frame Reliable 3))"

lemmas sample_defs = sample_layer_def rl_start_send_def wrap_reliable_def resend_map_new_def sample_link_def link_new_def
  sample_link_api_def list_queue_def send_buffer_new_def sample_peer_def

lemma sample_layer_inv: "layer_inv (sample_layer s) sample_link"
proof -
  have "rm_inv (rl_resend (sample_layer s))"
    using resend_map_new_inv [of 0 "Client 0" sample_peer] by (simp add: sample_layer_def rl_start_send_def wrap_reliable_def)
  then show ?thesis
    by (simp add: layer_inv_def sample_defs below_def buffer_sorted_def fits_def buffered_def buffer_len_def plain_frame_def
        frame_size_def reliability_size_def FRAME_SET_HEADER_SIZE_def flags_new_def)
qed

theorem flush_terminates_witness:
  "\<exists>r st' l'. flush_loop 10 sample_link_api script_sink strategy_default 0 (0, 0, 0) (sample_layer ([Ready (Inr ()), Pending], [])) sample_link
       = Some (Ok (r, st', l') :: (io_error, _) outcome) \<and> layer_inv st' l'"
proof -
  have "waiting snd (sample_layer ([Ready (Inr ()), Pending], [])) sample_link < 10"
    by (simp add: waiting_def sample_defs buffer_len_def)
  from flush_terminates [OF script_env.reliable_env_axioms sample_layer_inv _ this, of 0 strategy_default "(0, 0, 0)"]
  show ?thesis by (simp add: TIME_BOUND_def) blast
qed

theorem flush_sends_everything_witness:
  "\<exists>st' l' ds. try_empty 10 sample_link_api log_sink None 0 (sample_layer []) sample_link
       = Some (Ok (Ready (Inr ()), None, st', l') :: (io_error, _) outcome)
     \<and> rl_frame st' = ds \<and> collect ack_part ds = [u24_of 4, u24_of 5] \<and> {# plain_frame Reliable 3 #} \<subseteq># frames_in (collect set_part ds)"
proof -
  have w: "waiting snd (sample_layer []) sample_link + size (in_flight (rm_reliable (rl_resend (sample_layer [] :: datagram list reliable_layer)))) < 10"
    "to_usize (seq_num_write_index (sample_layer [] :: datagram list reliable_layer)) + buffer_len (rl_buf (sample_layer [] :: datagram list reliable_layer))
       + size (in_flight (rm_reliable (rl_resend (sample_layer [] :: datagram list reliable_layer)))) < 2 ^ 24"
    "acks_wire (snd (l_incoming_ack sample_link))" "\<forall>a \<in> set (snd (l_incoming_nack sample_link)). ack_wire a"
    by (simp_all add: waiting_def sample_defs buffer_len_def acks_wire_def)
  have f: "outgoing_ack sample_link = [u24_of 4, u24_of 5]" "rl_frame (sample_layer []) = []"
    "buffered (rl_buf (sample_layer [])) = {# plain_frame Reliable 3 #}"
    by (simp_all add: sample_defs buffered_def)
  have "0 < TIME_BOUND" by (simp add: TIME_BOUND_def)
  from flush_sends_everything [OF log_env.reliable_env_axioms sample_layer_inv this w(2-4,1)] obtain st' l' ds where
    "try_empty 10 sample_link_api log_sink None 0 (sample_layer []) sample_link
       = Some (Ok (Ready (Inr ()), None, st', l') :: (io_error, _) outcome)"
    "rl_frame st' = rl_frame (sample_layer []) @ ds" "flushed_all snd snd 0 (sample_layer []) sample_link ds st'" by blast
  then show ?thesis unfolding flushed_all_def f by (intro exI [of _ st'] exI [of _ l'] exI [of _ ds]) simp
qed

theorem close_after_all_acknowledged_witness:
  "\<exists>u ext' st' l' r'. rl_poll_close [5] 10 sample_link_api log_sink () None (wrap_reliable [] 0 sample_peer (Client 0))
       (link_new sample_link_api (Client 0) sample_peer) (reactor_new :: unit reactor) = Some (Ok (Ready (Inr u), ext', st', l', r') :: (io_error, _) outcome)
     \<and> rm_is_empty (rl_resend st')"
proof -
  let ?st = "wrap_reliable [] 0 sample_peer (Client 0) :: datagram list reliable_layer" and ?l = "link_new sample_link_api (Client 0) sample_peer"
  have "rl_poll_close [5] 10 sample_link_api log_sink () None ?st ?l (reactor_new :: unit reactor)
      = Some (Ok (Ready (Inr ()), None, ?st, ?l, reactor_new) :: (io_error, _) outcome)"
    by (simp add: rl_poll_close_def try_empty_def process_inflight_def process_ack_def process_nack_def process_stales_def strategy_of_def
        mark_all_def check_flushed_def outgoing_ack_empty_def outgoing_nack_empty_def unconnected_empty_def buffer_is_empty_def buffer_len_def
        turn_on_waking_def turn_off_waking_def rm_is_empty_def log_sink_def sample_defs numeral_nat)
  from this close_after_all_acknowledged [OF this] show ?thesis by blast
qed

definition late_layer :: "datagram list reliable_layer" where
  "late_layer = (let st = wrap_reliable [] 0 sample_peer (Client 0) in
     st\<lparr>rl_resend := (rl_resend st)\<lparr>last_record_expired_at := 1000, inflight := 1, rm_reliable :=
       [(u24_of 0, \<lparr> re_penalty = 0, re_frames = Some [plain_frame Reliable 3], send_at = 2, expired_at = 5 \<rparr>)]\<rparr>\<rparr>)"

theorem poll_close_spins_witness:
  "rl_poll_close [5, 6, 7, 8] 1 sample_link_api log_sink () None late_layer (link_new sample_link_api (Client 0) sample_peer)
     (reactor_new :: unit reactor) = (None :: (io_error, _) outcome option)"
  unfolding One_nat_def
  by (rule poll_close_spins [OF log_env.reliable_env_axioms,
        where k = "u24_of 0" and e = "\<lparr> re_penalty = 0, re_frames = Some [plain_frame Reliable 3], send_at = 2, expired_at = 5 \<rparr>"])
    (simp_all add: late_layer_def sample_defs Let_def buffer_is_empty_def buffer_len_def log_sink_def)

end
