(* ===== verification/Connection_State.thy ===== *)
theory Connection_State
  imports Frame_Body Sinks Streams Queue_Api
begin

text \<open>
  The state of a connection, of \<open>src/src/state.rs\<close>: the sink that closes the outgoing direction by a
  handshake (wait until the peer has everything, send \<open>DisconnectNotification\<close>, wait again) and then
  reports the close event, and the stream that ends the incoming direction when the peer has sent its
  \<open>DisconnectNotification\<close>.
\<close>

subsection \<open>Outgoing direction\<close>

datatype outgoing_state = OutConnecting | FirstCloseWait | FinWait | SecondCloseWait | OutClosed

fun before_finish :: "outgoing_state \<Rightarrow> bool" where
  "before_finish OutConnecting = True"
| "before_finish FirstCloseWait = True"
| "before_finish FinWait = True"
| "before_finish _ = False"

text \<open>
  The sink below takes frame bodies and messages.  \<open>CloseOnDrop\<close> is the address it will report, and the
  queue of close events is passed along.
\<close>

datatype outgoing_item = OutBody frame_body | OutMessage message

record 's state_manager =
  sm_frame :: 's
  sm_state :: outgoing_state
  close_on_drop :: "socket_addr option"

definition close_event :: "('q, socket_addr) queue_api \<Rightarrow> socket_addr option \<Rightarrow> 'q \<Rightarrow> ('e, 'q) outcome" where
  "close_event C cod q = (case cod of
      None \<Rightarrow> Ok q
    | Some addr \<Rightarrow> (case q_push C q addr of (True, q) \<Rightarrow> Ok q | (False, q) \<Rightarrow> Panic))"

definition manage_outgoing_state :: "'s \<Rightarrow> socket_addr option \<Rightarrow> 's state_manager" where
  "manage_outgoing_state s cod = \<lparr> sm_frame = s, sm_state = OutConnecting, close_on_drop = cod \<rparr>"

definition closed_before :: io_error where
  "closed_before = IoError NotConnected ''connection was closed before''"

definition sm_poll_ready :: "('s, outgoing_item) sink_api \<Rightarrow> 's state_manager \<Rightarrow> (io_error + unit) poll \<times> 's state_manager" where
  "sm_poll_ready K st =
     (if \<not> before_finish (sm_state st) then (Ready (Inl closed_before), st)
      else (case sink_poll_ready K (sm_frame st) of (r, s) \<Rightarrow> (r, st\<lparr>sm_frame := s\<rparr>)))"

definition sm_start_send :: "('s, outgoing_item) sink_api \<Rightarrow> 's state_manager \<Rightarrow> frame_body \<Rightarrow> (io_error + unit) \<times> 's state_manager" where
  "sm_start_send K st body =
     (if \<not> before_finish (sm_state st) then (Inl closed_before, st)
      else (case sink_start_send K (sm_frame st) (OutBody body) of (r, s) \<Rightarrow> (r, st\<lparr>sm_frame := s\<rparr>)))"

definition sm_send_message :: "('s, outgoing_item) sink_api \<Rightarrow> 's state_manager \<Rightarrow> message \<Rightarrow> (io_error + unit) \<times> 's state_manager" where
  "sm_send_message K st m = (case sink_start_send K (sm_frame st) (OutMessage m) of (r, s) \<Rightarrow> (r, st\<lparr>sm_frame := s\<rparr>))"

definition sm_poll_flush :: "('s, outgoing_item) sink_api \<Rightarrow> 's state_manager \<Rightarrow> (io_error + unit) poll \<times> 's state_manager" where
  "sm_poll_flush K st = (case sink_poll_flush K (sm_frame st) of (r, s) \<Rightarrow> (r, st\<lparr>sm_frame := s\<rparr>))"

text \<open>The loop of \<open>poll_close\<close>; every round but the last moves to the next state.\<close>

fun rank :: "outgoing_state \<Rightarrow> nat" where
  "rank OutConnecting = 4"
| "rank FirstCloseWait = 3"
| "rank FinWait = 2"
| "rank SecondCloseWait = 1"
| "rank OutClosed = 0"

type_synonym ('s, 'q, 'e) close_result = "('e, (io_error + unit) poll \<times> 's state_manager \<times> 'q) outcome"

text \<open>\<open>ready!(poll?)\<close>: an answer that is not a success is returned, otherwise \<open>k\<close> goes on.\<close>

definition on_ready :: "(io_error + unit) poll \<times> 's \<Rightarrow> 's state_manager \<Rightarrow> 'q \<Rightarrow> ('s state_manager \<Rightarrow> ('s, 'q, 'e) close_result)
    \<Rightarrow> ('s, 'q, 'e) close_result" where
  "on_ready answer st q k = (case answer of
      (Ready (Inr _), s) \<Rightarrow> k (st\<lparr>sm_frame := s\<rparr>)
    | (r, s) \<Rightarrow> Ok (r, st\<lparr>sm_frame := s\<rparr>, q))"

lemma on_ready_cong [fundef_cong]:
  "answer = answer' \<Longrightarrow> st = st' \<Longrightarrow> q = q' \<Longrightarrow> (\<And>s. k (st'\<lparr>sm_frame := s\<rparr>) = k' (st'\<lparr>sm_frame := s\<rparr>))
    \<Longrightarrow> on_ready answer st q k = on_ready answer' st' q' k'"
  by (simp add: on_ready_def split: prod.split poll.split sum.split)

function sm_close_loop :: "('s, outgoing_item) sink_api \<Rightarrow> ('q, socket_addr) queue_api \<Rightarrow> 's state_manager \<Rightarrow> 'q \<Rightarrow> ('s, 'q, 'e) close_result" where
  "sm_close_loop K C st q = (case sm_state st of
      OutConnecting \<Rightarrow> sm_close_loop K C (st\<lparr>sm_state := FirstCloseWait\<rparr>) q
    | FirstCloseWait \<Rightarrow> on_ready (sink_poll_close K (sm_frame st)) st q (\<lambda>st. sm_close_loop K C (st\<lparr>sm_state := FinWait\<rparr>) q)
    | FinWait \<Rightarrow> on_ready (sink_poll_ready K (sm_frame st)) st q (\<lambda>st.
        (case sink_start_send K (sm_frame st) (OutBody DisconnectNotification) of
           (Inl e, s) \<Rightarrow> Ok (Ready (Inl e), st\<lparr>sm_frame := s\<rparr>, q)
         | (Inr _, s) \<Rightarrow> sm_close_loop K C (st\<lparr>sm_frame := s, sm_state := SecondCloseWait\<rparr>) q))
    | SecondCloseWait \<Rightarrow> on_ready (sink_poll_close K (sm_frame st)) st q (\<lambda>st. sm_close_loop K C (st\<lparr>sm_state := OutClosed\<rparr>) q)
    | OutClosed \<Rightarrow> and_then (close_event C (close_on_drop st) q) (\<lambda>q. Ok (Ready (Inr ()), st\<lparr>close_on_drop := None\<rparr>, q)))"
  by pat_completeness auto
termination
  by (relation "measure (\<lambda>(K, C, st, q). rank (sm_state st))") auto

declare sm_close_loop.simps [simp del]

definition sm_poll_close :: "('s, outgoing_item) sink_api \<Rightarrow> ('q, socket_addr) queue_api \<Rightarrow> 's state_manager \<Rightarrow> 'q \<Rightarrow> ('s, 'q, 'e) close_result" where
  "sm_poll_close K C st q =
     (if sm_state st = OutClosed then Ok (Ready (Inl closed_before), st, q) else sm_close_loop K C st q)"

subsection \<open>Incoming direction\<close>

datatype incoming_state = InConnecting | InClosed

definition manage_incoming_state :: incoming_state where
  "manage_incoming_state = InConnecting"

fun incoming_poll :: "(incoming_state, frame_body, frame_body, 'e) poll_fn" where
  "incoming_poll InClosed s = Ok (Ready None, InClosed, s)"
| "incoming_poll InConnecting [] = Ok (Pending, InConnecting, [])"
| "incoming_poll InConnecting (Pending # s) = Ok (Pending, InConnecting, s)"
| "incoming_poll InConnecting (Ready None # s) = Ok (Ready None, InClosed, s)"
| "incoming_poll InConnecting (Ready (Some body) # s) =
     (if body = DisconnectNotification then Ok (Ready None, InClosed, s) else Ok (Ready (Some body), InConnecting, s))"

subsection \<open>Runs of the outgoing direction\<close>

text \<open>
  What the owner of the sink may do, in any order and whatever the answers: the four operations on
  bodies, where the \<open>DisconnectNotification\<close> is left to \<open>poll_close\<close>, and sending messages.
\<close>

inductive sm_run :: "('s, outgoing_item) sink_api \<Rightarrow> ('q, socket_addr) queue_api \<Rightarrow> 's state_manager \<Rightarrow> 'q \<Rightarrow> 's state_manager \<Rightarrow> 'q \<Rightarrow> bool"
  for K :: "('s, outgoing_item) sink_api" and C :: "('q, socket_addr) queue_api" and st0 :: "'s state_manager" and q0 :: 'q where
  start: "sm_run K C st0 q0 st0 q0"
| ready: "sm_run K C st0 q0 st q \<Longrightarrow> sm_poll_ready K st = (r, st') \<Longrightarrow> sm_run K C st0 q0 st' q"
| body: "sm_run K C st0 q0 st q \<Longrightarrow> b \<noteq> DisconnectNotification \<Longrightarrow> sm_start_send K st b = (x, st') \<Longrightarrow> sm_run K C st0 q0 st' q"
| message: "sm_run K C st0 q0 st q \<Longrightarrow> sm_send_message K st m = (x, st') \<Longrightarrow> sm_run K C st0 q0 st' q"
| flush: "sm_run K C st0 q0 st q \<Longrightarrow> sm_poll_flush K st = (r, st') \<Longrightarrow> sm_run K C st0 q0 st' q"
| close: "sm_run K C st0 q0 st q \<Longrightarrow> sm_poll_close K C st q = (Ok (r, st', q') :: (io_error, _) outcome) \<Longrightarrow> sm_run K C st0 q0 st' q'"

text \<open>
  What has been sent in a state: no \<open>DisconnectNotification\<close> before the handshake has come to it, and
  exactly one afterwards, followed by nothing but messages.
\<close>

definition is_disconnect :: "outgoing_item \<Rightarrow> bool" where
  "is_disconnect x \<longleftrightarrow> x = OutBody DisconnectNotification"

definition is_message :: "outgoing_item \<Rightarrow> bool" where
  "is_message x \<longleftrightarrow> (case x of OutMessage _ \<Rightarrow> True | OutBody _ \<Rightarrow> False)"

definition handshake :: "outgoing_state \<Rightarrow> outgoing_item list \<Rightarrow> bool" where
  "handshake s xs \<longleftrightarrow> (if before_finish s then \<not> list_ex is_disconnect xs
     else \<exists>pre post. xs = pre @ OutBody DisconnectNotification # post \<and> \<not> list_ex is_disconnect pre \<and> list_all is_message post)"

lemma handshake_message: "handshake s xs \<Longrightarrow> is_message x \<Longrightarrow> handshake s (xs @ [x])"
  by (fastforce simp: handshake_def is_disconnect_def is_message_def split: if_splits outgoing_item.splits)

lemma handshake_body: "handshake s xs \<Longrightarrow> before_finish s \<Longrightarrow> \<not> is_disconnect x \<Longrightarrow> handshake s (xs @ [x])"
  by (simp add: handshake_def)

lemma handshake_counts:
  assumes "handshake s xs"
  shows "length (filter is_disconnect xs) = (if before_finish s then 0 else 1)"
    and "list_all is_message (tl (dropWhile (\<lambda>x. \<not> is_disconnect x) xs))"
proof -
  have "length (filter is_disconnect xs) = (if before_finish s then 0 else 1) \<and> list_all is_message (tl (dropWhile (\<lambda>x. \<not> is_disconnect x) xs))"
  proof (cases "before_finish s")
    case True
    then have "\<forall>x \<in> set xs. \<not> is_disconnect x" using assms by (simp add: handshake_def list_ex_iff)
    then show ?thesis using True by (simp add: filter_empty_conv dropWhile_eq_Nil_conv [THEN iffD2])
  next
    case False
    then obtain pre post where *: "xs = pre @ OutBody DisconnectNotification # post"
      "\<forall>x \<in> set pre. \<not> is_disconnect x" "list_all is_message post"
      using assms by (auto simp: handshake_def list_ex_iff)
    have "\<forall>x \<in> set post. \<not> is_disconnect x" using *(3) by (auto simp: list_all_iff is_message_def is_disconnect_def split: outgoing_item.splits)
    then have "filter is_disconnect xs = [OutBody DisconnectNotification]"
      using *(1,2) by (simp add: is_disconnect_def filter_empty_conv)
    moreover have "dropWhile (\<lambda>x. \<not> is_disconnect x) xs = OutBody DisconnectNotification # post"
      using *(1,2) by (simp add: dropWhile_append2 is_disconnect_def)
    ultimately show ?thesis using False *(3) by simp
  qed
  then show "length (filter is_disconnect xs) = (if before_finish s then 0 else 1)"
    "list_all is_message (tl (dropWhile (\<lambda>x. \<not> is_disconnect x) xs))" by simp_all
qed

definition event_of :: "socket_addr option \<Rightarrow> socket_addr list" where
  "event_of cod = (case cod of None \<Rightarrow> [] | Some a \<Rightarrow> [a])"

text \<open>The event is reported once, when the outgoing direction is closed.\<close>

definition reported :: "socket_addr option \<Rightarrow> socket_addr list \<Rightarrow> socket_addr list \<Rightarrow> 's state_manager \<Rightarrow> bool" where
  "reported cod evs0 evs st \<longleftrightarrow> (if sm_state st = OutClosed then close_on_drop st = None \<and> evs = evs0 @ event_of cod
     else close_on_drop st = cod \<and> evs = evs0)"

locale state_env = sink_laws K log + cq: queue_laws C events cap
  for K :: "('s, outgoing_item) sink_api" and log :: "'s \<Rightarrow> outgoing_item list"
    and C :: "('q, socket_addr) queue_api" and events :: "'q \<Rightarrow> socket_addr list" and cap :: "'q \<Rightarrow> nat option"
begin

abbreviation sm_ok :: "socket_addr option \<Rightarrow> socket_addr list \<Rightarrow> 's state_manager \<Rightarrow> 'q \<Rightarrow> bool" where
  "sm_ok cod evs0 st q \<equiv> cap q = None \<and> handshake (sm_state st) (log (sm_frame st)) \<and> reported cod evs0 (events q) st"

lemma close_event_ok:
  assumes "cap q = None"
  obtains q' where "(close_event C cod q :: ('e, _) outcome) = Ok q'" and "events q' = events q @ event_of cod" and "cap q' = None"
proof (cases cod)
  case None
  then show thesis using that [of q] assms by (simp add: close_event_def event_of_def)
next
  case (Some a)
  obtain q' where "q_push C q a = (True, q')" "events q' = events q @ [a]" "cap q' = None" using cq.push [OF assms] by blast
  then show thesis using that [of q'] Some by (simp add: close_event_def event_of_def)
qed

lemma on_ready_ok:
  assumes "cap q = None" and "reported cod evs0 (events q) st" and "sm_state st \<noteq> OutClosed" and "handshake (sm_state st) (log (sm_frame st))"
    and "\<And>r s. answer = (r, s) \<Longrightarrow> log s = log (sm_frame st)"
    and "\<And>s. log s = log (sm_frame st) \<Longrightarrow> \<exists>r st' q'. k (st\<lparr>sm_frame := s\<rparr>) = Ok (r, st', q') \<and> sm_ok cod evs0 st' q'"
  shows "\<exists>r st' q'. on_ready answer st q k = Ok (r, st', q') \<and> sm_ok cod evs0 st' q'"
proof -
  obtain r s where a: "answer = (r, s)" by fastforce
  then have log: "log s = log (sm_frame st)" by (rule assms(5))
  show ?thesis
  proof (cases "r = Ready (Inr ())")
    case True
    then show ?thesis using assms(6) [OF log] a by (simp add: on_ready_def)
  next
    case False
    then have "on_ready answer st q k = Ok (r, st\<lparr>sm_frame := s\<rparr>, q)"
      by (simp add: on_ready_def a split: poll.splits sum.splits)
    then show ?thesis using assms(1-4) log by (simp add: reported_def)
  qed
qed

lemma close_loop_ok:
  assumes "cap q = None" and "handshake (sm_state st) (log (sm_frame st))" and "close_on_drop st = cod" and "events q = evs0"
  shows "\<exists>r st' q'. (sm_close_loop K C st q :: ('s, 'q, 'e) close_result) = Ok (r, st', q') \<and> sm_ok cod evs0 st' q'"
  using assms
proof (induction n \<equiv> "rank (sm_state st)" arbitrary: st rule: less_induct)
  case less
  have next_ok: "\<exists>r st' q'. (sm_close_loop K C st2 q :: ('s, 'q, 'e) close_result) = Ok (r, st', q') \<and> sm_ok cod evs0 st' q'"
    if "rank (sm_state st2) < rank (sm_state st)" "close_on_drop st2 = cod" "handshake (sm_state st2) (log (sm_frame st2))" for st2
    using less.hyps [OF that(1) less.prems(1) that(3,2) less.prems(4)] .
  have rep: "sm_state st \<noteq> OutClosed \<Longrightarrow> reported cod evs0 (events q) st" using less.prems by (simp add: reported_def)
  have on_ready: "\<exists>r st' q'. (on_ready answer st q k :: ('s, 'q, 'e) close_result) = Ok (r, st', q') \<and> sm_ok cod evs0 st' q'"
    if "sm_state st \<noteq> OutClosed" "\<And>r s. answer = (r, s) \<Longrightarrow> log s = log (sm_frame st)"
      "\<And>s. log s = log (sm_frame st) \<Longrightarrow> \<exists>r st' q'. k (st\<lparr>sm_frame := s\<rparr>) = Ok (r, st', q') \<and> sm_ok cod evs0 st' q'" for answer k
    by (rule on_ready_ok [OF less.prems(1) rep [OF that(1)] that(1) less.prems(2)]) (fact that(2), fact that(3))
  show ?case
  proof (cases "sm_state st")
    case OutConnecting
    then have "handshake FirstCloseWait (log (sm_frame st))" using less.prems(2) by (simp add: handshake_def)
    then show ?thesis using next_ok [of "st\<lparr>sm_state := FirstCloseWait\<rparr>"] OutConnecting less.prems(3)
      by (subst sm_close_loop.simps) simp
  next
    case FirstCloseWait
    then have "handshake FinWait (log (sm_frame st))" using less.prems(2) by (simp add: handshake_def)
    then have "\<exists>r st' q'. (sm_close_loop K C (st\<lparr>sm_frame := s, sm_state := FinWait\<rparr>) q :: ('s, 'q, 'e) close_result) = Ok (r, st', q')
        \<and> sm_ok cod evs0 st' q'" if "log s = log (sm_frame st)" for s
      using next_ok [of "st\<lparr>sm_frame := s, sm_state := FinWait\<rparr>"] FirstCloseWait less.prems(3) that by simp
    then have "\<exists>r st' q'. (on_ready (sink_poll_close K (sm_frame st)) st q (\<lambda>st. sm_close_loop K C (st\<lparr>sm_state := FinWait\<rparr>) q) :: ('s, 'q, 'e) close_result) = Ok (r, st', q') \<and> sm_ok cod evs0 st' q'"
      by (intro on_ready) (simp_all add: FirstCloseWait close_log)
    then show ?thesis using FirstCloseWait by (subst sm_close_loop.simps) simp
  next
    case FinWait
    let ?k = "\<lambda>st. (case sink_start_send K (sm_frame st) (OutBody DisconnectNotification) of
           (Inl e, s) \<Rightarrow> Ok (Ready (Inl e), st\<lparr>sm_frame := s\<rparr>, q)
         | (Inr _, s) \<Rightarrow> sm_close_loop K C (st\<lparr>sm_frame := s, sm_state := SecondCloseWait\<rparr>) q) :: ('s, 'q, 'e) close_result"
    have "\<exists>r st' q'. ?k (st\<lparr>sm_frame := s\<rparr>) = Ok (r, st', q') \<and> sm_ok cod evs0 st' q'" if log: "log s = log (sm_frame st)" for s
    proof -
      obtain x s' where x: "sink_start_send K s (OutBody DisconnectNotification) = (x, s')" by fastforce
      show ?thesis
      proof (cases x)
        case (Inl e)
        then have "log s' = log (sm_frame st)" using send_log [OF x] log by simp
        then show ?thesis using x Inl FinWait less.prems by (simp add: reported_def)
      next
        case (Inr u)
        then have "log s' = log (sm_frame st) @ [OutBody DisconnectNotification]" using send_log [OF x] log by simp
        then have "handshake SecondCloseWait (log s')"
          using less.prems(2) FinWait by (auto simp: handshake_def intro: exI [of _ "log (sm_frame st)"])
        then show ?thesis using next_ok [of "st\<lparr>sm_frame := s', sm_state := SecondCloseWait\<rparr>"] x Inr FinWait less.prems(3) by simp
      qed
    qed
    then have "\<exists>r st' q'. on_ready (sink_poll_ready K (sm_frame st)) st q ?k = Ok (r, st', q') \<and> sm_ok cod evs0 st' q'"
      by (intro on_ready) (simp_all add: FinWait ready_log)
    then show ?thesis using FinWait by (subst sm_close_loop.simps) simp
  next
    case SecondCloseWait
    then have "handshake OutClosed (log (sm_frame st))" using less.prems(2) by (simp add: handshake_def)
    then have "\<exists>r st' q'. (sm_close_loop K C (st\<lparr>sm_frame := s, sm_state := OutClosed\<rparr>) q :: ('s, 'q, 'e) close_result) = Ok (r, st', q')
        \<and> sm_ok cod evs0 st' q'" if "log s = log (sm_frame st)" for s
      using next_ok [of "st\<lparr>sm_frame := s, sm_state := OutClosed\<rparr>"] SecondCloseWait less.prems(3) that by simp
    then have "\<exists>r st' q'. (on_ready (sink_poll_close K (sm_frame st)) st q (\<lambda>st. sm_close_loop K C (st\<lparr>sm_state := OutClosed\<rparr>) q) :: ('s, 'q, 'e) close_result) = Ok (r, st', q') \<and> sm_ok cod evs0 st' q'"
      by (intro on_ready) (simp_all add: SecondCloseWait close_log)
    then show ?thesis using SecondCloseWait by (subst sm_close_loop.simps) simp
  next
    case OutClosed
    obtain q' where "(close_event C cod q :: ('e, _) outcome) = Ok q'" "events q' = evs0 @ event_of cod" "cap q' = None"
      using close_event_ok [OF less.prems(1), of cod] less.prems(4) by metis
    then show ?thesis using OutClosed less.prems(2,3) by (subst sm_close_loop.simps) (simp add: reported_def)
  qed
qed

lemma run_ok:
  assumes "sm_run K C st0 q0 st q" and "sm_ok cod evs0 st0 q0"
  shows "sm_ok cod evs0 st q"
  using assms
proof (induction rule: sm_run.induct)
  case (ready st q r st')
  then show ?case by (auto simp: sm_poll_ready_def reported_def dest: ready_log split: if_splits prod.splits)
next
  case (body st q b x st')
  then show ?case
    by (auto simp: sm_start_send_def reported_def is_disconnect_def dest!: send_log split: if_splits prod.splits sum.splits
        intro!: handshake_body)
next
  case (message st q m x st')
  then show ?case
    by (auto simp: sm_send_message_def reported_def is_message_def dest!: send_log split: prod.splits sum.splits intro!: handshake_message)
next
  case (flush st q r st')
  then show ?case by (auto simp: sm_poll_flush_def reported_def dest: flush_log split: prod.splits)
next
  case (close st q r st' q')
  show ?case
  proof (cases "sm_state st = OutClosed")
    case False
    then have "close_on_drop st = cod" "events q = evs0" using close.IH [OF close.prems] by (simp_all add: reported_def)
    then show ?thesis
      using close_loop_ok [of q st cod evs0, where 'e = io_error] close.IH [OF close.prems] close.hyps(2) False by (auto simp: sm_poll_close_def)
  qed (use close in \<open>simp add: sm_poll_close_def\<close>)
qed

text \<open>With a sink that is always ready and closes at once, one call goes all the way.\<close>

lemma close_completes:
  assumes rdy: "always_ready K" and cl: "\<And>s. fst (sink_poll_close K s) = Ready (Inr ())"
    and inv: "cap q = None" and open_: "sm_state st \<noteq> OutClosed"
  shows "\<exists>st' q'. (sm_poll_close K C st q :: ('s, 'q, 'e) close_result) = Ok (Ready (Inr ()), st', q') \<and> sm_state st' = OutClosed
     \<and> log (sm_frame st') = log (sm_frame st) @ (if before_finish (sm_state st) then [OutBody DisconnectNotification] else [])
     \<and> events q' = events q @ event_of (close_on_drop st)"
proof -
  let ?done = "\<lambda>st xs. \<exists>st' q'. (sm_close_loop K C st q :: ('s, 'q, 'e) close_result) = Ok (Ready (Inr ()), st', q') \<and> sm_state st' = OutClosed
     \<and> log (sm_frame st') = log (sm_frame st) @ xs \<and> events q' = events q @ event_of (close_on_drop st)"
  have waited: "on_ready (sink_poll_close K (sm_frame st)) st q k = k (st\<lparr>sm_frame := snd (sink_poll_close K (sm_frame st))\<rparr>)"
    "log (snd (sink_poll_close K (sm_frame st))) = log (sm_frame st)" for k :: "'s state_manager \<Rightarrow> ('s, 'q, 'e) close_result" and st
    using cl [of "sm_frame st"] close_log [of "sm_frame st"] by (cases "sink_poll_close K (sm_frame st)"; simp add: on_ready_def)+
  have closed: "?done st []" if st: "sm_state st = OutClosed" for st
  proof -
    obtain q' where "(close_event C (close_on_drop st) q :: ('e, _) outcome) = Ok q'" "events q' = events q @ event_of (close_on_drop st)"
      by (rule close_event_ok [OF inv])
    then show ?thesis using st by (subst sm_close_loop.simps) simp
  qed
  have second: "?done st []" if "sm_state st = SecondCloseWait" for st
    using closed [of "st\<lparr>sm_frame := snd (sink_poll_close K (sm_frame st)), sm_state := OutClosed\<rparr>"] that waited [of st]
    by (subst sm_close_loop.simps) simp
  have fin: "?done st [OutBody DisconnectNotification]" if st: "sm_state st = FinWait" for st
  proof -
    obtain s where s: "sink_poll_ready K (sm_frame st) = (Ready (Inr ()), s)" using rdy unfolding always_ready_def by (metis prod.collapse)
    obtain s' where s': "sink_start_send K s (OutBody DisconnectNotification) = (Inr (), s')"
      using rdy unfolding always_ready_def by (metis prod.collapse)
    have "log s' = log (sm_frame st) @ [OutBody DisconnectNotification]" using ready_log [OF s] send_log [OF s'] by simp
    then show ?thesis
      using second [of "st\<lparr>sm_frame := s', sm_state := SecondCloseWait\<rparr>"] st s s' by (subst sm_close_loop.simps) (simp add: on_ready_def)
  qed
  have first: "?done st [OutBody DisconnectNotification]" if "sm_state st = FirstCloseWait" for st
    using fin [of "st\<lparr>sm_frame := snd (sink_poll_close K (sm_frame st)), sm_state := FinWait\<rparr>"] that waited [of st]
    by (subst sm_close_loop.simps) simp
  have "?done st [OutBody DisconnectNotification]" if "sm_state st = OutConnecting" for st
    using first [of "st\<lparr>sm_state := FirstCloseWait\<rparr>"] that by (subst sm_close_loop.simps) simp
  then have "?done st (if before_finish (sm_state st) then [OutBody DisconnectNotification] else [])"
    using first fin second open_ by (cases "sm_state st") simp_all
  then show ?thesis using open_ by (simp add: sm_poll_close_def)
qed

end

subsection \<open>The calls made to the sink below\<close>

text \<open>
  Any sink, with a record of the calls made to it and of its answers.  It answers as the sink does, so the runs of
  the outgoing direction over it are those over the sink itself.
\<close>

datatype sink_call =
    Readied "(io_error + unit) poll"
  | Sent outgoing_item "io_error + unit"
  | Flushed "(io_error + unit) poll"
  | Waited "(io_error + unit) poll"

definition traced :: "('s, outgoing_item) sink_api \<Rightarrow> ('s \<times> sink_call list, outgoing_item) sink_api" where
  "traced K = \<lparr>
     sink_poll_ready = (\<lambda>(s, tr). case sink_poll_ready K s of (r, s') \<Rightarrow> (r, s', tr @ [Readied r])),
     sink_start_send = (\<lambda>(s, tr) x. case sink_start_send K s x of (r, s') \<Rightarrow> (r, s', tr @ [Sent x r])),
     sink_poll_flush = (\<lambda>(s, tr). case sink_poll_flush K s of (r, s') \<Rightarrow> (r, s', tr @ [Flushed r])),
     sink_poll_close = (\<lambda>(s, tr). case sink_poll_close K s of (r, s') \<Rightarrow> (r, s', tr @ [Waited r])) \<rparr>"

fun accepted :: "sink_call list \<Rightarrow> outgoing_item list" where
  "accepted [] = []"
| "accepted (Sent x (Inr _) # tr) = x # accepted tr"
| "accepted (_ # tr) = accepted tr"

lemma accepted_append [simp]: "accepted (tr @ tr') = accepted tr @ accepted tr'"
  by (induction tr rule: accepted.induct) simp_all

lemma traced_laws: "sink_laws (traced K) (accepted \<circ> snd)"
  by unfold_locales (auto simp: traced_def split: prod.splits sum.splits)

definition erase :: "('s \<times> sink_call list) state_manager \<Rightarrow> 's state_manager" where
  "erase st = \<lparr> sm_frame = fst (sm_frame st), sm_state = sm_state st, close_on_drop = close_on_drop st \<rparr>"

lemma erase_update [simp]:
  "erase (st\<lparr>sm_frame := x\<rparr>) = (erase st)\<lparr>sm_frame := fst x\<rparr>" "erase (st\<lparr>sm_state := t\<rparr>) = (erase st)\<lparr>sm_state := t\<rparr>"
  "erase (st\<lparr>close_on_drop := c\<rparr>) = (erase st)\<lparr>close_on_drop := c\<rparr>"
  "sm_state (erase st) = sm_state st" "sm_frame (erase st) = fst (sm_frame st)" "close_on_drop (erase st) = close_on_drop st"
  by (simp_all add: erase_def)

text \<open>
  The waits of the handshake, in the calls made: the notification is sent only after a close of the sink below has
  succeeded, and the connection is closed only after another one has succeeded since.
\<close>

abbreviation waited :: sink_call where "waited \<equiv> Waited (Ready (Inr ()))"

abbreviation notified :: sink_call where "notified \<equiv> Sent (OutBody DisconnectNotification) (Inr ())"

fun waits :: "outgoing_state \<Rightarrow> sink_call list \<Rightarrow> bool" where
  "waits OutConnecting tr \<longleftrightarrow> True"
| "waits FirstCloseWait tr \<longleftrightarrow> True"
| "waits FinWait tr \<longleftrightarrow> waited \<in> set tr"
| "waits SecondCloseWait tr \<longleftrightarrow> (\<exists>pre post. tr = pre @ notified # post \<and> waited \<in> set pre)"
| "waits OutClosed tr \<longleftrightarrow> (\<exists>pre post. tr = pre @ notified # post \<and> waited \<in> set pre \<and> waited \<in> set post)"

lemma waits_append: "waits s tr \<Longrightarrow> waits s (tr @ tr')"
  by (cases s) fastforce+

lemma waits_notified: "waits FinWait tr \<Longrightarrow> waits SecondCloseWait (tr @ [x, notified])"
  by (simp, rule exI [of _ "tr @ [x]"]) simp

lemma waits_closed: "waits SecondCloseWait tr \<Longrightarrow> waits OutClosed (tr @ [waited])"
  by fastforce

lemma on_ready_cases:
  assumes "on_ready answer st q k = Ok (r, st', q')"
  obtains s where "answer = (Ready (Inr ()), s)" and "k (st\<lparr>sm_frame := s\<rparr>) = Ok (r, st', q')"
  | s where "answer = (r, s)" and "st' = st\<lparr>sm_frame := s\<rparr>"
  using assms by (auto simp: on_ready_def split: prod.splits poll.splits sum.splits)

lemma traced_calls:
  "sink_poll_close (traced K) x = (r, y) \<longleftrightarrow> (\<exists>s. sink_poll_close K (fst x) = (r, s) \<and> y = (s, snd x @ [Waited r]))"
  "sink_poll_ready (traced K) x = (r, y) \<longleftrightarrow> (\<exists>s. sink_poll_ready K (fst x) = (r, s) \<and> y = (s, snd x @ [Readied r]))"
  "sink_poll_flush (traced K) x = (r, y) \<longleftrightarrow> (\<exists>s. sink_poll_flush K (fst x) = (r, s) \<and> y = (s, snd x @ [Flushed r]))"
  "sink_start_send (traced K) x i = (e, y) \<longleftrightarrow> (\<exists>s. sink_start_send K (fst x) i = (e, s) \<and> y = (s, snd x @ [Sent i e]))"
  by (auto simp: traced_def split: prod.splits)

lemma close_loop_waits:
  assumes "(sm_close_loop (traced K) C st q :: ('s \<times> sink_call list, 'q, 'e) close_result) = Ok (r, st', q')"
    and "waits (sm_state st) (snd (sm_frame st))"
  shows "waits (sm_state st') (snd (sm_frame st'))"
  using assms
proof (induction n \<equiv> "rank (sm_state st)" arbitrary: st rule: less_induct)
  case less
  let ?loop = "\<lambda>st2. sm_close_loop (traced K) C st2 q :: ('s \<times> sink_call list, 'q, 'e) close_result"
  have rec: "waits (sm_state st') (snd (sm_frame st'))"
    if "rank (sm_state st2) < rank (sm_state st)" "?loop st2 = Ok (r, st', q')" "waits (sm_state st2) (snd (sm_frame st2))" for st2
    using less.hyps [OF that] .
  note run = less.prems(1) [unfolded sm_close_loop.simps [of _ _ st]] and w = less.prems(2)
  show ?case
  proof (cases "sm_state st")
    case OutConnecting
    then show ?thesis using run rec [of "st\<lparr>sm_state := FirstCloseWait\<rparr>"] by simp
  next
    case FirstCloseWait
    with run have "on_ready (sink_poll_close (traced K) (sm_frame st)) st q (\<lambda>st. ?loop (st\<lparr>sm_state := FinWait\<rparr>)) = Ok (r, st', q')" by simp
    then show ?thesis
    proof (cases rule: on_ready_cases)
      case (1 s)
      then show ?thesis using rec [of "st\<lparr>sm_frame := s, sm_state := FinWait\<rparr>"] FirstCloseWait by (auto simp: traced_calls)
    qed (use w FirstCloseWait in simp)
  next
    case FinWait
    with run have "on_ready (sink_poll_ready (traced K) (sm_frame st)) st q (\<lambda>st.
        (case sink_start_send (traced K) (sm_frame st) (OutBody DisconnectNotification) of
           (Inl e, s) \<Rightarrow> Ok (Ready (Inl e), st\<lparr>sm_frame := s\<rparr>, q)
         | (Inr _, s) \<Rightarrow> ?loop (st\<lparr>sm_frame := s, sm_state := SecondCloseWait\<rparr>))) = Ok (r, st', q')" by simp
    then show ?thesis
    proof (cases rule: on_ready_cases)
      case (1 s)
      obtain x s' where x: "sink_start_send (traced K) s (OutBody DisconnectNotification) = (x, s')" by (meson surj_pair)
      show ?thesis
      proof (cases x)
        case (Inl e)
        then show ?thesis using 1 x w FinWait by (auto simp: traced_calls)
      next
        case (Inr u)
        then show ?thesis
          using 1 x w FinWait waits_notified [of "snd (sm_frame st)"] rec [of "st\<lparr>sm_frame := s', sm_state := SecondCloseWait\<rparr>"]
          by (auto simp: traced_calls simp del: waits.simps)
      qed
    qed (use w FinWait in \<open>auto simp: traced_calls\<close>)
  next
    case SecondCloseWait
    with run have "on_ready (sink_poll_close (traced K) (sm_frame st)) st q (\<lambda>st. ?loop (st\<lparr>sm_state := OutClosed\<rparr>)) = Ok (r, st', q')" by simp
    then show ?thesis
    proof (cases rule: on_ready_cases)
      case (1 s)
      then show ?thesis using w waits_closed rec [of "st\<lparr>sm_frame := s, sm_state := OutClosed\<rparr>"] SecondCloseWait by (auto simp: traced_calls simp del: waits.simps)
    next
      case (2 s)
      then show ?thesis using waits_append [OF w] SecondCloseWait by (auto simp: traced_calls simp del: waits.simps)
    qed
  next
    case OutClosed
    then show ?thesis using run w by (auto simp: and_then_eq_Ok simp del: waits.simps)
  qed
qed

lemma run_waits:
  assumes "sm_run (traced K) C st0 q0 st q" and "waits (sm_state st0) (snd (sm_frame st0))"
  shows "waits (sm_state st) (snd (sm_frame st))"
  using assms
proof (induction rule: sm_run.induct)
  case (close st q r st' q')
  then show ?case using close_loop_waits [of K C st q r st' q', where 'e = io_error] by (auto simp: sm_poll_close_def split: if_splits)
qed (auto simp: sm_poll_ready_def sm_start_send_def sm_send_message_def sm_poll_flush_def traced_calls intro: waits_append simp del: waits.simps split: if_splits prod.splits)

abbreviation erased :: "('e, (io_error + unit) poll \<times> ('s \<times> sink_call list) state_manager \<times> 'q) outcome \<Rightarrow> ('s, 'q, 'e) close_result" where
  "erased \<equiv> map_outcome (\<lambda>(r, st, q). (r, erase st, q))"

lemma on_ready_erase:
  assumes "\<And>s. erased (k (st\<lparr>sm_frame := s\<rparr>)) = k' ((erase st)\<lparr>sm_frame := fst s\<rparr>)"
    and "answer' = (fst answer, fst (snd answer))"
  shows "erased (on_ready answer st q k) = on_ready answer' (erase st) q k'"
  using assms by (auto simp: on_ready_def split: prod.splits poll.splits sum.splits)

lemma traced_answers:
  "fst (sink_poll_close (traced K) x) = fst (sink_poll_close K (fst x))" "fst (snd (sink_poll_close (traced K) x)) = snd (sink_poll_close K (fst x))"
  "fst (sink_poll_ready (traced K) x) = fst (sink_poll_ready K (fst x))" "fst (snd (sink_poll_ready (traced K) x)) = snd (sink_poll_ready K (fst x))"
  "fst (sink_poll_flush (traced K) x) = fst (sink_poll_flush K (fst x))" "fst (snd (sink_poll_flush (traced K) x)) = snd (sink_poll_flush K (fst x))"
  "fst (sink_start_send (traced K) x i) = fst (sink_start_send K (fst x) i)" "fst (snd (sink_start_send (traced K) x i)) = snd (sink_start_send K (fst x) i)"
  by (simp_all add: traced_def case_prod_unfold)

lemma close_loop_erase:
  "erased (sm_close_loop (traced K) C st q) = (sm_close_loop K C (erase st) q :: ('s, 'q, 'e) close_result)"
proof (induction n \<equiv> "rank (sm_state st)" arbitrary: st rule: less_induct)
  case less
  let ?L = "\<lambda>st. sm_close_loop (traced K) C st q :: ('s \<times> sink_call list, 'q, 'e) close_result"
  have IH: "erased (?L st2) = sm_close_loop K C (erase st2) q" if "rank (sm_state st2) < rank (sm_state st)" for st2
    using less.hyps [OF that] .
  have wait: "erased (on_ready (sink_poll_close (traced K) (sm_frame st)) st q (\<lambda>st. ?L (st\<lparr>sm_state := t\<rparr>)))
      = on_ready (sink_poll_close K (sm_frame (erase st))) (erase st) q (\<lambda>st. sm_close_loop K C (st\<lparr>sm_state := t\<rparr>) q)"
    if "rank t < rank (sm_state st)" for t
    by (rule on_ready_erase) (use that in \<open>simp_all add: IH traced_answers\<close>)
  have sent: "erased (case sink_start_send (traced K) s (OutBody DisconnectNotification) of
           (Inl e, s) \<Rightarrow> Ok (Ready (Inl e), st\<lparr>sm_frame := s\<rparr>, q)
         | (Inr _, s) \<Rightarrow> ?L (st\<lparr>sm_frame := s, sm_state := SecondCloseWait\<rparr>))
      = (case sink_start_send K (fst s) (OutBody DisconnectNotification) of
           (Inl e, s) \<Rightarrow> Ok (Ready (Inl e), (erase st)\<lparr>sm_frame := s\<rparr>, q)
         | (Inr _, s) \<Rightarrow> sm_close_loop K C ((erase st)\<lparr>sm_frame := s, sm_state := SecondCloseWait\<rparr>) q)"
    if "rank SecondCloseWait < rank (sm_state st)" for s
  proof -
    obtain x s' where x: "sink_start_send (traced K) s (OutBody DisconnectNotification) = (x, s')" by (meson surj_pair)
    then have "sink_start_send K (fst s) (OutBody DisconnectNotification) = (x, fst s')" by (auto simp: traced_calls)
    then show ?thesis using x that IH [of "st\<lparr>sm_frame := s', sm_state := SecondCloseWait\<rparr>"] by (cases x) simp_all
  qed
  have fin: "erased (on_ready (sink_poll_ready (traced K) (sm_frame st)) st q (\<lambda>st.
        (case sink_start_send (traced K) (sm_frame st) (OutBody DisconnectNotification) of
           (Inl e, s) \<Rightarrow> Ok (Ready (Inl e), st\<lparr>sm_frame := s\<rparr>, q)
         | (Inr _, s) \<Rightarrow> ?L (st\<lparr>sm_frame := s, sm_state := SecondCloseWait\<rparr>))))
      = on_ready (sink_poll_ready K (sm_frame (erase st))) (erase st) q (\<lambda>st.
        (case sink_start_send K (sm_frame st) (OutBody DisconnectNotification) of
           (Inl e, s) \<Rightarrow> Ok (Ready (Inl e), st\<lparr>sm_frame := s\<rparr>, q)
         | (Inr _, s) \<Rightarrow> sm_close_loop K C (st\<lparr>sm_frame := s, sm_state := SecondCloseWait\<rparr>) q))"
    if "rank SecondCloseWait < rank (sm_state st)"
  proof (rule on_ready_erase)
    show "sink_poll_ready K (sm_frame (erase st)) = (fst (sink_poll_ready (traced K) (sm_frame st)), fst (snd (sink_poll_ready (traced K) (sm_frame st))))"
      by (simp add: traced_answers)
  qed (use sent [OF that] in \<open>simp cong: prod.case_cong sum.case_cong\<close>)
  have cl: "erased (and_then z (\<lambda>q. Ok (Ready (Inr ()), st\<lparr>close_on_drop := None\<rparr>, q)))
      = and_then z (\<lambda>q. Ok (Ready (Inr ()), (erase st)\<lparr>close_on_drop := None\<rparr>, q))" for z :: "('e, 'q) outcome"
    by (cases z) simp_all
  show ?case
    unfolding sm_close_loop.simps [of "traced K" _ st] sm_close_loop.simps [of K _ "erase st"]
    using IH [of "st\<lparr>sm_state := FirstCloseWait\<rparr>"] wait [of FinWait] wait [of OutClosed] fin cl by (cases "sm_state st") simp_all
qed

text \<open>Every run over a sink is a run over the traced one without its record.\<close>

lemma traced_run:
  assumes "sm_run K C (manage_outgoing_state s cod) q0 st q"
  shows "\<exists>st1. sm_run (traced K) C (manage_outgoing_state (s, []) cod) q0 st1 q \<and> erase st1 = st"
  using assms
proof (induction rule: sm_run.induct)
  case start
  have "erase (manage_outgoing_state (s, []) cod) = manage_outgoing_state s cod" by (simp add: erase_def manage_outgoing_state_def)
  then show ?case by (intro exI [of _ "manage_outgoing_state (s, []) cod"] conjI sm_run.start)
next
  case (ready st q r st')
  then obtain st1 where st1: "sm_run (traced K) C (manage_outgoing_state (s, []) cod) q0 st1 q" "erase st1 = st" by blast
  obtain x1 st1' where op: "sm_poll_ready (traced K) st1 = (x1, st1')" by (meson surj_pair)
  then have "erase st1' = st'" using ready.hyps(2) st1(2) traced_answers(3,4) [of K "sm_frame st1"]
    by (auto simp: sm_poll_ready_def case_prod_unfold split: if_splits)
  then show ?case using sm_run.ready [OF st1(1) op] by blast
next
  case (body st q b x st')
  then obtain st1 where st1: "sm_run (traced K) C (manage_outgoing_state (s, []) cod) q0 st1 q" "erase st1 = st" by blast
  obtain x1 st1' where op: "sm_start_send (traced K) st1 b = (x1, st1')" by (meson surj_pair)
  then have "erase st1' = st'" using body.hyps(2,3) st1(2) traced_answers(7,8) [of K "sm_frame st1"]
    by (auto simp: sm_start_send_def case_prod_unfold split: if_splits)
  then show ?case using sm_run.body [OF st1(1) body.hyps(2) op] by blast
next
  case (message st q m x st')
  then obtain st1 where st1: "sm_run (traced K) C (manage_outgoing_state (s, []) cod) q0 st1 q" "erase st1 = st" by blast
  obtain x1 st1' where op: "sm_send_message (traced K) st1 m = (x1, st1')" by (meson surj_pair)
  then have "erase st1' = st'" using message.hyps(2) st1(2) traced_answers(7,8) [of K "sm_frame st1"]
    by (auto simp: sm_send_message_def case_prod_unfold split: if_splits)
  then show ?case using sm_run.message [OF st1(1) op] by blast
next
  case (flush st q r st')
  then obtain st1 where st1: "sm_run (traced K) C (manage_outgoing_state (s, []) cod) q0 st1 q" "erase st1 = st" by blast
  obtain x1 st1' where op: "sm_poll_flush (traced K) st1 = (x1, st1')" by (meson surj_pair)
  then have "erase st1' = st'" using flush.hyps(2) st1(2) traced_answers(5,6) [of K "sm_frame st1"]
    by (auto simp: sm_poll_flush_def case_prod_unfold split: if_splits)
  then show ?case using sm_run.flush [OF st1(1) op] by blast
next
  case (close st q r st' q')
  then obtain st1 where st1: "sm_run (traced K) C (manage_outgoing_state (s, []) cod) q0 st1 q" "erase st1 = st" by blast
  have "erased (sm_poll_close (traced K) C st1 q :: ('a \<times> sink_call list, 'b, io_error) close_result) = sm_poll_close K C st q"
    using close_loop_erase [of K C st1 q, where 'e = io_error] st1(2) by (auto simp: sm_poll_close_def)
  then obtain st1' where "sm_poll_close (traced K) C st1 q = (Ok (r, st1', q') :: (io_error, _) outcome)" "erase st1' = st'"
    using close.hyps(2) by (cases "sm_poll_close (traced K) C st1 q :: ('a \<times> sink_call list, 'b, io_error) close_result") auto
  then show ?case using sm_run.close [OF st1(1)] by blast
qed

subsection \<open>Runs of the incoming direction\<close>

fun before_end :: "frame_body script \<Rightarrow> frame_body list" where
  "before_end [] = []"
| "before_end (Pending # s) = before_end s"
| "before_end (Ready None # s) = []"
| "before_end (Ready (Some b) # s) = (if b = DisconnectNotification then [] else b # before_end s)"

lemma closed_polls: "polls n incoming_poll InClosed s = Ok (replicate n (Ready None), InClosed, s)"
  by (induction n) simp_all

lemma ready_replicate_None [simp]: "ready_items (replicate n (Ready None)) = []"
  by (induction n) simp_all

lemma incoming_polls:
  "\<exists>outs st rest k. (polls n incoming_poll InConnecting s :: ('e, _) outcome) = Ok (outs, st, rest) \<and> ready_items outs = take k (before_end s)
     \<and> (length s \<le> n \<longrightarrow> ready_items outs = before_end s)"
proof (induction n arbitrary: s)
  case (Suc n)
  show ?case
  proof (cases s rule: before_end.cases)
    case 1
    then show ?thesis using Suc.IH [of "[]"] by auto
  next
    case (2 t)
    then show ?thesis using Suc.IH [of t] by fastforce
  next
    case (3 t)
    then show ?thesis by (simp add: closed_polls)
  next
    case (4 b t)
    show ?thesis
    proof (cases "b = DisconnectNotification")
      case True
      then show ?thesis using 4 by (simp add: closed_polls)
    next
      case False
      from Suc.IH [of t] obtain outs st rest k where
        "(polls n incoming_poll InConnecting t :: ('e, _) outcome) = Ok (outs, st, rest)" "ready_items outs = take k (before_end t)"
        "length t \<le> n \<longrightarrow> ready_items outs = before_end t" by blast
      then show ?thesis using 4 False by (auto intro!: exI [of _ "Suc k"])
    qed
  qed
qed (auto intro: exI [of _ 0])

subsection \<open>Theorems\<close>

text \<open>
  C32: the close handshake, whatever the owner of the connection does in whatever order and whatever the sink below
  answers, seen in the calls made to that sink (\<open>traced_run\<close>: recording them changes no run).  Before the handshake has
  come to the \<open>DisconnectNotification\<close> the sink has accepted none; afterwards it has accepted exactly one, behind which
  it accepts no other frame body, but still messages.  The notification is sent only after a close of the sink
  below has succeeded, which is the wait for everything sent so far; the state \<open>OutClosed\<close> is reached only
  after another close has succeeded since the notification; and the close event is reported exactly once
  if that state is reached and not at all before.
\<close>

theorem close_handshake:
  assumes "queue_laws C events cap" and "cap q0 = None" and "sm_run (traced K) C (manage_outgoing_state (s, []) cod) q0 st q"
    and "sm_frame st = (s', tr)"
  shows "length (filter is_disconnect (accepted tr)) = (if before_finish (sm_state st) then 0 else 1)
     \<and> list_all is_message (tl (dropWhile (\<lambda>x. \<not> is_disconnect x) (accepted tr)))
     \<and> (sm_state st = FinWait \<longrightarrow> waited \<in> set tr)
     \<and> (\<not> before_finish (sm_state st) \<longrightarrow> (\<exists>pre post. tr = pre @ notified # post \<and> waited \<in> set pre
          \<and> (sm_state st = OutClosed \<longrightarrow> waited \<in> set post)))
     \<and> events q = events q0 @ (if sm_state st = OutClosed then event_of cod else [])"
proof -
  have env: "state_env (traced K) (accepted \<circ> snd) C events cap" by (intro state_env.intro traced_laws assms(1))
  have "handshake (sm_state st) (accepted tr) \<and> reported cod (events q0) (events q) st"
    using state_env.run_ok [OF env assms(3), of cod "events q0"] assms(2,4)
    by (simp add: manage_outgoing_state_def handshake_def reported_def)
  then have h: "handshake (sm_state st) (accepted tr)" and r: "reported cod (events q0) (events q) st" by simp_all
  have "waits (sm_state st) tr" using run_waits [OF assms(3)] assms(4) by (simp add: manage_outgoing_state_def)
  moreover have "events q = events q0 @ (if sm_state st = OutClosed then event_of cod else [])"
    using r by (simp add: reported_def split: if_splits)
  ultimately show ?thesis using handshake_counts [OF h] by (cases "sm_state st") auto
qed

theorem close_handshake_witness:
  "\<exists>st q s' tr. sm_run (traced log_sink) list_queue (manage_outgoing_state ([], []) (Some (V4 1 2))) (None, []) st q \<and> sm_state st = OutClosed
     \<and> sm_frame st = (s', tr) \<and> length (filter is_disconnect (accepted tr)) = 1 \<and> snd q = [V4 1 2]
     \<and> (\<exists>pre post. tr = pre @ notified # post \<and> waited \<in> set pre \<and> waited \<in> set post)"
proof -
  let ?st = "manage_outgoing_state ([], []) (Some (V4 1 2))"
  let ?tr = "[waited, Readied (Ready (Inr ())), notified, waited]"
  let ?st' = "\<lparr> sm_frame = ([OutBody DisconnectNotification], ?tr), sm_state = OutClosed, close_on_drop = None \<rparr>"
  have "sm_poll_close (traced log_sink) list_queue ?st (None, []) = (Ok (Ready (Inr ()), ?st', (None, [V4 1 2])) :: (io_error, _) outcome)"
    by (simp add: sm_poll_close_def sm_close_loop.simps manage_outgoing_state_def on_ready_def traced_def log_sink_def close_event_def list_queue_def)
  from sm_run.close [OF sm_run.start this] have run: "sm_run (traced log_sink) list_queue ?st (None, []) ?st' (None, [V4 1 2])" .
  have "sm_frame ?st' = ([OutBody DisconnectNotification], ?tr)" by simp
  from close_handshake [OF list_queue.queue_laws_axioms _ run this]
  have "length (filter is_disconnect (accepted ?tr)) = 1" "\<exists>pre post. ?tr = pre @ notified # post \<and> waited \<in> set pre \<and> waited \<in> set post"
    by (simp_all del: accepted.simps)
  with run show ?thesis
    by - (rule exI [of _ ?st'], rule exI [of _ "(None, [V4 1 2])"], rule exI [of _ "[OutBody DisconnectNotification]"], rule exI [of _ ?tr],
      intro conjI, simp_all only: state_manager.simps snd_conv)
qed

interpretation log_state: state_env log_sink "\<lambda>xs. xs" list_queue snd fst
  by (simp add: state_env_def list_queue.queue_laws_axioms log_sink.sink_laws_axioms)

text \<open>
  C33: closing completes.  Over a sink that is ready and has delivered everything, one call of \<open>poll_close\<close> on a
  connection that is not yet closed ends in success from any stage of the handshake: it sends the
  \<open>DisconnectNotification\<close> if that is still to be done, and nothing else, and reports the close event.
\<close>

theorem close_succeeds:
  assumes "state_env K log C events cap" and "always_ready K" and "\<And>s. fst (sink_poll_close K s) = Ready (Inr ())"
    and "cap q = None" and "sm_state st \<noteq> OutClosed"
  shows "\<exists>st' q'. sm_poll_close K C st q = (Ok (Ready (Inr ()), st', q') :: (io_error, _) outcome) \<and> sm_state st' = OutClosed
     \<and> log (sm_frame st') = log (sm_frame st) @ (if before_finish (sm_state st) then [OutBody DisconnectNotification] else [])
     \<and> events q' = events q @ event_of (close_on_drop st)"
  by (rule state_env.close_completes [OF assms])

theorem close_succeeds_witness:
  "\<exists>st' q'. sm_poll_close log_sink list_queue (manage_outgoing_state [] (Some (V4 1 2))) (None, []) = (Ok (Ready (Inr ()), st', q') :: (io_error, _) outcome)
     \<and> sm_state st' = OutClosed \<and> sm_frame st' = [OutBody DisconnectNotification] \<and> snd q' = [V4 1 2]"
  using close_succeeds [OF log_state.state_env_axioms log_sink_ready, of "(None, [])" "manage_outgoing_state [] (Some (V4 1 2))"]
  by (simp add: log_sink_def manage_outgoing_state_def event_of_def)

text \<open>
  C34: the incoming direction ends with the peer's \<open>DisconnectNotification\<close>.  Polled any number of times, the
  stream delivers frame bodies from before the first \<open>DisconnectNotification\<close> or end of the stream below, in order,
  and with as many polls as there are items all of them; it never delivers the
  notification itself, and once ended it stays ended.
\<close>

theorem incoming_until_disconnect:
  "\<exists>outs st rest k. polls n incoming_poll manage_incoming_state s = (Ok (outs, st, rest) :: (io_error, _) outcome)
     \<and> ready_items outs = take k (before_end s) \<and> (length s \<le> n \<longrightarrow> ready_items outs = before_end s)
     \<and> DisconnectNotification \<notin> set (ready_items outs)
     \<and> polls m incoming_poll InClosed rest = (Ok (replicate m (Ready None), InClosed, rest) :: (io_error, _) outcome)"
proof -
  have "DisconnectNotification \<notin> set (before_end s)" by (induction s rule: before_end.induct) auto
  then have "DisconnectNotification \<notin> set (take k (before_end s))" for k by (meson in_set_takeD)
  then show ?thesis using incoming_polls [of n s, where 'e = io_error] closed_polls [of m] unfolding manage_incoming_state_def by metis
qed

theorem incoming_until_disconnect_witness:
  "\<exists>outs st rest. polls 4 incoming_poll manage_incoming_state
       [Ready (Some (ConnectedPing 1)), Pending, Ready (Some DisconnectNotification), Ready (Some (ConnectedPing 2))]
       = (Ok (outs, st, rest) :: (io_error, _) outcome) \<and> ready_items outs = [ConnectedPing 1]"
  using incoming_until_disconnect [of 4 "[Ready (Some (ConnectedPing 1)), Pending, Ready (Some DisconnectNotification), Ready (Some (ConnectedPing 2))]"]
  by (simp del: polls.simps) blast

end
