(* ===== verification/Online.thy ===== *)
theory Online
  imports Link Streams
begin

text \<open>
  The online handshake: the stream handlers of \<open>src/src/server/handler/online.rs\<close> and
  \<open>src/src/client/handler/online.rs\<close>, which answer the control messages of a connection through the link and
  hand the user data on.  \<open>now\<close> stands for the readings of \<open>timestamp()\<close> during a call; log output is left
  out.
\<close>

subsection \<open>The loop of a handler\<close>

text \<open>
  Both handlers loop over the frame bodies of the stream below until one is user data to return: \<open>step\<close> is what
  they do with one body in their current state.
\<close>

fun online_poll :: "('st \<Rightarrow> 'l \<Rightarrow> frame_body \<Rightarrow> ('e, bytes option \<times> 'st \<times> 'l) outcome) \<Rightarrow> ('st \<times> 'l, frame_body, bytes, 'e) poll_fn" where
  "online_poll step (st, l) [] = Ok (Pending, (st, l), [])"
| "online_poll step (st, l) (Pending # s) = Ok (Pending, (st, l), s)"
| "online_poll step (st, l) (Ready None # s) = Ok (Ready None, (st, l), s)"
| "online_poll step (st, l) (Ready (Some body) # s) =
     and_then (step st l body) (\<lambda>(data, st, l). case data of
         Some data \<Rightarrow> Ok (Ready (Some data), (st, l), s)
       | None \<Rightarrow> online_poll step (st, l) s)"

subsection \<open>Server\<close>

datatype handshake_state = WaitConnRequest | WaitNewIncomingConn | ServerConnected

record server_online =
  so_role :: role
  so_peer :: peer
  so_state :: handshake_state

definition server_handle_online :: "role \<Rightarrow> peer \<Rightarrow> server_online" where
  "server_handle_online role peer = \<lparr> so_role = role, so_peer = peer, so_state = WaitConnRequest \<rparr>"

definition is_ipv6 :: "socket_addr \<Rightarrow> bool" where
  "is_ipv6 a = (case a of V6 _ _ _ _ \<Rightarrow> True | V4 _ _ \<Rightarrow> False)"

definition unspecified_addr :: "socket_addr \<Rightarrow> socket_addr" where
  "unspecified_addr a = (if is_ipv6 a then V6 0 0 0 0 else V4 0 0)"

definition server_step :: "('qa, 'qn, 'qu, 'qf) link_api \<Rightarrow> i64 \<Rightarrow> server_online \<Rightarrow> ('qa, 'qn, 'qu, 'qf) link \<Rightarrow> frame_body
    \<Rightarrow> ('e, bytes option \<times> server_online \<times> ('qa, 'qn, 'qu, 'qf) link) outcome" where
  "server_step Q now st l body = (case so_state st of
      WaitConnRequest \<Rightarrow> (case body of
          ConnectionRequest _ rt enc \<Rightarrow>
            if enc
            then and_then (send_unconnected Q l (ConnectionRequestFailed (role_guid (so_role st)))) (\<lambda>l. Ok (None, st, l))
            else and_then (send_frame_body Q l (ConnectionRequestAccepted (peer_addr (so_peer st)) 0
                   (replicate 20 (unspecified_addr (peer_addr (so_peer st)))) rt now)) (\<lambda>l.
                 Ok (None, st\<lparr>so_state := WaitNewIncomingConn\<rparr>, l))
        | _ \<Rightarrow> Ok (None, st, l))
    | WaitNewIncomingConn \<Rightarrow> (case body of
          NewIncomingConnection _ _ _ _ \<Rightarrow> Ok (None, st\<lparr>so_state := ServerConnected\<rparr>, l)
        | User data \<Rightarrow> Ok (Some data, st, l)
        | _ \<Rightarrow> Ok (None, st, l))
    | ServerConnected \<Rightarrow> (case body of
          ConnectedPing ct \<Rightarrow>
            and_then (send_frame_body Q l (ConnectedPong ct now)) (\<lambda>l. Ok (None, st, l))
        | User data \<Rightarrow> Ok (Some data, st, l)
        | _ \<Rightarrow> Ok (None, st, l)))"

definition server_online_poll :: "('qa, 'qn, 'qu, 'qf) link_api \<Rightarrow> i64 \<Rightarrow> (server_online \<times> ('qa, 'qn, 'qu, 'qf) link, frame_body, bytes, 'e) poll_fn" where
  "server_online_poll Q now = online_poll (server_step Q now)"

subsection \<open>Client\<close>

datatype client_state = WaitConnRes | ClientConnected

record client_online =
  co_state :: client_state
  co_addr :: socket_addr
  co_role :: role

definition client_handle_online :: "('qa, 'qn, 'qu, 'qf) link_api \<Rightarrow> i64 \<Rightarrow> socket_addr \<Rightarrow> u64 \<Rightarrow> ('qa, 'qn, 'qu, 'qf) link
    \<Rightarrow> ('e, client_online \<times> ('qa, 'qn, 'qu, 'qf) link) outcome" where
  "client_handle_online Q now addr guid l =
     and_then (send_frame_body Q l (ConnectionRequest guid now False)) (\<lambda>l.
       Ok (\<lparr> co_state = WaitConnRes, co_addr = addr, co_role = Client guid \<rparr>, l))"

definition client_step :: "('qa, 'qn, 'qu, 'qf) link_api \<Rightarrow> i64 \<Rightarrow> client_online \<Rightarrow> ('qa, 'qn, 'qu, 'qf) link \<Rightarrow> frame_body
    \<Rightarrow> ('e, bytes option \<times> client_online \<times> ('qa, 'qn, 'qu, 'qf) link) outcome" where
  "client_step Q now st l body = (case co_state st of
      WaitConnRes \<Rightarrow> (case body of
          ConnectionRequestAccepted _ _ addrs _ at \<Rightarrow>
            and_then (send_frame_body Q l (NewIncomingConnection (co_addr st) addrs now at)) (\<lambda>l.
              Ok (None, st\<lparr>co_state := ClientConnected\<rparr>, l))
        | User data \<Rightarrow> Ok (Some data, st, l)
        | _ \<Rightarrow> Ok (None, st, l))
    | ClientConnected \<Rightarrow> (case body of
          DetectLostConnections \<Rightarrow> and_then (send_frame_body Q l (ConnectedPing now)) (\<lambda>l. Ok (None, st, l))
        | User data \<Rightarrow> Ok (Some data, st, l)
        | _ \<Rightarrow> Ok (None, st, l)))"

definition client_online_poll :: "('qa, 'qn, 'qu, 'qf) link_api \<Rightarrow> i64 \<Rightarrow> (client_online \<times> ('qa, 'qn, 'qu, 'qf) link, frame_body, bytes, 'e) poll_fn" where
  "client_online_poll Q now = online_poll (client_step Q now)"

subsection \<open>Runs of a handler\<close>

text \<open>Polling at a sequence of clock readings.\<close>

fun timed_polls :: "('t \<Rightarrow> ('st, 'i, 'o, 'e) poll_fn) \<Rightarrow> 't list \<Rightarrow> 'st \<Rightarrow> 'i script \<Rightarrow> ('e, 'o script \<times> 'st \<times> 'i script) outcome" where
  "timed_polls poll_at [] st s = Ok ([], st, s)"
| "timed_polls poll_at (t # ts) st s =
     and_then (poll_at t st s) (\<lambda>(r, st, s).
     and_then (timed_polls poll_at ts st s) (\<lambda>(rs, st, s). Ok (r # rs, st, s)))"

text \<open>
  What a specification of single steps says about a sequence of bodies: the state reached, the data handed
  on, and the frame bodies and unconnected packets sent.
\<close>

type_synonym 'st online_spec = "'st \<Rightarrow> frame_body \<Rightarrow> 'st \<times> bytes list \<times> frame_body list \<times> unconnected list"

fun served :: "'st online_spec \<Rightarrow> 'st \<Rightarrow> frame_body list \<Rightarrow> 'st \<times> bytes list \<times> frame_body list \<times> unconnected list" where
  "served spec st [] = (st, [], [], [])"
| "served spec st (b # bs) = (case spec st b of (st1, d, ms, us) \<Rightarrow> (case served spec st1 bs of (st2, ds, ms2, us2) \<Rightarrow>
     (st2, d @ ds, ms @ ms2, us @ us2)))"

lemma served_append:
  "served spec st (bs @ cs) = (case served spec st bs of (st1, ds, ms, us) \<Rightarrow> (case served spec st1 cs of (st2, ds2, ms2, us2) \<Rightarrow>
     (st2, ds @ ds2, ms @ ms2, us @ us2)))"
  by (induction bs arbitrary: st) (auto split: prod.splits)

text \<open>
  The contract of a handler: its step never fails, and up to timestamps what it returns, its next state and
  what it sends are given by \<open>spec\<close>.
\<close>

locale online_laws =
  fixes step :: "'t \<Rightarrow> 'st \<Rightarrow> 'l \<Rightarrow> frame_body \<Rightarrow> ('e, bytes option \<times> 'st \<times> 'l) outcome"
    and good :: "'l \<Rightarrow> bool"
    and bodies :: "'l \<Rightarrow> frame_body list"
    and packets :: "'l \<Rightarrow> unconnected list"
    and spec :: "'st online_spec"
  assumes step_ok: "good l \<Longrightarrow> spec st b = (st', ds, ms, us) \<Longrightarrow>
      \<exists>d l'. step t st l b = Ok (d, st', l') \<and> ds = (case d of None \<Rightarrow> [] | Some x \<Rightarrow> [x]) \<and> good l'
        \<and> bodies l' = bodies l @ ms \<and> packets l' = packets l @ us"
begin

text \<open>What one or more calls did.\<close>

definition effect :: "'st \<Rightarrow> 'l \<Rightarrow> frame_body script \<Rightarrow> bytes script \<Rightarrow> 'st \<Rightarrow> 'l \<Rightarrow> bool" where
  "effect st l used outs st' l' \<longleftrightarrow> good l' \<and> (\<exists>ms us. served spec st (ready_items used) = (st', ready_items outs, ms, us)
     \<and> bodies l' = bodies l @ ms \<and> packets l' = packets l @ us)"

lemma effect_trans:
  assumes "effect st l u1 o1 st1 l1" and "effect st1 l1 u2 o2 st2 l2"
  shows "effect st l (u1 @ u2) (o1 @ o2) st2 l2"
  using assms by (auto simp: effect_def served_append)

lemma poll_ok:
  assumes "good l"
  shows "\<exists>r st' l' used rest. online_poll (step t) (st, l) s = Ok (r, (st', l'), rest) \<and> s = used @ rest
     \<and> effect st l used [r] st' l' \<and> length rest \<le> length s - 1"
  using assms
proof (induction "step t" "(st, l)" s arbitrary: st l rule: online_poll.induct)
  case (4 st l body s)
  obtain st1 ds ms us where spec: "spec st body = (st1, ds, ms, us)" by (rule prod_cases4)
  obtain d l1 where l1: "step t st l body = Ok (d, st1, l1)" "ds = (case d of None \<Rightarrow> [] | Some x \<Rightarrow> [x])" "good l1"
    "bodies l1 = bodies l @ ms" "packets l1 = packets l @ us"
    using step_ok [OF 4(2) spec] by blast
  show ?case
  proof (cases d)
    case (Some x)
    then show ?thesis
      using spec l1 by (intro exI [of _ "Ready (Some x)"] exI [of _ st1] exI [of _ l1] exI [of _ "[Ready (Some body)]"] exI [of _ s]) (simp add: effect_def)
  next
    case None
    from 4(1) [OF l1(1) refl refl None l1(3)] obtain r st' l' used rest where
      *: "online_poll (step t) (st1, l1) s = Ok (r, (st', l'), rest)" "s = used @ rest" "effect st1 l1 used [r] st' l'" "length rest \<le> length s - 1" by blast
    moreover have "effect st l ([Ready (Some body)] @ used) ([] @ [r]) st' l'"
      by (rule effect_trans [OF _ *(3)]) (use spec l1 None in \<open>simp add: effect_def\<close>)
    ultimately show ?thesis
      using l1(1) None by (intro exI [of _ r] exI [of _ st'] exI [of _ l'] exI [of _ "[Ready (Some body)] @ used"] exI [of _ rest]) simp
  qed
next
  case (1 st l)
  then show ?case
    by (intro exI [of _ Pending] exI [of _ st] exI [of _ l] exI [of _ "[]"]) (simp add: effect_def)
next
  case (2 st l s)
  then show ?case
    by (intro exI [of _ Pending] exI [of _ st] exI [of _ l] exI [of _ "[Pending]"] exI [of _ s]) (simp add: effect_def)
next
  case (3 st l s)
  then show ?case
    by (intro exI [of _ "Ready None"] exI [of _ st] exI [of _ l] exI [of _ "[Ready None]"] exI [of _ s]) (simp add: effect_def)
qed

lemma polls_ok:
  assumes "good l"
  shows "\<exists>outs st' l' used rest. timed_polls (\<lambda>t. online_poll (step t)) ts (st, l) s = Ok (outs, (st', l'), rest) \<and> s = used @ rest
     \<and> effect st l used outs st' l' \<and> length rest \<le> length s - length ts"
  using assms
proof (induction ts arbitrary: st l s)
  case Nil
  then show ?case by (intro exI [of _ "[]"] exI [of _ st] exI [of _ l] exI [of _ "[]"] exI [of _ s]) (simp add: effect_def)
next
  case (Cons t ts)
  obtain r st1 l1 used rest where 1: "online_poll (step t) (st, l) s = Ok (r, (st1, l1), rest)" "s = used @ rest"
     "effect st l used [r] st1 l1" "length rest \<le> length s - 1"
    using poll_ok [OF Cons.prems] by blast
  obtain outs st2 l2 used2 rest2 where 2: "timed_polls (\<lambda>t. online_poll (step t)) ts (st1, l1) rest = Ok (outs, (st2, l2), rest2)"
     "rest = used2 @ rest2" "effect st1 l1 used2 outs st2 l2" "length rest2 \<le> length rest - length ts"
    using Cons.IH [of l1 st1 rest] 1(3) unfolding effect_def by blast
  have "effect st l (used @ used2) ([r] @ outs) st2 l2" by (rule effect_trans [OF 1(3) 2(3)])
  then show ?case
    using 1(1,2,4) 2(1,2,4) by (intro exI [of _ "r # outs"] exI [of _ st2] exI [of _ l2] exI [of _ "used @ used2"] exI [of _ rest2]) simp
qed

end

subsection \<open>Single steps\<close>

text \<open>Control messages without the timestamps taken from the clock.\<close>

fun shape :: "frame_body \<Rightarrow> frame_body" where
  "shape (ConnectedPong ct st) = ConnectedPong ct 0"
| "shape (ConnectedPing ct) = ConnectedPing 0"
| "shape (ConnectionRequestAccepted a i as rt at) = ConnectionRequestAccepted a i as rt 0"
| "shape (NewIncomingConnection a as rt at) = NewIncomingConnection a as 0 at"
| "shape b = b"

definition server_spec :: "server_online online_spec" where
  "server_spec st b = (case so_state st of
      WaitConnRequest \<Rightarrow> (case b of
          ConnectionRequest _ rt enc \<Rightarrow>
            if enc then (st, [], [], [ConnectionRequestFailed (role_guid (so_role st))])
            else (st\<lparr>so_state := WaitNewIncomingConn\<rparr>, [],
                  [ConnectionRequestAccepted (peer_addr (so_peer st)) 0 (replicate 20 (unspecified_addr (peer_addr (so_peer st)))) rt 0], [])
        | _ \<Rightarrow> (st, [], [], []))
    | WaitNewIncomingConn \<Rightarrow> (case b of
          NewIncomingConnection _ _ _ _ \<Rightarrow> (st\<lparr>so_state := ServerConnected\<rparr>, [], [], [])
        | User data \<Rightarrow> (st, [data], [], [])
        | _ \<Rightarrow> (st, [], [], []))
    | ServerConnected \<Rightarrow> (case b of
          ConnectedPing ct \<Rightarrow> (st, [], [ConnectedPong ct 0], [])
        | User data \<Rightarrow> (st, [data], [], [])
        | _ \<Rightarrow> (st, [], [], [])))"

definition client_spec :: "client_online online_spec" where
  "client_spec st b = (case co_state st of
      WaitConnRes \<Rightarrow> (case b of
          ConnectionRequestAccepted _ _ as _ at \<Rightarrow> (st\<lparr>co_state := ClientConnected\<rparr>, [], [NewIncomingConnection (co_addr st) as 0 at], [])
        | User data \<Rightarrow> (st, [data], [], [])
        | _ \<Rightarrow> (st, [], [], []))
    | ClientConnected \<Rightarrow> (case b of
          DetectLostConnections \<Rightarrow> (st, [], [ConnectedPing 0], [])
        | User data \<Rightarrow> (st, [data], [], [])
        | _ \<Rightarrow> (st, [], [], [])))"

text \<open>The link a handler needs: two unbounded queues.\<close>

locale online_env = uq: queue_laws "unconnected_q Q" uitems ucap + fq: queue_laws "body_q Q" fitems fcap
  for Q :: "('qa, 'qn, 'qu, 'qf) link_api" and uitems :: "'qu \<Rightarrow> unconnected list" and ucap :: "'qu \<Rightarrow> nat option"
    and fitems :: "'qf \<Rightarrow> frame_body list" and fcap :: "'qf \<Rightarrow> nat option"
begin

abbreviation good_link :: "('qa, 'qn, 'qu, 'qf) link \<Rightarrow> bool" where
  "good_link l \<equiv> ucap (l_unconnected l) = None \<and> fcap (l_frame_body l) = None"

abbreviation sent_bodies :: "('qa, 'qn, 'qu, 'qf) link \<Rightarrow> frame_body list" where
  "sent_bodies l \<equiv> map shape (fitems (l_frame_body l))"

abbreviation sent_packets :: "('qa, 'qn, 'qu, 'qf) link \<Rightarrow> unconnected list" where
  "sent_packets l \<equiv> uitems (l_unconnected l)"

lemma send_body_ok:
  assumes "good_link l"
  shows "\<exists>l'. (send_frame_body Q l b :: ('e, _) outcome) = Ok l' \<and> good_link l' \<and> sent_bodies l' = sent_bodies l @ [shape b]
    \<and> sent_packets l' = sent_packets l"
proof -
  obtain q where "q_push (body_q Q) (l_frame_body l) b = (True, q)" "fitems q = fitems (l_frame_body l) @ [b]" "fcap q = None"
    using fq.push assms by blast
  then show ?thesis using assms by (intro exI [of _ "l\<lparr>l_frame_body := q\<rparr>"]) (simp add: send_frame_body_def)
qed

lemma send_packet_ok:
  assumes "good_link l"
  shows "\<exists>l'. (send_unconnected Q l p :: ('e, _) outcome) = Ok l' \<and> good_link l' \<and> sent_bodies l' = sent_bodies l
    \<and> sent_packets l' = sent_packets l @ [p]"
proof -
  obtain q where "q_push (unconnected_q Q) (l_unconnected l) p = (True, q)" "uitems q = uitems (l_unconnected l) @ [p]" "ucap q = None"
    using uq.push assms by blast
  then show ?thesis using assms by (intro exI [of _ "l\<lparr>l_unconnected := q\<rparr>"]) (simp add: send_unconnected_def)
qed

lemma server_laws: "online_laws (server_step Q :: _ \<Rightarrow> _ \<Rightarrow> _ \<Rightarrow> _ \<Rightarrow> ('e, _) outcome) good_link sent_bodies sent_packets server_spec"
proof
  fix l st b st' ds ms us t
  assume good: "good_link l" and spec: "server_spec st b = (st', ds, ms, us)"
  note body = send_body_ok [OF good]
  note packet = send_packet_ok [OF good]
  show "\<exists>d l'. (server_step Q t st l b :: ('e, _) outcome) = Ok (d, st', l') \<and> ds = (case d of None \<Rightarrow> [] | Some x \<Rightarrow> [x])
      \<and> good_link l' \<and> sent_bodies l' = sent_bodies l @ ms \<and> sent_packets l' = sent_packets l @ us"
  proof (cases b)
    case (ConnectionRequest g rt enc)
    then show ?thesis
      using good spec body [where 'e = 'e, of "ConnectionRequestAccepted (peer_addr (so_peer st)) 0 (replicate 20 (unspecified_addr (peer_addr (so_peer st)))) rt t"]
        packet [where 'e = 'e, of "ConnectionRequestFailed (role_guid (so_role st))"]
      by (cases "so_state st"; cases enc) (auto simp: server_spec_def server_step_def)
  next
    case (ConnectedPing ct)
    then show ?thesis
      using good spec body [where 'e = 'e, of "ConnectedPong ct t"] by (cases "so_state st") (auto simp: server_spec_def server_step_def)
  qed (use good spec in \<open>cases "so_state st"; auto simp: server_spec_def server_step_def\<close>)+
qed

lemma client_laws: "online_laws (client_step Q :: _ \<Rightarrow> _ \<Rightarrow> _ \<Rightarrow> _ \<Rightarrow> ('e, _) outcome) good_link sent_bodies sent_packets client_spec"
proof
  fix l st b st' ds ms us t
  assume good: "good_link l" and spec: "client_spec st b = (st', ds, ms, us)"
  note body = send_body_ok [OF good]
  show "\<exists>d l'. (client_step Q t st l b :: ('e, _) outcome) = Ok (d, st', l') \<and> ds = (case d of None \<Rightarrow> [] | Some x \<Rightarrow> [x])
      \<and> good_link l' \<and> sent_bodies l' = sent_bodies l @ ms \<and> sent_packets l' = sent_packets l @ us"
  proof (cases b)
    case (ConnectionRequestAccepted a i as rt at)
    then show ?thesis
      using good spec body [where 'e = 'e, of "NewIncomingConnection (co_addr st) as t at"] by (cases "co_state st") (auto simp: client_spec_def client_step_def)
  next
    case DetectLostConnections
    then show ?thesis
      using good spec body [where 'e = 'e, of "ConnectedPing t"] by (cases "co_state st") (auto simp: client_spec_def client_step_def)
  qed (use good spec in \<open>cases "co_state st"; auto simp: client_spec_def client_step_def\<close>)+
qed

end

subsection \<open>What the handlers do with a whole sequence of bodies\<close>

fun plain_request :: "frame_body \<Rightarrow> bool" where
  "plain_request (ConnectionRequest _ _ enc) = (\<not> enc)"
| "plain_request _ = False"

fun encrypted_request :: "frame_body \<Rightarrow> bool" where
  "encrypted_request (ConnectionRequest _ _ enc) = enc"
| "encrypted_request _ = False"

fun is_incoming :: "frame_body \<Rightarrow> bool" where
  "is_incoming (NewIncomingConnection _ _ _ _) = True"
| "is_incoming _ = False"

fun is_accepted :: "frame_body \<Rightarrow> bool" where
  "is_accepted (ConnectionRequestAccepted _ _ _ _ _) = True"
| "is_accepted _ = False"

fun users :: "frame_body list \<Rightarrow> bytes list" where
  "users [] = []"
| "users (b # bs) = (case b of User data \<Rightarrow> [data] | _ \<Rightarrow> []) @ users bs"

text \<open>The answers of a connected server and client, without their timestamps.\<close>

fun pongs :: "frame_body list \<Rightarrow> frame_body list" where
  "pongs [] = []"
| "pongs (b # bs) = (case b of ConnectedPing ct \<Rightarrow> [ConnectedPong ct 0] | _ \<Rightarrow> []) @ pongs bs"

fun pings :: "frame_body list \<Rightarrow> frame_body list" where
  "pings [] = []"
| "pings (b # bs) = (case b of DetectLostConnections \<Rightarrow> [ConnectedPing 0] | _ \<Rightarrow> []) @ pings bs"

definition before_first :: "('a \<Rightarrow> bool) \<Rightarrow> 'a list \<Rightarrow> 'a list" where
  "before_first P xs = takeWhile (\<lambda>x. \<not> P x) xs"

definition after_first :: "('a \<Rightarrow> bool) \<Rightarrow> 'a list \<Rightarrow> 'a list" where
  "after_first P xs = tl (dropWhile (\<lambda>x. \<not> P x) xs)"

text \<open>The reply to the request that is accepted, and the confirmation of the reply.\<close>

fun accept_reply :: "socket_addr \<Rightarrow> frame_body list \<Rightarrow> frame_body list" where
  "accept_reply addr [] = []"
| "accept_reply addr (b # bs) = (case b of
      ConnectionRequest _ rt False \<Rightarrow> [ConnectionRequestAccepted addr 0 (replicate 20 (unspecified_addr addr)) rt 0]
    | _ \<Rightarrow> accept_reply addr bs)"

fun confirm_reply :: "socket_addr \<Rightarrow> frame_body list \<Rightarrow> frame_body list" where
  "confirm_reply addr [] = []"
| "confirm_reply addr (b # bs) = (case b of
      ConnectionRequestAccepted _ _ as _ at \<Rightarrow> [NewIncomingConnection addr as 0 at]
    | _ \<Rightarrow> confirm_reply addr bs)"

lemmas server_spec_simps = server_spec_def [where b = "ConnectedPing a"]
  server_spec_def [where b = "ConnectedPong a b"]
  server_spec_def [where b = "ConnectionRequest a b c"]
  server_spec_def [where b = "ConnectionRequestAccepted a b c d e"]
  server_spec_def [where b = "NewIncomingConnection a b c d"]
  server_spec_def [where b = "DisconnectNotification"]
  server_spec_def [where b = "DetectLostConnections"]
  server_spec_def [where b = "User a"]
  for a b c d e

lemmas client_spec_simps = client_spec_def [where b = "ConnectedPing a"]
  client_spec_def [where b = "ConnectedPong a b"]
  client_spec_def [where b = "ConnectionRequest a b c"]
  client_spec_def [where b = "ConnectionRequestAccepted a b c d e"]
  client_spec_def [where b = "NewIncomingConnection a b c d"]
  client_spec_def [where b = "DisconnectNotification"]
  client_spec_def [where b = "DetectLostConnections"]
  client_spec_def [where b = "User a"]
  for a b c d e

lemma server_connected:
  "so_state st = ServerConnected \<Longrightarrow> served server_spec st bs = (st, users bs, pongs bs, [])"
  by (induction bs) (auto simp: server_spec_simps split: frame_body.splits)

lemma server_wait_new:
  assumes "so_state st = WaitNewIncomingConn"
  shows "served server_spec st bs = (if list_ex is_incoming bs then st\<lparr>so_state := ServerConnected\<rparr> else st,
     users bs, pongs (after_first is_incoming bs), [])"
  using assms
proof (induction bs)
  case (Cons b bs)
  then show ?case
    by (cases b) (simp_all add: server_spec_simps after_first_def server_connected)
qed (simp add: after_first_def)

lemma server_wait_request:
  assumes "so_state st = WaitConnRequest"
  shows "served server_spec st bs =
    (let post = after_first plain_request bs in
     (if list_ex plain_request bs
      then st\<lparr>so_state := if list_ex is_incoming post then ServerConnected else WaitNewIncomingConn\<rparr> else st,
      users post, accept_reply (peer_addr (so_peer st)) bs @ pongs (after_first is_incoming post),
      map (\<lambda>_. ConnectionRequestFailed (role_guid (so_role st))) (filter encrypted_request (before_first plain_request bs))))"
  using assms
proof (induction bs)
  case (Cons b bs)
  show ?case
  proof (cases b)
    case (ConnectionRequest g rt enc)
    then show ?thesis
      using Cons
      by (cases enc) (simp_all add: server_spec_simps after_first_def before_first_def Let_def server_wait_new)
  qed (use Cons in \<open>simp_all add: server_spec_simps after_first_def before_first_def Let_def\<close>)
qed (simp add: after_first_def before_first_def)

lemma client_connected:
  "co_state st = ClientConnected \<Longrightarrow> served client_spec st bs = (st, users bs, pings bs, [])"
  by (induction bs) (auto simp: client_spec_simps split: frame_body.splits)

lemma client_wait:
  assumes "co_state st = WaitConnRes"
  shows "served client_spec st bs = (if list_ex is_accepted bs then st\<lparr>co_state := ClientConnected\<rparr> else st,
     users bs, confirm_reply (co_addr st) bs @ pings (after_first is_accepted bs), [])"
  using assms
proof (induction bs)
  case (Cons b bs)
  then show ?case
    by (cases b) (simp_all add: client_spec_simps after_first_def client_connected)
qed (simp add: after_first_def)

fun is_control :: "frame_body \<Rightarrow> bool" where
  "is_control (User _) = False"
| "is_control _ = True"

lemma control_kept:
  "list_ex is_accepted (filter is_control bs) = list_ex is_accepted bs"
  "list_ex is_incoming (filter is_control bs) = list_ex is_incoming bs"
  "list_ex plain_request (filter is_control bs) = list_ex plain_request bs"
  by (induction bs) (auto elim!: is_accepted.elims(2) is_incoming.elims(2) plain_request.elims(2) is_control.elims(3))

lemma shape_kept:
  "list_ex is_accepted (map shape bs) = list_ex is_accepted bs"
  "list_ex is_incoming (map shape bs) = list_ex is_incoming bs"
proof -
  have "is_accepted (shape b) = is_accepted b" "is_incoming (shape b) = is_incoming b" for b by (cases b; simp)+
  then show "list_ex is_accepted (map shape bs) = list_ex is_accepted bs" "list_ex is_incoming (map shape bs) = list_ex is_incoming bs"
    by (auto simp: list_ex_iff)
qed

lemma after_first_sub: "set (after_first P xs) \<subseteq> set xs"
  by (induction xs) (auto simp: after_first_def)

lemma accept_reply_accepts: "list_ex plain_request bs \<Longrightarrow> list_ex is_accepted (accept_reply addr bs)"
  by (induction bs) (auto split: frame_body.splits bool.splits)

lemma confirm_reply_confirms: "list_ex is_accepted bs \<Longrightarrow> list_ex is_incoming (confirm_reply addr bs)"
  by (induction bs) (auto split: frame_body.splits)

context online_env
begin

lemma server_polls:
  assumes "good_link l"
  shows "\<exists>outs st' l' used rest ms us. (timed_polls (server_online_poll Q) ts (st, l) s :: ('e, _) outcome) = Ok (outs, (st', l'), rest)
     \<and> s = used @ rest \<and> length rest \<le> length s - length ts \<and> good_link l' \<and> served server_spec st (ready_items used) = (st', ready_items outs, ms, us)
     \<and> sent_bodies l' = sent_bodies l @ ms \<and> sent_packets l' = sent_packets l @ us"
  using online_laws.polls_ok [OF server_laws [where 'e = 'e] assms, of ts st s]
  unfolding online_laws.effect_def [OF server_laws [where 'e = 'e]] server_online_poll_def by blast

lemma client_polls:
  assumes "good_link l"
  shows "\<exists>outs st' l' used rest ms us. (timed_polls (client_online_poll Q) ts (st, l) s :: ('e, _) outcome) = Ok (outs, (st', l'), rest)
     \<and> s = used @ rest \<and> length rest \<le> length s - length ts \<and> good_link l' \<and> served client_spec st (ready_items used) = (st', ready_items outs, ms, us)
     \<and> sent_bodies l' = sent_bodies l @ ms \<and> sent_packets l' = sent_packets l @ us"
  using online_laws.polls_ok [OF client_laws [where 'e = 'e] assms, of ts st s]
  unfolding online_laws.effect_def [OF client_laws [where 'e = 'e]] client_online_poll_def by blast

lemma server_run:
  assumes "(timed_polls (server_online_poll Q) ts (st, l) s :: ('e, _) outcome) = Ok (outs, (st', l'), [])" and "good_link l"
  obtains ms us where "good_link l'" "served server_spec st (ready_items s) = (st', ready_items outs, ms, us)"
    "sent_bodies l' = sent_bodies l @ ms" "sent_packets l' = sent_packets l @ us"
  using server_polls [OF assms(2), of ts st s, where 'e = 'e] assms(1) by auto

lemma client_run:
  assumes "(timed_polls (client_online_poll Q) ts (st, l) s :: ('e, _) outcome) = Ok (outs, (st', l'), [])" and "good_link l"
  obtains ms us where "good_link l'" "served client_spec st (ready_items s) = (st', ready_items outs, ms, us)"
    "sent_bodies l' = sent_bodies l @ ms" "sent_packets l' = sent_packets l @ us"
  using client_polls [OF assms(2), of ts st s, where 'e = 'e] assms(1) by auto

lemma client_start:
  assumes "(client_handle_online Q t addr guid l :: ('e, _) outcome) = Ok (c, l')" and "good_link l" and "fitems (l_frame_body l) = []"
  shows "good_link l'" and "fitems (l_frame_body l') = [ConnectionRequest guid t False]" and "co_state c = WaitConnRes" and "co_addr c = addr"
proof -
  obtain q where "q_push (body_q Q) (l_frame_body l) (ConnectionRequest guid t False) = (True, q)" "fitems q = [ConnectionRequest guid t False]" "fcap q = None"
    using fq.push [of "l_frame_body l" "ConnectionRequest guid t False"] assms by auto
  then show "good_link l'" and "fitems (l_frame_body l') = [ConnectionRequest guid t False]" and "co_state c = WaitConnRes" and "co_addr c = addr"
    using assms by (auto simp: client_handle_online_def send_frame_body_def)
qed

lemma handshake_three_ways:
  assumes start: "(client_handle_online Q t addr guid lc :: ('e, _) outcome) = Ok (c0, lc0)" "good_link lc" "fitems (l_frame_body lc) = []"
    and first: "(timed_polls (server_online_poll Q) ts1 (server_handle_online role peer, ls) s1 :: ('e, _) outcome) = Ok (o1, (sv1, ls1), [])"
      "good_link ls" "filter is_control (ready_items s1) = fitems (l_frame_body lc0)"
    and second: "(timed_polls (client_online_poll Q) ts2 (c0, lc0) s2 :: ('e, _) outcome) = Ok (o2, (c1, lc1), [])"
      "filter is_control (ready_items s2) = fitems (l_frame_body ls1)"
    and third: "(timed_polls (server_online_poll Q) ts3 (sv1, ls1) s3 :: ('e, _) outcome) = Ok (o3, (sv2, ls2), [])"
      "filter is_control (ready_items s3) = drop 1 (fitems (l_frame_body lc1))"
  shows "co_state c1 = ClientConnected \<and> so_state sv2 = ServerConnected
    \<and> ready_items o2 = users (ready_items s2) \<and> ready_items o3 = users (ready_items s3)"
proof -
  note c0 = client_start [OF start]
  have req: "list_ex plain_request (ready_items s1)" and noinc: "\<not> list_ex is_incoming (ready_items s1)"
    using first(3) c0(2) control_kept [of "ready_items s1"] by simp_all
  then have noinc': "\<not> list_ex is_incoming (after_first plain_request (ready_items s1))"
    using after_first_sub [of plain_request "ready_items s1"] by (auto simp: list_ex_iff)
  obtain ms us where 1: "good_link ls1" "served server_spec (server_handle_online role peer) (ready_items s1) = (sv1, ready_items o1, ms, us)"
    "sent_bodies ls1 = sent_bodies ls @ ms" by (rule server_run [OF first(1,2)])
  have sv1: "so_state sv1 = WaitNewIncomingConn" and "list_ex is_accepted ms"
    using 1(2) req noinc' accept_reply_accepts [OF req]
    by (auto simp: server_wait_request server_handle_online_def Let_def)
  then have acc: "list_ex is_accepted (ready_items s2)"
    using 1(3) second(2) control_kept(1) [of "ready_items s2"] shape_kept(1) [of "fitems (l_frame_body ls1)"] by simp
  obtain ms2 us2 where 2: "good_link lc1" "served client_spec c0 (ready_items s2) = (c1, ready_items o2, ms2, us2)"
    "sent_bodies lc1 = sent_bodies lc0 @ ms2" by (rule client_run [OF second(1) c0(1)])
  have c1: "co_state c1 = ClientConnected" "ready_items o2 = users (ready_items s2)" and "list_ex is_incoming ms2"
    using 2(2) acc c0(3) confirm_reply_confirms [OF acc] by (auto simp: client_wait)
  moreover have "map shape (drop 1 (fitems (l_frame_body lc1))) = ms2"
    using 2(3) c0(2) by (simp flip: drop_map)
  ultimately have inc: "list_ex is_incoming (ready_items s3)"
    using third(2) control_kept(2) [of "ready_items s3"] shape_kept(2) [of "drop 1 (fitems (l_frame_body lc1))"] by simp
  obtain ms3 us3 where 3: "served server_spec sv1 (ready_items s3) = (sv2, ready_items o3, ms3, us3)"
    by (rule server_run [OF third(1) 1(1)])
  then show ?thesis using inc sv1 c1 by (auto simp: server_wait_new)
qed

end

interpretation sample_env: online_env sample_link_api snd fst snd fst
  by (simp add: online_env_def sample_link_api_def list_queue.queue_laws_axioms)

interpretation sample_server: online_laws "server_step sample_link_api :: _ \<Rightarrow> _ \<Rightarrow> _ \<Rightarrow> _ \<Rightarrow> (io_error, _) outcome"
    sample_env.good_link sample_env.sent_bodies sample_env.sent_packets server_spec
  by (rule sample_env.server_laws)

interpretation sample_client: online_laws "client_step sample_link_api :: _ \<Rightarrow> _ \<Rightarrow> _ \<Rightarrow> _ \<Rightarrow> (io_error, _) outcome"
    sample_env.good_link sample_env.sent_bodies sample_env.sent_packets client_spec
  by (rule sample_env.client_laws)

subsection \<open>Properties\<close>

text \<open>
  C26: The server side of the online handshake, polled any number of times over any stream.  No poll fails, and
  each consumes at least one answer of the stream while there is one.  With \<open>bs\<close> the bodies taken so far and
  \<open>post\<close> those after the first request without encryption: exactly the user data in \<open>post\<close> has been handed on,
  in order; one reply accepting that request has been sent, to the address of the peer with the timestamp of
  the request, followed by one pong for every ping after the peer's confirmation; every request for encryption
  before it was refused by one packet; and the handshake is in the state that the request and the confirmation
  taken say.  User data between the request and the confirmation is among what is handed on: so the code does, and a
  comment there says that it is wrong.
\<close>
theorem server_online_correct:
  assumes "online_env Q uitems ucap fitems fcap" and "ucap (l_unconnected l) = None" and "fcap (l_frame_body l) = None"
  shows "\<exists>outs st' l' used rest. (timed_polls (server_online_poll Q) ts (server_handle_online role peer, l) s :: ('e, _) outcome)
        = Ok (outs, (st', l'), rest) \<and> s = used @ rest \<and> length rest \<le> length s - length ts
     \<and> (let bs = ready_items used; post = after_first plain_request bs in
          ready_items outs = users post
        \<and> map shape (fitems (l_frame_body l')) = map shape (fitems (l_frame_body l))
            @ accept_reply (peer_addr peer) bs @ pongs (after_first is_incoming post)
        \<and> uitems (l_unconnected l') = uitems (l_unconnected l)
            @ replicate (length (filter encrypted_request (before_first plain_request bs))) (ConnectionRequestFailed (role_guid role))
        \<and> so_state st' = (if \<not> list_ex plain_request bs then WaitConnRequest
                          else if \<not> list_ex is_incoming post then WaitNewIncomingConn else ServerConnected))"
proof -
  have good: "ucap (l_unconnected l) = None \<and> fcap (l_frame_body l) = None" using assms(2,3) by simp
  obtain outs st' l' used rest ms us where
    run: "(timed_polls (server_online_poll Q) ts (server_handle_online role peer, l) s :: ('e, _) outcome) = Ok (outs, (st', l'), rest)"
      "s = used @ rest" "length rest \<le> length s - length ts"
    and spec: "served server_spec (server_handle_online role peer) (ready_items used) = (st', ready_items outs, ms, us)"
    and sent: "map shape (fitems (l_frame_body l')) = map shape (fitems (l_frame_body l)) @ ms"
      "uitems (l_unconnected l') = uitems (l_unconnected l) @ us"
    using online_env.server_polls [OF assms(1) good, of ts "server_handle_online role peer" s, where 'e = 'e]
    by (elim exE conjE) (rule that)
  have fresh: "so_state (server_handle_online role peer) = WaitConnRequest" "so_role (server_handle_online role peer) = role"
    "so_peer (server_handle_online role peer) = peer" by (simp_all add: server_handle_online_def)
  have "let bs = ready_items used; post = after_first plain_request bs in
          ready_items outs = users post
        \<and> map shape (fitems (l_frame_body l')) = map shape (fitems (l_frame_body l))
            @ accept_reply (peer_addr peer) bs @ pongs (after_first is_incoming post)
        \<and> uitems (l_unconnected l') = uitems (l_unconnected l)
            @ replicate (length (filter encrypted_request (before_first plain_request bs))) (ConnectionRequestFailed (role_guid role))
        \<and> so_state st' = (if \<not> list_ex plain_request bs then WaitConnRequest
                          else if \<not> list_ex is_incoming post then WaitNewIncomingConn else ServerConnected)"
    using spec sent fresh by (auto simp: server_wait_request [OF fresh(1)] Let_def map_replicate_const)
  with run show ?thesis by blast
qed

definition sample_bodies_in :: "frame_body script" where
  "sample_bodies_in = map (\<lambda>b. Ready (Some b)) [User [1], ConnectionRequest 5 6 True, ConnectionRequest 5 6 False,
     NewIncomingConnection (V4 0 0) [] 0 0, ConnectedPing 4, User [2]]"

theorem server_online_correct_witness:
  "\<exists>outs st' l'. (timed_polls (server_online_poll sample_link_api) [7, 8, 9, 10, 11, 12]
      (server_handle_online (Server 3) sample_peer, link_new sample_link_api (Server 3) sample_peer) sample_bodies_in :: (io_error, _) outcome)
     = Ok (outs, (st', l'), []) \<and> ready_items outs = [[2]] \<and> so_state st' = ServerConnected
     \<and> snd (l_unconnected l') = [ConnectionRequestFailed 3] \<and> length (snd (l_frame_body l')) = 2"
proof -
  have new: "fst (l_unconnected (link_new sample_link_api (Server 3) sample_peer)) = None" "fst (l_frame_body (link_new sample_link_api (Server 3) sample_peer)) = None"
     "snd (l_unconnected (link_new sample_link_api (Server 3) sample_peer)) = []" "snd (l_frame_body (link_new sample_link_api (Server 3) sample_peer)) = []"
    by (simp_all add: link_new_def sample_link_api_def list_queue_def)
  obtain outs st' l' used rest where
    run: "(timed_polls (server_online_poll sample_link_api) [7, 8, 9, 10, 11, 12]
      (server_handle_online (Server 3) sample_peer, link_new sample_link_api (Server 3) sample_peer) sample_bodies_in :: (io_error, _) outcome)
        = Ok (outs, (st', l'), rest)" "sample_bodies_in = used @ rest" "length rest \<le> length sample_bodies_in - length [7 :: i64, 8, 9, 10, 11, 12]"
    and res: "let bs = ready_items used; post = after_first plain_request bs in
          ready_items outs = users post
        \<and> map shape (snd (l_frame_body l')) = map shape (snd (l_frame_body (link_new sample_link_api (Server 3) sample_peer)))
            @ accept_reply (peer_addr sample_peer) bs @ pongs (after_first is_incoming post)
        \<and> snd (l_unconnected l') = snd (l_unconnected (link_new sample_link_api (Server 3) sample_peer))
            @ replicate (length (filter encrypted_request (before_first plain_request bs))) (ConnectionRequestFailed (role_guid (Server 3)))
        \<and> so_state st' = (if \<not> list_ex plain_request bs then WaitConnRequest
                          else if \<not> list_ex is_incoming post then WaitNewIncomingConn else ServerConnected)"
    using server_online_correct [OF sample_env.online_env_axioms new(1,2), of "[7, 8, 9, 10, 11, 12]" "Server 3" sample_peer sample_bodies_in, where 'e = io_error]
    by (elim exE conjE) (rule that)
  have "length sample_bodies_in = 6" by (simp add: sample_bodies_in_def)
  then have rest: "rest = []" "used = sample_bodies_in" using run(2,3) by simp_all
  have "length (map shape (snd (l_frame_body l'))) = 2"
    using res by (simp add: rest new sample_bodies_in_def Let_def after_first_def)
  moreover have "ready_items outs = [[2]]" "so_state st' = ServerConnected" "snd (l_unconnected l') = [ConnectionRequestFailed 3]"
    using res by (simp_all add: rest new sample_bodies_in_def Let_def after_first_def before_first_def)
  ultimately show ?thesis using run(1) rest by auto
qed

text \<open>
  C27: The client side of the online handshake, polled any number of times over any stream after its request was
  sent.  No poll fails; exactly the user data taken has been handed on, in order; the first acceptance is
  confirmed once, with the address of the server and the addresses and timestamp it had, followed by one ping
  for every later probe for lost connections; nothing is sent outside the connection, and the handshake is
  complete exactly when an acceptance was taken.  User data before the acceptance is among what is handed on: so the
  code does, and a comment there says that it should be ignored.
\<close>
theorem client_online_correct:
  assumes "online_env Q uitems ucap fitems fcap" and "ucap (l_unconnected l) = None" and "fcap (l_frame_body l) = None"
    and "fitems (l_frame_body l) = []"
  shows "\<exists>st0 l0 outs st' l' used rest. (client_handle_online Q t addr guid l :: ('e, _) outcome) = Ok (st0, l0)
     \<and> (timed_polls (client_online_poll Q) ts (st0, l0) s :: ('e, _) outcome) = Ok (outs, (st', l'), rest)
     \<and> s = used @ rest \<and> length rest \<le> length s - length ts
     \<and> (let bs = ready_items used in
          ready_items outs = users bs
        \<and> map shape (fitems (l_frame_body l')) = ConnectionRequest guid t False # confirm_reply addr bs @ pings (after_first is_accepted bs)
        \<and> uitems (l_unconnected l') = uitems (l_unconnected l)
        \<and> co_state st' = (if list_ex is_accepted bs then ClientConnected else WaitConnRes))"
proof -
  have good: "ucap (l_unconnected l) = None \<and> fcap (l_frame_body l) = None" using assms(2,3) by simp
  obtain st0 l0 where start: "(client_handle_online Q t addr guid l :: ('e, _) outcome) = Ok (st0, l0)" "uitems (l_unconnected l0) = uitems (l_unconnected l)"
    using online_env.send_body_ok [OF assms(1) good, of "ConnectionRequest guid t False", where 'e = 'e] by (auto simp: client_handle_online_def)
  note st0 = online_env.client_start [OF assms(1) start(1) good assms(4)]
  obtain outs st' l' used rest ms us where
    run: "(timed_polls (client_online_poll Q) ts (st0, l0) s :: ('e, _) outcome) = Ok (outs, (st', l'), rest)"
      "s = used @ rest" "length rest \<le> length s - length ts"
    and spec: "served client_spec st0 (ready_items used) = (st', ready_items outs, ms, us)"
    and sent: "map shape (fitems (l_frame_body l')) = map shape (fitems (l_frame_body l0)) @ ms"
      "uitems (l_unconnected l') = uitems (l_unconnected l0) @ us"
    using online_env.client_polls [OF assms(1) st0(1), of ts st0 s, where 'e = 'e]
    by (elim exE conjE) (rule that)
  have "let bs = ready_items used in
          ready_items outs = users bs
        \<and> map shape (fitems (l_frame_body l')) = ConnectionRequest guid t False # confirm_reply addr bs @ pings (after_first is_accepted bs)
        \<and> uitems (l_unconnected l') = uitems (l_unconnected l)
        \<and> co_state st' = (if list_ex is_accepted bs then ClientConnected else WaitConnRes)"
    using spec sent st0 start(2) by (auto simp: client_wait Let_def)
  with start(1) run show ?thesis by blast
qed

theorem client_online_correct_witness:
  "\<exists>st0 l0 outs st' l' used rest. (client_handle_online sample_link_api 4 (V4 1 2) 9 (link_new sample_link_api (Client 9) sample_peer) :: (io_error, _) outcome) = Ok (st0, l0)
     \<and> (timed_polls (client_online_poll sample_link_api) [5, 6] (st0, l0)
          [Ready (Some (ConnectionRequestAccepted (V4 0 0) 0 [] 1 2)), Ready (Some (User [3]))] :: (io_error, _) outcome) = Ok (outs, (st', l'), rest)
     \<and> [Ready (Some (ConnectionRequestAccepted (V4 0 0) 0 [] 1 2)), Ready (Some (User [3]))] = used @ rest
     \<and> length rest \<le> length [Ready (Some (ConnectionRequestAccepted (V4 0 0) 0 [] 1 2)), Ready (Some (User [3]))] - length [5 :: i64, 6]
     \<and> (let bs = ready_items used in
          ready_items outs = users bs
        \<and> map shape (snd (l_frame_body l')) = ConnectionRequest 9 4 False # confirm_reply (V4 1 2) bs @ pings (after_first is_accepted bs)
        \<and> snd (l_unconnected l') = snd (l_unconnected (link_new sample_link_api (Client 9) sample_peer))
        \<and> co_state st' = (if list_ex is_accepted bs then ClientConnected else WaitConnRes))"
proof -
  have new: "fst (l_unconnected (link_new sample_link_api (Client 9) sample_peer)) = None" "fst (l_frame_body (link_new sample_link_api (Client 9) sample_peer)) = None"
     "snd (l_frame_body (link_new sample_link_api (Client 9) sample_peer)) = []"
    by (simp_all add: link_new_def sample_link_api_def list_queue_def)
  show ?thesis
    using client_online_correct [OF sample_env.online_env_axioms new, of 4 "V4 1 2" 9 "[5, 6]" "[Ready (Some (ConnectionRequestAccepted (V4 0 0) 0 [] 1 2)), Ready (Some (User [3]))]", where 'e = io_error]
    by (elim exE conjE, intro exI conjI)
qed

text \<open>
  C25: The two sides complete the handshake.  The client sends its request; the server takes what the client
  sent, the client what the server sent, and the server what the client sent since, each at its own pace and
  with user data mixed in at any place.  Then both are connected, and all user data that came with the second
  and third of these runs was handed on.
\<close>
theorem online_handshake:
  assumes "online_env Q uitems ucap fitems fcap"
    and "ucap (l_unconnected lc) = None" and "fcap (l_frame_body lc) = None" and "fitems (l_frame_body lc) = []"
    and "ucap (l_unconnected ls) = None" and "fcap (l_frame_body ls) = None"
    and "(client_handle_online Q t addr guid lc :: ('e, _) outcome) = Ok (c0, lc0)"
    and "filter is_control (ready_items s1) = fitems (l_frame_body lc0)"
    and "(timed_polls (server_online_poll Q) ts1 (server_handle_online role peer, ls) s1 :: ('e, _) outcome) = Ok (o1, (sv1, ls1), [])"
    and "filter is_control (ready_items s2) = fitems (l_frame_body ls1)"
    and "(timed_polls (client_online_poll Q) ts2 (c0, lc0) s2 :: ('e, _) outcome) = Ok (o2, (c1, lc1), [])"
    and "filter is_control (ready_items s3) = drop 1 (fitems (l_frame_body lc1))"
    and "(timed_polls (server_online_poll Q) ts3 (sv1, ls1) s3 :: ('e, _) outcome) = Ok (o3, (sv2, ls2), [])"
  shows "co_state c1 = ClientConnected \<and> so_state sv2 = ServerConnected
    \<and> ready_items o2 = users (ready_items s2) \<and> ready_items o3 = users (ready_items s3)"
  by (rule online_env.handshake_three_ways [OF assms(1,7) _ assms(4,9) _ assms(8,11,10,13,12)]) (use assms in simp_all)

theorem online_handshake_witness:
  "\<exists>c0 lc0 o1 sv1 ls1 o2 c1 lc1 o3 sv2 ls2. (client_handle_online sample_link_api 4 (V4 1 2) 9 (link_new sample_link_api (Client 9) sample_peer) :: (io_error, _) outcome) = Ok (c0, lc0)
    \<and> (timed_polls (server_online_poll sample_link_api) [5, 6] (server_handle_online (Server 3) sample_peer, link_new sample_link_api (Server 3) sample_peer)
         (map (\<lambda>b. Ready (Some b)) (snd (l_frame_body lc0))) :: (io_error, _) outcome) = Ok (o1, (sv1, ls1), [])
    \<and> (timed_polls (client_online_poll sample_link_api) [7, 8] (c0, lc0) (map (\<lambda>b. Ready (Some b)) (User [1] # snd (l_frame_body ls1))) :: (io_error, _) outcome) = Ok (o2, (c1, lc1), [])
    \<and> (timed_polls (server_online_poll sample_link_api) [9, 10] (sv1, ls1) (map (\<lambda>b. Ready (Some b)) (User [2] # tl (snd (l_frame_body lc1)))) :: (io_error, _) outcome) = Ok (o3, (sv2, ls2), [])
    \<and> co_state c1 = ClientConnected \<and> so_state sv2 = ServerConnected \<and> ready_items o2 = [[1]] \<and> ready_items o3 = [[2]]"
proof -
  let ?Q = sample_link_api and ?lc = "link_new sample_link_api (Client 9) sample_peer" and ?ls = "link_new sample_link_api (Server 3) sample_peer"
  let ?cl = "\<lparr> co_state = WaitConnRes, co_addr = V4 1 2, co_role = Client 9 \<rparr>"
  let ?lcs = "?lc\<lparr>l_frame_body := (None, [ConnectionRequest 9 4 False])\<rparr>"
  let ?acc = "ConnectionRequestAccepted (V4 0 0) 0 (replicate 20 (V4 0 0)) 4 5"
  let ?new = "NewIncomingConnection (V4 1 2) (replicate 20 (V4 0 0)) 8 5"
  let ?sv = "\<lambda>s. \<lparr> so_role = Server 3, so_peer = sample_peer, so_state = s \<rparr>"
  let ?lsa = "?ls\<lparr>l_frame_body := (None, [?acc])\<rparr>" and ?lca = "?lcs\<lparr>l_frame_body := (None, [ConnectionRequest 9 4 False, ?new])\<rparr>"
  have new: "fst (l_unconnected ?lc) = None" "fst (l_frame_body ?lc) = None" "snd (l_frame_body ?lc) = []"
    "fst (l_unconnected ?ls) = None" "fst (l_frame_body ?ls) = None" by (simp_all add: link_new_def sample_link_api_def list_queue_def)
  note [simp] = sample_peer_def sample_link_api_def list_queue_def link_new_def client_handle_online_def server_handle_online_def
    send_frame_body_def client_online_poll_def server_online_poll_def client_step_def server_step_def unspecified_addr_def is_ipv6_def
  have start: "(client_handle_online ?Q 4 (V4 1 2) 9 ?lc :: (io_error, _) outcome) = Ok (?cl, ?lcs)" by simp
  have first: "(timed_polls (server_online_poll ?Q) [5, 6] (server_handle_online (Server 3) sample_peer, ?ls)
      [Ready (Some (ConnectionRequest 9 4 False))] :: (io_error, _) outcome) = Ok ([Pending, Pending], (?sv WaitNewIncomingConn, ?lsa), [])" by simp
  have second: "(timed_polls (client_online_poll ?Q) [7, 8] (?cl, ?lcs) [Ready (Some (User [1])), Ready (Some ?acc)] :: (io_error, _) outcome)
      = Ok ([Ready (Some [1]), Pending], (?cl\<lparr>co_state := ClientConnected\<rparr>, ?lca), [])" by simp
  have third: "(timed_polls (server_online_poll ?Q) [9, 10] (?sv WaitNewIncomingConn, ?lsa) [Ready (Some (User [2])), Ready (Some ?new)] :: (io_error, _) outcome)
      = Ok ([Ready (Some [2]), Pending], (?sv ServerConnected, ?lsa), [])" by simp
  have c: "filter is_control (ready_items [Ready (Some (ConnectionRequest 9 4 False))]) = snd (l_frame_body ?lcs)"
    "filter is_control (ready_items [Ready (Some (User [1])), Ready (Some ?acc)]) = snd (l_frame_body ?lsa)"
    "filter is_control (ready_items [Ready (Some (User [2])), Ready (Some ?new)]) = drop 1 (snd (l_frame_body ?lca))" by simp_all
  have fin: "co_state (?cl\<lparr>co_state := ClientConnected\<rparr>) = ClientConnected" "so_state (?sv ServerConnected) = ServerConnected"
    "ready_items [Ready (Some [1 :: u8]), Pending] = [[1]]" "ready_items [Ready (Some [2 :: u8]), Pending] = [[2]]"
    using online_handshake [OF sample_env.online_env_axioms new start c(1) first c(2) second c(3) third] by simp_all
  have feed: "map (\<lambda>b. Ready (Some b)) (snd (l_frame_body ?lcs)) = [Ready (Some (ConnectionRequest 9 4 False))]"
    "map (\<lambda>b. Ready (Some b)) (User [1] # snd (l_frame_body ?lsa)) = [Ready (Some (User [1])), Ready (Some ?acc)]"
    "map (\<lambda>b. Ready (Some b)) (User [2] # tl (snd (l_frame_body ?lca))) = [Ready (Some (User [2])), Ready (Some ?new)]" by simp_all
  show ?thesis
    by (rule exI [of _ ?cl], rule exI [of _ ?lcs], rule exI [of _ "[Pending, Pending]"], rule exI [of _ "?sv WaitNewIncomingConn"],
      rule exI [of _ ?lsa], rule exI [of _ "[Ready (Some [1]), Pending]"], rule exI [of _ "?cl\<lparr>co_state := ClientConnected\<rparr>"],
      rule exI [of _ ?lca], rule exI [of _ "[Ready (Some [2]), Pending]"], rule exI [of _ "?sv ServerConnected"], rule exI [of _ ?lsa],
      unfold feed, intro conjI) (fact start first second third fin)+
qed

end
