(* ===== verification/Offline_Server.thy ===== *)
theory Offline_Server
  imports Packet Lru_Api Sinks Streams "HOL-Library.Sublist"
begin

text \<open>
  The server side of the handshake before a connection exists: \<open>OfflineHandler\<close> of
  \<open>src/src/server/handler/offline.rs\<close>.  The datagram codec below it is at once a stream, given as a script of
  decoded packets with the address they came from, and a sink for replies, a parameter; the cache of half-open
  connections is the third-party crate \<open>lru\<close>, a parameter too.  Log output and tracing spans are left out.
\<close>

subsection \<open>Binary search\<close>

text \<open>
  \<open>slice::binary_search\<close> of the standard library, as a test for membership: the loop narrows \<open>n\<close> positions
  from \<open>base\<close> to one by halving.
\<close>

function narrow :: "'a::linorder list \<Rightarrow> 'a \<Rightarrow> nat \<Rightarrow> nat \<Rightarrow> nat" where
  "narrow xs x base n =
     (if 1 < n
      then let half = n div 2; mid = base + half in
           narrow xs x (if x < xs ! mid then base else mid) (n - half)
      else base)"
  by pat_completeness auto
termination by (relation "measure (\<lambda>(_, _, _, n). n)") auto

declare narrow.simps [simp del]

definition binary_search :: "'a::linorder list \<Rightarrow> 'a \<Rightarrow> bool" where
  "binary_search xs x = (xs \<noteq> [] \<and> xs ! narrow xs x 0 (length xs) = x)"

lemma narrow_bounds: "0 < n \<Longrightarrow> base \<le> narrow xs x base n \<and> narrow xs x base n < base + n"
proof (induction xs x base n rule: narrow.induct)
  case (1 xs x base n)
  show ?case
  proof (cases "1 < n")
    case True
    then show ?thesis
      using 1(1) [OF True refl refl] narrow.simps [of xs x base n] by (cases "x < xs ! (base + n div 2)"; simp add: Let_def; linarith)
  qed (use 1(2) in \<open>simp add: narrow.simps\<close>)
qed

lemma narrow_finds:
  assumes "sorted xs" and "base \<le> i" and "i < base + n" and "base + n \<le> length xs" and "xs ! i = x"
  shows "xs ! narrow xs x base n = x"
  using assms
proof (induction xs x base n arbitrary: i rule: narrow.induct)
  case (1 xs x base n)
  show ?case
  proof (cases "1 < n")
    case True
    let ?mid = "base + n div 2"
    note step = narrow.simps [of xs x base n]
    show ?thesis
    proof (cases "x < xs ! ?mid")
      case lt: True
      have "i < ?mid" using lt 1(2-6) by (metis leD le_less_trans not_le_imp_less sorted_nth_mono)
      then show ?thesis
        using 1(1) [OF True refl refl, of i] 1(2-6) lt True step by (simp add: Let_def)
    next
      case ge: False
      have mid: "?mid < length xs" using True 1(5) by simp
      have "\<exists>j. ?mid \<le> j \<and> j < base + n \<and> xs ! j = x"
      proof (cases "?mid \<le> i")
        case False
        then have "x \<le> xs ! ?mid" using 1(2,6) mid sorted_nth_mono [of xs i ?mid] by simp
        then show ?thesis using ge True by (intro exI [of _ ?mid]) auto
      qed (use 1 in auto)
      then obtain j where "?mid \<le> j" "j < base + n" "xs ! j = x" by blast
      then show ?thesis
        using 1(1) [OF True refl refl, of j] 1(2,5) ge True step by (simp add: Let_def)
    qed
  next
    case False
    then have "i = base" using 1(3,4) by simp
    then show ?thesis using False 1(6) by (simp add: narrow.simps)
  qed
qed

lemma binary_search_iff: "sorted xs \<Longrightarrow> binary_search xs x \<longleftrightarrow> x \<in> set xs"
  using narrow_bounds [of "length xs" 0 xs x] narrow_finds [of xs 0 _ "length xs" x]
  by (fastforce simp: binary_search_def in_set_conv_nth)

subsection \<open>State\<close>

record offline_config =
  sever_guid :: u64
  advertisement :: bytes
  min_mtu :: u16
  max_mtu :: u16
  support_version :: "u8 list"
  max_pending :: nat

datatype offline_state = Listening | SendingPrepare "(unconnected \<times> socket_addr) option" | SendingFlush

record ('s, 'c) offline_server =
  os_frame :: 's
  os_config :: offline_config
  os_pending :: 'c
  os_connected :: "socket_addr \<rightharpoonup> peer"
  os_state :: offline_state
  os_role :: role

definition offline_server_new :: "('c, socket_addr, u8) lru_api \<Rightarrow> 's \<Rightarrow> offline_config \<Rightarrow> ('e, ('s, 'c) offline_server) outcome" where
  "offline_server_new L frame config =
     (if max_pending config = 0 then Panic
      else Ok \<lparr> os_frame = frame, os_config = config, os_pending = lru_new L (max_pending config), os_connected = Map.empty,
                os_state = Listening, os_role = Server (sever_guid config) \<rparr>)"

definition disconnect :: "('c, socket_addr, u8) lru_api \<Rightarrow> ('s, 'c) offline_server \<Rightarrow> socket_addr \<Rightarrow> ('s, 'c) offline_server" where
  "disconnect L st addr = st\<lparr>os_pending := snd (lru_pop L (os_pending st) addr), os_connected := (os_connected st)(addr := None)\<rparr>"

definition make_incompatible_version :: "offline_config \<Rightarrow> ('e, unconnected) outcome" where
  "make_incompatible_version c = (case support_version c of [] \<Rightarrow> Panic
     | vs \<Rightarrow> Ok (IncompatibleProtocol (last vs) (sever_guid c)))"

definition make_already_connected :: "offline_config \<Rightarrow> unconnected" where
  "make_already_connected c = AlreadyConnected (sever_guid c)"

definition make_connection_request_failed :: "offline_config \<Rightarrow> unconnected" where
  "make_connection_request_failed c = ConnectionRequestFailed (sever_guid c)"

text \<open>\<open>Ord::clamp\<close>, which asserts that the bounds are in order.\<close>

definition clamp :: "u16 \<Rightarrow> u16 \<Rightarrow> u16 \<Rightarrow> ('e, u16) outcome" where
  "clamp x lo hi = (if lo \<le> hi then Ok (if x < lo then lo else if hi < x then hi else x) else Panic)"

subsection \<open>One packet\<close>

datatype reaction = Deliver connected peer | Reply unconnected | Ignore

definition on_request1 :: "('c, socket_addr, u8) lru_api \<Rightarrow> ('s, 'c) offline_server \<Rightarrow> socket_addr \<Rightarrow> u8 \<Rightarrow> u16
    \<Rightarrow> ('e, reaction \<times> ('s, 'c) offline_server) outcome" where
  "on_request1 L st addr version mtu =
     (if \<not> binary_search (support_version (os_config st)) version
      then and_then (make_incompatible_version (os_config st)) (\<lambda>p. Ok (Reply p, st))
      else and_then (clamp mtu (min_mtu (os_config st)) (max_mtu (os_config st))) (\<lambda>final_mtu.
             Ok (Reply (OpenConnectionReply1 (sever_guid (os_config st)) False final_mtu),
                 st\<lparr>os_pending := lru_put L (os_pending st) addr version\<rparr>)))"

definition on_request2 :: "('c, socket_addr, u8) lru_api \<Rightarrow> ('s, 'c) offline_server \<Rightarrow> socket_addr \<Rightarrow> u16 \<Rightarrow> u64
    \<Rightarrow> ('e, reaction \<times> ('s, 'c) offline_server) outcome" where
  "on_request2 L st addr mtu guid =
     (case lru_pop L (os_pending st) addr of (popped, c) \<Rightarrow>
        let st = st\<lparr>os_pending := c\<rparr> in
        if popped = None
        then and_then (make_incompatible_version (os_config st)) (\<lambda>p. Ok (Reply p, st))
        else if mtu < min_mtu (os_config st) \<or> max_mtu (os_config st) < mtu \<or> os_connected st addr \<noteq> None
        then Ok (Reply (make_already_connected (os_config st)), st)
        else Ok (Reply (OpenConnectionReply2 (sever_guid (os_config st)) addr mtu False),
                 st\<lparr>os_connected := (os_connected st)(addr \<mapsto> \<lparr> peer_guid = guid, peer_addr = addr, peer_mtu = mtu \<rparr>)\<rparr>))"

definition os_react :: "('c, socket_addr, u8) lru_api \<Rightarrow> ('s, 'c) offline_server \<Rightarrow> packet \<Rightarrow> socket_addr
    \<Rightarrow> ('e, reaction \<times> ('s, 'c) offline_server) outcome" where
  "os_react L st packet addr = (case packet of
      Connected pack \<Rightarrow> (case os_connected st addr of
          Some peer \<Rightarrow> Ok (Deliver pack peer, st)
        | None \<Rightarrow> Ok (Reply (make_connection_request_failed (os_config st)), st))
    | Unconnected pack \<Rightarrow> (case pack of
          UnconnectedPing ts _ \<Rightarrow> Ok (Reply (UnconnectedPong ts (sever_guid (os_config st)) (advertisement (os_config st))), st)
        | OpenConnectionRequest1 version mtu \<Rightarrow> on_request1 L st addr version mtu
        | OpenConnectionRequest2 _ mtu guid \<Rightarrow> on_request2 L st addr mtu guid
        | _ \<Rightarrow> Ok (Ignore, st)))"

subsection \<open>The stream\<close>

text \<open>
  The states in which a reply is on its way: \<open>False\<close> when the sink below is pending.  A failing sink loses the
  reply and the handler listens on.
\<close>

definition os_flush :: "('s, unconnected \<times> socket_addr) sink_api \<Rightarrow> ('s, 'c) offline_server \<Rightarrow> bool \<times> ('s, 'c) offline_server" where
  "os_flush K st = (case sink_poll_flush K (os_frame st) of
      (Pending, k) \<Rightarrow> (False, st\<lparr>os_frame := k\<rparr>)
    | (Ready _, k) \<Rightarrow> (True, st\<lparr>os_frame := k, os_state := Listening\<rparr>))"

definition os_send :: "('s, unconnected \<times> socket_addr) sink_api \<Rightarrow> ('s, 'c) offline_server \<Rightarrow> ('e, bool \<times> ('s, 'c) offline_server) outcome" where
  "os_send K st = (case os_state st of
      Listening \<Rightarrow> Ok (True, st)
    | SendingPrepare pack \<Rightarrow> (case sink_poll_ready K (os_frame st) of
          (Pending, k) \<Rightarrow> Ok (False, st\<lparr>os_frame := k\<rparr>)
        | (Ready (Inl _), k) \<Rightarrow> Ok (True, st\<lparr>os_frame := k, os_state := Listening\<rparr>)
        | (Ready (Inr _), k) \<Rightarrow> (case pack of
              None \<Rightarrow> Panic
            | Some item \<Rightarrow> (case sink_start_send K k item of
                  (Inl _, k) \<Rightarrow> Ok (True, st\<lparr>os_frame := k, os_state := Listening\<rparr>)
                | (Inr _, k) \<Rightarrow> Ok (os_flush K (st\<lparr>os_frame := k, os_state := SendingFlush\<rparr>)))))
    | SendingFlush \<Rightarrow> Ok (os_flush K st))"

fun os_poll :: "('s, unconnected \<times> socket_addr) sink_api \<Rightarrow> ('c, socket_addr, u8) lru_api
    \<Rightarrow> (('s, 'c) offline_server, packet \<times> socket_addr, connected \<times> peer, 'e) poll_fn" where
  "os_poll K L st [] = and_then (os_send K st) (\<lambda>(_, st). Ok (Pending, st, []))"
| "os_poll K L st (x # s) = and_then (os_send K st) (\<lambda>(ready, st).
     if \<not> ready then Ok (Pending, st, x # s)
     else (case x of
         Pending \<Rightarrow> Ok (Pending, st, s)
       | Ready None \<Rightarrow> Ok (Ready None, st, s)
       | Ready (Some (packet, addr)) \<Rightarrow> and_then (os_react L st packet addr) (\<lambda>(r, st). case r of
             Deliver pack peer \<Rightarrow> Ok (Ready (Some (pack, peer)), st, s)
           | Reply resp \<Rightarrow> os_poll K L (st\<lparr>os_state := SendingPrepare (Some (resp, addr))\<rparr>) s
           | Ignore \<Rightarrow> os_poll K L st s)))"

subsection \<open>Runs\<close>

text \<open>
  What happens at a handler: a packet is taken from the stream, a packet is handed on, an address is
  disconnected by the owner.
\<close>

datatype os_event = Took packet socket_addr | Gave connected peer | Dropped socket_addr

inductive os_run :: "('s, unconnected \<times> socket_addr) sink_api \<Rightarrow> ('c, socket_addr, u8) lru_api \<Rightarrow> 's \<Rightarrow> offline_config
    \<Rightarrow> os_event list \<Rightarrow> ('s, 'c) offline_server \<Rightarrow> bool" for K L frame config where
  start: "offline_server_new L frame config = (Ok st :: (io_error, _) outcome) \<Longrightarrow> os_run K L frame config [] st"
| poll: "os_run K L frame config evs st \<Longrightarrow> os_poll K L st (used @ rest) = (Ok (r, st', rest) :: (io_error, _) outcome) \<Longrightarrow>
    os_run K L frame config (evs @ map (\<lambda>(p, a). Took p a) (ready_items used) @ map (\<lambda>(p, q). Gave p q) (ready_items [r])) st'"
| drop: "os_run K L frame config evs st \<Longrightarrow> os_run K L frame config (evs @ [Dropped a]) (disconnect L st a)"

text \<open>
  The first request of \<open>a\<close> is the last thing of the handshake that happened to it; the handshake of a peer is
  complete and the peer was not disconnected since.
\<close>

definition is_request2 :: "socket_addr \<Rightarrow> os_event \<Rightarrow> bool" where
  "is_request2 a e = (case e of Took (Unconnected (OpenConnectionRequest2 _ _ _)) b \<Rightarrow> b = a | _ \<Rightarrow> False)"

definition requested :: "offline_config \<Rightarrow> os_event list \<Rightarrow> socket_addr \<Rightarrow> bool" where
  "requested config evs a \<longleftrightarrow> (\<exists>h1 h2 v m. evs = h1 @ Took (Unconnected (OpenConnectionRequest1 v m)) a # h2
     \<and> v \<in> set (support_version config) \<and> Dropped a \<notin> set h2 \<and> \<not> list_ex (is_request2 a) h2)"

definition shaken :: "offline_config \<Rightarrow> os_event list \<Rightarrow> peer \<Rightarrow> bool" where
  "shaken config evs p \<longleftrightarrow> (\<exists>h1 h2 sa. evs = h1 @ Took (Unconnected (OpenConnectionRequest2 sa (peer_mtu p) (peer_guid p))) (peer_addr p) # h2
     \<and> requested config h1 (peer_addr p) \<and> min_mtu config \<le> peer_mtu p \<and> peer_mtu p \<le> max_mtu config \<and> Dropped (peer_addr p) \<notin> set h2)"

text \<open>The invariant: what the tables hold and what was or will be sent is explained by the history.\<close>

definition reply_to :: "('s, 'c) offline_server \<Rightarrow> socket_addr list" where
  "reply_to st = (case os_state st of SendingPrepare (Some (_, a)) \<Rightarrow> [a] | _ \<Rightarrow> [])"

definition senders :: "os_event list \<Rightarrow> socket_addr list" where
  "senders evs = concat (map (\<lambda>e. case e of Took _ a \<Rightarrow> [a] | _ \<Rightarrow> []) evs)"

definition gave_ok :: "offline_config \<Rightarrow> os_event list \<Rightarrow> bool" where
  "gave_ok config evs \<longleftrightarrow> (\<forall>h1 pk p h2. evs = h1 @ Gave pk p # h2 \<longrightarrow>
     h1 \<noteq> [] \<and> last h1 = Took (Connected pk) (peer_addr p) \<and> shaken config h1 p)"

lemma requested_other:
  assumes "requested config evs a" and "\<not> is_request2 a e" and "e \<noteq> Dropped a"
  shows "requested config (evs @ [e]) a"
  using assms unfolding requested_def by (elim exE conjE) (rule exI, rule exI, rule exI, rule exI, auto)

lemma shaken_other:
  assumes "shaken config evs p" and "e \<noteq> Dropped (peer_addr p)"
  shows "shaken config (evs @ [e]) p"
  using assms unfolding shaken_def by (elim exE conjE) (rule exI, rule exI, rule exI, auto)

lemma snoc_split: "xs @ [x] = ys @ z # zs \<longleftrightarrow> (zs = [] \<and> x = z \<and> xs = ys) \<or> (\<exists>ws. zs = ws @ [x] \<and> xs = ys @ z # ws)"
  by (cases zs rule: rev_cases) auto

lemma gave_ok_snoc:
  "gave_ok config (evs @ [e]) \<longleftrightarrow> gave_ok config evs \<and> (case e of
     Gave pk p \<Rightarrow> evs \<noteq> [] \<and> last evs = Took (Connected pk) (peer_addr p) \<and> shaken config evs p | _ \<Rightarrow> True)"
proof
  assume all: "gave_ok config (evs @ [e])"
  have "h1 \<noteq> [] \<and> last h1 = Took (Connected pk) (peer_addr p) \<and> shaken config h1 p" if "evs = h1 @ Gave pk p # h2" for h1 pk p h2
    using all that unfolding gave_ok_def by (elim allE [of _ h1] allE [of _ pk] allE [of _ p] allE [of _ "h2 @ [e]"]) simp
  then have "gave_ok config evs" unfolding gave_ok_def by blast
  moreover have "evs \<noteq> [] \<and> last evs = Took (Connected pk) (peer_addr p) \<and> shaken config evs p" if "e = Gave pk p" for pk p
    using all that unfolding gave_ok_def by (elim allE [of _ evs] allE [of _ pk] allE [of _ p] allE [of _ "[]"]) simp
  ultimately show "gave_ok config evs \<and> (case e of
     Gave pk p \<Rightarrow> evs \<noteq> [] \<and> last evs = Took (Connected pk) (peer_addr p) \<and> shaken config evs p | _ \<Rightarrow> True)"
    by (simp split: os_event.splits)
qed (auto simp: gave_ok_def snoc_split split: os_event.splits)

lemma senders_simps [simp]:
  "senders [] = []" "senders (evs @ evs') = senders evs @ senders evs'" "senders [Took p a] = [a]" "senders [Gave pk q] = []" "senders [Dropped a] = []"
  by (simp_all add: senders_def)

abbreviation took :: "(packet \<times> socket_addr) script \<Rightarrow> os_event list" where
  "took s \<equiv> map (\<lambda>(p, a). Took p a) (ready_items s)"

abbreviation gave :: "(connected \<times> peer) script \<Rightarrow> os_event list" where
  "gave s \<equiv> map (\<lambda>(p, q). Gave p q) (ready_items s)"

definition sane_config :: "offline_config \<Rightarrow> bool" where
  "sane_config config \<longleftrightarrow> support_version config \<noteq> [] \<and> sorted (support_version config) \<and> min_mtu config \<le> max_mtu config \<and> 0 < max_pending config"

locale offline_env = sink_laws K log + lru_laws L ok
  for K :: "('s, unconnected \<times> socket_addr) sink_api" and log :: "'s \<Rightarrow> (unconnected \<times> socket_addr) list"
    and L :: "('c, socket_addr, u8) lru_api" and ok :: "'c \<Rightarrow> bool"
begin

definition table_ok :: "offline_config \<Rightarrow> os_event list \<Rightarrow> ('s, 'c) offline_server \<Rightarrow> bool" where
  "table_ok config evs st \<longleftrightarrow> ok (os_pending st) \<and> os_config st = config
     \<and> (\<forall>a. lru_peek L (os_pending st) a \<noteq> None \<longrightarrow> requested config evs a)
     \<and> (\<forall>a p. os_connected st a = Some p \<longrightarrow> peer_addr p = a \<and> shaken config evs p)"

definition sends_ok :: "socket_addr list \<Rightarrow> os_event list \<Rightarrow> ('s, 'c) offline_server \<Rightarrow> bool" where
  "sends_ok as evs st \<longleftrightarrow> os_state st \<noteq> SendingPrepare None \<and> subseq (map snd (log (os_frame st)) @ reply_to st) (as @ senders evs)"

lemma table_ok_cong:
  "os_pending st' = os_pending st \<Longrightarrow> os_config st' = os_config st \<Longrightarrow> os_connected st' = os_connected st \<Longrightarrow> table_ok config evs st' = table_ok config evs st"
  by (simp add: table_ok_def)

lemma flush_ok:
  assumes "os_flush K st = (b, st')" and "os_state st = SendingFlush"
  shows "log (os_frame st') = log (os_frame st) \<and> os_pending st' = os_pending st \<and> os_config st' = os_config st
    \<and> os_connected st' = os_connected st \<and> (b \<longrightarrow> os_state st' = Listening) \<and> (os_state st' = Listening \<or> os_state st' = SendingFlush)"
  using assms flush_log [of "os_frame st"] by (auto simp: os_flush_def split: prod.splits poll.splits)

lemma send_ok:
  assumes "sends_ok as evs st" and "table_ok config evs st"
  shows "\<exists>b st'. (os_send K st :: ('e, _) outcome) = Ok (b, st') \<and> sends_ok as evs st' \<and> table_ok config evs st' \<and> (b \<longrightarrow> os_state st' = Listening)"
proof (cases "os_state st")
  case Listening
  then show ?thesis using assms by (auto simp: os_send_def)
next
  case SendingFlush
  obtain b st' where f: "os_flush K st = (b, st')" by fastforce
  note fl = flush_ok [OF f SendingFlush]
  then have "table_ok config evs st'" using assms(2) table_ok_cong [of st' st config evs] by simp
  moreover have "sends_ok as evs st'" using fl assms(1) SendingFlush by (auto simp: sends_ok_def reply_to_def)
  ultimately show ?thesis using fl f SendingFlush by (simp add: os_send_def)
next
  case (SendingPrepare pack)
  then have "pack \<noteq> None" using assms(1) by (auto simp: sends_ok_def)
  then obtain u a where pack: "pack = Some (u, a)" by (metis not_None_eq surj_pair)
  obtain r k where r: "sink_poll_ready K (os_frame st) = (r, k)" by fastforce
  have sub: "subseq (map snd (log (os_frame st)) @ [a]) (as @ senders evs)" using assms(1) SendingPrepare pack by (simp add: sends_ok_def reply_to_def)
  have less: "subseq (map snd (log (os_frame st))) (as @ senders evs)" by (rule subseq_order.order_trans [OF _ sub]) (simp add: prefix_imp_subseq)
  have tab: "table_ok config evs (st\<lparr>os_frame := k', os_state := x\<rparr>)" "table_ok config evs (st\<lparr>os_frame := k'\<rparr>)" for k' x using assms(2) by (simp_all add: table_ok_def)
  show ?thesis
  proof (cases r)
    case Pending
    then show ?thesis using r SendingPrepare pack sub ready_log [OF r] tab by (auto simp: os_send_def sends_ok_def reply_to_def)
  next
    case (Ready q)
    show ?thesis
    proof (cases q)
      case (Inl e)
      then show ?thesis using r Ready SendingPrepare less ready_log [OF r] tab by (auto simp: os_send_def sends_ok_def reply_to_def)
    next
      case (Inr w)
      obtain q2 k2 where q2: "sink_start_send K k (u, a) = (q2, k2)" by fastforce
      show ?thesis
      proof (cases q2)
        case (Inl e)
        then show ?thesis
          using r Ready Inr q2 SendingPrepare pack less ready_log [OF r] send_log [OF q2] tab by (auto simp: os_send_def sends_ok_def reply_to_def)
      next
        case (Inr w2)
        obtain b st' where f: "os_flush K (st\<lparr>os_frame := k2, os_state := SendingFlush\<rparr>) = (b, st')" by fastforce
        have eq: "log (os_frame st') = log (os_frame st) @ [(u, a)]" "os_pending st' = os_pending st" "os_config st' = os_config st"
          "os_connected st' = os_connected st" "b \<longrightarrow> os_state st' = Listening" "os_state st' = Listening \<or> os_state st' = SendingFlush"
          using flush_ok [OF f] ready_log [OF r] send_log [OF q2] Inr by simp_all
        have "(os_send K st :: ('e, _) outcome) = Ok (b, st')" using r Ready \<open>q = Inr w\<close> q2 Inr f SendingPrepare pack by (simp add: os_send_def)
        moreover have "sends_ok as evs st'" using sub eq by (auto simp: sends_ok_def reply_to_def)
        ultimately show ?thesis using assms(2) table_ok_cong [OF eq(2-4)] eq(5) by auto
      qed
    qed
  qed
qed

lemma put_requested:
  assumes "table_ok config evs st" and "v \<in> set (support_version config)"
  shows "table_ok config (evs @ [Took (Unconnected (OpenConnectionRequest1 v m)) a]) (st\<lparr>os_pending := lru_put L (os_pending st) a v\<rparr>)"
proof -
  let ?e = "Took (Unconnected (OpenConnectionRequest1 v m)) a"
  have okc: "ok (os_pending st)" using assms(1) by (simp add: table_ok_def)
  have new: "requested config (evs @ [?e]) a"
    unfolding requested_def using assms(2) by (intro exI [of _ evs] exI [of _ "[]"] exI [of _ v] exI [of _ m]) simp
  have "requested config (evs @ [?e]) b" if "lru_peek L (lru_put L (os_pending st) a v) b \<noteq> None" for b
  proof (cases "b = a")
    case False
    then have "lru_peek L (os_pending st) b \<noteq> None" using put_other [OF okc False, of v] that by auto
    then have "requested config evs b" using assms(1) unfolding table_ok_def by blast
    then show ?thesis by (rule requested_other) (simp_all add: is_request2_def)
  qed (use new in simp)
  then show ?thesis
    using assms(1) put_ok [OF okc] unfolding table_ok_def by (auto intro!: shaken_other)
qed

lemma pop_request2:
  assumes "table_ok config evs st" and "lru_pop L (os_pending st) a = (r, c)"
  shows "table_ok config (evs @ [Took (Unconnected (OpenConnectionRequest2 sa m g)) a]) (st\<lparr>os_pending := c\<rparr>)"
    and "r \<noteq> None \<Longrightarrow> requested config evs a"
proof -
  have okc: "ok (os_pending st)" using assms(1) by (simp add: table_ok_def)
  note pop = pop_ok [OF okc assms(2)] pop_val [OF okc assms(2)]
  show "table_ok config (evs @ [Took (Unconnected (OpenConnectionRequest2 sa m g)) a]) (st\<lparr>os_pending := c\<rparr>)"
    using assms(1) pop unfolding table_ok_def by (auto intro!: shaken_other requested_other simp: is_request2_def split: if_splits)
  show "r \<noteq> None \<Longrightarrow> requested config evs a" using assms(1) pop unfolding table_ok_def by auto
qed

lemma react_ok:
  assumes "table_ok config evs st" and "sane_config config"
  shows "\<exists>r st'. (os_react L st p a :: ('e, _) outcome) = Ok (r, st') \<and> table_ok config (evs @ [Took p a]) st'
    \<and> os_frame st' = os_frame st \<and> os_state st' = os_state st
    \<and> (\<forall>pk q. r = Deliver pk q \<longrightarrow> p = Connected pk \<and> peer_addr q = a \<and> shaken config (evs @ [Took p a]) q)"
proof -
  have config: "os_config st = config" using assms(1) by (simp add: table_ok_def)
  have keep: "table_ok config (evs @ [Took p a]) st" if "\<not> is_request2 a (Took p a)"
  proof -
    have "\<not> is_request2 b (Took p a)" for b using that by (auto simp: is_request2_def split: packet.splits unconnected.splits)
    then show ?thesis using assms(1) unfolding table_ok_def by (auto intro!: shaken_other requested_other)
  qed
  show ?thesis
  proof (cases "\<exists>sa m g. p = Unconnected (OpenConnectionRequest2 sa m g)")
    case True
    then obtain sa m g where p: "p = Unconnected (OpenConnectionRequest2 sa m g)" by blast
    obtain r c where pop: "lru_pop L (os_pending st) a = (r, c)" by fastforce
    note pr = pop_request2 [OF assms(1) pop]
    show ?thesis
    proof (cases "r = None \<or> m < min_mtu config \<or> max_mtu config < m \<or> os_connected st a \<noteq> None")
      case True
      then show ?thesis
        using assms(2) pr(1) by (auto simp: p os_react_def on_request2_def pop Let_def config make_incompatible_version_def sane_config_def split: list.splits)
    next
      case False
      let ?p = "\<lparr> peer_guid = g, peer_addr = a, peer_mtu = m \<rparr>"
      have "shaken config (evs @ [Took p a]) ?p"
        unfolding shaken_def using pr(2) False by (intro exI [of _ evs] exI [of _ "[]"] exI [of _ sa]) (auto simp: p not_less)
      then have "table_ok config (evs @ [Took p a]) (st\<lparr>os_pending := c, os_connected := (os_connected st)(a \<mapsto> ?p)\<rparr>)"
        using pr(1) [of sa m g] unfolding table_ok_def p by auto
      then show ?thesis using False by (auto simp: p os_react_def on_request2_def pop Let_def config)
    qed
  next
    case False
    then have keep: "table_ok config (evs @ [Took p a]) st" by (intro keep) (auto simp: is_request2_def split: packet.splits unconnected.splits)
    show ?thesis
    proof (cases p)
      case (Connected pk)
      then show ?thesis
        using keep assms(1) by (auto simp: os_react_def table_ok_def split: option.splits)
    next
      case (Unconnected u)
      show ?thesis
      proof (cases "\<exists>v m. u = OpenConnectionRequest1 v m")
        case True
        then obtain v m where u: "u = OpenConnectionRequest1 v m" by blast
        show ?thesis
          using assms(2) keep put_requested [OF assms(1), of v m a]
          by (cases "v \<in> set (support_version config)")
            (auto simp: binary_search_iff Unconnected u os_react_def on_request1_def config clamp_def make_incompatible_version_def sane_config_def split: list.splits)
      next
        case no1: False
        then show ?thesis using False keep by (cases u) (auto simp: Unconnected os_react_def)
      qed
    qed
  qed
qed

definition inv :: "offline_config \<Rightarrow> socket_addr list \<Rightarrow> os_event list \<Rightarrow> ('s, 'c) offline_server \<Rightarrow> bool" where
  "inv config as evs st \<longleftrightarrow> table_ok config evs st \<and> sends_ok as evs st \<and> gave_ok config evs"

lemma inv_took:
  assumes "inv config as evs st" and "os_state st = Listening" and "table_ok config (evs @ [Took p a]) st'" and "os_frame st' = os_frame st"
  shows "os_state st' = Listening \<Longrightarrow> inv config as (evs @ [Took p a]) st'"
    and "inv config as (evs @ [Took p a]) (st'\<lparr>os_state := SendingPrepare (Some (u, a))\<rparr>)"
proof -
  have sub: "subseq (map snd (log (os_frame st))) (as @ senders evs)" using assms(1,2) by (simp add: inv_def sends_ok_def reply_to_def)
  have "subseq (map snd (log (os_frame st))) ((as @ senders evs) @ [a])" by (rule subseq_order.order_trans [OF sub]) (simp add: prefix_imp_subseq)
  then show "os_state st' = Listening \<Longrightarrow> inv config as (evs @ [Took p a]) st'"
    using assms by (simp add: inv_def sends_ok_def reply_to_def gave_ok_snoc)
  have "subseq (map snd (log (os_frame st)) @ [a]) ((as @ senders evs) @ [a])" using sub by (simp only: subseq_append)
  then show "inv config as (evs @ [Took p a]) (st'\<lparr>os_state := SendingPrepare (Some (u, a))\<rparr>)"
    using assms table_ok_cong [of "st'\<lparr>os_state := SendingPrepare (Some (u, a))\<rparr>" st'] by (simp add: inv_def sends_ok_def reply_to_def gave_ok_snoc)
qed

lemma inv_gave:
  assumes "inv config as evs st" and "evs \<noteq> []" and "last evs = Took (Connected pk) (peer_addr q)" and "shaken config evs q"
  shows "inv config as (evs @ [Gave pk q]) st"
  using assms unfolding inv_def table_ok_def sends_ok_def
  by (auto simp: gave_ok_snoc is_request2_def intro!: shaken_other requested_other)

lemma poll_ok:
  assumes "inv config as evs st" and "sane_config config"
  shows "\<exists>r st' used rest. (os_poll K L st s :: ('e, _) outcome) = Ok (r, st', rest) \<and> s = used @ rest \<and> inv config as (evs @ took used @ gave [r]) st'"
  using assms(1)
proof (induction s arbitrary: evs st)
  case Nil
  obtain b st' where "(os_send K st :: ('e, _) outcome) = Ok (b, st')" "inv config as evs st'"
    using send_ok [of as evs st config, where 'e = 'e] Nil by (auto simp: inv_def)
  then show ?case by (intro exI [of _ Pending] exI [of _ st'] exI [of _ "[]"]) simp
next
  case (Cons x s)
  obtain b st1 where 1: "(os_send K st :: ('e, _) outcome) = Ok (b, st1)" "inv config as evs st1" "b \<Longrightarrow> os_state st1 = Listening"
    using send_ok [of as evs st config, where 'e = 'e] Cons.prems by (auto simp: inv_def)
  consider (blocked) "\<not> b" | (pending) "b" "x = Pending" | (finish) "b" "x = Ready None" | (item) p a where "b" "x = Ready (Some (p, a))"
    by (metis option.exhaust poll.exhaust surj_pair)
  then show ?case
  proof cases
    case blocked
    then show ?thesis using 1 by (intro exI [of _ Pending] exI [of _ st1] exI [of _ "[]"] exI [of _ "x # s"]) simp
  next
    case pending
    then show ?thesis using 1 by (intro exI [of _ Pending] exI [of _ st1] exI [of _ "[Pending]"] exI [of _ s]) simp
  next
    case finish
    then show ?thesis using 1 by (intro exI [of _ "Ready None"] exI [of _ st1] exI [of _ "[Ready None]"] exI [of _ s]) simp
  next
    case item
    have l: "os_state st1 = Listening" by (rule 1(3) [OF item(1)])
    obtain r st2 where r: "(os_react L st1 p a :: ('e, _) outcome) = Ok (r, st2)" "table_ok config (evs @ [Took p a]) st2"
      "os_frame st2 = os_frame st1" "os_state st2 = os_state st1"
      "\<forall>pk q. r = Deliver pk q \<longrightarrow> p = Connected pk \<and> peer_addr q = a \<and> shaken config (evs @ [Took p a]) q"
      using react_ok [OF _ assms(2), of evs st1 p a, where 'e = 'e] 1(2) by (auto simp: inv_def)
    note took = inv_took [OF 1(2) l r(2,3)]
    have rec: "\<exists>r' st' used rest. (os_poll K L st (x # s) :: ('e, _) outcome) = Ok (r', st', rest) \<and> x # s = used @ rest \<and> inv config as (evs @ took used @ gave [r']) st'"
      if inv3: "inv config as (evs @ [Took p a]) st3" and step: "(os_poll K L st (x # s) :: ('e, _) outcome) = os_poll K L st3 s" for st3
    proof -
      obtain r' st' used rest where "(os_poll K L st3 s :: ('e, _) outcome) = Ok (r', st', rest)" "s = used @ rest"
        "inv config as ((evs @ [Took p a]) @ took used @ gave [r']) st'" using Cons.IH [OF inv3] by blast
      then show ?thesis
        unfolding step using item(2) by (intro exI [of _ r'] exI [of _ st'] exI [of _ "x # used"] exI [of _ rest]) simp
    qed
    show ?thesis
    proof (cases r)
      case (Deliver pk q)
      have "inv config as ((evs @ [Took p a]) @ [Gave pk q]) st2"
        by (rule inv_gave [OF took(1)]) (use r(4,5) l Deliver in auto)
      then show ?thesis
        using 1(1) item r(1) Deliver by (intro exI [of _ "Ready (Some (pk, q))"] exI [of _ st2] exI [of _ "[x]"] exI [of _ s]) simp
    next
      case (Reply u)
      show ?thesis by (rule rec [OF took(2) [of u]]) (use 1(1) item r(1) Reply in simp)
    next
      case Ignore
      show ?thesis by (rule rec [OF took(1)]) (use 1(1) item r(1,4) l Ignore in simp_all)
    qed
  qed
qed

lemma drop_ok:
  assumes "inv config as evs st"
  shows "inv config as (evs @ [Dropped a]) (disconnect L st a)"
proof -
  obtain r c where pop: "lru_pop L (os_pending st) a = (r, c)" by fastforce
  have okc: "ok (os_pending st)" using assms by (simp add: inv_def table_ok_def)
  note facts = pop_ok [OF okc pop] pop_val [OF okc pop]
  have "requested config (evs @ [Dropped a]) b" if "lru_peek L c b \<noteq> None" for b
    using that facts assms by (intro requested_other) (auto simp: inv_def table_ok_def is_request2_def split: if_splits)
  moreover have "peer_addr p = b \<and> shaken config (evs @ [Dropped a]) p" if "((os_connected st)(a := None)) b = Some p" for b p
    using that assms by (auto simp: inv_def table_ok_def intro!: shaken_other split: if_splits)
  ultimately show ?thesis
    using assms facts unfolding inv_def table_ok_def sends_ok_def disconnect_def reply_to_def by (simp add: pop gave_ok_snoc)
qed

lemma run_inv:
  assumes "os_run K L frame config evs st" and "sane_config config"
  shows "inv config (map snd (log frame)) evs st"
  using assms(1)
proof (induction rule: os_run.induct)
  case (start st)
  then show ?case
    using assms(2) by (auto simp: offline_server_new_def inv_def table_ok_def sends_ok_def reply_to_def gave_ok_def new_ok new_peek sane_config_def split: if_splits)
next
  case (poll evs st used rest r st')
  obtain r' st'' used' rest' where *: "(os_poll K L st (used @ rest) :: (io_error, _) outcome) = Ok (r', st'', rest')" "used @ rest = used' @ rest'"
    "inv config (map snd (log frame)) (evs @ took used' @ gave [r']) st''"
    using poll_ok [OF poll.IH assms(2), of "used @ rest", where 'e = io_error] by blast
  then show ?case using poll.hyps(2) by simp
next
  case (drop evs st a)
  show ?case by (rule drop_ok [OF drop.IH])
qed

end

interpretation log_offline: offline_env log_sink "\<lambda>xs. xs" list_lru list_lru_ok
  by (simp add: offline_env_def log_sink.sink_laws_axioms list_lru.lru_laws_axioms)

subsection \<open>Properties\<close>

text \<open>
  C6: Who may send to a server.  In every run of the handler, over any sink and whatever arrives, a connected
  packet is handed on only for a peer that completed the handshake: right after it was taken from the address
  of the peer, with an earlier first request from that address for a supported version, followed without a
  disconnection by a second request that carried the identifier and the size of the peer, the size within the
  configured bounds, and without a disconnection since.  Replies answer packets: the addresses sent to are a
  subsequence of the addresses the packets came from.  And no poll panics.
\<close>
theorem offline_admission:
  assumes "offline_env K log L ok" and "sane_config config" and "os_run K L frame config evs st"
  shows "(\<forall>h1 pk p h2. evs = h1 @ Gave pk p # h2 \<longrightarrow> h1 \<noteq> [] \<and> last h1 = Took (Connected pk) (peer_addr p) \<and> shaken config h1 p)
    \<and> subseq (map snd (log (os_frame st))) (map snd (log frame) @ senders evs)
    \<and> (\<exists>r st' used rest. (os_poll K L st s :: (io_error, _) outcome) = Ok (r, st', rest) \<and> s = used @ rest)"
proof -
  note inv = offline_env.run_inv [OF assms(1,3,2)]
  note poll = offline_env.poll_ok [OF assms(1) inv assms(2), of s, where 'e = io_error]
  have "subseq (map snd (log (os_frame st)) @ reply_to st) (map snd (log frame) @ senders evs)" "gave_ok config evs"
    using inv unfolding offline_env.inv_def [OF assms(1)] offline_env.sends_ok_def [OF assms(1)] by blast+
  moreover from this(1) have "subseq (map snd (log (os_frame st))) (map snd (log frame) @ senders evs)"
    by (rule subseq_order.order_trans [rotated]) (simp add: prefix_imp_subseq)
  ultimately show ?thesis using poll unfolding gave_ok_def by blast
qed

definition sample_config :: offline_config where
  "sample_config = \<lparr> sever_guid = 9, advertisement = [], min_mtu = 500, max_mtu = 1500, support_version = [9, 11], max_pending = 8 \<rparr>"

definition sample_client :: peer where
  "sample_client = \<lparr> peer_guid = 7, peer_addr = V4 1 2, peer_mtu = 1000 \<rparr>"

definition sample_handshake :: "(packet \<times> socket_addr) list" where
  "sample_handshake = [(Unconnected (OpenConnectionRequest1 11 2000), V4 1 2), (Unconnected (OpenConnectionRequest2 (V4 0 0) 1000 7), V4 1 2),
     (Connected (Ack \<lparr> records = [] \<rparr>), V4 1 2)]"

lemma sample_binary_search: "binary_search (support_version sample_config) 11"
  by (simp add: sample_config_def binary_search_def narrow.simps)

lemma sample_poll:
  "\<exists>st'. os_poll log_sink list_lru \<lparr> os_frame = [], os_config = sample_config, os_pending = (8, []), os_connected = Map.empty,
       os_state = Listening, os_role = Server 9 \<rparr> (map (\<lambda>x. Ready (Some x)) sample_handshake)
     = (Ok (Ready (Some (Ack \<lparr> records = [] \<rparr>, sample_client)), st', []) :: (io_error, _) outcome)
     \<and> os_frame st' = [(OpenConnectionReply1 9 False 1500, V4 1 2), (OpenConnectionReply2 9 (V4 1 2) 1000 False, V4 1 2)]"
  using sample_binary_search
  by (simp add: sample_handshake_def os_send_def os_flush_def log_sink_def os_react_def on_request1_def on_request2_def clamp_def
      sample_config_def list_lru_def lru_front_def sample_client_def)

theorem offline_admission_witness:
  "\<exists>st. os_run log_sink list_lru [] sample_config (map (\<lambda>(p, a). Took p a) sample_handshake @ [Gave (Ack \<lparr> records = [] \<rparr>) sample_client]) st
     \<and> shaken sample_config (map (\<lambda>(p, a). Took p a) sample_handshake) sample_client
     \<and> subseq (map snd (os_frame st)) [V4 1 2, V4 1 2, V4 1 2]"
proof -
  let ?st0 = "\<lparr> os_frame = [], os_config = sample_config, os_pending = (8, []), os_connected = Map.empty, os_state = Listening, os_role = Server 9 \<rparr>"
  let ?evs = "map (\<lambda>(p, a). Took p a) sample_handshake"
  have start: "offline_server_new list_lru [] sample_config = (Ok ?st0 :: (io_error, _) outcome)"
    by (simp add: offline_server_new_def sample_config_def list_lru_def)
  obtain st' where poll: "os_poll log_sink list_lru ?st0 (map (\<lambda>x. Ready (Some x)) sample_handshake @ [])
      = (Ok (Ready (Some (Ack \<lparr> records = [] \<rparr>, sample_client)), st', []) :: (io_error, _) outcome)"
    using sample_poll by auto
  have run: "os_run log_sink list_lru [] sample_config (?evs @ [Gave (Ack \<lparr> records = [] \<rparr>) sample_client]) st'"
    using os_run.poll [OF os_run.start [OF start] poll] by (simp add: sample_handshake_def)
  have sane: "sane_config sample_config" by (simp add: sane_config_def sample_config_def)
  note * = offline_admission [OF log_offline.offline_env_axioms sane run, of "[]"]
  from conjunct1 [OF *] have "shaken sample_config ?evs sample_client" by blast
  moreover from * have "subseq (map snd (os_frame st')) [V4 1 2, V4 1 2, V4 1 2]"
    by (simp add: sample_handshake_def senders_def)
  ultimately show ?thesis using run by blast
qed

end
