(* ===== verification/Offline_Client.thy ===== *)
theory Offline_Client
  imports Offline_Server
begin

text \<open>
  The client side of the handshake before a connection exists: \<open>OfflineHandler\<close> and \<open>FilterConnected\<close> of
  \<open>src/src/client/handler/offline.rs\<close>, and the handshake between this handler and the server's.  As there, the
  datagram codec below is a script of decoded packets and a sink that is a parameter.
\<close>

subsection \<open>State\<close>

record client_config =
  cc_mtu :: u16
  cc_client_guid :: u64
  cc_protocol_version :: u8

datatype oc_state =
    SendOpenConnReq1 unconnected
  | SendOpenConnReq1Flush
  | WaitOpenConnReply1
  | SendOpenConnReq2 unconnected
  | SendOpenConnReq2Flush
  | WaitOpenConnReply2

record 's offline_client =
  oc_frame :: "'s option"
  oc_state :: oc_state
  oc_server_addr :: socket_addr
  oc_config :: client_config
  oc_role :: role

definition offline_client_new :: "'s \<Rightarrow> socket_addr \<Rightarrow> client_config \<Rightarrow> 's offline_client" where
  "offline_client_new frame addr config =
     \<lparr> oc_frame = Some frame, oc_state = SendOpenConnReq1 (OpenConnectionRequest1 (cc_protocol_version config) (cc_mtu config)),
       oc_server_addr = addr, oc_config = config, oc_role = Client (cc_client_guid config) \<rparr>"

subsection \<open>The future\<close>

definition connection_reset :: io_error where
  "connection_reset = IoError ConnectionReset ''connection reset by peer''"

text \<open>
  Waiting for a reply of the server: packets from elsewhere and packets \<open>want\<close> does not accept are skipped, and
  the end of the stream is an error.
\<close>

fun wait_reply :: "(packet \<Rightarrow> 'a option) \<Rightarrow> socket_addr \<Rightarrow> (packet \<times> socket_addr) script \<Rightarrow> (io_error + 'a) poll \<times> (packet \<times> socket_addr) script" where
  "wait_reply want srv [] = (Pending, [])"
| "wait_reply want srv (Pending # s) = (Pending, s)"
| "wait_reply want srv (Ready None # s) = (Ready (Inl connection_reset), s)"
| "wait_reply want srv (Ready (Some (pack, addr)) # s) =
     (if addr \<noteq> srv then wait_reply want srv s
      else (case want pack of None \<Rightarrow> wait_reply want srv s | Some x \<Rightarrow> (Ready (Inr x), s)))"

fun reply1_mtu :: "packet \<Rightarrow> u16 option" where
  "reply1_mtu (Unconnected (OpenConnectionReply1 _ _ mtu)) = Some mtu"
| "reply1_mtu _ = None"

fun reply2_guid :: "packet \<Rightarrow> u64 option" where
  "reply2_guid (Unconnected (OpenConnectionReply2 guid _ _ _)) = Some guid"
| "reply2_guid _ = None"

text \<open>
  The states in the order of the handshake, each going on to the next: what the call returns, the state it
  leaves, the sink and the rest of the stream.
\<close>

type_synonym 's oc_result = "(io_error + peer) poll \<times> oc_state \<times> 's \<times> (packet \<times> socket_addr) script"

definition oc_wait2 :: "socket_addr \<Rightarrow> client_config \<Rightarrow> 's \<Rightarrow> (packet \<times> socket_addr) script \<Rightarrow> 's oc_result" where
  "oc_wait2 srv config k s = (case wait_reply reply2_guid srv s of
      (Pending, s) \<Rightarrow> (Pending, WaitOpenConnReply2, k, s)
    | (Ready (Inl e), s) \<Rightarrow> (Ready (Inl e), WaitOpenConnReply2, k, s)
    | (Ready (Inr guid), s) \<Rightarrow> (Ready (Inr \<lparr> peer_guid = guid, peer_addr = srv, peer_mtu = cc_mtu config \<rparr>), WaitOpenConnReply2, k, s))"

definition flush_then :: "('s, 'i) sink_api \<Rightarrow> oc_state \<Rightarrow> 's \<Rightarrow> (packet \<times> socket_addr) script \<Rightarrow> ('s \<Rightarrow> 's oc_result) \<Rightarrow> 's oc_result" where
  "flush_then K st k s f = (case sink_poll_flush K k of
      (Pending, k) \<Rightarrow> (Pending, st, k, s)
    | (Ready (Inl e), k) \<Rightarrow> (Ready (Inl e), st, k, s)
    | (Ready (Inr _), k) \<Rightarrow> f k)"

definition prepare_then :: "('s, 'i) sink_api \<Rightarrow> oc_state \<Rightarrow> 'i \<Rightarrow> 's \<Rightarrow> (packet \<times> socket_addr) script \<Rightarrow> ('s \<Rightarrow> 's oc_result) \<Rightarrow> 's oc_result" where
  "prepare_then K st item k s f = (case sink_poll_ready K k of
      (Pending, k) \<Rightarrow> (Pending, st, k, s)
    | (Ready (Inl e), k) \<Rightarrow> (Ready (Inl e), st, k, s)
    | (Ready (Inr _), k) \<Rightarrow> (case sink_start_send K k item of
          (Inl e, k) \<Rightarrow> (Ready (Inl e), st, k, s)
        | (Inr _, k) \<Rightarrow> f k))"

definition oc_flush2 :: "('s, unconnected \<times> socket_addr) sink_api \<Rightarrow> socket_addr \<Rightarrow> client_config \<Rightarrow> 's \<Rightarrow> (packet \<times> socket_addr) script \<Rightarrow> 's oc_result" where
  "oc_flush2 K srv config k s = flush_then K SendOpenConnReq2Flush k s (\<lambda>k. oc_wait2 srv config k s)"

definition oc_send2 :: "('s, unconnected \<times> socket_addr) sink_api \<Rightarrow> socket_addr \<Rightarrow> client_config \<Rightarrow> unconnected \<Rightarrow> 's \<Rightarrow> (packet \<times> socket_addr) script \<Rightarrow> 's oc_result" where
  "oc_send2 K srv config pack k s = prepare_then K (SendOpenConnReq2 pack) (pack, srv) k s (\<lambda>k. oc_flush2 K srv config k s)"

definition oc_wait1 :: "('s, unconnected \<times> socket_addr) sink_api \<Rightarrow> socket_addr \<Rightarrow> client_config \<Rightarrow> 's \<Rightarrow> (packet \<times> socket_addr) script \<Rightarrow> 's oc_result" where
  "oc_wait1 K srv config k s = (case wait_reply reply1_mtu srv s of
      (Pending, s) \<Rightarrow> (Pending, WaitOpenConnReply1, k, s)
    | (Ready (Inl e), s) \<Rightarrow> (Ready (Inl e), WaitOpenConnReply1, k, s)
    | (Ready (Inr mtu), s) \<Rightarrow> oc_send2 K srv config (OpenConnectionRequest2 srv mtu (cc_client_guid config)) k s)"

definition oc_flush1 :: "('s, unconnected \<times> socket_addr) sink_api \<Rightarrow> socket_addr \<Rightarrow> client_config \<Rightarrow> 's \<Rightarrow> (packet \<times> socket_addr) script \<Rightarrow> 's oc_result" where
  "oc_flush1 K srv config k s = flush_then K SendOpenConnReq1Flush k s (\<lambda>k. oc_wait1 K srv config k s)"

definition oc_send1 :: "('s, unconnected \<times> socket_addr) sink_api \<Rightarrow> socket_addr \<Rightarrow> client_config \<Rightarrow> unconnected \<Rightarrow> 's \<Rightarrow> (packet \<times> socket_addr) script \<Rightarrow> 's oc_result" where
  "oc_send1 K srv config pack k s = prepare_then K (SendOpenConnReq1 pack) (pack, srv) k s (\<lambda>k. oc_flush1 K srv config k s)"

definition oc_step :: "('s, unconnected \<times> socket_addr) sink_api \<Rightarrow> socket_addr \<Rightarrow> client_config \<Rightarrow> oc_state \<Rightarrow> 's \<Rightarrow> (packet \<times> socket_addr) script \<Rightarrow> 's oc_result" where
  "oc_step K srv config st k s = (case st of
      SendOpenConnReq1 pack \<Rightarrow> oc_send1 K srv config pack k s
    | SendOpenConnReq1Flush \<Rightarrow> oc_flush1 K srv config k s
    | WaitOpenConnReply1 \<Rightarrow> oc_wait1 K srv config k s
    | SendOpenConnReq2 pack \<Rightarrow> oc_send2 K srv config pack k s
    | SendOpenConnReq2Flush \<Rightarrow> oc_flush2 K srv config k s
    | WaitOpenConnReply2 \<Rightarrow> oc_wait2 srv config k s)"

record 's filter_connected =
  fc_frame :: 's
  fc_server_addr :: socket_addr

definition oc_poll :: "('s, unconnected \<times> socket_addr) sink_api \<Rightarrow> 's offline_client \<Rightarrow> (packet \<times> socket_addr) script
    \<Rightarrow> ('e, (io_error + 's filter_connected \<times> peer) poll \<times> 's offline_client \<times> (packet \<times> socket_addr) script) outcome" where
  "oc_poll K c s = (case oc_frame c of
      None \<Rightarrow> Panic
    | Some k \<Rightarrow> (case oc_step K (oc_server_addr c) (oc_config c) (oc_state c) k s of
          (Pending, st, k, s) \<Rightarrow> Ok (Pending, c\<lparr>oc_frame := Some k, oc_state := st\<rparr>, s)
        | (Ready (Inl e), st, k, s) \<Rightarrow> Ok (Ready (Inl e), c\<lparr>oc_frame := Some k, oc_state := st\<rparr>, s)
        | (Ready (Inr p), st, k, s) \<Rightarrow>
            Ok (Ready (Inr (\<lparr> fc_frame = k, fc_server_addr = oc_server_addr c \<rparr>, p)), c\<lparr>oc_frame := None, oc_state := st\<rparr>, s)))"

subsection \<open>The stream of a connected client\<close>

fun filter_poll :: "('s filter_connected, packet \<times> socket_addr, connected, 'e) poll_fn" where
  "filter_poll c [] = Ok (Pending, c, [])"
| "filter_poll c (Pending # s) = Ok (Pending, c, s)"
| "filter_poll c (Ready None # s) = Ok (Ready None, c, s)"
| "filter_poll c (Ready (Some (pack, addr)) # s) =
     (if addr \<noteq> fc_server_addr c then filter_poll c s
      else (case pack of Connected pack \<Rightarrow> Ok (Ready (Some pack), c, s) | Unconnected _ \<Rightarrow> filter_poll c s))"

subsection \<open>Runs of the client\<close>

text \<open>The future is polled until it is ready, at most \<open>n\<close> times.\<close>

fun oc_drive :: "nat \<Rightarrow> ('s, unconnected \<times> socket_addr) sink_api \<Rightarrow> 's offline_client \<Rightarrow> (packet \<times> socket_addr) script
    \<Rightarrow> ('e, (io_error + 's filter_connected \<times> peer) poll \<times> 's offline_client \<times> (packet \<times> socket_addr) script) outcome" where
  "oc_drive 0 K c s = Ok (Pending, c, s)"
| "oc_drive (Suc n) K c s = and_then (oc_poll K c s) (\<lambda>(r, c, s). case r of
      Pending \<Rightarrow> oc_drive n K c s
    | Ready x \<Rightarrow> Ok (Ready x, c, s))"

text \<open>No reply that \<open>want\<close> accepts came from the server, and the stream did not end.\<close>

definition waiting :: "(packet \<Rightarrow> 'a option) \<Rightarrow> socket_addr \<Rightarrow> (packet \<times> socket_addr) script \<Rightarrow> bool" where
  "waiting want srv s \<longleftrightarrow> list_all (\<lambda>x. case x of Pending \<Rightarrow> True | Ready None \<Rightarrow> False
     | Ready (Some (p, a)) \<Rightarrow> a \<noteq> srv \<or> want p = None) s"

lemma waiting_simps [simp]:
  "waiting want srv []" "waiting want srv (Pending # s) = waiting want srv s" "waiting want srv (Ready None # s) = False"
  "waiting want srv (Ready (Some (p, a)) # s) = ((a \<noteq> srv \<or> want p = None) \<and> waiting want srv s)"
  "waiting want srv (s @ t) = (waiting want srv s \<and> waiting want srv t)"
  by (simp_all add: waiting_def)

lemma wait_reply_ok:
  "\<exists>used. s = used @ snd (wait_reply want srv s) \<and> (case fst (wait_reply want srv s) of
      Pending \<Rightarrow> waiting want srv used
    | Ready (Inl e) \<Rightarrow> \<exists>s1. used = s1 @ [Ready None] \<and> waiting want srv s1
    | Ready (Inr x) \<Rightarrow> \<exists>s1 p. used = s1 @ [Ready (Some (p, srv))] \<and> want p = Some x \<and> waiting want srv s1)"
proof (induction want srv s rule: wait_reply.induct)
  case (2 want srv s)
  show ?case by (rule exI [of _ "[Pending]"]) simp
next
  case (3 want srv s)
  show ?case by (rule exI [of _ "[Ready None]"]) simp
next
  case (4 want srv pack addr s)
  let ?x = "Ready (Some (pack, addr))"
  show ?case
  proof (cases "addr = srv \<and> want pack \<noteq> None")
    case True
    then show ?thesis by (intro exI [of _ "[?x]"]) auto
  next
    case False
    then have skip: "wait_reply want srv (?x # s) = wait_reply want srv s" by auto
    obtain used where u: "s = used @ snd (wait_reply want srv s)" "case fst (wait_reply want srv s) of
        Pending \<Rightarrow> waiting want srv used
      | Ready (Inl e) \<Rightarrow> \<exists>s1. used = s1 @ [Ready None] \<and> waiting want srv s1
      | Ready (Inr x) \<Rightarrow> \<exists>s1 p. used = s1 @ [Ready (Some (p, srv))] \<and> want p = Some x \<and> waiting want srv s1"
      using 4 False by (cases "addr = srv") auto
    have w: "waiting want srv (?x # t) = waiting want srv t" for t using False by auto
    show ?thesis
    proof (rule exI [of _ "?x # used"], rule conjI)
      show "?x # s = (?x # used) @ snd (wait_reply want srv (?x # s))" using u(1) skip by simp
      show "case fst (wait_reply want srv (?x # s)) of
        Pending \<Rightarrow> waiting want srv (?x # used)
      | Ready (Inl e) \<Rightarrow> \<exists>s1. ?x # used = s1 @ [Ready None] \<and> waiting want srv s1
      | Ready (Inr x) \<Rightarrow> \<exists>s1 p. ?x # used = s1 @ [Ready (Some (p, srv))] \<and> want p = Some x \<and> waiting want srv s1"
        unfolding skip using u(2) w
        by (auto split: poll.splits sum.splits simp del: waiting_simps(4))
    qed
  qed
qed simp

abbreviation request1 :: "client_config \<Rightarrow> unconnected" where
  "request1 config \<equiv> OpenConnectionRequest1 (cc_protocol_version config) (cc_mtu config)"

abbreviation request2 :: "socket_addr \<Rightarrow> client_config \<Rightarrow> u16 \<Rightarrow> unconnected" where
  "request2 srv config mtu \<equiv> OpenConnectionRequest2 srv mtu (cc_client_guid config)"

text \<open>The first reply, with this size, was the last thing taken from the stream before \<open>rest\<close>.\<close>

definition replied :: "socket_addr \<Rightarrow> (packet \<times> socket_addr) script \<Rightarrow> u16 \<Rightarrow> (packet \<times> socket_addr) script \<Rightarrow> bool" where
  "replied srv h mtu rest \<longleftrightarrow> (\<exists>s1 p. h = s1 @ [Ready (Some (p, srv))] @ rest \<and> waiting reply1_mtu srv s1 \<and> reply1_mtu p = Some mtu)"

text \<open>The handshake of the client is complete with this peer, and these requests were sent for it.\<close>

definition completed :: "socket_addr \<Rightarrow> client_config \<Rightarrow> (packet \<times> socket_addr) script \<Rightarrow> (unconnected \<times> socket_addr) list \<Rightarrow> peer \<Rightarrow> bool" where
  "completed srv config h sent p \<longleftrightarrow> (\<exists>mtu s2 p2. replied srv h mtu (s2 @ [Ready (Some (p2, srv))]) \<and> waiting reply2_guid srv s2
     \<and> reply2_guid p2 = Some (peer_guid p) \<and> peer_addr p = srv \<and> peer_mtu p = cc_mtu config
     \<and> sent = [(request1 config, srv), (request2 srv config mtu, srv)])"

locale client_env = sink_laws K log
  for K :: "('s, unconnected \<times> socket_addr) sink_api" and log :: "'s \<Rightarrow> (unconnected \<times> socket_addr) list"
begin

definition stage :: "(unconnected \<times> socket_addr) list \<Rightarrow> socket_addr \<Rightarrow> client_config \<Rightarrow> (packet \<times> socket_addr) script \<Rightarrow> oc_state \<Rightarrow> 's \<Rightarrow> bool" where
  "stage sent0 srv config h st k = (case st of
      SendOpenConnReq1 p \<Rightarrow> h = [] \<and> p = request1 config \<and> log k = sent0
    | SendOpenConnReq1Flush \<Rightarrow> h = [] \<and> log k = sent0 @ [(request1 config, srv)]
    | WaitOpenConnReply1 \<Rightarrow> waiting reply1_mtu srv h \<and> log k = sent0 @ [(request1 config, srv)]
    | SendOpenConnReq2 p \<Rightarrow> \<exists>mtu. replied srv h mtu [] \<and> p = request2 srv config mtu \<and> log k = sent0 @ [(request1 config, srv)]
    | SendOpenConnReq2Flush \<Rightarrow> \<exists>mtu. replied srv h mtu [] \<and> log k = sent0 @ [(request1 config, srv), (request2 srv config mtu, srv)]
    | WaitOpenConnReply2 \<Rightarrow> \<exists>mtu s2. replied srv h mtu s2 \<and> waiting reply2_guid srv s2 \<and> log k = sent0 @ [(request1 config, srv), (request2 srv config mtu, srv)])"

definition step_ok :: "(unconnected \<times> socket_addr) list \<Rightarrow> socket_addr \<Rightarrow> client_config \<Rightarrow> (packet \<times> socket_addr) script \<Rightarrow> (packet \<times> socket_addr) script \<Rightarrow> 's oc_result \<Rightarrow> bool" where
  "step_ok sent0 srv config h s res = (case res of (r, st, k, s') \<Rightarrow> \<exists>used. s = used @ s' \<and> (case r of
      Pending \<Rightarrow> stage sent0 srv config (h @ used) st k
    | Ready (Inl _) \<Rightarrow> True
    | Ready (Inr p) \<Rightarrow> \<exists>sent. log k = sent0 @ sent \<and> completed srv config (h @ used) sent p))"

lemma step_ok_intros:
  "s = used @ s' \<Longrightarrow> stage sent0 srv config (h @ used) st k \<Longrightarrow> step_ok sent0 srv config h s (Pending, st, k, s')"
  "s = used @ s' \<Longrightarrow> step_ok sent0 srv config h s (Ready (Inl e), st, k, s')"
  "s = used @ s' \<Longrightarrow> log k = sent0 @ sent \<Longrightarrow> completed srv config (h @ used) sent p \<Longrightarrow> step_ok sent0 srv config h s (Ready (Inr p), st, k, s')"
  by (auto simp: step_ok_def)

lemma step_ok_more: "s = used @ s' \<Longrightarrow> step_ok sent0 srv config (h @ used) s' res \<Longrightarrow> step_ok sent0 srv config h s res"
  unfolding step_ok_def by (cases res) (auto split: poll.splits sum.splits)

lemma step_ok_now:
  "stage sent0 srv config h st k \<Longrightarrow> step_ok sent0 srv config h s (Pending, st, k, s)" "step_ok sent0 srv config h s (Ready (Inl e), st, k, s)"
  using step_ok_intros(1,2) [of s "[]" s] by simp_all

lemma flush_then_ok:
  assumes "stage sent0 srv config h st k" and "\<And>k'. log k' = log k \<Longrightarrow> step_ok sent0 srv config h s (f k')"
  shows "step_ok sent0 srv config h s (flush_then K st k s f)"
proof -
  obtain r k' where k': "sink_poll_flush K k = (r, k')" by fastforce
  have "log k' = log k" by (rule flush_log [OF k'])
  moreover from this have "stage sent0 srv config h st k'" using assms(1) by (simp add: stage_def split: oc_state.splits)
  ultimately show ?thesis
    using assms(2) [of k'] by (auto simp: flush_then_def k' step_ok_now split: poll.splits sum.splits)
qed

lemma prepare_then_ok:
  assumes "stage sent0 srv config h st k" and "\<And>k'. log k' = log k @ [item] \<Longrightarrow> step_ok sent0 srv config h s (f k')"
  shows "step_ok sent0 srv config h s (prepare_then K st item k s f)"
proof -
  obtain r k1 where k1: "sink_poll_ready K k = (r, k1)" by fastforce
  obtain q k2 where k2: "sink_start_send K k1 item = (q, k2)" by fastforce
  have log1: "log k1 = log k" by (rule ready_log [OF k1])
  have stage1: "stage sent0 srv config h st k1" using assms(1) log1 by (simp add: stage_def split: oc_state.splits)
  have "step_ok sent0 srv config h s (f k2)" if "q = Inr ()" using assms(2) send_log [OF k2] that log1 by simp
  with stage1 show ?thesis
    by (auto simp: prepare_then_def k1 k2 step_ok_now split: poll.splits sum.splits)
qed

lemma wait2_ok:
  assumes "stage sent0 srv config h WaitOpenConnReply2 k"
  shows "step_ok sent0 srv config h s (oc_wait2 srv config k s)"
proof -
  obtain mtu s2 where h: "replied srv h mtu s2" "waiting reply2_guid srv s2" "log k = sent0 @ [(request1 config, srv), (request2 srv config mtu, srv)]"
    using assms by (auto simp: stage_def)
  have ext: "replied srv (h @ u) mtu (s2 @ u)" for u using h(1) by (auto simp: replied_def)
  obtain r s' where w: "wait_reply reply2_guid srv s = (r, s')" by fastforce
  obtain used where u: "s = used @ s'" "case r of Pending \<Rightarrow> waiting reply2_guid srv used
    | Ready (Inl e) \<Rightarrow> \<exists>s1. used = s1 @ [Ready None] \<and> waiting reply2_guid srv s1
    | Ready (Inr x) \<Rightarrow> \<exists>s1 p. used = s1 @ [Ready (Some (p, srv))] \<and> reply2_guid p = Some x \<and> waiting reply2_guid srv s1"
    using wait_reply_ok [of s reply2_guid srv] w by auto
  show ?thesis
  proof (cases r)
    case Pending
    then have "stage sent0 srv config (h @ used) WaitOpenConnReply2 k" using u h ext [of used] by (auto simp: stage_def)
    then show ?thesis using step_ok_intros(1) [OF u(1)] Pending by (simp add: oc_wait2_def w)
  next
    case (Ready q)
    show ?thesis
    proof (cases q)
      case (Inl e)
      then show ?thesis using step_ok_intros(2) [OF u(1)] Ready by (simp add: oc_wait2_def w)
    next
      case (Inr g)
      then obtain s1 p where p: "used = s1 @ [Ready (Some (p, srv))]" "reply2_guid p = Some g" "waiting reply2_guid srv s1"
        using u(2) Ready by auto
      have "completed srv config (h @ used) [(request1 config, srv), (request2 srv config mtu, srv)]
          \<lparr> peer_guid = g, peer_addr = srv, peer_mtu = cc_mtu config \<rparr>"
        unfolding completed_def using ext [of used] p h(2)
        by (intro exI [of _ mtu] exI [of _ "s2 @ s1"] exI [of _ p]) simp
      then show ?thesis using step_ok_intros(3) [OF u(1) h(3)] Ready Inr by (simp add: oc_wait2_def w)
    qed
  qed
qed

lemma flush2_ok: "stage sent0 srv config h SendOpenConnReq2Flush k \<Longrightarrow> step_ok sent0 srv config h s (oc_flush2 K srv config k s)"
  unfolding oc_flush2_def by (rule flush_then_ok, assumption, rule wait2_ok) (force simp: stage_def)

lemma send2_ok: "stage sent0 srv config h (SendOpenConnReq2 p) k \<Longrightarrow> step_ok sent0 srv config h s (oc_send2 K srv config p k s)"
  unfolding oc_send2_def by (rule prepare_then_ok, assumption, rule flush2_ok) (force simp: stage_def)

lemma wait1_ok:
  assumes "stage sent0 srv config h WaitOpenConnReply1 k"
  shows "step_ok sent0 srv config h s (oc_wait1 K srv config k s)"
proof -
  have h: "waiting reply1_mtu srv h" "log k = sent0 @ [(request1 config, srv)]" using assms by (auto simp: stage_def)
  obtain r s' where w: "wait_reply reply1_mtu srv s = (r, s')" by fastforce
  obtain used where u: "s = used @ s'" "case r of Pending \<Rightarrow> waiting reply1_mtu srv used
    | Ready (Inl e) \<Rightarrow> \<exists>s1. used = s1 @ [Ready None] \<and> waiting reply1_mtu srv s1
    | Ready (Inr x) \<Rightarrow> \<exists>s1 p. used = s1 @ [Ready (Some (p, srv))] \<and> reply1_mtu p = Some x \<and> waiting reply1_mtu srv s1"
    using wait_reply_ok [of s reply1_mtu srv] w by auto
  show ?thesis
  proof (cases r)
    case Pending
    then have "stage sent0 srv config (h @ used) WaitOpenConnReply1 k" using u h by (simp add: stage_def)
    then show ?thesis using step_ok_intros(1) [OF u(1)] Pending by (simp add: oc_wait1_def w)
  next
    case (Ready q)
    show ?thesis
    proof (cases q)
      case (Inl e)
      then show ?thesis using step_ok_intros(2) [OF u(1)] Ready by (simp add: oc_wait1_def w)
    next
      case (Inr m)
      then obtain s1 p where p: "used = s1 @ [Ready (Some (p, srv))]" "reply1_mtu p = Some m" "waiting reply1_mtu srv s1"
        using u(2) Ready by auto
      have "replied srv (h @ used) m []"
        unfolding replied_def using p h(1) by (intro exI [of _ "h @ s1"] exI [of _ p]) simp
      then have "stage sent0 srv config (h @ used) (SendOpenConnReq2 (request2 srv config m)) k" using h(2) by (auto simp: stage_def)
      then have "step_ok sent0 srv config (h @ used) s' (oc_send2 K srv config (request2 srv config m) k s')" by (rule send2_ok)
      then show ?thesis using step_ok_more [OF u(1)] Ready Inr by (simp add: oc_wait1_def w)
    qed
  qed
qed

lemma flush1_ok: "stage sent0 srv config h SendOpenConnReq1Flush k \<Longrightarrow> step_ok sent0 srv config h s (oc_flush1 K srv config k s)"
  unfolding oc_flush1_def by (rule flush_then_ok, assumption, rule wait1_ok) (force simp: stage_def)

lemma send1_ok: "stage sent0 srv config h (SendOpenConnReq1 p) k \<Longrightarrow> step_ok sent0 srv config h s (oc_send1 K srv config p k s)"
  unfolding oc_send1_def by (rule prepare_then_ok, assumption, rule flush1_ok) (force simp: stage_def)

lemma oc_step_ok: "stage sent0 srv config h st k \<Longrightarrow> step_ok sent0 srv config h s (oc_step K srv config st k s)"
  unfolding oc_step_def by (cases st) (simp_all add: send1_ok flush1_ok wait1_ok send2_ok flush2_ok wait2_ok)

definition driven :: "(unconnected \<times> socket_addr) list \<Rightarrow> socket_addr \<Rightarrow> client_config \<Rightarrow> (packet \<times> socket_addr) script
    \<Rightarrow> (io_error + 's filter_connected \<times> peer) poll \<Rightarrow> bool" where
  "driven sent0 srv config h r = (case r of
      Ready (Inr (f, p)) \<Rightarrow> fc_server_addr f = srv \<and> (\<exists>sent. log (fc_frame f) = sent0 @ sent \<and> completed srv config h sent p)
    | _ \<Rightarrow> True)"

lemma drive_ok:
  assumes "oc_frame c = Some k" and "stage sent0 (oc_server_addr c) (oc_config c) h (oc_state c) k"
  shows "\<exists>r c' used rest. (oc_drive n K c s :: ('e, _) outcome) = Ok (r, c', rest) \<and> s = used @ rest
     \<and> driven sent0 (oc_server_addr c) (oc_config c) (h @ used) r"
  using assms
proof (induction n arbitrary: c k h s)
  case 0
  then show ?case by (intro exI [of _ Pending] exI [of _ c] exI [of _ "[]"] exI [of _ s]) (simp add: driven_def)
next
  case (Suc n)
  obtain r st k1 s1 where step: "oc_step K (oc_server_addr c) (oc_config c) (oc_state c) k s = (r, st, k1, s1)" by (rule prod_cases4)
  note step_ok = oc_step_ok [OF Suc.prems(2), of s, unfolded step step_ok_def, simplified]
  obtain used where used: "s = used @ s1" using step_ok by blast
  show ?case
  proof (cases r)
    case Pending
    let ?c = "c\<lparr>oc_frame := Some k1, oc_state := st\<rparr>"
    have "stage sent0 (oc_server_addr ?c) (oc_config ?c) (h @ used) (oc_state ?c) k1" using step_ok used Pending by simp
    from Suc.IH [OF _ this, of s1] obtain r' c' used2 rest where
      *: "(oc_drive n K ?c s1 :: ('e, _) outcome) = Ok (r', c', rest)" "s1 = used2 @ rest"
      "driven sent0 (oc_server_addr c) (oc_config c) ((h @ used) @ used2) r'" by auto
    have "(oc_drive (Suc n) K c s :: ('e, _) outcome) = Ok (r', c', rest)" using step Pending Suc.prems(1) *(1) by (simp add: oc_poll_def)
    then show ?thesis using used *(2,3) by (intro exI [of _ r'] exI [of _ c'] exI [of _ "used @ used2"] exI [of _ rest]) simp
  next
    case (Ready x)
    show ?thesis
    proof (cases x)
      case (Inl e)
      then show ?thesis
        using step Ready Suc.prems(1) used by (intro exI [of _ "Ready (Inl e)"] exI [of _ "c\<lparr>oc_frame := Some k1, oc_state := st\<rparr>"] exI [of _ used] exI [of _ s1])
          (simp add: oc_poll_def driven_def)
    next
      case (Inr p)
      then show ?thesis
        using step Ready Suc.prems(1) used step_ok
        by (intro exI [of _ "Ready (Inr (\<lparr> fc_frame = k1, fc_server_addr = oc_server_addr c \<rparr>, p))"] exI [of _ "c\<lparr>oc_frame := None, oc_state := st\<rparr>"] exI [of _ used] exI [of _ s1])
          (simp add: oc_poll_def driven_def)
    qed
  qed
qed

end

text \<open>The connected packets of the server among those taken from the stream.\<close>

definition from_server :: "socket_addr \<Rightarrow> (packet \<times> socket_addr) list \<Rightarrow> connected list" where
  "from_server srv ps = concat (map (\<lambda>(p, a). case p of Connected pk \<Rightarrow> if a = srv then [pk] else [] | Unconnected _ \<Rightarrow> []) ps)"

lemma from_server_simps [simp]:
  "from_server srv [] = []" "from_server srv (ps @ qs) = from_server srv ps @ from_server srv qs"
  "from_server srv ((Connected pk, a) # ps) = (if a = srv then [pk] else []) @ from_server srv ps"
  "from_server srv ((Unconnected u, a) # ps) = from_server srv ps"
  by (simp_all add: from_server_def)

lemma filter_poll_ok:
  "\<exists>r used rest. (filter_poll c s :: ('e, _) outcome) = Ok (r, c, rest) \<and> s = used @ rest
     \<and> ready_items [r] = from_server (fc_server_addr c) (ready_items used) \<and> length rest \<le> length s - 1"
proof (induction s)
  case (Cons x s)
  then obtain r used rest where *: "(filter_poll c s :: ('e, _) outcome) = Ok (r, c, rest)" "s = used @ rest"
     "ready_items [r] = from_server (fc_server_addr c) (ready_items used)" "length rest \<le> length s - 1" by blast
  have skip: ?case if "(filter_poll c (x # s) :: ('e, _) outcome) = filter_poll c s" "ready_items (x # used) = y # ready_items used" "from_server (fc_server_addr c) (y # ready_items used) = from_server (fc_server_addr c) (ready_items used)" for y
    using that * by (intro exI [of _ r] exI [of _ "x # used"] exI [of _ rest]) simp
  consider (pending) "x = Pending" | (finish) "x = Ready None" | (item) p a where "x = Ready (Some (p, a))"
    by (metis option.exhaust poll.exhaust surj_pair)
  then show ?case
  proof cases
    case pending
    then show ?thesis by (intro exI [of _ Pending] exI [of _ "[x]"] exI [of _ s]) simp
  next
    case finish
    then show ?thesis by (intro exI [of _ "Ready None"] exI [of _ "[x]"] exI [of _ s]) simp
  next
    case item
    show ?thesis
    proof (cases p)
      case (Connected pk)
      show ?thesis
      proof (cases "a = fc_server_addr c")
        case True
        then show ?thesis using item Connected by (intro exI [of _ "Ready (Some pk)"] exI [of _ "[x]"] exI [of _ s]) simp
      next
        case False
        then show ?thesis using item Connected by (intro skip [of "(p, a)"]) simp_all
      qed
    next
      case (Unconnected u)
      then show ?thesis using item by (intro skip [of "(p, a)"]) simp_all
    qed
  qed
qed simp

lemma filter_polls:
  "\<exists>outs used rest. (polls n filter_poll c s :: ('e, _) outcome) = Ok (outs, c, rest) \<and> s = used @ rest
     \<and> ready_items outs = from_server (fc_server_addr c) (ready_items used) \<and> length rest \<le> length s - n"
proof (induction n arbitrary: s)
  case 0
  then show ?case by (intro exI [of _ "[]"] exI [of _ s]) simp
next
  case (Suc n)
  obtain r used rest where 1: "(filter_poll c s :: ('e, _) outcome) = Ok (r, c, rest)" "s = used @ rest"
     "ready_items [r] = from_server (fc_server_addr c) (ready_items used)" "length rest \<le> length s - 1" using filter_poll_ok by blast
  obtain outs used2 rest2 where 2: "(polls n filter_poll c rest :: ('e, _) outcome) = Ok (outs, c, rest2)" "rest = used2 @ rest2"
     "ready_items outs = from_server (fc_server_addr c) (ready_items used2)" "length rest2 \<le> length rest - n" using Suc.IH by blast
  have "ready_items (r # outs) = ready_items [r] @ ready_items outs" by (metis append_Cons append_Nil ready_items_append)
  then show ?case using 1 2 by (intro exI [of _ "r # outs"] exI [of _ "used @ used2"] exI [of _ rest2]) simp
qed

interpretation log_client: client_env log_sink "\<lambda>xs. xs"
  by (simp add: client_env_def log_sink.sink_laws_axioms)

subsection \<open>Client and server together\<close>

text \<open>A sink that takes and flushes at once.\<close>

definition prompt :: "('s, 'i) sink_api \<Rightarrow> bool" where
  "prompt K \<longleftrightarrow> always_ready K \<and> (\<forall>s. fst (sink_poll_flush K s) = Ready (Inr ()))"

lemma log_sink_prompt: "prompt log_sink"
  by (simp add: prompt_def log_sink_ready) (simp add: log_sink_def)

context sink_laws
begin

lemma prompt_prepare:
  assumes "prompt K"
  shows "\<exists>k1 k'. sink_poll_ready K k = (Ready (Inr ()), k1) \<and> sink_start_send K k1 x = (Inr (), k') \<and> log k' = log k @ [x]"
proof -
  obtain r k1 where r: "sink_poll_ready K k = (r, k1)" by fastforce
  obtain q k2 where q: "sink_start_send K k1 x = (q, k2)" by fastforce
  have "r = Ready (Inr ())" "q = Inr ()" using assms r q unfolding prompt_def always_ready_def by (metis fst_conv)+
  then show ?thesis using r q ready_log [OF r] send_log [OF q] by auto
qed

lemma prompt_flush:
  assumes "prompt K"
  shows "\<exists>k'. sink_poll_flush K k = (Ready (Inr ()), k') \<and> log k' = log k"
proof -
  obtain r k1 where r: "sink_poll_flush K k = (r, k1)" by fastforce
  have "r = Ready (Inr ())" using assms r unfolding prompt_def by (metis fst_conv)
  then show ?thesis using r flush_log [OF r] by auto
qed

end

context client_env
begin

lemma prepare_then_prompt:
  assumes "prompt K"
  shows "\<exists>k'. prepare_then K st x k s f = f k' \<and> log k' = log k @ [x]"
  using prompt_prepare [OF assms, of k x] by (auto simp: prepare_then_def)

lemma flush_then_prompt:
  assumes "prompt K"
  shows "\<exists>k'. flush_then K st k s f = f k' \<and> log k' = log k"
  using prompt_flush [OF assms, of k] by (auto simp: flush_then_def)

lemma client_first:
  assumes "prompt K"
  shows "\<exists>k'. oc_step K srv config (SendOpenConnReq1 p) k [] = (Pending, WaitOpenConnReply1, k', []) \<and> log k' = log k @ [(p, srv)]"
proof -
  obtain k1 where "oc_send1 K srv config p k [] = oc_flush1 K srv config k1 []" "log k1 = log k @ [(p, srv)]"
    using prepare_then_prompt [OF assms] unfolding oc_send1_def by blast
  moreover obtain k2 where "oc_flush1 K srv config k1 [] = oc_wait1 K srv config k2 []" "log k2 = log k1"
    using flush_then_prompt [OF assms] unfolding oc_flush1_def by blast
  ultimately show ?thesis by (simp add: oc_step_def oc_wait1_def)
qed

lemma client_second:
  assumes "prompt K"
  shows "\<exists>k'. oc_step K srv config WaitOpenConnReply1 k [Ready (Some (Unconnected (OpenConnectionReply1 g e m), srv))] = (Pending, WaitOpenConnReply2, k', [])
     \<and> log k' = log k @ [(request2 srv config m, srv)]"
proof -
  let ?p = "request2 srv config m"
  obtain k1 where "oc_send2 K srv config ?p k [] = oc_flush2 K srv config k1 []" "log k1 = log k @ [(?p, srv)]"
    using prepare_then_prompt [OF assms] unfolding oc_send2_def by blast
  moreover obtain k2 where "oc_flush2 K srv config k1 [] = oc_wait2 srv config k2 []" "log k2 = log k1"
    using flush_then_prompt [OF assms] unfolding oc_flush2_def by blast
  ultimately show ?thesis by (simp add: oc_step_def oc_wait1_def oc_wait2_def)
qed

end

context offline_env
begin

lemma reply_prompt:
  assumes "prompt K"
  shows "\<exists>k'. (os_send K (st\<lparr>os_state := SendingPrepare (Some x)\<rparr>) :: ('e, _) outcome) = Ok (True, st\<lparr>os_frame := k', os_state := Listening\<rparr>) \<and> log k' = log (os_frame st) @ [x]"
proof -
  obtain k1 k2 where 1: "sink_poll_ready K (os_frame st) = (Ready (Inr ()), k1)" "sink_start_send K k1 x = (Inr (), k2)" "log k2 = log (os_frame st) @ [x]"
    using prompt_prepare [OF assms] by blast
  moreover obtain k3 where "sink_poll_flush K k2 = (Ready (Inr ()), k3)" "log k3 = log k2" using prompt_flush [OF assms] by blast
  ultimately show ?thesis by (intro exI [of _ k3]) (simp add: os_send_def os_flush_def)
qed

lemma send_listening: "os_state st = Listening \<Longrightarrow> os_send K st = Ok (True, st)"
  by (simp add: os_send_def)

lemma server_first:
  assumes "prompt K" and "os_state st = Listening" and "ok (os_pending st)" and "sane_config (os_config st)" and "v \<in> set (support_version (os_config st))"
    and "clamp m (min_mtu (os_config st)) (max_mtu (os_config st)) = (Ok m' :: ('e, _) outcome)"
  shows "\<exists>k c. (os_poll K L st [Ready (Some (Unconnected (OpenConnectionRequest1 v m), a))] :: ('e, _) outcome)
       = Ok (Pending, st\<lparr>os_pending := c, os_frame := k, os_state := Listening\<rparr>, [])
     \<and> log k = log (os_frame st) @ [(OpenConnectionReply1 (sever_guid (os_config st)) False m', a)] \<and> ok c \<and> lru_peek L c a = Some v"
proof -
  have "binary_search (support_version (os_config st)) v" using assms(4,5) by (simp add: sane_config_def binary_search_iff)
  then have "(os_react L st (Unconnected (OpenConnectionRequest1 v m)) a :: ('e, _) outcome)
      = Ok (Reply (OpenConnectionReply1 (sever_guid (os_config st)) False m'), st\<lparr>os_pending := lru_put L (os_pending st) a v\<rparr>)"
    using assms(6) by (simp add: os_react_def on_request1_def)
  with reply_prompt [OF assms(1), where 'e = 'e and st = "st\<lparr>os_pending := lru_put L (os_pending st) a v\<rparr>" and x = "(OpenConnectionReply1 (sever_guid (os_config st)) False m', a)"]
    put_ok [OF assms(3), of a v] put_val [OF assms(3), of a v] assms(2)
  show ?thesis by (auto simp: send_listening intro!: exI [where x = "lru_put L (os_pending st) a v"])
qed

lemma server_second:
  assumes "prompt K" and "os_state st = Listening" and "ok (os_pending st)" and "lru_peek L (os_pending st) a = Some v" and "os_connected st a = None"
    and "min_mtu (os_config st) \<le> m" and "m \<le> max_mtu (os_config st)"
  shows "\<exists>st'. (os_poll K L st [Ready (Some (Unconnected (OpenConnectionRequest2 sa m g), a))] :: ('e, _) outcome) = Ok (Pending, st', [])
     \<and> log (os_frame st') = log (os_frame st) @ [(OpenConnectionReply2 (sever_guid (os_config st)) a m False, a)]
     \<and> os_connected st' = (os_connected st)(a \<mapsto> \<lparr> peer_guid = g, peer_addr = a, peer_mtu = m \<rparr>)"
proof -
  obtain r c where pop: "lru_pop L (os_pending st) a = (r, c)" by fastforce
  have "r = Some v" using pop_val [OF assms(3) pop] assms(4) by simp
  have bounds: "\<not> (m < min_mtu (os_config st) \<or> max_mtu (os_config st) < m \<or> os_connected st a \<noteq> None)" using assms(5-7) by (simp add: not_less)
  let ?st = "st\<lparr>os_pending := c, os_connected := (os_connected st)(a \<mapsto> \<lparr> peer_guid = g, peer_addr = a, peer_mtu = m \<rparr>)\<rparr>"
  have "(os_react L st (Unconnected (OpenConnectionRequest2 sa m g)) a :: ('e, _) outcome)
      = Ok (Reply (OpenConnectionReply2 (sever_guid (os_config st)) a m False), ?st)"
    using bounds pop \<open>r = Some v\<close> by (simp add: os_react_def on_request2_def Let_def)
  with reply_prompt [OF assms(1), where 'e = 'e and st = ?st and x = "(OpenConnectionReply2 (sever_guid (os_config st)) a m False, a)"] assms(2)
  show ?thesis by (auto simp: send_listening)
qed

end

lemma clamp_ok:
  assumes "lo \<le> hi"
  obtains y where "(clamp x lo hi :: ('e, _) outcome) = Ok y" and "lo \<le> y" and "y \<le> hi"
  using assms that [of "if x < lo then lo else if hi < x then hi else x"] by (auto simp: clamp_def not_less split: if_splits)

subsection \<open>Properties\<close>

text \<open>
  C29: The client side of the handshake before the connection, over any sink and whatever arrives.  Polling never
  panics, and it succeeds only after the handshake: the stream below gave a first reply from the server and
  later a second one, up to which nothing else counted; the peer has the address of the server and the
  identifier of the second reply; and exactly the two requests were sent, the second with the size of the first
  reply.  From then on the stream of the client hands on exactly the connected packets that come from the
  server.
\<close>
theorem client_offline_correct:
  assumes "client_env K log"
  shows "\<exists>r c used rest. (oc_drive n K (offline_client_new k srv config) s :: ('e, _) outcome) = Ok (r, c, rest) \<and> s = used @ rest
     \<and> (case r of
          Ready (Inr (f, p)) \<Rightarrow> (\<exists>sent. log (fc_frame f) = log k @ sent \<and> completed srv config used sent p)
            \<and> (\<exists>outs used2 rest2. (polls m filter_poll f rest :: ('e, _) outcome) = Ok (outs, f, rest2) \<and> rest = used2 @ rest2
                 \<and> ready_items outs = from_server srv (ready_items used2) \<and> length rest2 \<le> length rest - m)
        | _ \<Rightarrow> True)"
proof -
  let ?c = "offline_client_new k srv config"
  have new: "oc_frame ?c = Some k" "oc_server_addr ?c = srv" "oc_config ?c = config" by (simp_all add: offline_client_new_def)
  have "client_env.stage log (log k) srv config [] (oc_state ?c) k" by (simp add: client_env.stage_def [OF assms] offline_client_new_def)
  then obtain r c used rest where *: "(oc_drive n K ?c s :: ('e, _) outcome) = Ok (r, c, rest)" "s = used @ rest"
    "client_env.driven log (log k) srv config used r"
    using client_env.drive_ok [OF assms new(1), of "log k" "[]" n s, where 'e = 'e] new(2,3) by auto
  have "case r of
          Ready (Inr (f, p)) \<Rightarrow> (\<exists>sent. log (fc_frame f) = log k @ sent \<and> completed srv config used sent p)
            \<and> (\<exists>outs used2 rest2. (polls m filter_poll f rest :: ('e, _) outcome) = Ok (outs, f, rest2) \<and> rest = used2 @ rest2
                 \<and> ready_items outs = from_server srv (ready_items used2) \<and> length rest2 \<le> length rest - m)
        | _ \<Rightarrow> True"
    using *(3) filter_polls [where 'e = 'e and n = m and s = rest]
    unfolding client_env.driven_def [OF assms] by (auto split: poll.splits sum.splits)
  then show ?thesis using *(1,2) by blast
qed

theorem client_offline_correct_witness:
  "\<exists>r c used rest. (oc_drive 2 log_sink (offline_client_new [] (V4 3 4) \<lparr> cc_mtu = 1400, cc_client_guid = 5, cc_protocol_version = 11 \<rparr>)
       [Ready (Some (Unconnected (OpenConnectionReply1 9 False 1200), V4 3 4)), Pending, Ready (Some (Unconnected (OpenConnectionReply2 9 (V4 1 2) 1200 False), V4 3 4))]
       :: (io_error, _) outcome) = Ok (r, c, rest)
     \<and> [Ready (Some (Unconnected (OpenConnectionReply1 9 False 1200), V4 3 4)), Pending, Ready (Some (Unconnected (OpenConnectionReply2 9 (V4 1 2) 1200 False), V4 3 4))] = used @ rest
     \<and> (case r of
          Ready (Inr (f, p)) \<Rightarrow> (\<exists>sent. fc_frame f = [] @ sent \<and> completed (V4 3 4) \<lparr> cc_mtu = 1400, cc_client_guid = 5, cc_protocol_version = 11 \<rparr> used sent p)
            \<and> (\<exists>outs used2 rest2. (polls 0 filter_poll f rest :: (io_error, _) outcome) = Ok (outs, f, rest2) \<and> rest = used2 @ rest2
                 \<and> ready_items outs = from_server (V4 3 4) (ready_items used2) \<and> length rest2 \<le> length rest - 0)
        | _ \<Rightarrow> True)"
  by (rule client_offline_correct [OF log_client.client_env_axioms])

text \<open>
  C28: The handshake before the connection, between a client and a server whose sinks take everything at once and
  each of whose packets reaches the other.  The client sends its first request; the server answers it with its
  size limited to the configured bounds; the client takes this size into its second request; the server then
  records the client with this size and answers; and the client is done.  The client's record of the server has
  the size the client was configured with, not the one agreed on.
\<close>
theorem offline_handshake:
  assumes "client_env KC logc" and "offline_env KS logs L ok" and "prompt KC" and "prompt KS" and "sane_config (os_config st)"
    and "os_state st = Listening" and "ok (os_pending st)" and "os_connected st ca = None"
    and "cc_protocol_version config \<in> set (support_version (os_config st))"
  shows "\<exists>c1 c2 c3 st1 st2 req1 rep1 req2 rep2 f mtu. clamp (cc_mtu config) (min_mtu (os_config st)) (max_mtu (os_config st)) = (Ok mtu :: ('e, _) outcome)
    \<and> oc_poll KC (offline_client_new k srv config) [] = (Ok (Pending, c1, []) :: ('e, _) outcome)
    \<and> logc (the (oc_frame c1)) = logc k @ [(req1, srv)]
    \<and> os_poll KS L st [Ready (Some (Unconnected req1, ca))] = (Ok (Pending, st1, []) :: ('e, _) outcome)
    \<and> logs (os_frame st1) = logs (os_frame st) @ [(rep1, ca)]
    \<and> oc_poll KC c1 [Ready (Some (Unconnected rep1, srv))] = (Ok (Pending, c2, []) :: ('e, _) outcome)
    \<and> logc (the (oc_frame c2)) = logc k @ [(req1, srv), (req2, srv)]
    \<and> os_poll KS L st1 [Ready (Some (Unconnected req2, ca))] = (Ok (Pending, st2, []) :: ('e, _) outcome)
    \<and> logs (os_frame st2) = logs (os_frame st) @ [(rep1, ca), (rep2, ca)]
    \<and> oc_poll KC c2 [Ready (Some (Unconnected rep2, srv))] = (Ok (Ready (Inr (f,
         \<lparr> peer_guid = sever_guid (os_config st), peer_addr = srv, peer_mtu = cc_mtu config \<rparr>)), c3, []) :: ('e, _) outcome)
    \<and> os_connected st2 = (os_connected st)(ca \<mapsto> \<lparr> peer_guid = cc_client_guid config, peer_addr = ca, peer_mtu = mtu \<rparr>)"
proof -
  have "min_mtu (os_config st) \<le> max_mtu (os_config st)" using assms(5) by (simp add: sane_config_def)
  then obtain mtu where mtu: "clamp (cc_mtu config) (min_mtu (os_config st)) (max_mtu (os_config st)) = (Ok mtu :: ('e, _) outcome)"
    "min_mtu (os_config st) \<le> mtu" "mtu \<le> max_mtu (os_config st)" by (rule clamp_ok)
  let ?g = "sever_guid (os_config st)"
  obtain k1 where 1: "oc_step KC srv config (SendOpenConnReq1 (request1 config)) k [] = (Pending, WaitOpenConnReply1, k1, [])" "logc k1 = logc k @ [(request1 config, srv)]"
    using client_env.client_first [OF assms(1,3)] by blast
  obtain ks1 pend where 2: "(os_poll KS L st [Ready (Some (Unconnected (request1 config), ca))] :: ('e, _) outcome)
       = Ok (Pending, st\<lparr>os_pending := pend, os_frame := ks1, os_state := Listening\<rparr>, [])"
     "logs ks1 = logs (os_frame st) @ [(OpenConnectionReply1 ?g False mtu, ca)]" "ok pend" "lru_peek L pend ca = Some (cc_protocol_version config)"
    using offline_env.server_first [OF assms(2,4,6,7,5,9) mtu(1), of ca] by blast
  obtain k2 where 3: "oc_step KC srv config WaitOpenConnReply1 k1 [Ready (Some (Unconnected (OpenConnectionReply1 ?g False mtu), srv))] = (Pending, WaitOpenConnReply2, k2, [])"
     "logc k2 = logc k1 @ [(request2 srv config mtu, srv)]"
    using client_env.client_second [OF assms(1,3)] by blast
  let ?st1 = "st\<lparr>os_pending := pend, os_frame := ks1, os_state := Listening\<rparr>"
  obtain st2 where 4: "(os_poll KS L ?st1 [Ready (Some (Unconnected (request2 srv config mtu), ca))] :: ('e, _) outcome) = Ok (Pending, st2, [])"
     "logs (os_frame st2) = logs (os_frame ?st1) @ [(OpenConnectionReply2 ?g ca mtu False, ca)]"
     "os_connected st2 = (os_connected st)(ca \<mapsto> \<lparr> peer_guid = cc_client_guid config, peer_addr = ca, peer_mtu = mtu \<rparr>)"
    using offline_env.server_second [OF assms(2,4), of ?st1 ca "cc_protocol_version config" mtu srv "cc_client_guid config", where 'e = 'e] 2(3,4) assms(8) mtu(2,3) by auto
  let ?c = "offline_client_new k srv config"
  let ?c1 = "?c\<lparr>oc_frame := Some k1, oc_state := WaitOpenConnReply1\<rparr>"
  let ?c2 = "?c1\<lparr>oc_frame := Some k2, oc_state := WaitOpenConnReply2\<rparr>"
  have c: "(oc_poll KC ?c [] :: ('e, _) outcome) = Ok (Pending, ?c1, [])"
    "(oc_poll KC ?c1 [Ready (Some (Unconnected (OpenConnectionReply1 ?g False mtu), srv))] :: ('e, _) outcome) = Ok (Pending, ?c2, [])"
    "(oc_poll KC ?c2 [Ready (Some (Unconnected (OpenConnectionReply2 ?g ca mtu False), srv))] :: ('e, _) outcome)
      = Ok (Ready (Inr (\<lparr> fc_frame = k2, fc_server_addr = srv \<rparr>, \<lparr> peer_guid = ?g, peer_addr = srv, peer_mtu = cc_mtu config \<rparr>)), ?c2\<lparr>oc_frame := None\<rparr>, [])"
    using 1(1) 3(1) by (simp_all add: oc_poll_def offline_client_new_def oc_step_def [of _ _ _ WaitOpenConnReply2] oc_wait2_def)
  have l: "logc (the (oc_frame ?c1)) = logc k @ [(request1 config, srv)]" "logc (the (oc_frame ?c2)) = logc k @ [(request1 config, srv), (request2 srv config mtu, srv)]"
    "logs (os_frame ?st1) = logs (os_frame st) @ [(OpenConnectionReply1 ?g False mtu, ca)]"
    "logs (os_frame st2) = logs (os_frame st) @ [(OpenConnectionReply1 ?g False mtu, ca), (OpenConnectionReply2 ?g ca mtu False, ca)]"
    using 1(2) 3(2) 2(2) 4(2) by simp_all
  show ?thesis
    by (intro exI conjI) (rule mtu(1), rule c(1), rule l(1), rule 2(1), rule l(3), rule c(2), rule l(2), rule 4(1), rule l(4), rule c(3), rule 4(3))
qed

definition sample_server :: "((unconnected \<times> socket_addr) list, (socket_addr, u8) lru_list) offline_server" where
  "sample_server = \<lparr> os_frame = [], os_config = sample_config, os_pending = (8, []), os_connected = Map.empty, os_state = Listening, os_role = Server 9 \<rparr>"

definition big_config :: client_config where
  "big_config = \<lparr> cc_mtu = 2000, cc_client_guid = 5, cc_protocol_version = 11 \<rparr>"

theorem offline_handshake_witness:
  "\<exists>c1 c2 c3 st1 st2 req1 rep1 req2 rep2 f p q.
      oc_poll log_sink (offline_client_new [] (V4 3 4) big_config) [] = (Ok (Pending, c1, []) :: (io_error, _) outcome)
    \<and> os_poll log_sink list_lru sample_server [Ready (Some (Unconnected req1, V4 1 2))] = (Ok (Pending, st1, []) :: (io_error, _) outcome)
    \<and> oc_poll log_sink c1 [Ready (Some (Unconnected rep1, V4 3 4))] = (Ok (Pending, c2, []) :: (io_error, _) outcome)
    \<and> os_poll log_sink list_lru st1 [Ready (Some (Unconnected req2, V4 1 2))] = (Ok (Pending, st2, []) :: (io_error, _) outcome)
    \<and> oc_poll log_sink c2 [Ready (Some (Unconnected rep2, V4 3 4))] = (Ok (Ready (Inr (f, p)), c3, []) :: (io_error, _) outcome)
    \<and> peer_mtu p = 2000 \<and> os_connected st2 (V4 1 2) = Some q \<and> peer_mtu q = 1500"
proof -
  have sane: "sane_config (os_config sample_server)" "os_state sample_server = Listening" "list_lru_ok (os_pending sample_server)"
    "os_connected sample_server (V4 1 2) = None" "cc_protocol_version big_config \<in> set (support_version (os_config sample_server))"
    by (simp_all add: sample_server_def sane_config_def sample_config_def list_lru_ok_def big_config_def)
  have "(clamp (cc_mtu big_config) (min_mtu (os_config sample_server)) (max_mtu (os_config sample_server)) :: (io_error, _) outcome) = Ok 1500"
    by (simp add: clamp_def big_config_def sample_server_def sample_config_def)
  with offline_handshake [OF log_client.client_env_axioms log_offline.offline_env_axioms log_sink_prompt log_sink_prompt sane, of "[]" "V4 3 4", where 'e = io_error]
  show ?thesis
    by (elim exE conjE, intro exI conjI) (assumption | simp add: big_config_def)+
qed

end
