(* ===== verification/Framed.thy ===== *)
theory Framed
  imports Packet Streams
begin

text \<open>
  The raw datagram codec over a socket: \<open>Framed\<close> of \<open>src/src/codec/frame.rs\<close>, a stream of decoded packets with
  their addresses and a sink for packets with the addresses they go to.  The socket is the interface
  \<open>AsyncSocket\<close> of \<open>src/src/codec/mod.rs\<close> whose implementations are not part of the model: what \<open>poll_recv_from\<close>
  gives is a script, and \<open>poll_send_to\<close> is a parameter.  The span fields and log output are left out.
\<close>

subsection \<open>Sockets\<close>

text \<open>Each answer of \<open>poll_recv_from\<close>: nothing yet, an error, or bytes appended to the buffer with their origin.\<close>

type_synonym recv_script = "(io_error + bytes \<times> socket_addr) poll list"

type_synonym 's send_to = "'s \<Rightarrow> bytes \<Rightarrow> socket_addr \<Rightarrow> (io_error + nat) poll \<times> 's"

text \<open>What is documented of sending: at most the whole buffer is sent, and nothing unless a size is returned.\<close>

locale socket_laws =
  fixes send_to :: "'s send_to" and sent :: "'s \<Rightarrow> (bytes \<times> socket_addr) list"
  assumes send_to_sent: "send_to s b a = (r, s') \<Longrightarrow> (case r of
      Ready (Inr n) \<Rightarrow> n \<le> length b \<and> sent s' = sent s @ [(take n b, a)]
    | _ \<Rightarrow> sent s' = sent s)"

subsection \<open>State\<close>

record 's framed =
  fd_socket :: 's
  fd_mtu :: nat
  rd :: bytes
  wr :: bytes
  out_addr :: socket_addr
  flushed :: bool
  is_readable :: bool
  current_addr :: "socket_addr option"

definition framed_new :: "'s \<Rightarrow> nat \<Rightarrow> 's framed" where
  "framed_new socket mtu = \<lparr> fd_socket = socket, fd_mtu = mtu, rd = [], wr = [], out_addr = V4 0 0, flushed = True,
     is_readable = False, current_addr = None \<rparr>"

subsection \<open>Sending\<close>

definition write_incomplete :: io_error where
  "write_incomplete = IoError OtherKind ''failed to write entire datagram to socket''"

definition poll_flush_0 :: "'s send_to \<Rightarrow> 's framed \<Rightarrow> (io_error + unit) poll \<times> 's framed" where
  "poll_flush_0 send_to fr =
     (if flushed fr then (Ready (Inr ()), fr)
      else (case send_to (fd_socket fr) (wr fr) (out_addr fr) of
          (Pending, k) \<Rightarrow> (Pending, fr\<lparr>fd_socket := k\<rparr>)
        | (Ready (Inl e), k) \<Rightarrow> (Ready (Inl e), fr\<lparr>fd_socket := k\<rparr>)
        | (Ready (Inr n), k) \<Rightarrow>
            (Ready (if n = length (wr fr) then Inr () else Inl write_incomplete),
             fr\<lparr>fd_socket := k, wr := [], flushed := True\<rparr>)))"

definition framed_start_send :: "bytes_api \<Rightarrow> 's framed \<Rightarrow> packet \<times> socket_addr \<Rightarrow> ('s framed) codec" where
  "framed_start_send B fr item = and_then (packet_write B (fst item)) (\<lambda>w.
     Ok (fr\<lparr>wr := wr fr @ w, out_addr := snd item, flushed := False\<rparr>))"

definition framed_start_send_unconnected :: "bytes_api \<Rightarrow> 's framed \<Rightarrow> unconnected \<times> socket_addr \<Rightarrow> 's framed" where
  "framed_start_send_unconnected B fr item =
     fr\<lparr>wr := wr fr @ unconnected_write B (fst item), out_addr := snd item, flushed := False\<rparr>"

definition framed_poll_ready :: "'s send_to \<Rightarrow> 's framed \<Rightarrow> (io_error + unit) poll \<times> 's framed" where
  "framed_poll_ready send_to fr = poll_flush_0 send_to fr"

definition framed_poll_flush :: "'s send_to \<Rightarrow> 's framed \<Rightarrow> (io_error + unit) poll \<times> 's framed" where
  "framed_poll_flush send_to fr = poll_flush_0 send_to fr"

definition framed_poll_close :: "'s send_to \<Rightarrow> 's framed \<Rightarrow> (io_error + unit) poll \<times> 's framed" where
  "framed_poll_close send_to fr = poll_flush_0 send_to fr"

subsection \<open>Receiving\<close>

text \<open>The first part of the loop: decode what the last receive left in the buffer, if there is something.\<close>

definition framed_decode :: "bytes_api \<Rightarrow> 's framed \<Rightarrow> ('e, (packet \<times> socket_addr) option \<times> 's framed) outcome" where
  "framed_decode B fr =
     (if is_readable fr
      then (case packet_read B (rd fr) of
          Ok p \<Rightarrow> (case current_addr fr of
              None \<Rightarrow> Panic
            | Some a \<Rightarrow> Ok (Some (p, a), fr\<lparr>is_readable := False, rd := []\<rparr>))
        | Err _ \<Rightarrow> Ok (None, fr\<lparr>is_readable := False, rd := []\<rparr>)
        | Panic \<Rightarrow> Panic)
      else Ok (None, fr))"

fun framed_poll :: "bytes_api \<Rightarrow> 's framed \<Rightarrow> recv_script \<Rightarrow> ('e, (packet \<times> socket_addr) option poll \<times> 's framed \<times> recv_script) outcome" where
  "framed_poll B fr [] = and_then (framed_decode B fr) (\<lambda>(item, fr). case item of
      Some x \<Rightarrow> Ok (Ready (Some x), fr, [])
    | None \<Rightarrow> Ok (Pending, fr, []))"
| "framed_poll B fr (x # s) = and_then (framed_decode B fr) (\<lambda>(item, fr). case item of
      Some y \<Rightarrow> Ok (Ready (Some y), fr, x # s)
    | None \<Rightarrow> (case x of
          Pending \<Rightarrow> Ok (Pending, fr, s)
        | Ready (Inl _) \<Rightarrow> framed_poll B (fr\<lparr>rd := []\<rparr>) s
        | Ready (Inr (b, a)) \<Rightarrow> framed_poll B (fr\<lparr>rd := rd fr @ b, current_addr := Some a, is_readable := True\<rparr>) s))"

fun framed_polls :: "nat \<Rightarrow> bytes_api \<Rightarrow> 's framed \<Rightarrow> recv_script \<Rightarrow> ('e, (packet \<times> socket_addr) script \<times> 's framed \<times> recv_script) outcome" where
  "framed_polls 0 B fr s = Ok ([], fr, s)"
| "framed_polls (Suc n) B fr s =
     and_then (framed_poll B fr s) (\<lambda>(r, fr, s).
     and_then (framed_polls n B fr s) (\<lambda>(rs, fr, s). Ok (r # rs, fr, s)))"

subsection \<open>What is received\<close>

text \<open>The datagrams of a script, and the packets they decode to; undecodable datagrams have none.\<close>

fun datagrams :: "recv_script \<Rightarrow> (bytes \<times> socket_addr) list" where
  "datagrams [] = []"
| "datagrams (Ready (Inr d) # s) = d # datagrams s"
| "datagrams (_ # s) = datagrams s"

fun decoded :: "bytes_api \<Rightarrow> (bytes \<times> socket_addr) list \<Rightarrow> (packet \<times> socket_addr) list" where
  "decoded B [] = []"
| "decoded B ((b, a) # ds) = (case packet_read B b of Ok p \<Rightarrow> [(p, a)] | _ \<Rightarrow> []) @ decoded B ds"

definition readable :: "bytes_api \<Rightarrow> (bytes \<times> socket_addr) list \<Rightarrow> bool" where
  "readable B ds \<longleftrightarrow> list_all (\<lambda>(b, _). packet_read B b \<noteq> Panic) ds"

text \<open>What that means for the bytes: no acknowledgement among them is malformed.\<close>

definition acks_sound :: "bytes_api \<Rightarrow> (bytes \<times> socket_addr) list \<Rightarrow> bool" where
  "acks_sound B ds \<longleftrightarrow> list_all (\<lambda>(b, _). \<not> malformed_ack B b) ds"

lemma acks_sound_readable: "bytes_laws B \<Longrightarrow> readable B ds \<longleftrightarrow> acks_sound B ds"
  by (simp add: readable_def acks_sound_def bytes_laws.packet_read_panics_iff)

lemma datagrams_append [simp]: "datagrams (s @ t) = datagrams s @ datagrams t"
  by (induction s rule: datagrams.induct) auto

lemma decoded_append [simp]: "decoded B (ds @ es) = decoded B ds @ decoded B es"
  by (induction B ds rule: decoded.induct) auto

lemma readable_append [simp]: "readable B (ds @ es) \<longleftrightarrow> readable B ds \<and> readable B es"
  by (simp add: readable_def)

text \<open>Between calls nothing is left in the buffer, and within a call at most one datagram.\<close>

definition held :: "'s framed \<Rightarrow> (bytes \<times> socket_addr) list" where
  "held fr = (if is_readable fr then [(rd fr, the (current_addr fr))] else [])"

definition held_ok :: "'s framed \<Rightarrow> bool" where
  "held_ok fr \<longleftrightarrow> (if is_readable fr then current_addr fr \<noteq> None else rd fr = [])"

lemma framed_decode_ok:
  assumes "held_ok fr" and "readable B (held fr)"
  shows "\<exists>item fr'. (framed_decode B fr :: ('e, _) outcome) = Ok (item, fr') \<and> held_ok fr' \<and> held fr' = []
     \<and> decoded B (held fr) = (case item of None \<Rightarrow> [] | Some x \<Rightarrow> [x])"
proof (cases "is_readable fr")
  case True
  then obtain a where a: "current_addr fr = Some a" using assms(1) by (auto simp: held_ok_def)
  show ?thesis
    using True a assms(2) by (cases "packet_read B (rd fr)") (auto simp: framed_decode_def held_def held_ok_def readable_def)
next
  case False
  then show ?thesis using assms(1) by (auto simp: framed_decode_def held_def)
qed

lemma framed_poll_ok:
  assumes "held_ok fr" and "readable B (held fr @ datagrams s)"
  shows "\<exists>r fr' used rest. (framed_poll B fr s :: ('e, _) outcome) = Ok (r, fr', rest) \<and> s = used @ rest \<and> held_ok fr' \<and> held fr' = []
     \<and> ready_items [r] = decoded B (held fr @ datagrams used) \<and> length rest + length (held fr') \<le> length s + length (held fr) - 1"
  using assms
proof (induction s arbitrary: fr)
  case Nil
  obtain item fr' where d: "(framed_decode B fr :: ('e, _) outcome) = Ok (item, fr')" "held_ok fr'" "held fr' = []"
    "decoded B (held fr) = (case item of None \<Rightarrow> [] | Some x \<Rightarrow> [x])" using framed_decode_ok [OF Nil(1), of B, where 'e = 'e] Nil(2) by auto
  then show ?case
    by (cases item) (auto intro!: exI [of _ fr'] exI [of _ "[]"])
next
  case (Cons x s)
  obtain item fr1 where d: "(framed_decode B fr :: ('e, _) outcome) = Ok (item, fr1)" "held_ok fr1" "held fr1 = []"
    "decoded B (held fr) = (case item of None \<Rightarrow> [] | Some x \<Rightarrow> [x])" using framed_decode_ok [OF Cons.prems(1), of B, where 'e = 'e] Cons.prems(2) by auto
  show ?case
  proof (cases item)
    case (Some y)
    have "length (held fr) = 1" using d(4) Some by (auto simp: held_def split: if_splits)
    then show ?thesis
      using d Some by (intro exI [of _ "Ready (Some y)"] exI [of _ fr1] exI [of _ "[]"] exI [of _ "x # s"]) simp
  next
    case None
    have fr1: "rd fr1 = []" "\<not> is_readable fr1" using d(2,3) by (auto simp: held_ok_def held_def split: if_splits)
    have rec: ?thesis if step: "(framed_poll B fr (x # s) :: ('e, _) outcome) = framed_poll B fr2 s" and ok: "held_ok fr2"
      and held: "held fr2 = datagrams [x]" for fr2
    proof -
      have app: "datagrams (x # t) = datagrams [x] @ datagrams t" for t
        using datagrams_append [of "[x]" t] by (simp only: append_Cons append_Nil)
      have "readable B (held fr2 @ datagrams s)" using Cons.prems(2) held by (simp only: app [of s] readable_append)
      from Cons.IH [OF ok this] obtain r fr' used rest where
        *: "(framed_poll B fr2 s :: ('e, _) outcome) = Ok (r, fr', rest)" "s = used @ rest" "held_ok fr'" "held fr' = []"
        "ready_items [r] = decoded B (held fr2 @ datagrams used)" "length rest + length (held fr') \<le> length s + length (held fr2) - 1" by blast
      have "length (held fr2) \<le> 1" by (simp add: held_def)
      then show ?thesis
        using * step held d(4) None app [of used]
        by (intro exI [of _ r] exI [of _ fr'] exI [of _ "x # used"] exI [of _ rest]) (simp del: datagrams.simps)
    qed
    consider "x = Pending" | e where "x = Ready (Inl e)" | b a where "x = Ready (Inr (b, a))"
      by (metis poll.exhaust sum.exhaust surj_pair)
    then show ?thesis
    proof cases
      case 1
      then show ?thesis using d None by (intro exI [of _ Pending] exI [of _ fr1] exI [of _ "[x]"] exI [of _ s]) simp
    next
      case 2
      then show ?thesis using d(1) None fr1 by (intro rec [of "fr1\<lparr>rd := []\<rparr>"]) (simp_all add: held_def held_ok_def)
    next
      case 3
      then show ?thesis using d(1) None fr1
        by (intro rec [of "fr1\<lparr>rd := rd fr1 @ b, current_addr := Some a, is_readable := True\<rparr>"]) (simp_all add: held_def held_ok_def)
    qed
  qed
qed

lemma framed_polls_ok:
  assumes "held_ok fr" and "held fr = []" and "readable B (datagrams s)"
  shows "\<exists>outs fr' used rest. (framed_polls n B fr s :: ('e, _) outcome) = Ok (outs, fr', rest) \<and> s = used @ rest
     \<and> ready_items outs = decoded B (datagrams used) \<and> length rest \<le> length s - n"
  using assms
proof (induction n arbitrary: fr s)
  case 0
  then show ?case by (intro exI [of _ "[]"] exI [of _ fr] exI [of _ s]) simp
next
  case (Suc n)
  obtain r fr1 used rest where 1: "(framed_poll B fr s :: ('e, _) outcome) = Ok (r, fr1, rest)" "s = used @ rest" "held_ok fr1" "held fr1 = []"
     "ready_items [r] = decoded B (datagrams used)" "length rest \<le> length s - 1"
    using framed_poll_ok [OF Suc.prems(1), of B s, where 'e = 'e] Suc.prems(2,3) by auto
  have "readable B (datagrams rest)" using Suc.prems(3) 1(2) by simp
  from Suc.IH [OF 1(3,4) this] obtain outs fr' used2 rest2 where
    2: "(framed_polls n B fr1 rest :: ('e, _) outcome) = Ok (outs, fr', rest2)" "rest = used2 @ rest2"
     "ready_items outs = decoded B (datagrams used2)" "length rest2 \<le> length rest - n" by blast
  have "ready_items (r # outs) = ready_items [r] @ ready_items outs" by (metis append_Cons append_Nil ready_items_append)
  then show ?case using 1 2 by (intro exI [of _ "r # outs"] exI [of _ fr'] exI [of _ "used @ used2"] exI [of _ rest2]) simp
qed

subsection \<open>What is sent\<close>

text \<open>One packet sent as the owners of the codec do it: wait until ready, send, flush.\<close>

definition framed_send :: "bytes_api \<Rightarrow> 's send_to \<Rightarrow> 's framed \<Rightarrow> packet \<times> socket_addr \<Rightarrow> ((io_error + unit) poll \<times> 's framed) codec" where
  "framed_send B send_to fr item = (case framed_poll_ready send_to fr of
      (Ready (Inr _), fr) \<Rightarrow> and_then (framed_start_send B fr item) (\<lambda>fr. Ok (framed_poll_flush send_to fr))
    | (r, fr) \<Rightarrow> Ok (r, fr))"

fun framed_send_all :: "bytes_api \<Rightarrow> 's send_to \<Rightarrow> 's framed \<Rightarrow> (packet \<times> socket_addr) list \<Rightarrow> ('s framed) codec" where
  "framed_send_all B send_to fr [] = Ok fr"
| "framed_send_all B send_to fr (p # ps) = and_then (framed_send B send_to fr p) (\<lambda>(_, fr). framed_send_all B send_to fr ps)"

text \<open>A socket that sends whole datagrams at once.\<close>

definition sends_whole :: "'s send_to \<Rightarrow> bool" where
  "sends_whole send_to \<longleftrightarrow> (\<forall>s b a. fst (send_to s b a) = Ready (Inr (length b)))"

definition list_socket :: "(bytes \<times> socket_addr) list send_to" where
  "list_socket s b a = (Ready (Inr (length b)), s @ [(b, a)])"

interpretation list_socket: socket_laws list_socket "\<lambda>s. s"
  by unfold_locales (auto simp: list_socket_def)

context socket_laws
begin

lemma send_one:
  assumes "sends_whole send_to" and "flushed fr" and "wr fr = []" and "packet_write B p = Ok w"
  shows "\<exists>fr'. framed_send B send_to fr (p, a) = Ok (Ready (Inr ()), fr') \<and> flushed fr' \<and> wr fr' = [] \<and> sent (fd_socket fr') = sent (fd_socket fr) @ [(w, a)]"
proof -
  let ?fr = "fr\<lparr>wr := w, out_addr := a, flushed := False\<rparr>"
  obtain q k where q: "send_to (fd_socket fr) w a = (q, k)" by fastforce
  have "q = Ready (Inr (length w))" using assms(1) q unfolding sends_whole_def by (metis fst_conv)
  then have "poll_flush_0 send_to ?fr = (Ready (Inr ()), ?fr\<lparr>fd_socket := k, wr := [], flushed := True\<rparr>)" "sent k = sent (fd_socket fr) @ [(w, a)]"
    using q send_to_sent [OF q] by (simp_all add: poll_flush_0_def)
  then show ?thesis
    using assms(2-4) by (simp add: framed_send_def framed_poll_ready_def framed_poll_flush_def poll_flush_0_def [of _ fr] framed_start_send_def)
qed

lemma send_all:
  assumes "sends_whole send_to" and "flushed fr" and "wr fr = []" and "\<forall>x \<in> set ps. packet_write B (fst x) = Ok (f (fst x))"
  shows "\<exists>fr'. framed_send_all B send_to fr ps = Ok fr' \<and> sent (fd_socket fr') = sent (fd_socket fr) @ map (\<lambda>(p, a). (f p, a)) ps"
  using assms(2-)
proof (induction ps arbitrary: fr)
  case (Cons x ps)
  obtain p a where x: "x = (p, a)" by fastforce
  obtain fr1 where 1: "framed_send B send_to fr x = Ok (Ready (Inr ()), fr1)" "flushed fr1" "wr fr1 = []" "sent (fd_socket fr1) = sent (fd_socket fr) @ [(f p, a)]"
    using send_one [OF assms(1) Cons.prems(1,2), of B p "f p" a] Cons.prems(3) x by auto
  obtain fr2 where "framed_send_all B send_to fr1 ps = Ok fr2" "sent (fd_socket fr2) = sent (fd_socket fr1) @ map (\<lambda>(p, a). (f p, a)) ps"
    using Cons.IH [OF 1(2,3)] Cons.prems(3) by auto
  then show ?case using 1 x by simp
qed simp

end

subsection \<open>Properties\<close>

definition decodable :: "bytes_api \<Rightarrow> bytes \<times> socket_addr \<Rightarrow> bool" where
  "decodable B d = (case packet_read B (fst d) of Ok _ \<Rightarrow> True | _ \<Rightarrow> False)"

lemma decoded_filter: "decoded B (filter (decodable B) ds) = decoded B ds"
  by (induction ds rule: decoded.induct [of _ B]) (auto simp: decodable_def split: outcome.splits)

lemma decoded_all:
  assumes "map fst ds = map f ps" and "\<forall>p \<in> set ps. packet_read B (f p) = Ok p"
  shows "map fst (decoded B ds) = ps" and "map snd (decoded B ds) = map snd ds"
proof -
  have "map fst (decoded B ds) = ps \<and> map snd (decoded B ds) = map snd ds"
    using assms
  proof (induction ds arbitrary: ps)
    case (Cons d ds)
    then obtain p qs where "ps = p # qs" by (cases ps) auto
    then show ?case using Cons by (cases d) auto
  qed simp
  then show "map fst (decoded B ds) = ps" "map snd (decoded B ds) = map snd ds" by simp_all
qed


definition ping_packet :: packet where
  "ping_packet = Unconnected (UnconnectedPing 5 6)"


end
