(* ===== verification/Incoming.thy ===== *)
theory Incoming
  imports Offline_Server Framed Codec Reliable Connection_State Online
begin

text \<open>
  The server's stream of new connections: \<open>Config\<close> and \<open>Incoming\<close> of \<open>src/src/server/incoming/mod.rs\<close>, with the
  \<open>Log\<close> layer of \<open>src/src/utils/log.rs\<close>.  A poll handles the close events, then takes packets from the offline
  handler, routes those of known connections and opens a connection for the first packet of a new peer.  The
  two halves of a connection and its route share one link: links live in a store and are referred to by their
  position in it.  The random server identifier is a parameter; log output and tracing spans are left out.
\<close>

subsection \<open>Configuration\<close>

record server_config =
  sc_sever_guid :: u64
  sc_advertisement :: bytes
  sc_min_mtu :: u16
  sc_max_mtu :: u16
  sc_support_version :: "u8 list"
  sc_max_pending :: nat
  sc_max_parted_size :: u32
  sc_max_parted_count :: nat
  sc_max_channels :: nat

definition server_config_new :: "u64 \<Rightarrow> server_config" where
  "server_config_new random = \<lparr> sc_sever_guid = random, sc_advertisement = [], sc_min_mtu = 510, sc_max_mtu = 1500,
     sc_support_version = [9, 11, 13], sc_max_pending = 1024, sc_max_parted_size = 256, sc_max_parted_count = 256, sc_max_channels = 1 \<rparr>"

definition set_sever_guid :: "server_config \<Rightarrow> u64 \<Rightarrow> server_config" where
  "set_sever_guid c guid = c\<lparr>sc_sever_guid := guid\<rparr>"

definition set_advertisement :: "server_config \<Rightarrow> bytes \<Rightarrow> server_config" where
  "set_advertisement c advert = c\<lparr>sc_advertisement := advert\<rparr>"

definition set_min_mtu :: "server_config \<Rightarrow> u16 \<Rightarrow> server_config" where
  "set_min_mtu c mtu = c\<lparr>sc_min_mtu := mtu\<rparr>"

definition set_max_mtu :: "server_config \<Rightarrow> u16 \<Rightarrow> server_config" where
  "set_max_mtu c mtu = c\<lparr>sc_max_mtu := mtu\<rparr>"

definition set_support_version :: "server_config \<Rightarrow> u8 list \<Rightarrow> server_config" where
  "set_support_version c version = c\<lparr>sc_support_version := sort version\<rparr>"

definition set_max_pending :: "server_config \<Rightarrow> nat \<Rightarrow> server_config" where
  "set_max_pending c n = c\<lparr>sc_max_pending := n\<rparr>"

definition set_max_parted_size :: "server_config \<Rightarrow> u32 \<Rightarrow> server_config" where
  "set_max_parted_size c n = c\<lparr>sc_max_parted_size := n\<rparr>"

definition set_max_parted_count :: "server_config \<Rightarrow> nat \<Rightarrow> server_config" where
  "set_max_parted_count c n = c\<lparr>sc_max_parted_count := n\<rparr>"

definition set_max_channels :: "server_config \<Rightarrow> nat \<Rightarrow> ('e, server_config) outcome" where
  "set_max_channels c channels = (if channels < 256 then Ok (c\<lparr>sc_max_channels := channels\<rparr>) else Panic)"

definition server_offline_config :: "server_config \<Rightarrow> offline_config" where
  "server_offline_config c = \<lparr> sever_guid = sc_sever_guid c, advertisement = sc_advertisement c, min_mtu = sc_min_mtu c, max_mtu = sc_max_mtu c,
     support_version = sc_support_version c, max_pending = sc_max_pending c \<rparr>"

definition server_codec_config :: "server_config \<Rightarrow> codec_config" where
  "server_codec_config c = \<lparr> max_parted_size = sc_max_parted_size c, max_parted_count = sc_max_parted_count c, config_max_channels = sc_max_channels c \<rparr>"

definition server_role :: "server_config \<Rightarrow> role" where
  "server_role c = Server (sc_sever_guid c)"

subsection \<open>The logging layer\<close>

text \<open>Errors are reported and dropped, values are handed on.\<close>

fun logged_poll :: "('st, 'err + 'a, 'a, 'e) poll_fn" where
  "logged_poll st [] = Ok (Pending, st, [])"
| "logged_poll st (Pending # s) = Ok (Pending, st, s)"
| "logged_poll st (Ready None # s) = Ok (Ready None, st, s)"
| "logged_poll st (Ready (Some (Inl err)) # s) = logged_poll st s"
| "logged_poll st (Ready (Some (Inr v)) # s) = Ok (Ready (Some v), st, s)"

subsection \<open>State\<close>

text \<open>What the stream uses of other crates, and the sink of the offline handler.\<close>

record ('s, 'c, 'qa, 'qn, 'qu, 'qf, 'ch, 'q) incoming_api =
  ia_sink :: "('s, unconnected \<times> socket_addr) sink_api"
  ia_lru :: "('c, socket_addr, u8) lru_api"
  ia_link :: "('qa, 'qn, 'qu, 'qf) link_api"
  ia_channel :: "('ch, frame_set) channel_api"
  ia_unbounded :: 'ch
  ia_events :: "('q, socket_addr) queue_api"

text \<open>The wakers that were woken are collected in \<open>inc_woken\<close>.\<close>

record ('s, 'c, 'k, 'qa, 'qn, 'qu, 'qf, 'ch, 'q, 'w) incoming =
  inc_offline :: "('s, 'c) offline_server"
  inc_config :: server_config
  inc_socket :: 'k
  inc_router :: "socket_addr \<rightharpoonup> 'ch route \<times> nat"
  inc_close_events :: 'q
  inc_links :: "('qa, 'qn, 'qu, 'qf) link list"
  inc_reactor :: "'w reactor"
  inc_woken :: "'w list"

definition incoming_new :: "('s, 'c, 'qa, 'qn, 'qu, 'qf, 'ch, 'q) incoming_api \<Rightarrow> 's \<Rightarrow> 'k \<Rightarrow> server_config \<Rightarrow> 'w reactor
    \<Rightarrow> ('e, ('s, 'c, 'k, 'qa, 'qn, 'qu, 'qf, 'ch, 'q, 'w) incoming) outcome" where
  "incoming_new A frame socket config r =
     and_then (offline_server_new (ia_lru A) frame (server_offline_config config)) (\<lambda>offline.
       Ok \<lparr> inc_offline = offline, inc_config = config, inc_socket = socket, inc_router = Map.empty,
            inc_close_events = q_unbounded (ia_events A), inc_links = [], inc_reactor = r, inc_woken = [] \<rparr>)"

text \<open>The two halves of a connection as they are handed out.\<close>

record 'k server_conn =
  conn_peer :: peer
  conn_link :: nat
  conn_dst :: "'k framed reliable_layer fragmenter body_encoder state_manager connection_info"
  conn_codec :: codec_config
  conn_incoming :: incoming_state
  conn_online :: server_online

definition make_connection :: "server_config \<Rightarrow> 'k \<Rightarrow> instant \<Rightarrow> peer \<Rightarrow> nat \<Rightarrow> 'k server_conn" where
  "make_connection config socket now peer i =
     \<lparr> conn_peer = peer, conn_link = i,
       conn_dst = wrap_connection_info (manage_outgoing_state (frame_encoded
         (wrap_reliable (framed_new socket (unat (sc_max_mtu config))) now peer (server_role config))
         (peer_mtu peer) (server_codec_config config)) (Some (peer_addr peer))) peer,
       conn_codec = server_codec_config config, conn_incoming = manage_incoming_state,
       conn_online = server_handle_online (server_role config) peer \<rparr>"

subsection \<open>The stream\<close>

text \<open>The close events at the start of a poll.\<close>

fun close_all :: "('c, socket_addr, u8) lru_api \<Rightarrow> socket_addr list \<Rightarrow> ('s, 'c, 'k, 'qa, 'qn, 'qu, 'qf, 'ch, 'q, 'w) incoming
    \<Rightarrow> ('e, ('s, 'c, 'k, 'qa, 'qn, 'qu, 'qf, 'ch, 'q, 'w) incoming) outcome" where
  "close_all L [] st = Ok st"
| "close_all L (ev # evs) st = (case inc_router st ev of
      None \<Rightarrow> Panic
    | Some _ \<Rightarrow> close_all L evs (st\<lparr>inc_router := (inc_router st)(ev := None), inc_offline := disconnect L (inc_offline st) ev\<rparr>))"

text \<open>One packet to the route of a connection; a closed channel is only logged.\<close>

definition incoming_deliver :: "('s, 'c, 'qa, 'qn, 'qu, 'qf, 'ch, 'q) incoming_api \<Rightarrow> instant \<Rightarrow> 'ch route \<Rightarrow> nat \<Rightarrow> connected \<Rightarrow> socket_addr
    \<Rightarrow> ('s, 'c, 'k, 'qa, 'qn, 'qu, 'qf, 'ch, 'q, 'w) incoming \<Rightarrow> ('e, ('s, 'c, 'k, 'qa, 'qn, 'qu, 'qf, 'ch, 'q, 'w) incoming) outcome" where
  "incoming_deliver A now rt i pack addr st =
     and_then (deliver (ia_link A) (ia_channel A) now rt (inc_links st ! i) (inc_reactor st) pack) (\<lambda>(_, rt, l, r, woken).
       Ok (st\<lparr>inc_router := (inc_router st)(addr \<mapsto> (rt, i)), inc_links := (inc_links st)[i := l], inc_reactor := r,
              inc_woken := inc_woken st @ woken\<rparr>))"

lemma os_poll_consumes:
  "(os_poll K L st s :: ('e, _) outcome) = Ok (Ready (Some x), st', rest) \<Longrightarrow> length rest < length s"
proof (induction s arbitrary: st)
  case (Cons y s)
  obtain b st1 where 1: "(os_send K st :: ('e, _) outcome) = Ok (b, st1)" using Cons.prems by (auto simp: and_then_eq_Ok)
  then obtain p a where b: "b" "y = Ready (Some (p, a))" using Cons.prems by (auto split: if_splits poll.split_asm option.split_asm)
  then obtain r st2 where r: "(os_react L st1 p a :: ('e, _) outcome) = Ok (r, st2)" using Cons.prems 1 by (auto simp: and_then_eq_Ok)
  show ?case
    using Cons.prems Cons.IH 1 b r by (cases r) (force simp: less_Suc_eq)+
qed (auto simp: and_then_eq_Ok)

function incoming_loop :: "('s, 'c, 'qa, 'qn, 'qu, 'qf, 'ch, 'q) incoming_api \<Rightarrow> instant \<Rightarrow> (('s, 'c, 'k, 'qa, 'qn, 'qu, 'qf, 'ch, 'q, 'w) incoming,
    packet \<times> socket_addr, 'k server_conn, 'e) poll_fn" where
  "incoming_loop A now st s = and_then (os_poll (ia_sink A) (ia_lru A) (inc_offline st) s) (\<lambda>(r, offline, rest).
     let st = st\<lparr>inc_offline := offline\<rparr> in
     case r of
       Pending \<Rightarrow> Ok (Pending, st, rest)
     | Ready None \<Rightarrow> Ok (Ready None, st, rest)
     | Ready (Some (pack, peer)) \<Rightarrow> (case inc_router st (peer_addr peer) of
           Some (rt, i) \<Rightarrow> and_then (incoming_deliver A now rt i pack (peer_addr peer) st) (\<lambda>st. incoming_loop A now st rest)
         | None \<Rightarrow>
             let i = length (inc_links st);
                 st = st\<lparr>inc_links := inc_links st @ [link_new (ia_link A) (server_role (inc_config st)) peer]\<rparr> in
             and_then (incoming_deliver A now (route_new (ia_unbounded A)) i pack (peer_addr peer) st) (\<lambda>st.
               Ok (Ready (Some (make_connection (inc_config st) (inc_socket st) now peer i)), st, rest))))"
  by pat_completeness auto
termination
  by (relation "measure (\<lambda>(_, _, _, s). length s)") (auto dest: os_poll_consumes)

declare incoming_loop.simps [simp del]

definition incoming_next :: "('s, 'c, 'qa, 'qn, 'qu, 'qf, 'ch, 'q) incoming_api \<Rightarrow> instant \<Rightarrow> (('s, 'c, 'k, 'qa, 'qn, 'qu, 'qf, 'ch, 'q, 'w) incoming,
    packet \<times> socket_addr, 'k server_conn, 'e) poll_fn" where
  "incoming_next A now st s = (case q_try_iter (ia_events A) (inc_close_events st) of (evs, q) \<Rightarrow>
     and_then (close_all (ia_lru A) evs (st\<lparr>inc_close_events := q\<rparr>)) (\<lambda>st. incoming_loop A now st s))"

subsection \<open>Runs\<close>

text \<open>
  The stream is polled, a connection that was handed out reports that it is closed, and the halves of the
  connections work on their links.  \<open>conns\<close> are the connections handed out that have not reported yet.
\<close>

abbreviation reports :: "'k server_conn \<Rightarrow> socket_addr option" where
  "reports c \<equiv> close_on_drop (ci_inner (conn_dst c))"

inductive inc_run :: "('s, 'c, 'qa, 'qn, 'qu, 'qf, 'ch, 'q) incoming_api \<Rightarrow> 's \<Rightarrow> 'k \<Rightarrow> server_config
    \<Rightarrow> 'k server_conn list \<Rightarrow> ('s, 'c, 'k, 'qa, 'qn, 'qu, 'qf, 'ch, 'q, 'w) incoming \<Rightarrow> bool" for A frame socket config where
  start: "incoming_new A frame socket config r = (Ok st :: (io_error, _) outcome) \<Longrightarrow> inc_run A frame socket config [] st"
| poll: "inc_run A frame socket config conns st \<Longrightarrow> incoming_next A now st s = (Ok (r, st', rest) :: (io_error, _) outcome) \<Longrightarrow>
    inc_run A frame socket config (conns @ ready_items [r]) st'"
| close: "inc_run A frame socket config (cs @ c # ds) st \<Longrightarrow>
    close_event (ia_events A) (reports c) (inc_close_events st) = (Ok q :: (io_error, _) outcome) \<Longrightarrow>
    inc_run A frame socket config (cs @ ds) (st\<lparr>inc_close_events := q\<rparr>)"
| work: "inc_run A frame socket config conns st \<Longrightarrow>
    inc_run A frame socket config conns (st\<lparr>inc_links := (inc_links st)[i := l], inc_reactor := r\<rparr>)"

text \<open>The tables agree with the connections.\<close>

definition addrs_ok :: "('s, 'c) offline_server \<Rightarrow> bool" where
  "addrs_ok st \<longleftrightarrow> (\<forall>a p. os_connected st a = Some p \<longrightarrow> peer_addr p = a)"

abbreviation conn_addr :: "'k server_conn \<Rightarrow> socket_addr" where
  "conn_addr c \<equiv> peer_addr (conn_peer c)"

definition conns_ok :: "socket_addr list \<Rightarrow> 'k server_conn list \<Rightarrow> (socket_addr \<rightharpoonup> 'ch route \<times> nat) \<Rightarrow> nat \<Rightarrow> bool" where
  "conns_ok closing conns router n \<longleftrightarrow> distinct (closing @ map conn_addr conns) \<and> set (closing @ map conn_addr conns) = dom router
     \<and> (\<forall>a rt i. router a = Some (rt, i) \<longrightarrow> i < n)
     \<and> (\<forall>a b rt rt' i. router a = Some (rt, i) \<longrightarrow> router b = Some (rt', i) \<longrightarrow> a = b)
     \<and> (\<forall>c \<in> set conns. reports c = Some (conn_addr c) \<and> (\<exists>rt. router (conn_addr c) = Some (rt, conn_link c)))"

lemma os_react_addr:
  assumes "addrs_ok st" and "os_react L st p a = Ok (r, st')"
  shows "addrs_ok st'" and "r = Deliver pk q \<Longrightarrow> p = Connected pk \<and> peer_addr q = a"
  using assms
  by (auto simp: os_react_def on_request1_def on_request2_def addrs_ok_def and_then_eq_Ok Let_def
      split: packet.splits unconnected.splits option.splits prod.splits if_splits)

lemma os_send_addr: "os_send K st = Ok (b, st') \<Longrightarrow> os_connected st' = os_connected st"
  by (auto simp: os_send_def os_flush_def split: offline_state.splits prod.splits poll.splits sum.splits option.splits)

lemma os_poll_addr:
  assumes "(os_poll K L st s :: ('e, _) outcome) = Ok (r, st', rest)" and "addrs_ok st"
  shows "\<exists>used. s = used @ rest \<and> addrs_ok st' \<and> (\<forall>pk q. r = Ready (Some (pk, q)) \<longrightarrow> (Connected pk, peer_addr q) \<in> set (ready_items used))"
  using assms
proof (induction s arbitrary: st)
  case Nil
  then show ?case using os_send_addr by (fastforce simp: and_then_eq_Ok addrs_ok_def)
next
  case (Cons y s)
  obtain b st1 where 1: "(os_send K st :: ('e, _) outcome) = Ok (b, st1)" using Cons.prems by (auto simp: and_then_eq_Ok)
  have ok1: "addrs_ok st1" using os_send_addr [OF 1] Cons.prems(2) by (simp add: addrs_ok_def)
  consider (stop) "r = Pending \<or> r = Ready None" "st' = st1" "rest = y # s \<or> rest = s" | (item) p a where "b" "y = Ready (Some (p, a))"
    using Cons.prems(1) 1 by (auto split: if_splits poll.split_asm option.split_asm)
  then show ?case
  proof cases
    case stop
    then show ?thesis using ok1 by (auto intro: exI [of _ "[]"] exI [of _ "[y]"])
  next
    case item
    then obtain re st2 where re: "(os_react L st1 p a :: ('e, _) outcome) = Ok (re, st2)" using Cons.prems 1 by (auto simp: and_then_eq_Ok)
    note ok2 = os_react_addr [OF ok1 re]
    have rec: ?thesis if p3: "(os_poll K L st3 s :: ('e, _) outcome) = Ok (r, st', rest)" "addrs_ok st3" for st3
    proof -
      obtain used where "s = used @ rest" "addrs_ok st'" "\<forall>pk q. r = Ready (Some (pk, q)) \<longrightarrow> (Connected pk, peer_addr q) \<in> set (ready_items used)"
        using Cons.IH [OF p3] by blast
      then show ?thesis using item(2) by (intro exI [of _ "y # used"]) simp
    qed
    show ?thesis
    proof (cases re)
      case (Deliver pk q)
      then have "r = Ready (Some (pk, q))" "st' = st2" "rest = s" using Cons.prems(1) 1 item re by simp_all
      then show ?thesis using ok2 Deliver item(2) by (intro exI [of _ "[y]"]) simp
    next
      case (Reply u)
      then show ?thesis using Cons.prems(1) 1 item re ok2(1) by (intro rec [of "st2\<lparr>os_state := SendingPrepare (Some (u, a))\<rparr>"]) (simp_all add: addrs_ok_def)
    next
      case Ignore
      then show ?thesis using Cons.prems(1) 1 item re ok2(1) by (intro rec [of st2]) simp_all
    qed
  qed
qed

lemma incoming_deliver_ok:
  assumes "incoming_deliver A now rt i pack addr st = Ok st'"
  shows "\<exists>rt'. inc_router st' = (inc_router st)(addr \<mapsto> (rt', i))" and "length (inc_links st') = length (inc_links st)"
    and "j \<noteq> i \<Longrightarrow> inc_links st' ! j = inc_links st ! j" and "inc_offline st' = inc_offline st" and "inc_close_events st' = inc_close_events st"
    and "inc_config st' = inc_config st" and "inc_socket st' = inc_socket st"
  using assms by (auto simp: incoming_deliver_def and_then_eq_Ok)

lemma conns_ok_deliver:
  assumes "conns_ok closing conns router n" and "router a = Some (rt, i)"
  shows "conns_ok closing conns (router(a \<mapsto> (rt', i))) n"
proof -
  have "dom (router(a \<mapsto> (rt', i))) = dom router" using assms(2) by auto
  then show ?thesis using assms unfolding conns_ok_def by (auto split: if_splits)
qed

lemma conns_ok_open:
  assumes "conns_ok closing conns router n" and "router (conn_addr c) = None" and "conn_link c = n" and "reports c = Some (conn_addr c)"
  shows "conns_ok closing (conns @ [c]) (router(conn_addr c \<mapsto> (rt, n))) (Suc n)"
proof -
  have less: "router a = Some (r, i) \<Longrightarrow> i < n" for a r i using assms(1) by (auto simp: conns_ok_def)
  have "conn_addr c \<notin> set (closing @ map conn_addr conns)" using assms(1,2) unfolding conns_ok_def by (simp add: domIff)
  then have "distinct (closing @ map conn_addr (conns @ [c]))" using assms(1) by (auto simp: conns_ok_def)
  moreover have "set (closing @ map conn_addr (conns @ [c])) = dom (router(conn_addr c \<mapsto> (rt, n)))" using assms(1) by (auto simp: conns_ok_def)
  moreover have "\<forall>a r i. (router(conn_addr c \<mapsto> (rt, n))) a = Some (r, i) \<longrightarrow> i < Suc n" using less by (auto simp: less_Suc_eq)
  moreover have "\<forall>a b r r' i. (router(conn_addr c \<mapsto> (rt, n))) a = Some (r, i) \<longrightarrow> (router(conn_addr c \<mapsto> (rt, n))) b = Some (r', i) \<longrightarrow> a = b"
  proof -
    have n: "router a \<noteq> Some (r, n)" for a r using less by blast
    have "router a = Some (r, i) \<Longrightarrow> router b = Some (r', i) \<Longrightarrow> a = b" for a b r r' i using assms(1) unfolding conns_ok_def by blast
    then show ?thesis using n by (auto split: if_splits)
  qed
  moreover have "\<forall>d \<in> set (conns @ [c]). reports d = Some (conn_addr d) \<and> (\<exists>r. (router(conn_addr c \<mapsto> (rt, n))) (conn_addr d) = Some (r, conn_link d))"
  proof
    fix d assume "d \<in> set (conns @ [c])"
    then show "reports d = Some (conn_addr d) \<and> (\<exists>r. (router(conn_addr c \<mapsto> (rt, n))) (conn_addr d) = Some (r, conn_link d))"
      using assms unfolding conns_ok_def by (cases "conn_addr d = conn_addr c") auto
  qed
  ultimately show ?thesis unfolding conns_ok_def by blast
qed

lemma conns_ok_distinct:
  assumes "conns_ok closing conns router n"
  shows "distinct (map conn_addr conns)" and "distinct (map conn_link conns)"
proof -
  show addrs: "distinct (map conn_addr conns)" using assms by (simp add: conns_ok_def)
  have "c = d" if "c \<in> set conns" "d \<in> set conns" "conn_link c = conn_link d" for c d
  proof -
    have "conn_addr c = conn_addr d" using assms that unfolding conns_ok_def by metis
    then show ?thesis using addrs that by (simp add: distinct_map inj_on_def)
  qed
  then show "distinct (map conn_link conns)" using addrs by (simp add: distinct_map inj_on_def)
qed

lemma conns_ok_close:
  assumes "conns_ok (a # closing) conns router n"
  shows "conns_ok closing conns (router(a := None)) n" and "router a \<noteq> None"
proof -
  have d: "a \<notin> set (closing @ map conn_addr conns)" "dom router = insert a (set (closing @ map conn_addr conns))" using assms by (auto simp: conns_ok_def)
  then show "router a \<noteq> None" by (metis domIff insertI1)
  have "dom (router(a := None)) = set (closing @ map conn_addr conns)" using d by auto
  moreover have "conn_addr c \<noteq> a" if "c \<in> set conns" for c using d(1) that by auto
  ultimately show "conns_ok closing conns (router(a := None)) n" using assms unfolding conns_ok_def by auto
qed

definition inc_inv :: "socket_addr list \<Rightarrow> 'k server_conn list \<Rightarrow> ('s, 'c, 'k, 'qa, 'qn, 'qu, 'qf, 'ch, 'q, 'w) incoming \<Rightarrow> bool" where
  "inc_inv closing conns st \<longleftrightarrow> conns_ok closing conns (inc_router st) (length (inc_links st)) \<and> addrs_ok (inc_offline st)"

text \<open>The connections of the addresses in \<open>as\<close> are untouched.\<close>

definition untouched :: "socket_addr set \<Rightarrow> ('s, 'c, 'k, 'qa, 'qn, 'qu, 'qf, 'ch, 'q, 'w) incoming \<Rightarrow> ('s, 'c, 'k, 'qa, 'qn, 'qu, 'qf, 'ch, 'q, 'w) incoming \<Rightarrow> bool" where
  "untouched as st st' \<longleftrightarrow> (\<forall>a \<in> as. inc_router st' a = inc_router st a
     \<and> (\<forall>rt i. inc_router st a = Some (rt, i) \<longrightarrow> inc_links st' ! i = inc_links st ! i))"

lemma untouched_trans: "untouched as st st1 \<Longrightarrow> untouched bs st1 st2 \<Longrightarrow> untouched (as \<inter> bs) st st2"
  unfolding untouched_def by auto

lemma make_connection_simps [simp]:
  "conn_peer (make_connection config socket now peer i) = peer" "conn_link (make_connection config socket now peer i) = i"
  "reports (make_connection config socket now peer i) = Some (peer_addr peer)"
  by (simp_all add: make_connection_def wrap_connection_info_def manage_outgoing_state_def)

lemma known_ok:
  assumes "inc_inv closing conns st" and "inc_router st a = Some (rt, i)" and d: "incoming_deliver A now rt i pack a st = Ok st'"
  shows "inc_inv closing conns st'" and "untouched (- {a}) st st'" and "inc_close_events st' = inc_close_events st"
proof -
  note dl = incoming_deliver_ok [OF d]
  show "inc_inv closing conns st'"
    using assms(1) dl(1,2,4) conns_ok_deliver [of closing conns "inc_router st" "length (inc_links st)" a rt i] assms(2) by (auto simp: inc_inv_def)
  have "j \<noteq> i" if "inc_router st b = Some (rt', j)" "b \<noteq> a" for b rt' j
    using assms(1,2) that unfolding inc_inv_def conns_ok_def by blast
  then show "untouched (- {a}) st st'" using dl(1,3) by (auto simp: untouched_def split: if_splits)
  show "inc_close_events st' = inc_close_events st" by (rule dl(5))
qed

lemma open_ok:
  assumes "inc_inv closing conns st" and "inc_router st (peer_addr p) = None"
    and d: "incoming_deliver A now rt (length (inc_links st)) pack (peer_addr p) (st\<lparr>inc_links := inc_links st @ [l]\<rparr>) = Ok st'"
  shows "inc_inv closing (conns @ [make_connection (inc_config st') (inc_socket st') now p (length (inc_links st))]) st'"
    and "untouched (- {peer_addr p}) st st'" and "inc_close_events st' = inc_close_events st"
proof -
  note dl = incoming_deliver_ok [OF d]
  obtain rt' where rt': "inc_router st' = (inc_router st)(peer_addr p \<mapsto> (rt', length (inc_links st)))" using dl(1) by auto
  show "inc_inv closing (conns @ [make_connection (inc_config st') (inc_socket st') now p (length (inc_links st))]) st'"
    using assms(1,2) dl(2,4) rt'
      conns_ok_open [of closing conns "inc_router st" "length (inc_links st)" "make_connection (inc_config st') (inc_socket st') now p (length (inc_links st))" rt']
    by (simp add: inc_inv_def)
  have "j < length (inc_links st)" if "inc_router st b = Some (r, j)" for b r j using assms(1) that unfolding inc_inv_def conns_ok_def by blast
  then show "untouched (- {peer_addr p}) st st'"
    using rt' dl(3) unfolding untouched_def by (fastforce simp: nth_append)
  show "inc_close_events st' = inc_close_events st" using dl(5) by simp
qed

lemma loop_ok:
  assumes "incoming_loop A now st s = (Ok (r, st', rest) :: ('e, _) outcome)" and "inc_inv closing conns st"
  shows "\<exists>used. s = used @ rest \<and> inc_inv closing (conns @ ready_items [r]) st' \<and> inc_close_events st' = inc_close_events st
     \<and> untouched (- snd ` set (ready_items used)) st st' \<and> list_all (\<lambda>c. conn_addr c \<in> snd ` set (ready_items used)) (ready_items [r])"
  using assms
proof (induction "length s" arbitrary: st s rule: less_induct)
  case less
  obtain x offline rest1 where 1: "(os_poll (ia_sink A) (ia_lru A) (inc_offline st) s :: ('e, _) outcome) = Ok (x, offline, rest1)"
    using less.prems(1) by (subst (asm) incoming_loop.simps) (auto simp: and_then_eq_Ok)
  have "addrs_ok (inc_offline st)" using less.prems(2) by (simp add: inc_inv_def)
  from os_poll_addr [OF 1 this] obtain used where
    u: "s = used @ rest1" "addrs_ok offline" "\<forall>pk q. x = Ready (Some (pk, q)) \<longrightarrow> (Connected pk, peer_addr q) \<in> set (ready_items used)" by blast
  let ?st = "st\<lparr>inc_offline := offline\<rparr>"
  have inv: "inc_inv closing conns ?st" using less.prems(2) u(2) by (simp add: inc_inv_def)
  have same: "untouched as st ?st" for as by (simp add: untouched_def)
  consider (stop) "x = Pending \<or> x = Ready None" | (item) pk q where "x = Ready (Some (pk, q))"
    by (metis option.exhaust poll.exhaust surj_pair)
  then show ?case
  proof cases
    case stop
    then have "r = Pending \<or> r = Ready None" "st' = ?st" "rest = rest1" using less.prems(1) 1 by (auto simp: incoming_loop.simps [of A now st])
    then show ?thesis using u(1) inv same by (intro exI [of _ used]) auto
  next
    case item
    let ?a = "peer_addr q"
    have a: "?a \<in> snd ` set (ready_items used)" using u(3) item by force
    show ?thesis
    proof (cases "inc_router st ?a")
      case (Some e)
      obtain rt i where e: "e = (rt, i)" by fastforce
      obtain st2 where d: "(incoming_deliver A now rt i pk ?a ?st :: ('e, _) outcome) = Ok st2"
          and next2: "(incoming_loop A now st2 rest1 :: ('e, _) outcome) = Ok (r, st', rest)"
        using less.prems(1) 1 item Some e by (auto simp: incoming_loop.simps [of A now st] and_then_eq_Ok Let_def)
      note k = known_ok [OF inv _ d]
      have "inc_router ?st ?a = Some (rt, i)" using Some e by simp
      note k = k [OF this]
      have "length rest1 < length s" using os_poll_consumes 1 item by blast
      from less.hyps [OF this next2 k(1)] obtain used2 where
        2: "rest1 = used2 @ rest" "inc_inv closing (conns @ ready_items [r]) st'" "inc_close_events st' = inc_close_events st2"
          "untouched (- snd ` set (ready_items used2)) st2 st'" "list_all (\<lambda>c. conn_addr c \<in> snd ` set (ready_items used2)) (ready_items [r])" by blast
      have "untouched (- {?a} \<inter> - snd ` set (ready_items used2)) st st'"
        using untouched_trans [OF untouched_trans [OF same [of UNIV] k(2)] 2(4)] by simp
      then have "untouched (- snd ` set (ready_items (used @ used2))) st st'" using a by (auto simp: untouched_def)
      moreover have "list_all (\<lambda>c. conn_addr c \<in> snd ` set (ready_items (used @ used2))) (ready_items [r])"
        using 2(5) by (auto simp: list_all_iff)
      ultimately show ?thesis using u(1) 2(1-3) k(3) by (intro exI [of _ "used @ used2"]) simp
    next
      case None
      let ?i = "length (inc_links st)"
      let ?l = "link_new (ia_link A) (server_role (inc_config st)) q"
      have d: "(incoming_deliver A now (route_new (ia_unbounded A)) ?i pk ?a (?st\<lparr>inc_links := inc_links ?st @ [?l]\<rparr>) :: ('e, _) outcome) = Ok st'"
        and r: "r = Ready (Some (make_connection (inc_config st') (inc_socket st') now q ?i))" "rest = rest1"
        using less.prems(1) 1 item None by (auto simp: incoming_loop.simps [of A now st] and_then_eq_Ok Let_def)
      have none: "inc_router ?st ?a = None" using None by simp
      have d': "(incoming_deliver A now (route_new (ia_unbounded A)) (length (inc_links ?st)) pk ?a (?st\<lparr>inc_links := inc_links ?st @ [?l]\<rparr>) :: ('e, _) outcome) = Ok st'"
        using d by simp
      note op = open_ok [OF inv none d']
      have "untouched (- snd ` set (ready_items used)) st st'" using untouched_trans [OF same [of UNIV] op(2)] a by (auto simp: untouched_def)
      then show ?thesis using u(1) r op(1,3) a by (intro exI [of _ used]) simp
    qed
  qed
qed

lemma close_all_ok:
  assumes "inc_inv closing conns st"
  shows "\<exists>st'. (close_all L closing st :: ('e, _) outcome) = Ok st' \<and> inc_inv [] conns st' \<and> inc_close_events st' = inc_close_events st
     \<and> inc_links st' = inc_links st \<and> (\<forall>a. inc_router st' a = (if a \<in> set closing then None else inc_router st a))"
  using assms
proof (induction closing arbitrary: st)
  case (Cons a closing)
  let ?st = "st\<lparr>inc_router := (inc_router st)(a := None), inc_offline := disconnect L (inc_offline st) a\<rparr>"
  have ok: "conns_ok (a # closing) conns (inc_router st) (length (inc_links st))" and addrs: "addrs_ok (inc_offline st)"
    using Cons.prems by (simp_all add: inc_inv_def)
  have "inc_inv closing conns ?st"
    using conns_ok_close(1) [OF ok] addrs by (auto simp: inc_inv_def addrs_ok_def disconnect_def split: if_splits)
  from Cons.IH [OF this] obtain st' where "(close_all L closing ?st :: ('e, _) outcome) = Ok st'" "inc_inv [] conns st'" "inc_close_events st' = inc_close_events st"
     "inc_links st' = inc_links st" "\<forall>b. inc_router st' b = (if b \<in> set closing then None else inc_router ?st b)" by auto
  then show ?case using conns_ok_close(2) [OF ok] by (intro exI [of _ st']) (auto split: option.splits)
qed simp

locale incoming_env = ev: queue_laws "ia_events A" events cap
  for A :: "('s, 'c, 'qa, 'qn, 'qu, 'qf, 'ch, 'q) incoming_api" and events :: "'q \<Rightarrow> socket_addr list" and cap :: "'q \<Rightarrow> nat option"
begin

lemma next_ok:
  assumes "incoming_next A now st s = (Ok (r, st', rest) :: ('e, _) outcome)"
    and "inc_inv (events (inc_close_events st)) conns st" and "cap (inc_close_events st) = None"
  shows "\<exists>used. s = used @ rest \<and> inc_inv (events (inc_close_events st')) (conns @ ready_items [r]) st' \<and> cap (inc_close_events st') = None
     \<and> untouched (conn_addr ` set conns - snd ` set (ready_items used)) st st' \<and> list_all (\<lambda>c. conn_addr c \<in> snd ` set (ready_items used)) (ready_items [r])"
proof -
  obtain evs q where q: "q_try_iter (ia_events A) (inc_close_events st) = (evs, q)" by fastforce
  note it = ev.try_iterE [OF q]
  have "inc_inv evs conns (st\<lparr>inc_close_events := q\<rparr>)" using assms(2) it(1) by (simp add: inc_inv_def)
  from close_all_ok [OF this, of "ia_lru A", where 'e = 'e] obtain st1 where 1: "(close_all (ia_lru A) evs (st\<lparr>inc_close_events := q\<rparr>) :: ('e, _) outcome) = Ok st1"
    "inc_inv [] conns st1" "inc_close_events st1 = q" "inc_links st1 = inc_links st"
    "\<forall>a. inc_router st1 a = (if a \<in> set evs then None else inc_router st a)" by auto
  have "(incoming_loop A now st1 s :: ('e, _) outcome) = Ok (r, st', rest)" using assms(1) 1(1) by (simp add: incoming_next_def q)
  from loop_ok [OF this 1(2)] obtain used where 2: "s = used @ rest" "inc_inv [] (conns @ ready_items [r]) st'"
    "inc_close_events st' = q" "untouched (- snd ` set (ready_items used)) st1 st'" "list_all (\<lambda>c. conn_addr c \<in> snd ` set (ready_items used)) (ready_items [r])" using 1(3) by auto
  have "conn_addr ` set conns \<inter> set evs = {}" using assms(2) it(1) by (auto simp: inc_inv_def conns_ok_def)
  then have "untouched (conn_addr ` set conns) st st1" using 1(4,5) by (auto simp: untouched_def)
  from untouched_trans [OF this 2(4)] have "untouched (conn_addr ` set conns - snd ` set (ready_items used)) st st'"
    by (simp add: Diff_eq)
  then show ?thesis using 2(1-3,5) it assms(3) by (intro exI [of _ used]) simp
qed

lemma run_inv:
  assumes "inc_run A frame socket config conns st"
  shows "inc_inv (events (inc_close_events st)) conns st \<and> cap (inc_close_events st) = None"
  using assms
proof (induction rule: inc_run.induct)
  case (start r st)
  then show ?case
    using ev.unbounded by (auto simp: incoming_new_def and_then_eq_Ok offline_server_new_def inc_inv_def conns_ok_def addrs_ok_def split: if_splits)
next
  case (poll conns st now s r st' rest)
  then show ?case using next_ok [OF poll.hyps(2)] by blast
next
  case (close cs c ds st q)
  have inv: "conns_ok (events (inc_close_events st)) (cs @ c # ds) (inc_router st) (length (inc_links st))" using close.IH by (simp add: inc_inv_def)
  then have rep: "reports c = Some (conn_addr c)" by (simp add: conns_ok_def)
  obtain q' where "q_push (ia_events A) (inc_close_events st) (conn_addr c) = (True, q')" "events q' = events (inc_close_events st) @ [conn_addr c]" "cap q' = None"
    using ev.push close.IH by blast
  then have q: "events q = events (inc_close_events st) @ [conn_addr c]" "cap q = None" using close.hyps(2) rep by (auto simp: close_event_def)
  have "conns_ok (events q) (cs @ ds) (inc_router st) (length (inc_links st))"
    using inv q(1) unfolding conns_ok_def by auto
  then show ?case using close.IH q(2) by (simp add: inc_inv_def)
next
  case (work conns st i l r)
  then show ?case by (simp add: inc_inv_def)
qed

end

definition sample_incoming_api :: "((unconnected \<times> socket_addr) list, (socket_addr, u8) lru_list, nat option \<times> (ack_or_nack \<times> instant) list, nat option \<times> ack_or_nack list, nat option \<times> unconnected list, nat option \<times> frame_body list, bool \<times> frame_set list, nat option \<times> socket_addr list) incoming_api" where
  "sample_incoming_api = \<lparr> ia_sink = log_sink, ia_lru = list_lru, ia_link = sample_link_api, ia_channel = list_channel, ia_unbounded = (False, []), ia_events = list_queue \<rparr>"

interpretation sample_incoming: incoming_env sample_incoming_api snd fst
  by (simp add: incoming_env_def sample_incoming_api_def list_queue.queue_laws_axioms)

subsection \<open>Properties\<close>

text \<open>
  C7: The connections of a server.  In every run, with any packets arriving and connections working and closing
  in any order: no two open connections have the same address or share a link; the router has an entry exactly
  for the open connections and those whose close event is waiting, and the entry of an open connection refers to
  its link; and handling the waiting close events never fails and leaves exactly the open connections.
\<close>
theorem incoming_connections:
  assumes "incoming_env A events cap" and "inc_run A frame socket config conns st"
  shows "distinct (map conn_addr conns) \<and> distinct (map conn_link conns)
     \<and> dom (inc_router st) = set (events (inc_close_events st)) \<union> conn_addr ` set conns
     \<and> list_all (\<lambda>c. \<exists>rt. inc_router st (conn_addr c) = Some (rt, conn_link c)) conns
     \<and> (\<exists>st'. (close_all (ia_lru A) (events (inc_close_events st)) st :: (io_error, _) outcome) = Ok st' \<and> dom (inc_router st') = conn_addr ` set conns)"
proof -
  let ?evs = "events (inc_close_events st)"
  have inv: "inc_inv ?evs conns st" using incoming_env.run_inv [OF assms] by blast
  then have ok: "conns_ok ?evs conns (inc_router st) (length (inc_links st))" by (simp add: inc_inv_def)
  obtain st' where st': "(close_all (ia_lru A) ?evs st :: (io_error, _) outcome) = Ok st'" "inc_inv [] conns st'"
    using close_all_ok [OF inv, of "ia_lru A", where 'e = io_error] by blast
  have "dom (inc_router st') = conn_addr ` set conns" using st'(2) by (simp add: inc_inv_def conns_ok_def)
  moreover have "dom (inc_router st) = set ?evs \<union> conn_addr ` set conns" using ok by (simp add: conns_ok_def)
  moreover have "list_all (\<lambda>c. \<exists>rt. inc_router st (conn_addr c) = Some (rt, conn_link c)) conns" using ok by (simp add: conns_ok_def list_all_iff)
  ultimately show ?thesis using st'(1) conns_ok_distinct [OF ok] by blast
qed

text \<open>
  C8: Connections are isolated.  A poll uses up a prefix of the packets; it leaves the route and the link of every
  open connection alone whose address did not send any of them; and a connection it hands out is for the address
  of one of them that had no open connection, with a link of its own.
\<close>
theorem incoming_isolated:
  assumes "incoming_env A events cap" and "inc_run A frame socket config conns st"
    and "incoming_next A now st s = (Ok (r, st', rest) :: (io_error, _) outcome)"
  shows "\<exists>used. s = used @ rest
     \<and> list_all (\<lambda>c. conn_addr c \<in> snd ` set (ready_items used)
          \<or> inc_router st' (conn_addr c) = inc_router st (conn_addr c) \<and> inc_links st' ! conn_link c = inc_links st ! conn_link c) conns
     \<and> list_all (\<lambda>c. conn_addr c \<in> snd ` set (ready_items used)) (ready_items [r])
     \<and> distinct (map conn_addr (conns @ ready_items [r])) \<and> distinct (map conn_link (conns @ ready_items [r]))"
proof -
  have inv: "inc_inv (events (inc_close_events st)) conns st" "cap (inc_close_events st) = None"
    using incoming_env.run_inv [OF assms(1,2)] by blast+
  obtain used where u: "s = used @ rest" "inc_inv (events (inc_close_events st')) (conns @ ready_items [r]) st'"
    "untouched (conn_addr ` set conns - snd ` set (ready_items used)) st st'" "list_all (\<lambda>c. conn_addr c \<in> snd ` set (ready_items used)) (ready_items [r])"
    using incoming_env.next_ok [OF assms(1,3) inv] by blast
  have "conn_addr c \<in> snd ` set (ready_items used)
      \<or> inc_router st' (conn_addr c) = inc_router st (conn_addr c) \<and> inc_links st' ! conn_link c = inc_links st ! conn_link c" if c: "c \<in> set conns" for c
  proof -
    obtain rt where "inc_router st (conn_addr c) = Some (rt, conn_link c)" using inv(1) c unfolding inc_inv_def conns_ok_def by blast
    then show ?thesis using u(3) c unfolding untouched_def by blast
  qed
  then have iso: "list_all (\<lambda>c. conn_addr c \<in> snd ` set (ready_items used)
      \<or> inc_router st' (conn_addr c) = inc_router st (conn_addr c) \<and> inc_links st' ! conn_link c = inc_links st ! conn_link c) conns" by (simp add: list_all_iff)
  have ok: "conns_ok (events (inc_close_events st')) (conns @ ready_items [r]) (inc_router st') (length (inc_links st'))" using u(2) by (simp add: inc_inv_def)
  show ?thesis by (intro exI [of _ used] conjI) (fact u iso conns_ok_distinct [OF ok])+
qed

definition sample_start :: "((unconnected \<times> socket_addr) list, (socket_addr, u8) lru_list, unit, nat option \<times> (ack_or_nack \<times> instant) list, nat option \<times> ack_or_nack list, nat option \<times> unconnected list, nat option \<times> frame_body list, bool \<times> frame_set list, nat option \<times> socket_addr list, unit) incoming" where
  "sample_start = \<lparr> inc_offline = \<lparr> os_frame = [], os_config = server_offline_config (server_config_new 9), os_pending = (1024, []), os_connected = Map.empty,
       os_state = Listening, os_role = Server 9 \<rparr>,
     inc_config = server_config_new 9, inc_socket = (), inc_router = Map.empty, inc_close_events = (None, []), inc_links = [], inc_reactor = [], inc_woken = [] \<rparr>"

lemma sample_start_new: "incoming_new sample_incoming_api [] () (server_config_new 9) [] = (Ok sample_start :: (io_error, _) outcome)"
  by (simp add: incoming_new_def offline_server_new_def sample_start_def sample_incoming_api_def server_offline_config_def server_config_new_def list_lru_def list_queue_def)

lemma sample_versions: "binary_search [9, 11, 13] (11 :: u8)"
  by (simp add: binary_search_def narrow.simps)

lemma sample_start_poll:
  "\<exists>off. os_poll log_sink list_lru (inc_offline sample_start) (map (\<lambda>x. Ready (Some x)) sample_handshake)
     = (Ok (Ready (Some (Ack \<lparr> records = [] \<rparr>, sample_client)), off, []) :: (io_error, _) outcome)"
  using sample_versions
  by (simp add: sample_start_def sample_handshake_def os_send_def os_flush_def log_sink_def os_react_def on_request1_def on_request2_def clamp_def
      server_offline_config_def server_config_new_def list_lru_def lru_front_def sample_client_def)

lemma sample_next:
  "\<exists>st'. incoming_next sample_incoming_api 5 sample_start (map (\<lambda>x. Ready (Some x)) sample_handshake)
     = (Ok (Ready (Some (make_connection (server_config_new 9) () 5 sample_client 0)), st', []) :: (io_error, _) outcome) \<and> inc_close_events st' = (None, [])"
proof -
  obtain off where off: "(os_poll (ia_sink sample_incoming_api) (ia_lru sample_incoming_api) (inc_offline sample_start) (map (\<lambda>x. Ready (Some x)) sample_handshake) :: (io_error, _) outcome)
      = Ok (Ready (Some (Ack \<lparr> records = [] \<rparr>, sample_client)), off, [])"
    using sample_start_poll by (auto simp: sample_incoming_api_def)
  let ?st = "sample_start\<lparr>inc_offline := off, inc_links := [link_new sample_link_api (Server 9) sample_client]\<rparr>"
  have loop: "(incoming_loop sample_incoming_api 5 sample_start (map (\<lambda>x. Ready (Some x)) sample_handshake) :: (io_error, _) outcome) =
     and_then (incoming_deliver sample_incoming_api 5 (route_new (False, [])) 0 (Ack \<lparr> records = [] \<rparr>) (V4 1 2) ?st) (\<lambda>st.
       Ok (Ready (Some (make_connection (inc_config st) (inc_socket st) 5 sample_client 0)), st, []))"
    by (subst incoming_loop.simps, subst off) (simp add: sample_start_def sample_client_def sample_incoming_api_def server_role_def server_config_new_def)
  have "\<exists>st'. (incoming_deliver sample_incoming_api 5 (route_new (False, [])) 0 (Ack \<lparr> records = [] \<rparr>) (V4 1 2) ?st :: (io_error, _) outcome) = Ok st'"
    by (simp add: incoming_deliver_def deliver_def incoming_ack_def link_new_def route_new_def should_waking_def
        sample_incoming_api_def sample_link_api_def list_queue_def list_channel_def MAX_ACK_BUFFER_def)
  then obtain st' where st': "(incoming_deliver sample_incoming_api 5 (route_new (False, [])) 0 (Ack \<lparr> records = [] \<rparr>) (V4 1 2) ?st :: (io_error, _) outcome) = Ok st'" by blast
  have kept: "inc_config st' = server_config_new 9" "inc_close_events st' = (None, [])"
    using incoming_deliver_ok(5,6) [OF st'] by (simp_all add: sample_start_def)
  have closed: "q_try_iter (ia_events sample_incoming_api) (inc_close_events sample_start) = ([], (None, []))" "sample_start\<lparr>inc_close_events := (None, [])\<rparr> = sample_start"
    by (simp_all add: sample_incoming_api_def sample_start_def list_queue_def)
  show ?thesis
    unfolding incoming_next_def closed(1) using kept by (simp add: closed(2) loop st')
qed

theorem incoming_connections_witness:
  "\<exists>st :: (_, _, _, _, _, _, _, _, _, unit) incoming. inc_run sample_incoming_api [] () (server_config_new 9) [make_connection (server_config_new 9) () 5 sample_client 0] st
     \<and> dom (inc_router st) = {V4 1 2} \<and> (\<exists>rt. inc_router st (V4 1 2) = Some (rt, 0))"
proof -
  obtain st where st: "incoming_next sample_incoming_api 5 sample_start (map (\<lambda>x. Ready (Some x)) sample_handshake)
     = (Ok (Ready (Some (make_connection (server_config_new 9) () 5 sample_client 0)), st, []) :: (io_error, _) outcome)" "inc_close_events st = (None, [])" using sample_next by blast
  have run: "inc_run sample_incoming_api [] () (server_config_new 9) [make_connection (server_config_new 9) () 5 sample_client 0] st"
    using inc_run.poll [OF inc_run.start [OF sample_start_new] st(1)] by simp
  note * = incoming_connections [OF sample_incoming.incoming_env_axioms run]
  have "\<exists>rt. inc_router st (V4 1 2) = Some (rt, 0)" using * by (simp add: sample_client_def)
  moreover have "dom (inc_router st) = {V4 1 2}" using * st(2) by (simp add: sample_client_def)
  ultimately show ?thesis using run by (intro exI [of _ st]) simp
qed

theorem incoming_isolated_witness:
  "\<exists>used. map (\<lambda>x. Ready (Some x)) sample_handshake = used @ []
     \<and> list_all (\<lambda>c. conn_addr c \<in> snd ` set (ready_items used)) (ready_items [Ready (Some (make_connection (server_config_new 9) () 5 sample_client 0))])"
proof -
  obtain st where st: "incoming_next sample_incoming_api 5 sample_start (map (\<lambda>x. Ready (Some x)) sample_handshake)
     = (Ok (Ready (Some (make_connection (server_config_new 9) () 5 sample_client 0)), st, []) :: (io_error, _) outcome)" using sample_next by blast
  show ?thesis
    using incoming_isolated [OF sample_incoming.incoming_env_axioms inc_run.start [OF sample_start_new] st] by (elim exE conjE) (intro exI conjI)
qed

end
