(* ===== verification/Client_Conn.thy ===== *)
theory Client_Conn
  imports Offline_Client Incoming
begin

text \<open>
  The connection of a client: \<open>Config\<close> and \<open>connect_to\<close> of \<open>src/src/client/conn/mod.rs\<close>, and the source of a
  connection, the composition of the decoder, the logging layer, the incoming state and the online handler that
  client and server share.  The random client identifier and the resolved addresses are parameters.
\<close>

subsection \<open>Configuration\<close>

record conn_config =
  kc_mtu :: u16
  kc_client_guid :: u64
  kc_protocol_version :: u8
  kc_max_parted_size :: u32
  kc_max_parted_count :: nat
  kc_max_channels :: nat

definition conn_config_new :: "u64 \<Rightarrow> conn_config" where
  "conn_config_new random = \<lparr> kc_mtu = 1400, kc_client_guid = random, kc_protocol_version = 9, kc_max_parted_size = 256,
     kc_max_parted_count = 256, kc_max_channels = 1 \<rparr>"

definition set_conn_mtu :: "conn_config \<Rightarrow> u16 \<Rightarrow> conn_config" where
  "set_conn_mtu c mtu = c\<lparr>kc_mtu := mtu\<rparr>"

definition set_client_guid :: "conn_config \<Rightarrow> u64 \<Rightarrow> conn_config" where
  "set_client_guid c guid = c\<lparr>kc_client_guid := guid\<rparr>"

definition set_protocol_version :: "conn_config \<Rightarrow> u8 \<Rightarrow> conn_config" where
  "set_protocol_version c v = c\<lparr>kc_protocol_version := v\<rparr>"

definition set_conn_parted_size :: "conn_config \<Rightarrow> u32 \<Rightarrow> conn_config" where
  "set_conn_parted_size c n = c\<lparr>kc_max_parted_size := n\<rparr>"

definition set_conn_parted_count :: "conn_config \<Rightarrow> nat \<Rightarrow> conn_config" where
  "set_conn_parted_count c n = c\<lparr>kc_max_parted_count := n\<rparr>"

definition set_conn_channels :: "conn_config \<Rightarrow> nat \<Rightarrow> ('e, conn_config) outcome" where
  "set_conn_channels c channels = (if channels < 256 then Ok (c\<lparr>kc_max_channels := channels\<rparr>) else Panic)"

definition client_offline_config :: "conn_config \<Rightarrow> client_config" where
  "client_offline_config c = \<lparr> cc_mtu = kc_mtu c, cc_client_guid = kc_client_guid c, cc_protocol_version = kc_protocol_version c \<rparr>"

definition client_codec_config :: "conn_config \<Rightarrow> codec_config" where
  "client_codec_config c = \<lparr> max_parted_size = kc_max_parted_size c, max_parted_count = kc_max_parted_count c, config_max_channels = kc_max_channels c \<rparr>"

definition client_role :: "conn_config \<Rightarrow> role" where
  "client_role c = Client (kc_client_guid c)"

subsection \<open>Connecting\<close>

text \<open>The address to connect to, from what the lookup gave.\<close>

definition first_addr :: "io_error + socket_addr list \<Rightarrow> io_error + socket_addr" where
  "first_addr lookups = (case lookups of
      Inl e \<Rightarrow> Inl e
    | Inr [] \<Rightarrow> Inl (IoError AddrNotAvailable ''invalid address'')
    | Inr (a # _) \<Rightarrow> Inr a)"

text \<open>The opening handshake that \<open>connect_to\<close> waits for.\<close>

definition connect_offline :: "'k \<Rightarrow> conn_config \<Rightarrow> socket_addr \<Rightarrow> 'k framed offline_client" where
  "connect_offline socket config addr = offline_client_new (framed_new socket (unat (kc_mtu config))) addr (client_offline_config config)"

text \<open>
  What it builds once the peer is known: the writing half over a second framed socket, the route to which the
  packets of the first one go, and the state of the reading half, whose handler puts the connection request on the
  link.
\<close>

record ('k, 'ch) client_conn =
  cl_peer :: peer
  cl_dst :: "'k framed reliable_layer fragmenter body_encoder state_manager connection_info"
  cl_route :: "'ch route"
  cl_codec :: codec_config
  cl_incoming :: incoming_state
  cl_online :: client_online

definition connect_online :: "('qa, 'qn, 'qu, 'qf) link_api \<Rightarrow> 'ch \<Rightarrow> conn_config \<Rightarrow> 'k \<Rightarrow> instant \<Rightarrow> i64 \<Rightarrow> socket_addr \<Rightarrow> peer
    \<Rightarrow> ('e, ('k, 'ch) client_conn \<times> ('qa, 'qn, 'qu, 'qf) link) outcome" where
  "connect_online Q unbounded config socket now t addr peer =
     (let role = client_role config; l = link_new Q role peer in
      and_then (client_handle_online Q t addr (kc_client_guid config) l) (\<lambda>(online, l).
        Ok (\<lparr> cl_peer = peer,
              cl_dst = wrap_connection_info (manage_outgoing_state (frame_encoded
                (wrap_reliable (framed_new socket (unat (peer_mtu peer))) now peer role)
                (peer_mtu peer) (client_codec_config config)) None) peer,
              cl_route = route_new unbounded, cl_codec = client_codec_config config,
              cl_incoming = manage_incoming_state, cl_online = online \<rparr>, l)))"

text \<open>The task that hands the packets of the server to the route.\<close>

fun route_packets :: "('qa, 'qn, 'qu, 'qf) link_api \<Rightarrow> ('ch, frame_set) channel_api \<Rightarrow> (instant \<times> connected) list
    \<Rightarrow> 'ch route \<Rightarrow> ('qa, 'qn, 'qu, 'qf) link \<Rightarrow> 'w reactor \<Rightarrow> ('e, 'ch route \<times> ('qa, 'qn, 'qu, 'qf) link \<times> 'w reactor \<times> 'w list) outcome" where
  "route_packets Q C [] rt l r = Ok (rt, l, r, [])"
| "route_packets Q C ((now, pack) # ps) rt l r =
     and_then (deliver Q C now rt l r pack) (\<lambda>(_, rt, l, r, woken).
     and_then (route_packets Q C ps rt l r) (\<lambda>(rt, l, r, woken'). Ok (rt, l, r, woken @ woken')))"

subsection \<open>The source of a connection\<close>

text \<open>\<open>route.frame_decoded(config).logged(..).manage_incoming_state()\<close>, with the number of polls of each layer.\<close>

definition conn_source :: "bytes_api \<Rightarrow> ('c, u16, part_heap) lru_api \<Rightarrow> codec_config \<Rightarrow> nat \<times> nat \<times> nat \<times> nat \<times> nat \<Rightarrow> nat \<Rightarrow> nat
    \<Rightarrow> frame_set script \<Rightarrow> ('e, frame_body script) outcome" where
  "conn_source B A config ns n6 n7 s =
     and_then (frame_decoded B A config ns s) (\<lambda>s.
     and_then (through n6 logged_poll () s) (\<lambda>s.
       through n7 incoming_poll manage_incoming_state s))"

subsection \<open>Streams that do not end\<close>

definition no_end :: "'i script \<Rightarrow> bool" where
  "no_end s \<longleftrightarrow> Ready None \<notin> set s"

lemma no_end_simps [simp]: "no_end []" "no_end (x # s) \<longleftrightarrow> x \<noteq> Ready None \<and> no_end s"
  by (auto simp: no_end_def)

text \<open>A layer that reports the end only when the stream below does.\<close>

definition passes_end :: "('st, 'i, 'o, 'e) poll_fn \<Rightarrow> bool" where
  "passes_end poll_next \<longleftrightarrow> (\<forall>st s r st' s'. poll_next st s = Ok (r, st', s') \<longrightarrow> no_end s \<longrightarrow> r \<noteq> Ready None \<and> no_end s')"

lemma passes_endI:
  "(\<And>st s r st' s'. poll_next st s = Ok (r, st', s') \<Longrightarrow> no_end s \<Longrightarrow> r \<noteq> Ready None \<and> no_end s') \<Longrightarrow> passes_end poll_next"
  by (auto simp: passes_end_def)

lemma through_no_end:
  assumes "passes_end poll_next"
  shows "through n poll_next st s = Ok outs \<Longrightarrow> no_end s \<Longrightarrow> no_end outs"
proof -
  have "polls n poll_next st s = Ok (outs, st', s') \<Longrightarrow> no_end s \<Longrightarrow> no_end outs" for n st s outs st' s'
    using assms by (induction n arbitrary: st s outs) (auto simp: and_then_eq_Ok passes_end_def)
  then show "through n poll_next st s = Ok outs \<Longrightarrow> no_end s \<Longrightarrow> no_end outs"
    by (auto simp: through_def and_then_eq_Ok)
qed

lemma through_length: "through n poll_next st s = Ok outs \<Longrightarrow> length outs = n"
  by (auto simp: through_def and_then_eq_Ok dest: polls_length)

lemma trace_passes_end: "passes_end trace_poll"
  by (rule passes_endI, erule trace_poll.elims) auto

lemma dedup_end: "dedup_poll w s = Ok (r, w', s') \<Longrightarrow> no_end s \<Longrightarrow> r \<noteq> Ready None \<and> no_end s'"
  by (induction w s rule: dedup_poll.induct) (auto simp: and_then_eq_Ok split: if_splits)

lemma defrag_end: "defrag_poll A st s = Ok (r, st', s') \<Longrightarrow> no_end s \<Longrightarrow> r \<noteq> Ready None \<and> no_end s'"
proof (induction s arbitrary: st)
  case Nil
  then show ?case by (subst (asm) defrag_poll.simps) (auto split: list.split_asm)
next
  case (Cons x s)
  show ?case
    using Cons.prems Cons.IH
    by (subst (asm) (1) defrag_poll.simps)
      (auto simp: and_then_eq_Ok split: list.split_asm poll.split_asm option.split_asm sum.split_asm)
qed

lemma order_end: "order_poll st s = Ok (r, st', s') \<Longrightarrow> no_end s \<Longrightarrow> r \<noteq> Ready None \<and> no_end s'"
proof (induction s arbitrary: st)
  case Nil
  then show ?case by (subst (asm) order_poll.simps) (auto simp: and_then_eq_Ok split: option.split_asm)
next
  case (Cons x s)
  show ?case
    using Cons.prems Cons.IH
    by (subst (asm) (1) order_poll.simps)
      (auto simp: and_then_eq_Ok Let_def split: poll.split_asm option.split_asm sum.split_asm if_splits)
qed

lemma body_end: "body_poll B st s = Ok (r, st', s') \<Longrightarrow> no_end s \<Longrightarrow> r \<noteq> Ready None \<and> no_end s'"
  by (induction B st s rule: body_poll.induct) (auto split: outcome.split_asm)

lemma logged_end: "logged_poll st s = Ok (r, st', s') \<Longrightarrow> no_end s \<Longrightarrow> r \<noteq> Ready None \<and> no_end s'"
  by (induction st s rule: logged_poll.induct) auto

lemma layers_pass_end:
  "passes_end trace_poll" "passes_end dedup_poll" "passes_end (defrag_poll A)" "passes_end order_poll" "passes_end (body_poll B)"
  "passes_end logged_poll"
  using trace_passes_end by (auto intro!: passes_endI dest: dedup_end defrag_end order_end body_end logged_end)

lemma no_end_map_ok: "no_end s \<Longrightarrow> no_end (map_ok s)"
proof (induction s)
  case (Cons x s)
  have "x \<noteq> Ready None \<Longrightarrow> map_poll (map_option Inr) x \<noteq> Ready None" by (cases x) auto
  then show ?case using Cons by (simp add: map_ok_def)
qed (simp add: map_ok_def)

lemma decoded_no_end:
  assumes "frame_decoded B A config (n1, n2, n3, n4, n5) s = (Ok outs :: ('e, _) outcome)" and "no_end s"
  shows "no_end outs \<and> length outs = n5"
proof -
  obtain s1 s2 d s3 q s4 where through:
    "(through n1 trace_poll () (map_ok s) :: ('e, _) outcome) = Ok s1" "(through n2 dedup_poll window_default s1 :: ('e, _) outcome) = Ok s2"
    "(through n3 (defrag_poll A) d s2 :: ('e, _) outcome) = Ok s3" "(through n4 order_poll q s3 :: ('e, _) outcome) = Ok s4"
    "(through n5 (body_poll B) () s4 :: ('e, _) outcome) = Ok outs"
    using assms(1) by (auto simp: frame_decoded_def and_then_eq_Ok)
  note ends = layers_pass_end [THEN through_no_end]
  show ?thesis
    using ends(5) [OF through(5) ends(4) [OF through(4) ends(3) [OF through(3) ends(2) [OF through(2) ends(1) [OF through(1) no_end_map_ok [OF assms(2)]]]]]]
      through_length [OF through(5)] by blast
qed

lemma logged_poll_ok:
  "\<exists>r used s'. logged_poll st s = (Ok (r, st, s') :: ('e, _) outcome) \<and> s = used @ s' \<and> ready_items [r] = ok_items used \<and> length s' \<le> length s - 1"
proof (induction s)
  case (Cons x s)
  then obtain r used s' where IH: "logged_poll st s = (Ok (r, st, s') :: ('e, _) outcome)" "s = used @ s'" "ready_items [r] = ok_items used" "length s' \<le> length s - 1"
    by blast
  show ?case
  proof (cases x rule: result_poll_cases)
    case (error e)
    then show ?thesis using IH by (intro exI [of _ r] exI [of _ "x # used"] exI [of _ s']) simp
  next
    case (item v)
    then show ?thesis by (intro exI [of _ "Ready (Some v)"] exI [of _ "[x]"] exI [of _ s]) simp
  qed (auto intro: exI [of _ "[x]"])
qed simp

text \<open>The logging layer hands on the values and drops the errors.\<close>

lemma logged_polls:
  "\<exists>outs used rest. polls n logged_poll st s = (Ok (outs, st, rest) :: ('e, _) outcome) \<and> s = used @ rest \<and> ready_items outs = ok_items used
     \<and> length rest \<le> length s - n"
proof (induction n arbitrary: s)
  case (Suc n)
  obtain r u t where 1: "logged_poll st s = (Ok (r, st, t) :: ('e, _) outcome)" "s = u @ t" "ready_items [r] = ok_items u" "length t \<le> length s - 1"
    using logged_poll_ok [of st s, where 'e = 'e] by blast
  obtain outs v w where 2: "polls n logged_poll st t = (Ok (outs, st, w) :: ('e, _) outcome)" "t = v @ w" "ready_items outs = ok_items v" "length w \<le> length t - n"
    using Suc.IH by blast
  have "ready_items (r # outs) = ok_items (u @ v)"
    using ready_items_append [of "[r]" outs] 1(3) 2(3) by simp
  then show ?case
    using 1 2 by (intro exI [of _ "r # outs"] exI [of _ "u @ v"] exI [of _ w]) auto
qed simp

lemma logged_through:
  assumes "length s \<le> n" and "no_end s"
  shows "\<exists>outs. through n logged_poll () s = (Ok outs :: ('e, _) outcome) \<and> ready_items outs = ok_items s \<and> no_end outs \<and> length outs = n"
proof -
  obtain outs used rest where p: "polls n logged_poll () s = (Ok (outs, (), rest) :: ('e, _) outcome)" "s = used @ rest" "ready_items outs = ok_items used" "length rest \<le> length s - n"
    using logged_polls [of n "()" s, where 'e = 'e] by blast
  then have t: "through n logged_poll () s = (Ok outs :: ('e, _) outcome)" and r: "ready_items outs = ok_items s"
    using assms(1) by (auto simp: through_def)
  show ?thesis
    using t r through_no_end [OF layers_pass_end(6) t assms(2)] through_length [OF t] by blast
qed

lemma before_end_all: "no_end s \<Longrightarrow> DisconnectNotification \<notin> set (ready_items s) \<Longrightarrow> before_end s = ready_items s"
  by (induction s rule: before_end.induct) auto

lemma incoming_through:
  assumes "length s \<le> n" and "no_end s" and "DisconnectNotification \<notin> set (ready_items s)"
  shows "\<exists>outs. through n incoming_poll manage_incoming_state s = (Ok outs :: ('e, _) outcome) \<and> ready_items outs = ready_items s \<and> length outs = n"
proof -
  obtain outs st rest where p: "polls n incoming_poll InConnecting s = (Ok (outs, st, rest) :: ('e, _) outcome)" "ready_items outs = before_end s"
    using incoming_polls [of n s, where 'e = 'e] assms(1) by blast
  then show ?thesis
    using before_end_all [OF assms(2,3)] polls_length [OF p(1)] by (simp add: through_def manage_incoming_state_def)
qed

lemma users_map_User: "users (map (\<lambda>x. User (f x)) xs) = map f xs"
  by (induction xs) simp_all

lemma conn_source_ok:
  assumes "frame_decoded B A config (n1, n2, n3, n4, n5) s = (Ok outs :: ('e, _) outcome)" and "ok_items outs = map (\<lambda>x. User (f x)) xs"
    and "no_end s" and "n5 \<le> n6" and "n6 \<le> n7"
  shows "\<exists>bodies. conn_source B A config (n1, n2, n3, n4, n5) n6 n7 s = (Ok bodies :: ('e, _) outcome)
    \<and> ready_items bodies = map (\<lambda>x. User (f x)) xs \<and> length bodies = n7"
proof -
  have o: "no_end outs" "length outs = n5" using decoded_no_end [OF assms(1,3)] by auto
  obtain l where l: "through n6 logged_poll () outs = (Ok l :: ('e, _) outcome)" "ready_items l = ok_items outs" "no_end l" "length l = n6"
    using logged_through [of outs n6, where 'e = 'e] o assms(4) by auto
  have "DisconnectNotification \<notin> set (ready_items l)" using l(2) assms(2) by auto
  then obtain bodies where "through n7 incoming_poll manage_incoming_state l = (Ok bodies :: ('e, _) outcome)" "ready_items bodies = ready_items l" "length bodies = n7"
    using incoming_through [of l n7, where 'e = 'e] l(3,4) assms(5) by auto
  then show ?thesis
    using assms(1,2) l by (auto simp: conn_source_def)
qed

context online_env
begin

lemma client_hands_on:
  assumes "good_link l" and "ready_items s = map (\<lambda>x. User (f x)) xs" and "length s \<le> length ts"
  shows "\<exists>outs st' l'. (timed_polls (client_online_poll Q) ts (st, l) s :: ('e, _) outcome) = Ok (outs, (st', l'), []) \<and> ready_items outs = map f xs"
proof -
  obtain outs st' l' used rest ms us where run: "(timed_polls (client_online_poll Q) ts (st, l) s :: ('e, _) outcome) = Ok (outs, (st', l'), rest)"
      "s = used @ rest" "length rest \<le> length s - length ts" "served client_spec st (ready_items used) = (st', ready_items outs, ms, us)"
    using client_polls [OF assms(1), of ts st s, where 'e = 'e] by (elim exE conjE) (rule that)
  then have "served client_spec st (map (\<lambda>x. User (f x)) xs) = (st', ready_items outs, ms, us)" "rest = []"
    using assms(2,3) by auto
  moreover from this(1) have "ready_items outs = users (map (\<lambda>x. User (f x)) xs)"
    by (cases "co_state st") (auto simp: client_wait client_connected)
  ultimately show ?thesis using run(1) by (auto simp: users_map_User)
qed

lemma server_hands_on:
  assumes "good_link l" and "ready_items s = map (\<lambda>x. User (f x)) xs" and "length s \<le> length ts" and "so_state st \<noteq> WaitConnRequest"
  shows "\<exists>outs st' l'. (timed_polls (server_online_poll Q) ts (st, l) s :: ('e, _) outcome) = Ok (outs, (st', l'), []) \<and> ready_items outs = map f xs"
proof -
  obtain outs st' l' used rest ms us where run: "(timed_polls (server_online_poll Q) ts (st, l) s :: ('e, _) outcome) = Ok (outs, (st', l'), rest)"
      "s = used @ rest" "length rest \<le> length s - length ts" "served server_spec st (ready_items used) = (st', ready_items outs, ms, us)"
    using server_polls [OF assms(1), of ts st s, where 'e = 'e] by (elim exE conjE) (rule that)
  then have "served server_spec st (map (\<lambda>x. User (f x)) xs) = (st', ready_items outs, ms, us)" "rest = []"
    using assms(2,3) by auto
  moreover from this(1) have "ready_items outs = users (map (\<lambda>x. User (f x)) xs)"
    using assms(4) by (cases "so_state st") (auto simp: server_wait_new server_connected)
  ultimately show ?thesis using run(1) by (auto simp: users_map_User)
qed

end

text \<open>The whole source on the frames of a sequence of messages.\<close>

lemma source_delivers:
  fixes s0 :: 's
  assumes "lru_laws A ok" and "0 < max_parted_count config" and "0 < config_max_channels config" and "config_max_channels config < 256"
    and "transmissible config (fragmented s0 mtu (config_max_channels config)) ms"
    and "set (received_frames s) = set (all_frames (fragmented s0 mtu (config_max_channels config)) ms)" and "no_end s"
    and "length s \<le> n1" and "n1 \<le> n2" and "n2 + length ms \<le> n3" and "n3 + length ms \<le> n4" and "n4 \<le> n5" and "n5 \<le> n6" and "n6 \<le> n7"
    and "n7 \<le> length ts"
    and "online_env Q uitems ucap fitems fcap" and "ucap (l_unconnected l) = None" and "fcap (l_frame_body l) = None"
    and "so_state server \<noteq> WaitConnRequest"
  shows "\<exists>bodies xs. conn_source B A config (n1, n2, n3, n4, n5) n6 n7 s = (Ok bodies :: ('e, _) outcome)
     \<and> (\<exists>outs client' l'. (timed_polls (client_online_poll Q) ts (client, l) bodies :: ('e, _) outcome) = Ok (outs, (client', l'), [])
          \<and> ready_items outs = map fst xs)
     \<and> (\<exists>outs server' l'. (timed_polls (server_online_poll Q) ts (server, l) bodies :: ('e, _) outcome) = Ok (outs, (server', l'), [])
          \<and> ready_items outs = map fst xs)
     \<and> (\<forall>c < config_max_channels config. map fst (filter (at_channel c) xs) = map msg_data (filter (of_channel c) ms))
     \<and> (\<forall>x \<in> set xs. \<exists>c < config_max_channels config. at_channel c x)"
proof -
  obtain outs xs where d: "frame_decoded B A config (n1, n2, n3, n4, n5) s = (Ok outs :: ('e, _) outcome)"
    "ok_items outs = map (\<lambda>x. User (fst x)) xs"
    and xs: "\<forall>c < config_max_channels config. map fst (filter (at_channel c) xs) = map msg_data (filter (of_channel c) ms)"
      "\<forall>x \<in> set xs. \<exists>c < config_max_channels config. at_channel c x"
    using deliver_all [OF assms(1-6,8-12), of B, where 'e = 'e] by (elim exE conjE) (rule that)
  obtain bodies where b: "conn_source B A config (n1, n2, n3, n4, n5) n6 n7 s = (Ok bodies :: ('e, _) outcome)"
    "ready_items bodies = map (\<lambda>x. User (fst x)) xs" "length bodies \<le> length ts"
    using conn_source_ok [OF d assms(7,13,14)] assms(15) by auto
  have good: "ucap (l_unconnected l) = None \<and> fcap (l_frame_body l) = None" using assms(17,18) by simp
  show ?thesis
    using b(1) xs online_env.client_hands_on [OF assms(16) good b(2,3), of client, where 'e = 'e]
      online_env.server_hands_on [OF assms(16) good b(2,3) assms(19), where 'e = 'e] by blast
qed

subsection \<open>Properties\<close>

text \<open>
  C2: a connection delivers what its peer sent.  A sequence of reliable ordered messages, on any channels and split or
  not, goes through the fragmentation sink of the peer, and the resulting frames arrive in any order, in any grouping
  into frame sets, each any number of times and at least once, on a stream that has not ended.  Then the whole source of
  the connection, from the frame sets of the route over the decoder, the logging layer, the incoming state and the
  online handler, hands on exactly the data of these messages: no layer fails, on every channel the data arrives in the
  order it was sent, and nothing else arrives.  The number of polls of each layer only has to suffice to work off its input.

  The messages are \<open>transmissible\<close>: their channels exist, their data is not empty and does not start with the id of a
  control message, none has more parts than the receiver takes, no more messages are split in total than the receiver can
  have in progress, and the 24-bit indices suffice.  A server must have taken the request of the client.  A
  client may be in any state of its handshake: that it hands on data before the acceptance is what the code does, and what
  a comment in it says it should not do.
\<close>

theorem connection_delivers:
  fixes s0 :: 's
  assumes "lru_laws A ok" and "0 < max_parted_count config" and "0 < config_max_channels config" and "config_max_channels config < 256"
    and "transmissible config (fragmented s0 mtu (config_max_channels config)) ms"
    and "send_messages (fragmented s0 mtu (config_max_channels config)) ms = (Ok st1 :: (io_error, _) outcome)"
    and "set (received_frames s) = set (map snd (fr_buf st1))" and "no_end s"
    and "length s \<le> n1" and "n1 \<le> n2" and "n2 + length ms \<le> n3" and "n3 + length ms \<le> n4" and "n4 \<le> n5" and "n5 \<le> n6" and "n6 \<le> n7"
    and "n7 \<le> length ts"
    and "online_env Q uitems ucap fitems fcap" and "ucap (l_unconnected l) = None" and "fcap (l_frame_body l) = None"
    and "so_state server \<noteq> WaitConnRequest"
  shows "\<exists>bodies xs. conn_source B A config (n1, n2, n3, n4, n5) n6 n7 s = (Ok bodies :: ('e, _) outcome)
     \<and> (\<exists>outs client' l'. (timed_polls (client_online_poll Q) ts (client, l) bodies :: ('e, _) outcome) = Ok (outs, (client', l'), [])
          \<and> ready_items outs = map fst xs)
     \<and> (\<exists>outs server' l'. (timed_polls (server_online_poll Q) ts (server, l) bodies :: ('e, _) outcome) = Ok (outs, (server', l'), [])
          \<and> ready_items outs = map fst xs)
     \<and> (\<forall>c < config_max_channels config. map fst (filter (at_channel c) xs) = map msg_data (filter (of_channel c) ms))
     \<and> (\<forall>x \<in> set xs. \<exists>c < config_max_channels config. at_channel c x)"
proof -
  let ?st = "fragmented s0 mtu (config_max_channels config)"
  have "map snd (fr_buf st1) = all_frames ?st ms"
    using send_messages_ok [of ?st ms, where 'e = io_error] assms(5,6) by (auto simp: transmissible_def fragmented_def)
  then have "set (received_frames s) = set (all_frames ?st ms)" using assms(7) by simp
  then show ?thesis by (rule source_delivers [OF assms(1-5) _ assms(8-20)])
qed

theorem connection_delivers_witness:
  "\<exists>bodies outs client' l'. conn_source std_bytes list_lru codec_config_default (2, 2, 4, 6, 6) 6 6 sample_network = (Ok bodies :: (io_error, _) outcome)
     \<and> (timed_polls (client_online_poll sample_link_api) [1, 2, 3, 4, 5, 6]
          (\<lparr> co_state = WaitConnRes, co_addr = V4 1 2, co_role = Client 9 \<rparr>, link_new sample_link_api (Client 9) sample_peer) bodies :: (io_error, _) outcome)
        = Ok (outs, (client', l'), [])
     \<and> ready_items outs = [map word_of_nat [100..<140], [200, 201]]"
proof -
  let ?l = "link_new sample_link_api (Client 9) sample_peer"
  have new: "fst (l_unconnected ?l) = None" "fst (l_frame_body ?l) = None"
    by (simp_all add: link_new_def sample_link_api_def list_queue_def)
  have e: "no_end sample_network" by (simp add: sample_network_def)
  have srv: "so_state ((server_handle_online (Server 3) sample_peer)\<lparr>so_state := ServerConnected\<rparr>) \<noteq> WaitConnRequest" by simp
  have c: "0 < max_parted_count codec_config_default" "0 < config_max_channels codec_config_default" "config_max_channels codec_config_default < 256"
    by (simp_all add: codec_config_default_def)
  have n: "2 \<le> (2 :: nat)" "2 + length sample_messages \<le> 4" "4 + length sample_messages \<le> 6" "6 \<le> (6 :: nat)" "6 \<le> length [1, 2, 3, 4, 5, 6 :: i64]"
    using sample_transmission(5) by simp_all
  obtain bodies xs where b: "conn_source std_bytes list_lru codec_config_default (2, 2, 4, 6, 6) 6 6 sample_network = (Ok bodies :: (io_error, _) outcome)"
    and o: "\<exists>outs client' l'. (timed_polls (client_online_poll sample_link_api) [1, 2, 3, 4, 5, 6]
          (\<lparr> co_state = WaitConnRes, co_addr = V4 1 2, co_role = Client 9 \<rparr>, ?l) bodies :: (io_error, _) outcome) = Ok (outs, (client', l'), [])
          \<and> ready_items outs = map fst xs"
    and xs: "\<forall>c < config_max_channels codec_config_default. map fst (filter (at_channel c) xs) = map msg_data (filter (of_channel c) sample_messages)"
      "\<forall>x \<in> set xs. \<exists>c < config_max_channels codec_config_default. at_channel c x"
    using connection_delivers [OF list_lru.lru_laws_axioms c sample_transmission(1-3) e sample_transmission(4) n(1-4) n(4) n(4) n(5)
        sample_env.online_env_axioms new srv, of std_bytes "\<lparr> co_state = WaitConnRes, co_addr = V4 1 2, co_role = Client 9 \<rparr>", where 'e = io_error]
    by (elim exE conjE) (rule that, blast+)
  have "map fst xs = [map word_of_nat [100..<140], [200, 201]]"
    by (rule sample_single_channel) (use xs in \<open>simp_all add: codec_config_default_def\<close>)
  then show ?thesis using b o by auto
qed

end
