(* ===== verification/Message_Transfer.thy ===== *)
theory Message_Transfer
  imports Client_Conn
begin

text \<open>
  The writing half and the reading half of a connection together.  The fragmentation sink of
  \<open>src/src/codec/encoder/fragment.rs\<close> is put on top of the reliability layer of \<open>src/src/reliable.rs\<close>, whose frame sets
  go through the sink below; what a network makes of the datagrams arrives at the socket of the peer, is decoded and
  routed by \<open>src/src/codec/frame.rs\<close> and \<open>src/src/link.rs\<close> and goes up the source of its connection.
\<close>

subsection \<open>The writing half\<close>

text \<open>\<open>poll_empty\<close> of the fragmentation sink over the reliability layer, which is ready whenever it does not panic.\<close>

fun send_buffered :: "('qa, 'qn, 'qu, 'qf) link_api \<Rightarrow> instant \<Rightarrow> (priority \<times> frame) list \<Rightarrow> 's reliable_layer \<Rightarrow> ('qa, 'qn, 'qu, 'qf) link
    \<Rightarrow> ('e, 's reliable_layer \<times> ('qa, 'qn, 'qu, 'qf) link) outcome" where
  "send_buffered Q now [] st l = Ok (st, l)"
| "send_buffered Q now (x # xs) st l =
     and_then (rl_poll_ready Q now st l) (\<lambda>(_, st, l). send_buffered Q now xs (snd (rl_start_send st x)) l)"

definition writer_empty :: "('qa, 'qn, 'qu, 'qf) link_api \<Rightarrow> instant \<Rightarrow> 's reliable_layer fragmenter \<Rightarrow> ('qa, 'qn, 'qu, 'qf) link
    \<Rightarrow> ('e, 's reliable_layer fragmenter \<times> ('qa, 'qn, 'qu, 'qf) link) outcome" where
  "writer_empty Q now fr l = and_then (send_buffered Q now (fr_buf fr) (fr_frame fr) l) (\<lambda>(st, l). Ok (fr\<lparr>fr_buf := [], fr_frame := st\<rparr>, l))"

definition writer_poll_ready :: "('qa, 'qn, 'qu, 'qf) link_api \<Rightarrow> instant \<Rightarrow> 's reliable_layer fragmenter \<Rightarrow> ('qa, 'qn, 'qu, 'qf) link
    \<Rightarrow> ('e, 's reliable_layer fragmenter \<times> ('qa, 'qn, 'qu, 'qf) link) outcome" where
  "writer_poll_ready Q now fr l = and_then (writer_empty Q now fr l) (\<lambda>(fr, l).
     and_then (rl_poll_ready Q now (fr_frame fr) l) (\<lambda>(_, st, l). Ok (fr\<lparr>fr_frame := st\<rparr>, l)))"

definition writer_poll_flush :: "nat \<Rightarrow> ('qa, 'qn, 'qu, 'qf) link_api \<Rightarrow> ('s, datagram) sink_api \<Rightarrow> instant \<Rightarrow> 's reliable_layer fragmenter
    \<Rightarrow> ('qa, 'qn, 'qu, 'qf) link \<Rightarrow> ('e, (io_error + unit) poll \<times> 's reliable_layer fragmenter \<times> ('qa, 'qn, 'qu, 'qf) link) outcome option" where
  "writer_poll_flush n Q K now fr l = (case writer_empty Q now fr l of
      Ok (fr, l) \<Rightarrow> map_option (\<lambda>r. and_then r (\<lambda>(p, _, st, l). Ok (p, fr\<lparr>fr_frame := st\<rparr>, l))) (rl_poll_flush n Q K None now (fr_frame fr) l)
    | Err e \<Rightarrow> Some (Err e)
    | Panic \<Rightarrow> Some Panic)"

text \<open>Messages fed to the sink as its owner does it: each when the sink is ready, at the times given.\<close>

fun feed :: "('qa, 'qn, 'qu, 'qf) link_api \<Rightarrow> (instant \<times> message) list \<Rightarrow> 's reliable_layer fragmenter \<Rightarrow> ('qa, 'qn, 'qu, 'qf) link
    \<Rightarrow> ('e, 's reliable_layer fragmenter \<times> ('qa, 'qn, 'qu, 'qf) link) outcome" where
  "feed Q [] fr l = Ok (fr, l)"
| "feed Q ((now, m) # ms) fr l = and_then (writer_poll_ready Q now fr l) (\<lambda>(fr, l).
     and_then (fragment_start_send fr m) (\<lambda>fr. feed Q ms fr l))"

subsection \<open>The reading half\<close>

text \<open>The packets of the connection among those that the socket gave, as the task of the connection hands them to the route.\<close>

fun connected_packets :: "instant \<Rightarrow> (packet \<times> socket_addr) list \<Rightarrow> (instant \<times> connected) list" where
  "connected_packets t [] = []"
| "connected_packets t ((Connected c, _) # ps) = (t, c) # connected_packets t ps"
| "connected_packets t ((Unconnected _, _) # ps) = connected_packets t ps"

subsection \<open>What does not depend on the buffers\<close>

lemma frames_update [simp]: "msg_frames (fr\<lparr>fr_frame := s\<rparr>) m = msg_frames fr m" "msg_frames (fr\<lparr>fr_buf := b\<rparr>) m = msg_frames fr m"
  by (simp_all add: msg_frames_def needs_split_def part_count_def part_len_def msg_ordered_def)

lemma sent_update:
  "sent (fr\<lparr>fr_frame := s\<rparr>) m = (sent fr m)\<lparr>fr_frame := s\<rparr>"
  "sent (fr\<lparr>fr_buf := b\<rparr>) m = (sent fr m)\<lparr>fr_buf := b @ map (Pair (msg_priority m)) (msg_frames fr m)\<rparr>"
  by (simp_all add: sent_def needs_split_def Let_def)

lemma sendable_update [simp]: "sendable (fr\<lparr>fr_frame := s\<rparr>) m \<longleftrightarrow> sendable fr m" "sendable (fr\<lparr>fr_buf := b\<rparr>) m \<longleftrightarrow> sendable fr m"
  by (simp_all add: sendable_def)

lemma all_frames_update [simp]: "all_frames (fr\<lparr>fr_frame := s\<rparr>) ms = all_frames fr ms" "all_frames (fr\<lparr>fr_buf := b\<rparr>) ms = all_frames fr ms"
  by (induction ms arbitrary: fr s b) (simp_all add: sent_update)

lemma sendable_all_update [simp]:
  "sendable_all (fr\<lparr>fr_frame := s\<rparr>) ms \<longleftrightarrow> sendable_all fr ms" "sendable_all (fr\<lparr>fr_buf := b\<rparr>) ms \<longleftrightarrow> sendable_all fr ms"
  by (induction ms arbitrary: fr s b) (simp_all add: sent_update)

lemma sent_fields [simp]: "fr_mtu (sent fr m) = fr_mtu fr" "fr_frame (sent fr m) = fr_frame fr"
  by (simp_all add: sent_def)

lemma all_frames_fit:
  assumes "sendable_all fr ms" and "f \<in> set (all_frames fr ms)"
  shows "FRAME_SET_HEADER_SIZE + frame_size f \<le> fr_mtu fr"
  using assms
proof (induction ms arbitrary: fr)
  case (Cons m ms)
  then show ?case using msg_frames_size [of fr f m] Cons.IH [of "sent fr m"] by (auto simp: sendable_def)
qed simp

lemma all_frames_ok:
  assumes "sendable_all fr ms" and "fr_mtu fr < 8191" and "\<forall>m \<in> set ms. msg_data m \<noteq> [] \<and> \<not> is_sequenced (msg_reliability m)"
    and "f \<in> set (all_frames fr ms)"
  shows "frame_ok f"
  using assms
proof (induction ms arbitrary: fr)
  case (Cons m ms)
  then show ?case using msg_frames_ok [of fr m f] Cons.IH [of "sent fr m"] by auto
qed simp

subsection \<open>Feeding\<close>

text \<open>The frames that a writing half holds, and its state while nothing is in flight and room is left for \<open>k\<close> more frames.\<close>

definition pending_frames :: "'s reliable_layer fragmenter \<Rightarrow> frame multiset" where
  "pending_frames fr = buffered (rl_buf (fr_frame fr)) + mset (map snd (fr_buf fr))"

definition writer_inv :: "('qa \<Rightarrow> (ack_or_nack \<times> instant) list) \<Rightarrow> ('qn \<Rightarrow> ack_or_nack list) \<Rightarrow> nat
    \<Rightarrow> 's reliable_layer fragmenter \<Rightarrow> ('qa, 'qn, 'qu, 'qf) link \<Rightarrow> bool" where
  "writer_inv aitems nitems k fr l \<longleftrightarrow> layer_inv (fr_frame fr) l \<and> in_flight (rm_reliable (rl_resend (fr_frame fr))) = {#}
     \<and> acks_wire (aitems (l_incoming_ack l)) \<and> (\<forall>a \<in> set (nitems (l_incoming_nack l)). ack_wire a)
     \<and> fr_mtu fr = unat (peer_mtu (rl_peer (fr_frame fr))) \<and> (\<forall>f \<in> set (map snd (fr_buf fr)). FRAME_SET_HEADER_SIZE + frame_size f \<le> unat (peer_mtu (rl_peer (fr_frame fr))))
     \<and> to_usize (seq_num_write_index (fr_frame fr)) + size (pending_frames fr) + k < 2 ^ 24"

text \<open>Nothing was sent and nothing of the link was taken but what came in.\<close>

definition quiet :: "'s reliable_layer fragmenter \<Rightarrow> ('qa, 'qn, 'qu, 'qf) link \<Rightarrow> 's reliable_layer fragmenter \<Rightarrow> ('qa, 'qn, 'qu, 'qf) link \<Rightarrow> bool" where
  "quiet fr l fr' l' \<longleftrightarrow> rl_frame (fr_frame fr') = rl_frame (fr_frame fr) \<and> rl_peer (fr_frame fr') = rl_peer (fr_frame fr)
     \<and> seq_num_write_index (fr_frame fr') = seq_num_write_index (fr_frame fr) \<and> fr_mtu fr' = fr_mtu fr
     \<and> (\<exists>qa qn. l' = l\<lparr>l_incoming_ack := qa, l_incoming_nack := qn\<rparr>)"

lemma quiet_refl: "quiet fr l fr l"
  unfolding quiet_def by (intro conjI exI [of _ "l_incoming_ack l"] exI [of _ "l_incoming_nack l"]) simp_all

lemma quiet_trans: "quiet fr l fr1 l1 \<Longrightarrow> quiet fr1 l1 fr2 l2 \<Longrightarrow> quiet fr l fr2 l2"
  unfolding quiet_def by (elim conjE exE, intro conjI) (simp_all, blast)

context reliable_env
begin

lemma ready_quiet:
  assumes inv: "writer_inv aitems nitems k fr l" and now: "now < TIME_BOUND"
  shows "\<exists>st l'. (rl_poll_ready Q now (fr_frame fr) l :: ('e, _) outcome) = Ok (Ready (Inr ()), st, l')
     \<and> writer_inv aitems nitems k (fr\<lparr>fr_frame := st\<rparr>) l' \<and> quiet fr l (fr\<lparr>fr_frame := st\<rparr>) l'
     \<and> pending_frames (fr\<lparr>fr_frame := st\<rparr>) = pending_frames fr"
proof -
  let ?st = "fr_frame fr"
  have i: "layer_inv ?st l" "in_flight (rm_reliable (rl_resend ?st)) = {#}" "acks_wire (aitems (l_incoming_ack l))"
    "\<forall>a \<in> set (nitems (l_incoming_nack l)). ack_wire a" using inv by (simp_all add: writer_inv_def)
  have room: "to_usize (seq_num_write_index ?st) + buffer_len (rl_buf ?st) + size (in_flight (rm_reliable (rl_resend ?st))) < 2 ^ 24"
    using i(1,2) by (simp add: layer_inv_def)
  obtain rm buf qa qn where p: "(process_inflight Q now ?st l :: ('e, _) outcome)
       = Ok (?st\<lparr>rl_resend := rm, rl_buf := buf\<rparr>, l\<lparr>l_incoming_ack := qa, l_incoming_nack := qn\<rparr>)"
    "layer_inv (?st\<lparr>rl_resend := rm, rl_buf := buf\<rparr>) (l\<lparr>l_incoming_ack := qa, l_incoming_nack := qn\<rparr>)"
    "aitems qa = []" "nitems qn = []"
    "kept (set (acks_expand (aitems (l_incoming_ack l)))) [] (rm_reliable (rl_resend ?st)) (rl_buf ?st) (rm_reliable rm) buf"
    "buffered (rl_buf ?st) \<subseteq># buffered buf"
    by (rule process_inflight_ok [OF i(1) now room i(3,4)])
  have sub: "in_flight (rm_reliable rm) + buffered buf \<subseteq># buffered (rl_buf ?st)" using p(5) i(2) by (simp add: kept_def)
  then have "buffered buf \<subseteq># buffered (rl_buf ?st)" by (metis mset_subset_eq_add_right subset_mset.order_trans)
  then have b: "buffered buf = buffered (rl_buf ?st)" using p(6) by (rule subset_mset.antisym)
  then have "in_flight (rm_reliable rm) = {#}" using sub by (metis add.right_neutral add.commute subset_mset.add_le_same_cancel2 subset_mset.le_zero_eq)
  moreover have "quiet fr l (fr\<lparr>fr_frame := ?st\<lparr>rl_resend := rm, rl_buf := buf\<rparr>\<rparr>) (l\<lparr>l_incoming_ack := qa, l_incoming_nack := qn\<rparr>)"
    unfolding quiet_def by (intro conjI exI [of _ qa] exI [of _ qn]) simp_all
  ultimately show ?thesis
    using p(1-4) b inv
    by (intro exI [of _ "?st\<lparr>rl_resend := rm, rl_buf := buf\<rparr>"] exI [of _ "l\<lparr>l_incoming_ack := qa, l_incoming_nack := qn\<rparr>"] conjI)
      (simp_all add: rl_poll_ready_def writer_inv_def pending_frames_def acks_wire_def)
qed

lemma send_buffered_quiet:
  assumes "writer_inv aitems nitems k fr l" and "fr_buf fr = xs" and now: "now < TIME_BOUND"
  shows "\<exists>st l'. (send_buffered Q now xs (fr_frame fr) l :: ('e, _) outcome) = Ok (st, l')
     \<and> writer_inv aitems nitems k (fr\<lparr>fr_buf := [], fr_frame := st\<rparr>) l' \<and> quiet fr l (fr\<lparr>fr_buf := [], fr_frame := st\<rparr>) l'
     \<and> pending_frames (fr\<lparr>fr_buf := [], fr_frame := st\<rparr>) = pending_frames fr"
  using assms(1,2)
proof (induction xs arbitrary: fr l)
  case Nil
  have "fr\<lparr>fr_buf := [], fr_frame := fr_frame fr\<rparr> = fr" using Nil.prems(2) by (cases fr) simp
  then show ?case using Nil.prems(1) quiet_refl [of fr l] by (intro exI [of _ "fr_frame fr"] exI [of _ l]) (simp only: send_buffered.simps simp_thms)
next
  case (Cons x xs)
  obtain p f where x: "x = (p, f)" by fastforce
  obtain st l1 where 1: "(rl_poll_ready Q now (fr_frame fr) l :: ('e, _) outcome) = Ok (Ready (Inr ()), st, l1)"
    "writer_inv aitems nitems k (fr\<lparr>fr_frame := st\<rparr>) l1" "quiet fr l (fr\<lparr>fr_frame := st\<rparr>) l1"
    "pending_frames (fr\<lparr>fr_frame := st\<rparr>) = pending_frames fr"
    using ready_quiet [OF Cons.prems(1) now, where 'e = 'e] by blast
  let ?st = "snd (rl_start_send st x)"
  let ?fr = "fr\<lparr>fr_frame := ?st, fr_buf := xs\<rparr>"
  have pend: "pending_frames ?fr = pending_frames fr"
    using 1(4) Cons.prems(2) x by (simp add: pending_frames_def rl_start_send_def)
  have len: "buffer_len (buffer_send (rl_buf st) (p, f)) = Suc (buffer_len (rl_buf st))" using buffer_send_buffered [of "rl_buf st" p f] size_buffered by (metis size_add_mset)
  have "size (pending_frames (fr\<lparr>fr_frame := st\<rparr>)) = buffer_len (rl_buf st) + Suc (length xs)"
    using Cons.prems(2) by (simp add: pending_frames_def size_buffered)
  then have inv: "writer_inv aitems nitems k ?fr l1"
    using 1(2,4) pend Cons.prems(2) len buffer_send_sorted [of "rl_buf st" p f] x
    by (simp add: writer_inv_def layer_inv_def rl_start_send_def fits_def)
  have q: "quiet fr l ?fr l1" using 1(3) by (simp add: quiet_def rl_start_send_def)
  obtain st' l' where 2: "(send_buffered Q now xs ?st l1 :: ('e, _) outcome) = Ok (st', l')"
    "writer_inv aitems nitems k (fr\<lparr>fr_buf := [], fr_frame := st'\<rparr>) l'" "quiet ?fr l1 (fr\<lparr>fr_buf := [], fr_frame := st'\<rparr>) l'"
    "pending_frames (fr\<lparr>fr_buf := [], fr_frame := st'\<rparr>) = pending_frames ?fr"
    using Cons.IH [OF inv] by auto
  then show ?case using 1(1) pend quiet_trans [OF q 2(3)] by (intro exI [of _ st'] exI [of _ l']) simp
qed

lemma writer_empty_quiet:
  assumes "writer_inv aitems nitems k fr l" and "now < TIME_BOUND"
  obtains st l' where "(writer_empty Q now fr l :: ('e, _) outcome) = Ok (fr\<lparr>fr_buf := [], fr_frame := st\<rparr>, l')"
    and "writer_inv aitems nitems k (fr\<lparr>fr_buf := [], fr_frame := st\<rparr>) l'" and "quiet fr l (fr\<lparr>fr_buf := [], fr_frame := st\<rparr>) l'"
    and "pending_frames (fr\<lparr>fr_buf := [], fr_frame := st\<rparr>) = pending_frames fr"
  using send_buffered_quiet [OF assms(1) refl assms(2), where 'e = 'e] unfolding writer_empty_def by force

lemma feed_ok:
  assumes "writer_inv aitems nitems (length (all_frames fr (map snd tms)) + k) fr l" and "sendable_all fr (map snd tms)"
    and "\<forall>x \<in> set tms. fst x < TIME_BOUND"
  shows "\<exists>fr' l'. (feed Q tms fr l :: ('e, _) outcome) = Ok (fr', l') \<and> writer_inv aitems nitems k fr' l' \<and> quiet fr l fr' l'
     \<and> pending_frames fr' = pending_frames fr + mset (all_frames fr (map snd tms))"
  using assms
proof (induction tms arbitrary: fr l)
  case Nil
  then show ?case using quiet_refl [of fr l] by auto
next
  case (Cons x tms)
  obtain t m where x: "x = (t, m)" by fastforce
  let ?k = "length (all_frames fr (map snd (x # tms))) + k"
  have t: "t < TIME_BOUND" and s: "sendable fr m" "sendable_all (sent fr m) (map snd tms)" using Cons.prems(2,3) x by simp_all
  obtain st l1 where 1: "(writer_empty Q t fr l :: ('e, _) outcome) = Ok (fr\<lparr>fr_buf := [], fr_frame := st\<rparr>, l1)"
    "writer_inv aitems nitems ?k (fr\<lparr>fr_buf := [], fr_frame := st\<rparr>) l1" "quiet fr l (fr\<lparr>fr_buf := [], fr_frame := st\<rparr>) l1"
    "pending_frames (fr\<lparr>fr_buf := [], fr_frame := st\<rparr>) = pending_frames fr"
    by (rule writer_empty_quiet [OF Cons.prems(1) t])
  obtain st2 l2 where 2: "(rl_poll_ready Q t st l1 :: ('e, _) outcome) = Ok (Ready (Inr ()), st2, l2)"
    "writer_inv aitems nitems ?k (fr\<lparr>fr_buf := [], fr_frame := st2\<rparr>) l2"
    "quiet (fr\<lparr>fr_buf := [], fr_frame := st\<rparr>) l1 (fr\<lparr>fr_buf := [], fr_frame := st2\<rparr>) l2"
    "pending_frames (fr\<lparr>fr_buf := [], fr_frame := st2\<rparr>) = pending_frames fr"
    using ready_quiet [OF 1(2) t, where 'e = 'e] 1(4) by auto
  define fr2 where "fr2 = fr\<lparr>fr_buf := [], fr_frame := st2\<rparr>"
  have fr2: "sendable fr2 m" "msg_frames fr2 m = msg_frames fr m" "all_frames (sent fr2 m) ms = all_frames (sent fr m) ms"
    "sendable_all (sent fr2 m) ms = sendable_all (sent fr m) ms" for ms
    using s(1) by (simp_all add: fr2_def sent_update)
  have pend: "pending_frames (sent fr2 m) = pending_frames fr + mset (msg_frames fr m)"
    using 2(4) by (simp add: pending_frames_def fr2_def sent_def comp_def needs_split_def Let_def)
  have inv: "writer_inv aitems nitems (length (all_frames (sent fr m) (map snd tms)) + k) (sent fr2 m) l2"
    using 2(2) msg_frames_size [of fr _ m] s(1) x unfolding writer_inv_def fr2_def [symmetric] pend
    by (auto simp: sent_def fr2_def comp_def needs_split_def Let_def sendable_def 2(4) add.assoc)
  have q: "quiet fr l (sent fr2 m) l2"
    using quiet_trans [OF 1(3) 2(3)] by (simp add: quiet_def fr2_def)
  obtain fr' l' where 3: "(feed Q tms (sent fr2 m) l2 :: ('e, _) outcome) = Ok (fr', l')" "writer_inv aitems nitems k fr' l'"
    "quiet (sent fr2 m) l2 fr' l'" "pending_frames fr' = pending_frames (sent fr2 m) + mset (all_frames (sent fr2 m) (map snd tms))"
    using Cons.IH [of "sent fr2 m" l2] inv s(2) Cons.prems(3) fr2(3,4) by auto
  have "(writer_poll_ready Q t fr l :: ('e, _) outcome) = Ok (fr2, l2)"
    using 1(1) 2(1) by (simp add: writer_poll_ready_def fr2_def)
  then have "(feed Q (x # tms) fr l :: ('e, _) outcome) = Ok (fr', l')"
    using 3(1) x start_send_correct [OF fr2(1), where ?'b = 'e] by simp
  then show ?case
    using 3(2,4) quiet_trans [OF q 3(3)] pend fr2(3) x by (intro exI [of _ fr'] exI [of _ l']) (simp add: add.assoc)
qed

text \<open>A flush of the writing half over a sink that takes everything sends exactly the frames it holds.\<close>

lemma writer_flush_all:
  assumes rdy: ready and inv: "writer_inv aitems nitems k fr l" and now: "now < TIME_BOUND"
    and fuel: "length (outgoing_ack l) + length (outgoing_nack l) + length (uitems (l_unconnected l)) + size (pending_frames fr) < n"
  shows "\<exists>p fr' l' ds. (writer_poll_flush n Q K now fr l :: ('e, _) outcome option) = Some (Ok (p, fr', l'))
     \<and> log (rl_frame (fr_frame fr')) = log (rl_frame (fr_frame fr)) @ ds \<and> (\<forall>d \<in> set ds. snd d = peer_addr (rl_peer (fr_frame fr)))
     \<and> frames_in (collect set_part ds) = pending_frames fr
     \<and> (\<forall>fs \<in> set (collect set_part ds). set_fits (unat (peer_mtu (rl_peer (fr_frame fr)))) fs \<and> to_usize (fs_seq_num fs) < 2 ^ 24 - 1)"
proof -
  obtain st l1 where 1: "(writer_empty Q now fr l :: ('e, _) outcome) = Ok (fr\<lparr>fr_buf := [], fr_frame := st\<rparr>, l1)"
    "writer_inv aitems nitems k (fr\<lparr>fr_buf := [], fr_frame := st\<rparr>) l1" "quiet fr l (fr\<lparr>fr_buf := [], fr_frame := st\<rparr>) l1"
    "pending_frames (fr\<lparr>fr_buf := [], fr_frame := st\<rparr>) = pending_frames fr"
    by (rule writer_empty_quiet [OF inv now])
  have i: "layer_inv st l1" "in_flight (rm_reliable (rl_resend st)) = {#}" "acks_wire (aitems (l_incoming_ack l1))"
    "\<forall>a \<in> set (nitems (l_incoming_nack l1)). ack_wire a" using 1(2) by (simp_all add: writer_inv_def)
  have room: "to_usize (seq_num_write_index st) + buffer_len (rl_buf st) + size (in_flight (rm_reliable (rl_resend st))) < 2 ^ 24"
    using i(1,2) by (simp add: layer_inv_def)
  have b: "buffered (rl_buf st) = pending_frames fr" using 1(4) by (simp add: pending_frames_def)
  have fuel': "waiting uitems st l1 + size (in_flight (rm_reliable (rl_resend st))) < n"
    using fuel 1(3) i(2) b size_buffered [of "rl_buf st"] unfolding waiting_def quiet_def by auto
  obtain st' l' ds where 2: "(try_empty n Q K None now st l1 :: ('s, 'qa, 'qn, 'qu, 'qf, 'e) flush_result option) = Some (Ok (Ready (Inr ()), None, st', l'))"
    "layer_inv st' l'" "log (rl_frame st') = log (rl_frame st) @ ds" "\<forall>d \<in> set ds. snd d = peer_addr (rl_peer st)" "flushed_all uitems aitems now st l1 ds st'"
    using flush_sends_all [OF rdy i(1) now room i(3,4) fuel', where 'e = 'e] by blast
  obtain p s where s: "sink_poll_flush K (rl_frame st') = (p, s)" by fastforce
  have "frames_in (collect set_part ds) = pending_frames fr"
    using 2(5) i(2) b by (auto simp: flushed_all_def intro: subset_mset.antisym)
  moreover have "to_usize (fs_seq_num fs) < 2 ^ 24 - 1" if "fs \<in> set (collect set_part ds)" for fs
  proof -
    have "fs_seq_num fs \<in> set (map u24_of [to_usize (seq_num_write_index st)..<to_usize (seq_num_write_index st')])"
      using that 2(5) unfolding flushed_all_def by (metis image_eqI list.set_map)
    then show ?thesis using 2(2) unfolding layer_inv_def by auto
  qed
  moreover have "(writer_poll_flush n Q K now fr l :: ('e, _) outcome option) = Some (Ok (p, fr\<lparr>fr_buf := [], fr_frame := st'\<lparr>rl_frame := s\<rparr>\<rparr>, l'))"
    using 1(1) 2(1) s by (simp add: writer_poll_flush_def rl_poll_flush_def)
  ultimately show ?thesis
    using 2(3-5) 1(3) flush_log [OF s] by (intro exI [of _ p] exI [of _ "fr\<lparr>fr_buf := [], fr_frame := st'\<lparr>rl_frame := s\<rparr>\<rparr>"] exI [of _ l'] exI [of _ ds])
      (simp add: flushed_all_def quiet_def)
qed

end

subsection \<open>The network\<close>

text \<open>
  The bytes of a frame set, and what a network may make of the datagrams that were sent.  It may reorder and repeat
  the frame sets, report errors and mix in other datagrams.  It must bring every frame set at least once, it
  must not forge a decodable datagram, and none of the datagrams may be a malformed acknowledgement, on which
  the reader panics.
\<close>

definition wire_of :: "bytes_api \<Rightarrow> frame_set \<Rightarrow> bytes" where
  "wire_of B fs = (case packet_write B (Connected (FrameSet fs)) of Ok w \<Rightarrow> w | _ \<Rightarrow> [])"

definition network :: "bytes_api \<Rightarrow> datagram list \<Rightarrow> recv_script \<Rightarrow> bool" where
  "network B ds net \<longleftrightarrow> acks_sound B (datagrams net)
     \<and> set (map fst (filter (decodable B) (datagrams net))) = set (map (wire_of B) (collect set_part ds))"

definition wire_ok :: "bytes_api \<Rightarrow> frame_set \<Rightarrow> bool" where
  "wire_ok B fs \<longleftrightarrow> packet_write B (Connected (FrameSet fs)) = Ok (wire_of B fs) \<and> packet_read B (wire_of B fs) = Ok (Connected (FrameSet fs))"

lemma decoded_cases:
  assumes "set (map fst (filter (decodable B) ds)) \<subseteq> set (map (wire_of B) S)" and "\<forall>fs \<in> set S. wire_ok B fs"
  shows "\<exists>fss. connected_packets t (decoded B ds) = map (\<lambda>fs. (t, FrameSet fs)) fss
     \<and> map (wire_of B) fss = map fst (filter (decodable B) ds) \<and> set fss \<subseteq> set S"
  using assms(1)
proof (induction ds)
  case (Cons d ds)
  obtain b a where d: "d = (b, a)" by fastforce
  obtain fss where IH: "connected_packets t (decoded B ds) = map (\<lambda>fs. (t, FrameSet fs)) fss"
     "map (wire_of B) fss = map fst (filter (decodable B) ds)" "set fss \<subseteq> set S"
    using Cons by (auto split: if_splits)
  show ?case
  proof (cases "decodable B d")
    case True
    then obtain fs where fs: "fs \<in> set S" "b = wire_of B fs" using Cons.prems d by auto
    then have "packet_read B b = Ok (Connected (FrameSet fs))" using assms(2) by (simp add: wire_ok_def)
    then show ?thesis using True d fs IH by (intro exI [of _ "fs # fss"]) simp
  next
    case False
    then have "decoded B (d # ds) = decoded B ds" by (auto simp: d decodable_def split: outcome.splits)
    then show ?thesis using False IH by (intro exI [of _ fss]) simp
  qed
qed simp

lemma wire_inj: "wire_ok B fs \<Longrightarrow> wire_ok B gs \<Longrightarrow> wire_of B fs = wire_of B gs \<Longrightarrow> fs = gs"
  by (simp add: wire_ok_def)

lemma network_packets:
  assumes "network B ds net" and "\<forall>fs \<in> set (collect set_part ds). wire_ok B fs"
  obtains fss where "connected_packets t (decoded B (datagrams net)) = map (\<lambda>fs. (t, FrameSet fs)) fss" and "set fss = set (collect set_part ds)"
proof -
  let ?S = "collect set_part ds"
  have n: "set (map fst (filter (decodable B) (datagrams net))) = set (map (wire_of B) ?S)" using assms(1) by (simp add: network_def)
  obtain fss where f: "connected_packets t (decoded B (datagrams net)) = map (\<lambda>fs. (t, FrameSet fs)) fss"
     "map (wire_of B) fss = map fst (filter (decodable B) (datagrams net))" "set fss \<subseteq> set ?S"
    using decoded_cases [OF equalityD1 [OF n] assms(2), of t] by blast
  have "fs \<in> set fss" if fs: "fs \<in> set ?S" for fs
  proof -
    have "wire_of B fs \<in> set (map (wire_of B) fss)" using n f(2) fs by (metis image_eqI list.set_map)
    then obtain gs where "gs \<in> set fss" "wire_of B fs = wire_of B gs" by auto
    then show ?thesis using wire_inj [of B fs gs] assms(2) fs f(3) by blast
  qed
  then show thesis using that [OF f(1)] f(3) by blast
qed

subsection \<open>Routing\<close>

lemma deliver_frame_set_link:
  assumes "deliver Q C t rt l r (FrameSet fs) = Ok (b, rt', l', r', w)"
  shows "l_unconnected l' = l_unconnected l \<and> l_frame_body l' = l_frame_body l"
  using assms by (cases "ch_try_send C (router_tx rt) fs") (auto simp: deliver_def Let_def and_then_eq_Ok split: if_splits)

lemma route_frame_sets:
  assumes "channel_laws C sent_items" and "book_inv seen asked rt l" and "\<not> ch_is_closed C (router_tx rt)"
    and "\<forall>fs \<in> set fss. to_usize (fs_seq_num fs) < 2 ^ 24 - 1"
  shows "\<exists>rt' l'. (route_packets Q C (map (\<lambda>fs. (t, FrameSet fs)) fss) rt l r :: ('e, _) outcome) = Ok (rt', l', r, [])
     \<and> sent_items (router_tx rt') = sent_items (router_tx rt) @ fss \<and> l_unconnected l' = l_unconnected l \<and> l_frame_body l' = l_frame_body l"
  using assms(2-)
proof (induction fss arbitrary: seen rt l)
  case (Cons fs fss)
  have ok: "to_usize (fs_seq_num fs) < 2 ^ 24 - 1" using Cons.prems(3) by simp
  obtain rt1 l1 where 1: "(deliver Q C t rt l r (FrameSet fs) :: ('e, _) outcome) = Ok (True, rt1, l1, r, [])"
    "book_inv (seen @ [fs_seq_num fs]) asked rt1 l1" "\<not> ch_is_closed C (router_tx rt1)"
    "sent_items (router_tx rt1) = sent_items (router_tx rt) @ [fs]"
    by (rule book_arrive [OF Cons.prems(1) ok assms(1) Cons.prems(2)])
  obtain rt' l' where "(route_packets Q C (map (\<lambda>fs. (t, FrameSet fs)) fss) rt1 l1 r :: ('e, _) outcome) = Ok (rt', l', r, [])"
    "sent_items (router_tx rt') = sent_items (router_tx rt1) @ fss" "l_unconnected l' = l_unconnected l1" "l_frame_body l' = l_frame_body l1"
    using Cons.IH [OF 1(2,3)] Cons.prems(3) by auto
  then show ?case using 1 deliver_frame_set_link [OF 1(1)] by (intro exI [of _ rt'] exI [of _ l']) simp
qed simp

subsection \<open>Properties\<close>

text \<open>A link whose numbers are within range: what the writing half may find when it is built.\<close>

definition link_sane :: "('qa \<Rightarrow> (ack_or_nack \<times> instant) list) \<Rightarrow> ('qn \<Rightarrow> ack_or_nack list) \<Rightarrow> ('qa, 'qn, 'qu, 'qf) link \<Rightarrow> bool" where
  "link_sane aitems nitems l \<longleftrightarrow> acks_wire (aitems (l_incoming_ack l)) \<and> (\<forall>a \<in> set (nitems (l_incoming_nack l)). ack_wire a)
     \<and> (\<forall>x \<in> set (outgoing_ack l) \<union> set (outgoing_nack l). to_usize x < 2 ^ 24 - 1)"

text \<open>The writing half of a new connection.\<close>

definition writer_new :: "'s \<Rightarrow> instant \<Rightarrow> peer \<Rightarrow> role \<Rightarrow> codec_config \<Rightarrow> 's reliable_layer fragmenter" where
  "writer_new s t peer role config = fragmented (wrap_reliable s t peer role) (unat (peer_mtu peer)) (config_max_channels config)"

text \<open>Polls of the layers of a source that suffice for an input of the length given and the number of messages in it.\<close>

fun enough_polls :: "nat \<Rightarrow> nat \<Rightarrow> nat \<times> nat \<times> nat \<times> nat \<times> nat \<Rightarrow> nat \<Rightarrow> nat \<Rightarrow> nat \<Rightarrow> bool" where
  "enough_polls len k (n1, n2, n3, n4, n5) n6 n7 nt \<longleftrightarrow>
     len \<le> n1 \<and> n1 \<le> n2 \<and> n2 + k \<le> n3 \<and> n3 + k \<le> n4 \<and> n4 \<le> n5 \<and> n5 \<le> n6 \<and> n6 \<le> n7 \<and> n7 \<le> nt"

text \<open>
  What the source of a connection makes of its input: the bodies go through, and both handlers hand on data that is, on every
  channel, the data of the messages sent on it, in order.
\<close>

definition delivered :: "bytes_api \<Rightarrow> ('c, u16, part_heap) lru_api \<Rightarrow> codec_config \<Rightarrow> ('qa, 'qn, 'qu, 'qf) link_api \<Rightarrow> client_online \<Rightarrow> server_online
    \<Rightarrow> ('qa, 'qn, 'qu, 'qf) link \<Rightarrow> message list \<Rightarrow> frame_set script \<Rightarrow> nat \<times> nat \<times> nat \<times> nat \<times> nat \<Rightarrow> nat \<Rightarrow> nat \<Rightarrow> i64 list \<Rightarrow> bool" where
  "delivered B A config Q client server l ms src ns n6 n7 ts \<longleftrightarrow>
     (\<exists>bodies xs. conn_source B A config ns n6 n7 src = (Ok bodies :: (io_error, _) outcome)
        \<and> (\<exists>outs client' l'. (timed_polls (client_online_poll Q) ts (client, l) bodies :: (io_error, _) outcome) = Ok (outs, (client', l'), [])
             \<and> ready_items outs = map fst xs)
        \<and> (\<exists>outs server' l'. (timed_polls (server_online_poll Q) ts (server, l) bodies :: (io_error, _) outcome) = Ok (outs, (server', l'), [])
             \<and> ready_items outs = map fst xs)
        \<and> (\<forall>c < config_max_channels config. map fst (filter (at_channel c) xs) = map msg_data (filter (of_channel c) ms))
        \<and> (\<forall>x \<in> set xs. \<exists>c < config_max_channels config. at_channel c x))"

lemma writer_new_inv:
  assumes "28 \<le> unat (peer_mtu peer)" and "link_sane aitems nitems l" and "k < 2 ^ 24"
  shows "writer_inv aitems nitems k (writer_new s t peer role config) l"
proof -
  have "rm_inv (resend_map_new t role peer rfc6298_new)" by (rule resend_map_new_inv)
  then show ?thesis
    using assms
    by (simp add: writer_inv_def link_sane_def writer_new_def fragmented_def wrap_reliable_def layer_inv_def below_def resend_map_new_def
        send_buffer_new_def buffer_sorted_def buffered_def fits_def FRAME_SET_HEADER_SIZE_def buffer_len_def pending_frames_def)
qed

lemma writer_new_frames:
  assumes "transmissible config (writer_new s t peer role config) ms"
  shows "length (all_frames (writer_new s t peer role config) ms) < 2 ^ 24" and "fr_mtu (writer_new s t peer role config) = unat (peer_mtu peer)"
  using assms all_frames_rel [of "writer_new s t peer role config" ms] unfolding transmissible_def by (simp_all add: writer_new_def fragmented_def)

lemma writer_sends:
  assumes env: "reliable_env K log Q uitems ucap aitems acap nitems ncap True" and mtu: "28 \<le> unat (peer_mtu peer)"
    and ms: "transmissible config (writer_new s t peer role config) (map snd tms)"
    and times: "\<forall>x \<in> set tms. fst x < TIME_BOUND" "now < TIME_BOUND" and link: "link_sane aitems nitems l"
    and fuel: "length (outgoing_ack l) + length (outgoing_nack l) + length (uitems (l_unconnected l))
        + length (all_frames (writer_new s t peer role config) (map snd tms)) < n"
  shows "\<exists>fr1 l1 p fr2 l2 ds. (feed Q tms (writer_new s t peer role config) l :: ('e, _) outcome) = Ok (fr1, l1)
     \<and> (writer_poll_flush n Q K now fr1 l1 :: ('e, _) outcome option) = Some (Ok (p, fr2, l2))
     \<and> log (rl_frame (fr_frame fr2)) = log s @ ds \<and> (\<forall>d \<in> set ds. snd d = peer_addr peer)
     \<and> frames_in (collect set_part ds) = mset (all_frames (writer_new s t peer role config) (map snd tms))
     \<and> (\<forall>fs \<in> set (collect set_part ds). set_fits (unat (peer_mtu peer)) fs \<and> to_usize (fs_seq_num fs) < 2 ^ 24 - 1)"
proof -
  let ?fr = "writer_new s t peer role config"
  let ?F = "all_frames ?fr (map snd tms)"
  have new: "rl_frame (fr_frame ?fr) = s" "rl_peer (fr_frame ?fr) = peer" "pending_frames ?fr = {#}"
    by (simp_all add: writer_new_def fragmented_def wrap_reliable_def pending_frames_def send_buffer_new_def buffered_def)
  have inv: "writer_inv aitems nitems (length ?F + 0) ?fr l" using writer_new_inv [OF mtu link] writer_new_frames(1) [OF ms] by simp
  have "sendable_all ?fr (map snd tms)" using ms by (simp add: transmissible_def)
  from reliable_env.feed_ok [OF env inv this times(1), where 'e = 'e] obtain fr1 l1 where
    1: "(feed Q tms ?fr l :: ('e, _) outcome) = Ok (fr1, l1)" "writer_inv aitems nitems 0 fr1 l1" "quiet ?fr l fr1 l1" "pending_frames fr1 = mset ?F"
    unfolding new by auto
  have "length (outgoing_ack l1) + length (outgoing_nack l1) + length (uitems (l_unconnected l1)) + size (pending_frames fr1) < n"
    using fuel 1(3,4) by (auto simp: quiet_def)
  from reliable_env.writer_flush_all [OF env TrueI 1(2) times(2) this, where 'e = 'e] obtain p fr2 l2 ds where
    "(writer_poll_flush n Q K now fr1 l1 :: ('e, _) outcome option) = Some (Ok (p, fr2, l2))"
    "log (rl_frame (fr_frame fr2)) = log (rl_frame (fr_frame fr1)) @ ds" "\<forall>d \<in> set ds. snd d = peer_addr (rl_peer (fr_frame fr1))"
    "frames_in (collect set_part ds) = pending_frames fr1"
    "\<forall>fs \<in> set (collect set_part ds). set_fits (unat (peer_mtu (rl_peer (fr_frame fr1)))) fs \<and> to_usize (fs_seq_num fs) < 2 ^ 24 - 1" by blast
  then show ?thesis
    using 1(1,3,4) new by (intro exI [of _ fr1] exI [of _ l1] exI [of _ p] exI [of _ fr2] exI [of _ l2] exI [of _ ds]) (simp add: quiet_def)
qed

context bytes_laws
begin

lemma frame_set_wire:
  assumes "set_fits mtu fs" and "to_usize (fs_seq_num fs) < 2 ^ 24 - 1" and "\<forall>f \<in> set (fs_set fs). frame_ok f"
  shows "wire_ok B fs \<and> length (wire_of B fs) \<le> mtu"
proof -
  have ok: "connected_ok (FrameSet fs)" using assms by (simp add: set_fits_def u24_ok_iff)
  then obtain w where w: "packet_write B (Connected (FrameSet fs)) = Ok w" "packet_read B w = Ok (Connected (FrameSet fs))"
    using connected_round_trip by fastforce
  moreover obtain v where "frame_set_write B fs = Ok v" "length v = 3 + frames_size (fs_set fs)"
    using frame_set_round_trip [of fs] ok by (auto simp: frames_size_def)
  then have "length w = 4 + frames_size (fs_set fs)"
    using w(1) by (auto simp: Let_def and_then_eq_Ok index_def split: if_splits)
  ultimately show ?thesis using assms(1) by (simp add: wire_ok_def wire_of_def set_fits_def FRAME_SET_HEADER_SIZE_def)
qed

end

lemma received_all:
  assumes "ready_items s = fss" and "set fss = set S" and "frames_in S = mset F"
  shows "set (received_frames s) = set F"
proof -
  have "set F = set_mset (frames_in S)" using assms(3) by simp
  also have "\<dots> = (\<Union>fs \<in> set S. set (fs_set fs))" by (simp add: frames_in_def)
  finally show ?thesis using assms(1,2) by (simp add: received_frames_def)
qed

lemma reader_receives:
  assumes B: "bytes_laws B" and C: "channel_laws C sent_items" and net: "network B ds net" and wire: "\<forall>fs \<in> set (collect set_part ds). wire_ok B fs"
    and seq: "\<forall>fs \<in> set (collect set_part ds). to_usize (fs_seq_num fs) < 2 ^ 24 - 1"
    and tx: "\<not> ch_is_closed C tx" "sent_items tx = []" and l: "outgoing_ack l = []" "outgoing_nack l = []"
  shows "\<exists>outs fd rt l'. (framed_polls (length net) B (framed_new k mtu) net :: ('e, _) outcome) = Ok (outs, fd, [])
     \<and> (route_packets Q C (connected_packets t (ready_items outs)) (route_new tx) l r :: ('e, _) outcome) = Ok (rt, l', r, [])
     \<and> set (sent_items (router_tx rt)) = set (collect set_part ds) \<and> l_unconnected l' = l_unconnected l \<and> l_frame_body l' = l_frame_body l"
proof -
  have new: "held_ok (framed_new k mtu)" "held (framed_new k mtu) = []" by (simp_all add: framed_new_def held_def held_ok_def)
  have "readable B (datagrams net)" using net by (simp add: network_def acks_sound_readable [OF B])
  from framed_polls_ok [OF new this, of "length net", where 'e = 'e] obtain outs fd where
    1: "(framed_polls (length net) B (framed_new k mtu) net :: ('e, _) outcome) = Ok (outs, fd, [])" "ready_items outs = decoded B (datagrams net)" by auto
  obtain fss where f: "connected_packets t (decoded B (datagrams net)) = map (\<lambda>fs. (t, FrameSet fs)) fss" "set fss = set (collect set_part ds)"
    by (rule network_packets [OF net wire])
  have "book_inv [] [] (route_new tx) l" using l by (simp add: book_inv_def route_new_def)
  from route_frame_sets [OF C this, of fss Q t r, where 'e = 'e] obtain rt l' where
    "(route_packets Q C (map (\<lambda>fs. (t, FrameSet fs)) fss) (route_new tx) l r :: ('e, _) outcome) = Ok (rt, l', r, [])"
    "sent_items (router_tx rt) = fss" "l_unconnected l' = l_unconnected l" "l_frame_body l' = l_frame_body l"
    using tx seq f(2) by (auto simp: route_new_def)
  then show ?thesis using 1 f by auto
qed

lemma source_of_sets:
  assumes laws: "lru_laws A ok" "online_env Q uitems ucap fitems fcap"
    and config: "0 < max_parted_count config" "0 < config_max_channels config" "config_max_channels config < 256"
    and ms: "transmissible config (writer_new s t peer role config) ms"
    and items: "set (ready_items src) = set S" "frames_in S = mset (all_frames (writer_new s t peer role config) ms)"
    and src: "no_end src" "enough_polls (length src) (length ms) ns n6 n7 (length ts)"
    and l: "ucap (l_unconnected l) = None" "fcap (l_frame_body l) = None" and server: "so_state server \<noteq> WaitConnRequest"
  shows "delivered B A config Q client server l ms src ns n6 n7 ts"
proof -
  obtain n1 n2 n3 n4 n5 where ns: "ns = (n1, n2, n3, n4, n5)" by (cases ns)
  have "set (received_frames src) = set (all_frames (writer_new s t peer role config) ms)" by (rule received_all [OF refl items])
  then show ?thesis
    using source_delivers [OF laws(1) config ms [unfolded writer_new_def] _ src(1) _ _ _ _ _ _ _ _ laws(2) l server, where 'e = io_error] src(2)
    unfolding delivered_def ns writer_new_def by simp
qed

text \<open>
  C1: messages cross the wire.  Reliable ordered messages are fed to the writing half of a
  new connection whenever it is ready, and it is flushed over a sink that takes everything.  Then feeding and flushing succeed,
  every datagram goes to the peer, and every frame set of them fits the MTU as bytes and is read back from these
  bytes.  Let the network reorder and repeat the datagrams, lose none of the frame sets for good, and mix in waiting, errors of the
  socket and undecodable datagrams other than malformed acknowledgements.  Then the socket of the peer decodes what arrives and its route hands on the
  frame sets without a panic, and the source of the connection delivers on every channel exactly the data of the messages sent on it,
  in order, and nothing else: to a client in any state of its handshake, and to a server from the request of the client on.

  The conditions are these.  The messages are \<open>transmissible\<close>: their channels exist, their data is not empty and does not start with the id of
  a control message, none has more parts than the receiver takes, no more messages are split in total than the receiver
  can have in progress, and the 24-bit indices suffice; and they are not sequenced.  The MTU is from 28 to 8190 and the clock readings
  are below \<open>TIME_BOUND\<close>.  No datagram the network brings is an ACK or NACK that is cut before its record count or has a range that is
  inverted or spans all sequence numbers, since on those the reader panics (\<open>packet_read_panics_iff\<close>), and no decodable
  datagram is forged.
\<close>

theorem messages_transferred:
  fixes s :: 's
  assumes laws: "lru_laws A ok" "bytes_laws B" "channel_laws C sent_items" "reliable_env K log Q uitems ucap aitems acap nitems ncap True"
      "online_env Q' uitems' ucap' fitems' fcap'"
    and config: "0 < max_parted_count config" "0 < config_max_channels config" "config_max_channels config < 256"
    and mtu: "28 \<le> unat (peer_mtu peer)" "unat (peer_mtu peer) < 8191"
    and ms: "transmissible config (writer_new s t peer role config) (map snd tms)" "\<forall>x \<in> set tms. \<not> is_sequenced (msg_reliability (snd x))"
    and times: "\<forall>x \<in> set tms. fst x < TIME_BOUND" "now < TIME_BOUND" and link: "link_sane aitems nitems l"
    and fuel: "length (outgoing_ack l) + length (outgoing_nack l) + length (uitems (l_unconnected l))
        + length (all_frames (writer_new s t peer role config) (map snd tms)) < n"
    and tx: "\<not> ch_is_closed C tx" "sent_items tx = []" and lr: "outgoing_ack lr = []" "outgoing_nack lr = []"
      "ucap' (l_unconnected lr) = None" "fcap' (l_frame_body lr) = None"
    and server: "so_state server \<noteq> WaitConnRequest"
  shows "\<exists>fr1 l1 p fr2 l2 ds. (feed Q tms (writer_new s t peer role config) l :: ('e, _) outcome) = Ok (fr1, l1)
     \<and> (writer_poll_flush n Q K now fr1 l1 :: ('e, _) outcome option) = Some (Ok (p, fr2, l2))
     \<and> log (rl_frame (fr_frame fr2)) = log s @ ds \<and> (\<forall>d \<in> set ds. snd d = peer_addr peer)
     \<and> (\<forall>fs \<in> set (collect set_part ds). wire_ok B fs \<and> length (wire_of B fs) \<le> unat (peer_mtu peer))
     \<and> (\<forall>net. network B ds net \<longrightarrow> (\<exists>outs fd rt l3. (framed_polls (length net) B (framed_new k mtu') net :: ('e, _) outcome) = Ok (outs, fd, [])
          \<and> (route_packets Q' C (connected_packets t' (ready_items outs)) (route_new tx) lr r :: ('e, _) outcome) = Ok (rt, l3, r, [])
          \<and> (\<forall>src ns n6 n7 ts. ready_items src = sent_items (router_tx rt) \<longrightarrow> no_end src \<longrightarrow> enough_polls (length src) (length tms) ns n6 n7 (length ts) \<longrightarrow>
              delivered B A config Q' client server l3 (map snd tms) src ns n6 n7 ts)))"
proof -
  let ?fr = "writer_new s t peer role config" and ?ms = "map snd tms"
  let ?F = "all_frames ?fr ?ms"
  obtain fr1 l1 p fr2 l2 ds where 1: "(feed Q tms ?fr l :: ('e, _) outcome) = Ok (fr1, l1)"
    "(writer_poll_flush n Q K now fr1 l1 :: ('e, _) outcome option) = Some (Ok (p, fr2, l2))"
    "log (rl_frame (fr_frame fr2)) = log s @ ds" "\<forall>d \<in> set ds. snd d = peer_addr peer" "frames_in (collect set_part ds) = mset ?F"
    "\<forall>fs \<in> set (collect set_part ds). set_fits (unat (peer_mtu peer)) fs \<and> to_usize (fs_seq_num fs) < 2 ^ 24 - 1"
    using writer_sends [OF laws(4) mtu(1) ms(1) times link fuel, where 'e = 'e] by (elim exE conjE) (rule that)
  have "frame_ok f" if "fs \<in> set (collect set_part ds)" "f \<in> set (fs_set fs)" for fs f
  proof -
    have "f \<in># mset ?F" unfolding 1(5) [symmetric] using that by (auto simp: frames_in_def)
    then show ?thesis using all_frames_ok [of ?fr ?ms f] ms mtu(2) writer_new_frames(2) [OF ms(1)] by (auto simp: transmissible_def)
  qed
  then have wire: "\<forall>fs \<in> set (collect set_part ds). wire_ok B fs \<and> length (wire_of B fs) \<le> unat (peer_mtu peer)"
    using bytes_laws.frame_set_wire [OF laws(2)] 1(6) by blast
  have reader: "\<exists>outs fd rt l3. (framed_polls (length net) B (framed_new k mtu') net :: ('e, _) outcome) = Ok (outs, fd, [])
      \<and> (route_packets Q' C (connected_packets t' (ready_items outs)) (route_new tx) lr r :: ('e, _) outcome) = Ok (rt, l3, r, [])
      \<and> set (sent_items (router_tx rt)) = set (collect set_part ds) \<and> ucap' (l_unconnected l3) = None \<and> fcap' (l_frame_body l3) = None"
    if "network B ds net" for net
    using reader_receives [OF laws(2,3) that _ _ tx lr(1,2), where 'e = 'e] wire 1(6) lr(3,4) by metis
  show ?thesis
    by (rule exI [of _ fr1], rule exI [of _ l1], rule exI [of _ p], rule exI [of _ fr2], rule exI [of _ l2], rule exI [of _ ds],
        intro conjI 1(1-4) wire, intro allI impI, drule reader, elim exE conjE, (rule exI)+, rule conjI, assumption, rule conjI, assumption,
        intro allI impI, rule source_of_sets [OF laws(1,5) config ms(1) _ 1(5) _ _ _ _ server]) simp_all
qed

text \<open>A network that delivers everything backwards first and then once more.\<close>

definition echo :: "bytes_api \<Rightarrow> datagram list \<Rightarrow> recv_script" where
  "echo B ds = map (\<lambda>fs. Ready (Inr (wire_of B fs, V4 9 9))) (rev (collect set_part ds) @ collect set_part ds)"

lemma ready_items_some: "ready_items (map (\<lambda>x. Ready (Some x)) xs) = xs"
  by (induction xs) simp_all

lemma datagrams_ready: "datagrams (map (\<lambda>x. Ready (Inr (f x))) xs) = map f xs"
  by (induction xs) simp_all

lemma echo_network:
  assumes "bytes_laws B" and "\<forall>fs \<in> set (collect set_part ds). wire_ok B fs"
  shows "network B ds (echo B ds)"
proof -
  have "filter (decodable B) (datagrams (echo B ds)) = datagrams (echo B ds)"
    by (rule filter_True) (use assms(2) in \<open>auto simp: echo_def datagrams_ready decodable_def wire_ok_def simp del: map_append\<close>)
  moreover have "acks_sound B (datagrams (echo B ds))"
    using assms(2) by (auto simp flip: acks_sound_readable [OF assms(1)] simp: echo_def datagrams_ready readable_def list_all_iff wire_ok_def simp del: map_append)
  ultimately show ?thesis by (auto simp: network_def echo_def datagrams_ready simp del: map_append)
qed

definition small_peer :: peer where
  "small_peer = sample_peer\<lparr>peer_mtu := 40\<rparr>"

lemma small_writer:
  "28 \<le> unat (peer_mtu small_peer)" "unat (peer_mtu small_peer) < 8191"
  "transmissible codec_config_default (writer_new s 0 small_peer (Client 0) codec_config_default) sample_messages"
  "length (all_frames (writer_new s 0 small_peer (Client 0) codec_config_default) sample_messages) = 4"
proof -
  have "writer_new s 0 small_peer (Client 0) codec_config_default = fragmented (wrap_reliable s 0 small_peer (Client 0)) 40 (config_max_channels codec_config_default)"
    by (simp add: writer_new_def small_peer_def)
  then show "transmissible codec_config_default (writer_new s 0 small_peer (Client 0) codec_config_default) sample_messages"
    "length (all_frames (writer_new s 0 small_peer (Client 0) codec_config_default) sample_messages) = 4"
    by (simp_all add: sample_transmissible)
qed (simp_all add: small_peer_def)

lemma new_link:
  "link_sane snd snd (link_new sample_link_api role peer)" "outgoing_ack (link_new sample_link_api role peer) = []"
  "outgoing_nack (link_new sample_link_api role peer) = []" "l_unconnected (link_new sample_link_api role peer) = (None, [])"
  "l_frame_body (link_new sample_link_api role peer) = (None, [])"
  by (simp_all add: link_sane_def link_new_def sample_link_api_def list_queue_def acks_wire_def)

theorem messages_transferred_witness:
  "\<exists>fr1 l1 p fr2 l2 outs fd rt l3 src bodies. feed sample_link_api (map (Pair 5) sample_messages) (writer_new [] 0 small_peer (Client 0) codec_config_default)
         (link_new sample_link_api (Client 0) small_peer) = (Ok (fr1, l1) :: (io_error, _) outcome)
     \<and> writer_poll_flush 10 sample_link_api log_sink 7 fr1 l1 = Some (Ok (p, fr2, l2) :: (io_error, _) outcome)
     \<and> (framed_polls (length (echo std_bytes (rl_frame (fr_frame fr2)))) std_bytes (framed_new () 1500) (echo std_bytes (rl_frame (fr_frame fr2))) :: (io_error, _) outcome)
         = Ok (outs, fd, [])
     \<and> route_packets sample_link_api list_channel (connected_packets 8 (ready_items outs)) (route_new (False, []))
         (link_new sample_link_api (Client 9) sample_peer) (reactor_new :: unit reactor) = (Ok (rt, l3, reactor_new, []) :: (io_error, _) outcome)
     \<and> src = map (\<lambda>fs. Ready (Some fs)) (snd (router_tx rt))
     \<and> conn_source std_bytes list_lru codec_config_default (length src, length src, length src + 2, length src + 4, length src + 4) (length src + 4) (length src + 4) src
         = (Ok bodies :: (io_error, _) outcome)
     \<and> (\<exists>outs client' l'. (timed_polls (client_online_poll sample_link_api) (replicate (length src + 4) 0)
            (\<lparr> co_state = WaitConnRes, co_addr = V4 1 2, co_role = Client 9 \<rparr>, l3) bodies :: (io_error, _) outcome) = Ok (outs, (client', l'), [])
          \<and> ready_items outs = [map word_of_nat [100..<140], [200, 201]])"
proof -
  let ?l = "link_new sample_link_api (Client 0) small_peer" and ?lr = "link_new sample_link_api (Client 9) sample_peer"
  let ?fr = "writer_new ([] :: datagram list) 0 small_peer (Client 0) codec_config_default" and ?tms = "map (Pair 5) sample_messages :: (instant \<times> message) list"
  have c: "0 < max_parted_count codec_config_default" "0 < config_max_channels codec_config_default" "config_max_channels codec_config_default < 256"
    by (simp_all add: codec_config_default_def)
  have ms: "map snd ?tms = sample_messages" by (simp add: comp_def)
  have tr: "transmissible codec_config_default ?fr (map snd ?tms)" unfolding ms by (rule small_writer)
  have ord: "\<forall>x \<in> set ?tms. \<not> is_sequenced (msg_reliability (snd x))" by (simp add: sample_messages_def message_new_def)
  have times: "\<forall>x \<in> set ?tms. fst x < TIME_BOUND" "7 < TIME_BOUND" by (simp_all add: TIME_BOUND_def)
  have fuel: "length (outgoing_ack ?l) + length (outgoing_nack ?l) + length (snd (l_unconnected ?l)) + length (all_frames ?fr (map snd ?tms)) < 10"
    unfolding ms small_writer(4) by (simp add: new_link)
  have tx: "\<not> ch_is_closed list_channel (False, [] :: frame_set list)" "snd (False, [] :: frame_set list) = []" by (simp_all add: list_channel_def)
  have lr: "outgoing_ack ?lr = []" "outgoing_nack ?lr = []" "fst (l_unconnected ?lr) = None" "fst (l_frame_body ?lr) = None" by (simp_all add: new_link)
  let ?server = "(server_handle_online (Server 3) sample_peer)\<lparr>so_state := ServerConnected\<rparr>"
  have srv: "so_state ?server \<noteq> WaitConnRequest" by simp
  let ?client = "\<lparr> co_state = WaitConnRes, co_addr = V4 1 2, co_role = Client 9 \<rparr>"
  note transfer = messages_transferred [OF list_lru.lru_laws_axioms std.bytes_laws_axioms list_channel.channel_laws_axioms log_env.reliable_env_axioms
      sample_env.online_env_axioms c small_writer(1,2) tr ord times new_link(1) fuel tx lr srv, of "()" 1500 8 "reactor_new :: unit reactor" ?client, where 'e = io_error]
  obtain fr1 l1 p fr2 l2 ds where 1: "feed sample_link_api ?tms ?fr ?l = (Ok (fr1, l1) :: (io_error, _) outcome)"
    "writer_poll_flush 10 sample_link_api log_sink 7 fr1 l1 = Some (Ok (p, fr2, l2) :: (io_error, _) outcome)" "rl_frame (fr_frame fr2) = [] @ ds"
    "\<forall>fs \<in> set (collect set_part ds). wire_ok std_bytes fs \<and> length (wire_of std_bytes fs) \<le> unat (peer_mtu small_peer)"
    and 2: "\<forall>net. network std_bytes ds net \<longrightarrow> (\<exists>outs fd rt l3. (framed_polls (length net) std_bytes (framed_new () 1500) net :: (io_error, _) outcome) = Ok (outs, fd, [])
          \<and> (route_packets sample_link_api list_channel (connected_packets 8 (ready_items outs)) (route_new (False, [])) ?lr (reactor_new :: unit reactor) :: (io_error, _) outcome)
             = Ok (rt, l3, reactor_new, [])
          \<and> (\<forall>src ns n6 n7 ts. ready_items src = snd (router_tx rt) \<longrightarrow> no_end src \<longrightarrow> enough_polls (length src) (length ?tms) ns n6 n7 (length ts) \<longrightarrow>
               delivered std_bytes list_lru codec_config_default sample_link_api ?client ?server l3 (map snd ?tms) src ns n6 n7 ts))"
    using transfer by (elim exE conjE) (rule that)
  have ds: "rl_frame (fr_frame fr2) = ds" using 1(3) by simp
  have "network std_bytes ds (echo std_bytes ds)" using 1(4) by (intro echo_network std.bytes_laws_axioms) blast
  with 2 obtain outs fd rt l3 where 3: "(framed_polls (length (echo std_bytes ds)) std_bytes (framed_new () 1500) (echo std_bytes ds) :: (io_error, _) outcome) = Ok (outs, fd, [])"
    "(route_packets sample_link_api list_channel (connected_packets 8 (ready_items outs)) (route_new (False, [])) ?lr (reactor_new :: unit reactor) :: (io_error, _) outcome)
       = Ok (rt, l3, reactor_new, [])"
    and 4: "\<forall>src ns n6 n7 ts. ready_items src = snd (router_tx rt) \<longrightarrow> no_end src \<longrightarrow> enough_polls (length src) (length ?tms) ns n6 n7 (length ts) \<longrightarrow>
        delivered std_bytes list_lru codec_config_default sample_link_api ?client ?server l3 (map snd ?tms) src ns n6 n7 ts" by blast
  define src where "src = map (\<lambda>fs. Ready (Some fs)) (snd (router_tx rt))"
  let ?n = "length src"
  have s: "ready_items src = snd (router_tx rt)" "no_end src" by (simp_all add: src_def ready_items_some no_end_def image_iff)
  have "enough_polls ?n (length ?tms) (?n, ?n, ?n + 2, ?n + 4, ?n + 4) (?n + 4) (?n + 4) (length (replicate (?n + 4) (0 :: i64)))"
    by (simp add: sample_messages_def)
  with 4 s have "delivered std_bytes list_lru codec_config_default sample_link_api ?client ?server l3 (map snd ?tms) src (?n, ?n, ?n + 2, ?n + 4, ?n + 4) (?n + 4) (?n + 4) (replicate (?n + 4) 0)"
    by blast
  then obtain bodies xs outs' client' l' where 5: "conn_source std_bytes list_lru codec_config_default (?n, ?n, ?n + 2, ?n + 4, ?n + 4) (?n + 4) (?n + 4) src = (Ok bodies :: (io_error, _) outcome)"
    "(timed_polls (client_online_poll sample_link_api) (replicate (?n + 4) 0) (?client, l3) bodies :: (io_error, _) outcome) = Ok (outs', (client', l'), [])"
    "ready_items outs' = map fst xs"
    "\<forall>c < config_max_channels codec_config_default. map fst (filter (at_channel c) xs) = map msg_data (filter (of_channel c) sample_messages)"
    "\<forall>x \<in> set xs. \<exists>c < config_max_channels codec_config_default. at_channel c x"
    unfolding delivered_def ms by (elim exE conjE) (rule that)
  have "map fst xs = [map word_of_nat [100..<140], [200, 201]]"
    by (rule sample_single_channel) (use 5(4,5) in \<open>simp_all add: codec_config_default_def\<close>)
  then have "\<exists>outs client' l'. (timed_polls (client_online_poll sample_link_api) (replicate (?n + 4) 0) (?client, l3) bodies :: (io_error, _) outcome) = Ok (outs, (client', l'), [])
        \<and> ready_items outs = [map word_of_nat [100..<140], [200, 201]]" using 5(2,3) by (intro exI conjI) simp_all
  then show ?thesis using 1(1,2) 3 5(1) src_def unfolding ds [symmetric]
    by (intro exI [of _ fr1] exI [of _ l1] exI [of _ p] exI [of _ fr2] exI [of _ l2] exI [of _ outs] exI [of _ fd] exI [of _ rt] exI [of _ l3]
        exI [of _ src] exI [of _ bodies] conjI)
qed

end
