(* ===== verification/Xdp_Headers.thy ===== *)
theory Xdp_Headers
  imports Prelude
begin

text \<open>
  The headers the packet filter reads: the bounded buffer of \<open>src/xdp/ebpf/src/buffer.rs\<close>, the network order
  integers of \<open>zerocopy.rs\<close> and the Ethernet, IPv4, IPv6 and UDP headers with their bit fields of
  \<open>src/xdp/ebpf/src/inet/\<close>.  Structures made by \<open>define_inet_type!\<close> are the bytes of their fields in order, so
  \<open>decode\<close> cuts them from the buffer and \<open>as_bytes\<close> puts them together.
\<close>

unbundle bit_operations_syntax

subsection \<open>Buffers\<close>

text \<open>A slice of the frame: its address, its bytes, and the end of the frame.\<close>

record decode_buffer =
  db_start :: nat
  db_bytes :: bytes
  db_end :: nat

datatype decoder_error = UnexpectedEof nat | InvariantViolation string

definition buffer_new :: "nat \<Rightarrow> bytes \<Rightarrow> decode_buffer" where
  "buffer_new start bytes = \<lparr> db_start = start, db_bytes = bytes, db_end = start + length bytes \<rparr>"

definition new_checked :: "nat \<Rightarrow> bytes \<Rightarrow> nat \<Rightarrow> (decoder_error, decode_buffer) outcome" where
  "new_checked start bytes bound = (if bound < start then Err (UnexpectedEof 0) else Ok \<lparr> db_start = start, db_bytes = bytes, db_end = bound \<rparr>)"

definition db_len :: "decode_buffer \<Rightarrow> nat" where
  "db_len b = length (db_bytes b)"

definition db_is_empty :: "decode_buffer \<Rightarrow> bool" where
  "db_is_empty b \<longleftrightarrow> db_bytes b = []"

definition ensure_len :: "decode_buffer \<Rightarrow> nat \<Rightarrow> (decoder_error, unit) outcome" where
  "ensure_len b n = (if db_len b < n then Err (UnexpectedEof n) else Ok ())"

definition split_at_mut :: "bytes \<Rightarrow> nat \<Rightarrow> (decoder_error, bytes \<times> bytes) outcome" where
  "split_at_mut bs n = (if n \<le> length bs then Ok (take n bs, drop n bs) else Panic)"

definition decode_slice :: "decode_buffer \<Rightarrow> nat \<Rightarrow> (decoder_error, decode_buffer \<times> decode_buffer) outcome" where
  "decode_slice b n =
     and_then (ensure_len b n) (\<lambda>_.
     and_then (split_at_mut (db_bytes b) n) (\<lambda>(slice, remaining).
     and_then (new_checked (db_start b) slice (db_end b)) (\<lambda>slice.
     and_then (new_checked (db_start b + n) remaining (db_end b)) (\<lambda>remaining.
       Ok (slice, remaining)))))"

definition buffer_ok :: "decode_buffer \<Rightarrow> bool" where
  "buffer_ok b \<longleftrightarrow> db_start b + length (db_bytes b) \<le> db_end b"

lemma decode_slice_eq:
  assumes "buffer_ok b"
  shows "decode_slice b n = (if length (db_bytes b) < n then Err (UnexpectedEof n)
    else Ok (\<lparr> db_start = db_start b, db_bytes = take n (db_bytes b), db_end = db_end b \<rparr>,
             \<lparr> db_start = db_start b + n, db_bytes = drop n (db_bytes b), db_end = db_end b \<rparr>))"
  using assms by (auto simp: decode_slice_def split_at_mut_def ensure_len_def db_len_def new_checked_def buffer_ok_def)

subsection \<open>Integers in network order\<close>

text \<open>
  The two bytes of a \<open>U16\<close>.  \<open>le\<close> says whether the host is little-endian: \<open>get_be\<close> reads the bytes in host order,
  and \<open>to_be\<close> swaps them on a little-endian host.
\<close>

datatype net16 = Net16 u8 u8

definition from_be_bytes16 :: "u8 \<Rightarrow> u8 \<Rightarrow> u16" where
  "from_be_bytes16 b0 b1 = push_bit 8 (ucast b0) OR ucast b1"

definition from_ne_bytes16 :: "bool \<Rightarrow> u8 \<Rightarrow> u8 \<Rightarrow> u16" where
  "from_ne_bytes16 le b0 b1 = (if le then from_be_bytes16 b1 b0 else from_be_bytes16 b0 b1)"

definition to_be16 :: "bool \<Rightarrow> u16 \<Rightarrow> u16" where
  "to_be16 le v = (if le then push_bit 8 v OR drop_bit 8 v else v)"

fun u16_get_be :: "bool \<Rightarrow> net16 \<Rightarrow> u16" where
  "u16_get_be le (Net16 b0 b1) = from_ne_bytes16 le b0 b1"

definition u16_get :: "bool \<Rightarrow> net16 \<Rightarrow> u16" where
  "u16_get le x = to_be16 le (u16_get_be le x)"

definition u16_set :: "u16 \<Rightarrow> net16" where
  "u16_set v = Net16 (ucast (drop_bit 8 v)) (ucast v)"

definition u16_set_be :: "bool \<Rightarrow> u16 \<Rightarrow> net16" where
  "u16_set_be le v = (if le then Net16 (ucast v) (ucast (drop_bit 8 v)) else Net16 (ucast (drop_bit 8 v)) (ucast v))"

text \<open>\<open>Ord for U16\<close>, and its comparison with a native integer.\<close>

definition u16_less :: "bool \<Rightarrow> net16 \<Rightarrow> net16 \<Rightarrow> bool" where
  "u16_less le x y \<longleftrightarrow> u16_get_be le x < u16_get_be le y"

definition u16_less_native :: "bool \<Rightarrow> net16 \<Rightarrow> u16 \<Rightarrow> bool" where
  "u16_less_native le x v \<longleftrightarrow> u16_get le x < v"

lemma u16_get_eq: "u16_get le (Net16 b0 b1) = from_be_bytes16 b0 b1"
  by (rule bit_word_eqI) (auto simp: u16_get_def to_be16_def from_ne_bytes16_def from_be_bytes16_def bit_simps dest: bit_imp_le_length)

lemma u16_get_set [simp]: "u16_get le (u16_set v) = v"
  unfolding u16_set_def u16_get_eq by (rule bit_word_eqI) (auto simp: from_be_bytes16_def bit_simps dest: bit_imp_le_length)

subsection \<open>Ethernet\<close>

record eth_header =
  eth_destination :: bytes
  eth_source :: bytes
  ethertype :: "u8 \<times> u8"

definition ETH_IPV4 :: "u8 \<times> u8" where "ETH_IPV4 = (0x08, 0x00)"
definition ETH_ARP :: "u8 \<times> u8" where "ETH_ARP = (0x08, 0x06)"
definition ETH_IPV6 :: "u8 \<times> u8" where "ETH_IPV6 = (0x86, 0xDD)"
definition ETH_PPP :: "u8 \<times> u8" where "ETH_PPP = (0x88, 0x0B)"
definition ETH_VLAN :: "u8 \<times> u8" where "ETH_VLAN = (0x88, 0xA8)"

definition MAC_LEN :: nat where "MAC_LEN = 48 div 8"

definition eth_bytes :: "eth_header \<Rightarrow> bytes" where
  "eth_bytes h = eth_destination h @ eth_source h @ [fst (ethertype h), snd (ethertype h)]"

text \<open>The structure at the start of a buffer.\<close>

definition eth_from_bytes :: "bytes \<Rightarrow> eth_header" where
  "eth_from_bytes v = \<lparr> eth_destination = take MAC_LEN v, eth_source = take MAC_LEN (drop MAC_LEN v), ethertype = (v ! 12, v ! 13) \<rparr>"

definition inet_decode :: "nat \<Rightarrow> (bytes \<Rightarrow> 'h) \<Rightarrow> decode_buffer \<Rightarrow> (decoder_error, 'h \<times> decode_buffer) outcome" where
  "inet_decode size_of from_bytes b = and_then (decode_slice b size_of) (\<lambda>(v, b). Ok (from_bytes (db_bytes v), b))"

definition eth_decode :: "decode_buffer \<Rightarrow> (decoder_error, eth_header \<times> decode_buffer) outcome" where
  "eth_decode = inet_decode 14 eth_from_bytes"

definition eth_swap :: "eth_header \<Rightarrow> eth_header" where
  "eth_swap h = h\<lparr>eth_source := eth_destination h, eth_destination := eth_source h\<rparr>"

subsection \<open>IP protocol numbers\<close>

definition HOPOPT :: u8 where "HOPOPT = 0"
definition ICMP :: u8 where "ICMP = 1"
definition IPV4 :: u8 where "IPV4 = 4"
definition TCP :: u8 where "TCP = 6"
definition UDP :: u8 where "UDP = 17"
definition IPV6 :: u8 where "IPV6 = 41"
definition IPV6_ROUTE :: u8 where "IPV6_ROUTE = 43"
definition IPV6_FRAG :: u8 where "IPV6_FRAG = 44"
definition IPV6_ICMP :: u8 where "IPV6_ICMP = 58"
definition IPV6_NO_NXT :: u8 where "IPV6_NO_NXT = 59"
definition IPV6_OPTS :: u8 where "IPV6_OPTS = 60"
definition UDPLITE :: u8 where "UDPLITE = 136"

subsection \<open>Congestion notification\<close>

datatype ecn = NotEct | Ect1 | Ect0 | Ce

fun ecn_u8 :: "ecn \<Rightarrow> u8" where
  "ecn_u8 NotEct = 0" | "ecn_u8 Ect1 = 1" | "ecn_u8 Ect0 = 2" | "ecn_u8 Ce = 3"

definition ecn_default :: ecn where "ecn_default = NotEct"

definition ecn_new :: "u8 \<Rightarrow> ecn" where
  "ecn_new v = (let x = v AND 3 in if x = 0 then NotEct else if x = 1 then Ect1 else if x = 2 then Ect0 else Ce)"

definition congestion_experienced :: "ecn \<Rightarrow> bool" where
  "congestion_experienced e \<longleftrightarrow> e = Ce"

definition using_ecn :: "ecn \<Rightarrow> bool" where
  "using_ecn e \<longleftrightarrow> e \<noteq> NotEct"

lemma ecn_new_u8 [simp]: "ecn_new (ecn_u8 e) = e"
  by (cases e) (simp_all add: ecn_new_def)

lemma ecn_new_and [simp]: "ecn_new (v AND 3) = ecn_new v"
  by (simp add: ecn_new_def and.assoc)

subsection \<open>IPv4\<close>

record ipv4_header =
  vihl :: u8
  tos :: u8
  total_len :: net16
  ip4_id :: net16
  flag_fragment :: net16
  ttl :: u8
  protocol :: u8
  ip4_checksum :: net16
  ip4_source :: bytes
  ip4_destination :: bytes

definition IPV4_LEN :: nat where "IPV4_LEN = 32 div 8"

fun net16_bytes :: "net16 \<Rightarrow> bytes" where
  "net16_bytes (Net16 a b) = [a, b]"

definition ipv4_bytes :: "ipv4_header \<Rightarrow> bytes" where
  "ipv4_bytes h = [vihl h, tos h] @ net16_bytes (total_len h) @ net16_bytes (ip4_id h) @ net16_bytes (flag_fragment h)
     @ [ttl h, protocol h] @ net16_bytes (ip4_checksum h) @ ip4_source h @ ip4_destination h"

definition ipv4_from_bytes :: "bytes \<Rightarrow> ipv4_header" where
  "ipv4_from_bytes v = \<lparr> vihl = v ! 0, tos = v ! 1, total_len = Net16 (v ! 2) (v ! 3), ip4_id = Net16 (v ! 4) (v ! 5),
     flag_fragment = Net16 (v ! 6) (v ! 7), ttl = v ! 8, protocol = v ! 9, ip4_checksum = Net16 (v ! 10) (v ! 11),
     ip4_source = take IPV4_LEN (drop 12 v), ip4_destination = take IPV4_LEN (drop 16 v) \<rparr>"

definition ipv4_decode :: "decode_buffer \<Rightarrow> (decoder_error, ipv4_header \<times> decode_buffer) outcome" where
  "ipv4_decode = inet_decode 20 ipv4_from_bytes"

definition ipv4_swap :: "ipv4_header \<Rightarrow> ipv4_header" where
  "ipv4_swap h = h\<lparr>ip4_source := ip4_destination h, ip4_destination := ip4_source h\<rparr>"

definition vihl_version :: "u8 \<Rightarrow> u8" where
  "vihl_version v = drop_bit 4 v"

definition vihl_set_version :: "u8 \<Rightarrow> u8 \<Rightarrow> u8" where
  "vihl_set_version v x = push_bit 4 x OR (v AND 0x0F)"

definition vihl_header_len :: "u8 \<Rightarrow> u8" where
  "vihl_header_len v = v AND 0x0F"

definition vihl_set_header_len :: "u8 \<Rightarrow> u8 \<Rightarrow> u8" where
  "vihl_set_header_len v x = (v AND 0xF0) OR (x AND 0x0F)"

definition tos_dscp :: "u8 \<Rightarrow> u8" where
  "tos_dscp v = drop_bit 2 v"

definition tos_set_dscp :: "u8 \<Rightarrow> u8 \<Rightarrow> u8" where
  "tos_set_dscp v x = push_bit 2 x OR (v AND 3)"

definition tos_ecn :: "u8 \<Rightarrow> ecn" where
  "tos_ecn v = ecn_new (v AND 3)"

definition tos_set_ecn :: "u8 \<Rightarrow> ecn \<Rightarrow> u8" where
  "tos_set_ecn v e = (v AND NOT 3) OR ecn_u8 e"

definition FRAGMENT_MASK :: u16 where "FRAGMENT_MASK = 0x1FFF"

definition flag_get :: "bool \<Rightarrow> net16 \<Rightarrow> u16 \<Rightarrow> bool" where
  "flag_get le f m \<longleftrightarrow> u16_get le f AND m = m"

definition flag_set :: "bool \<Rightarrow> net16 \<Rightarrow> u16 \<Rightarrow> bool \<Rightarrow> net16" where
  "flag_set le f m enabled = (let v = u16_get le f in u16_set (if enabled then v OR m else v AND NOT m))"

definition reserved :: "bool \<Rightarrow> net16 \<Rightarrow> bool" where
  "reserved le f = flag_get le f (push_bit 15 1)"

definition set_reserved :: "bool \<Rightarrow> net16 \<Rightarrow> bool \<Rightarrow> net16" where
  "set_reserved le f enabled = flag_set le f (push_bit 15 1) enabled"

definition dont_fragment :: "bool \<Rightarrow> net16 \<Rightarrow> bool" where
  "dont_fragment le f = flag_get le f (push_bit 14 1)"

definition set_dont_fragment :: "bool \<Rightarrow> net16 \<Rightarrow> bool \<Rightarrow> net16" where
  "set_dont_fragment le f enabled = flag_set le f (push_bit 14 1) enabled"

definition more_fragments :: "bool \<Rightarrow> net16 \<Rightarrow> bool" where
  "more_fragments le f = flag_get le f (push_bit 13 1)"

definition set_more_fragments :: "bool \<Rightarrow> net16 \<Rightarrow> bool \<Rightarrow> net16" where
  "set_more_fragments le f enabled = flag_set le f (push_bit 13 1) enabled"

definition fragment_offset :: "bool \<Rightarrow> net16 \<Rightarrow> u16" where
  "fragment_offset le f = u16_get le f AND FRAGMENT_MASK"

definition set_fragment_offset :: "bool \<Rightarrow> net16 \<Rightarrow> u16 \<Rightarrow> net16" where
  "set_fragment_offset le f offset = u16_set ((u16_get le f AND NOT FRAGMENT_MASK) OR (offset AND FRAGMENT_MASK))"

subsection \<open>IPv6\<close>

record ipv6_header =
  vtcfl :: "u8 list"
  payload_len :: net16
  next_header :: u8
  hop_limit :: u8
  ip6_source :: bytes
  ip6_destination :: bytes

definition IPV6_LEN :: nat where "IPV6_LEN = 128 div 8"

definition ipv6_bytes :: "ipv6_header \<Rightarrow> bytes" where
  "ipv6_bytes h = vtcfl h @ net16_bytes (payload_len h) @ [next_header h, hop_limit h] @ ip6_source h @ ip6_destination h"

definition ipv6_from_bytes :: "bytes \<Rightarrow> ipv6_header" where
  "ipv6_from_bytes v = \<lparr> vtcfl = take 4 v, payload_len = Net16 (v ! 4) (v ! 5), next_header = v ! 6, hop_limit = v ! 7,
     ip6_source = take IPV6_LEN (drop 8 v), ip6_destination = take IPV6_LEN (drop 24 v) \<rparr>"

definition ipv6_decode :: "decode_buffer \<Rightarrow> (decoder_error, ipv6_header \<times> decode_buffer) outcome" where
  "ipv6_decode = inet_decode 40 ipv6_from_bytes"

definition ipv6_swap :: "ipv6_header \<Rightarrow> ipv6_header" where
  "ipv6_swap h = h\<lparr>ip6_source := ip6_destination h, ip6_destination := ip6_source h\<rparr>"

definition v6_version :: "u8 list \<Rightarrow> u8" where
  "v6_version w = drop_bit 4 (w ! 0)"

definition v6_set_version :: "u8 list \<Rightarrow> u8 \<Rightarrow> u8 list" where
  "v6_set_version w x = w[0 := push_bit 4 x OR (w ! 0 AND 0x0F)]"

definition v6_dscp :: "u8 list \<Rightarrow> u8" where
  "v6_dscp w = drop_bit 2 (push_bit 4 (w ! 0) OR drop_bit 4 (w ! 1))"

definition v6_set_dscp :: "u8 list \<Rightarrow> u8 \<Rightarrow> u8 list" where
  "v6_set_dscp w x = (let x = push_bit 2 x; w = w[0 := (w ! 0 AND 0xF0) OR drop_bit 4 x] in
     w[1 := push_bit 4 x OR (w ! 1 AND 0x3F)])"

definition v6_ecn :: "u8 list \<Rightarrow> ecn" where
  "v6_ecn w = ecn_new (drop_bit 4 (w ! 1) AND 3)"

definition v6_set_ecn :: "u8 list \<Rightarrow> ecn \<Rightarrow> u8 list" where
  "v6_set_ecn w e = w[1 := (w ! 1 AND NOT (push_bit 4 3)) OR push_bit 4 (ecn_u8 e)]"

definition v6_flow_label :: "u8 list \<Rightarrow> u32" where
  "v6_flow_label w = push_bit 16 (ucast (w ! 1 AND 0x0F)) OR (push_bit 8 (ucast (w ! 2)) OR ucast (w ! 3))"

definition v6_set_flow_label :: "u8 list \<Rightarrow> u32 \<Rightarrow> u8 list" where
  "v6_set_flow_label w x = w[1 := (w ! 1 AND 0xF0) OR (ucast (drop_bit 16 x) AND 0x0F), 2 := ucast (drop_bit 8 x), 3 := ucast x]"

subsection \<open>UDP\<close>

record udp_header =
  udp_source :: net16
  udp_destination :: net16
  udp_len :: net16
  udp_checksum :: net16

definition udp_bytes :: "udp_header \<Rightarrow> bytes" where
  "udp_bytes h = net16_bytes (udp_source h) @ net16_bytes (udp_destination h) @ net16_bytes (udp_len h) @ net16_bytes (udp_checksum h)"

definition udp_from_bytes :: "bytes \<Rightarrow> udp_header" where
  "udp_from_bytes v = \<lparr> udp_source = Net16 (v ! 0) (v ! 1), udp_destination = Net16 (v ! 2) (v ! 3), udp_len = Net16 (v ! 4) (v ! 5),
     udp_checksum = Net16 (v ! 6) (v ! 7) \<rparr>"

definition udp_decode :: "decode_buffer \<Rightarrow> (decoder_error, udp_header \<times> decode_buffer) outcome" where
  "udp_decode = inet_decode 8 udp_from_bytes"

definition udp_swap :: "udp_header \<Rightarrow> udp_header" where
  "udp_swap h = h\<lparr>udp_source := udp_destination h, udp_destination := udp_source h\<rparr>"

subsection \<open>Round trips of the headers\<close>

definition eth_ok :: "eth_header \<Rightarrow> bool" where
  "eth_ok h \<longleftrightarrow> length (eth_destination h) = MAC_LEN \<and> length (eth_source h) = MAC_LEN"

definition ipv4_ok :: "ipv4_header \<Rightarrow> bool" where
  "ipv4_ok h \<longleftrightarrow> length (ip4_source h) = IPV4_LEN \<and> length (ip4_destination h) = IPV4_LEN"

definition ipv6_ok :: "ipv6_header \<Rightarrow> bool" where
  "ipv6_ok h \<longleftrightarrow> length (vtcfl h) = 4 \<and> length (ip6_source h) = IPV6_LEN \<and> length (ip6_destination h) = IPV6_LEN"

lemma net16_bytes_eq: "net16_bytes x = [case x of Net16 a b \<Rightarrow> a, case x of Net16 a b \<Rightarrow> b]"
  by (cases x) simp

lemma Net16_eta [simp]: "Net16 (case x of Net16 a b \<Rightarrow> a) (case x of Net16 a b \<Rightarrow> b) = x"
  by (cases x) simp

lemma eth_bytes_ok: "eth_ok h \<Longrightarrow> eth_from_bytes (eth_bytes h) = h \<and> length (eth_bytes h) = 14"
  by (cases h) (auto simp: eth_ok_def eth_bytes_def eth_from_bytes_def MAC_LEN_def nth_append)

lemma ipv4_bytes_ok: "ipv4_ok h \<Longrightarrow> ipv4_from_bytes (ipv4_bytes h) = h \<and> length (ipv4_bytes h) = 20"
  by (cases h) (auto simp: ipv4_ok_def ipv4_bytes_def ipv4_from_bytes_def IPV4_LEN_def net16_bytes_eq)

lemma ipv6_bytes_ok: "ipv6_ok h \<Longrightarrow> ipv6_from_bytes (ipv6_bytes h) = h \<and> length (ipv6_bytes h) = 40"
  by (cases h) (auto simp: ipv6_ok_def ipv6_bytes_def ipv6_from_bytes_def IPV6_LEN_def net16_bytes_eq nth_append)

lemma udp_bytes_ok: "udp_from_bytes (udp_bytes h) = h \<and> length (udp_bytes h) = 8"
  by (cases h) (auto simp: udp_bytes_def udp_from_bytes_def net16_bytes_eq)

text \<open>Conversely, the bytes of a decoded header are the bytes it was cut from.\<close>

lemma nth_chain: "\<lbrakk>i \<le> j; j \<le> length v\<rbrakk> \<Longrightarrow> map ((!) v) [i..<j] @ drop j v = drop i v"
proof (induction j rule: dec_induct)
  case (step j)
  then show ?case by (simp add: Cons_nth_drop_Suc)
qed simp

lemma take_then_drop: "m + n = k \<Longrightarrow> take n (drop m v) @ drop k v = drop m v"
  by (metis append_take_drop_id drop_drop add.commute)

lemma eth_from_bytes_ok: "length v = 14 \<Longrightarrow> eth_bytes (eth_from_bytes v) = v \<and> eth_ok (eth_from_bytes v)"
  using nth_chain [of 12 14 v] take_then_drop [of 6 6 12 v] append_take_drop_id [of 6 v]
  by (auto simp: eth_from_bytes_def eth_bytes_def eth_ok_def MAC_LEN_def upt_conv_Cons simp flip: numeral_eq_Suc)

lemma udp_from_bytes_ok: "length v = 8 \<Longrightarrow> udp_bytes (udp_from_bytes v) = v"
  using nth_chain [of 0 1 v] nth_chain [of 1 2 v] nth_chain [of 2 8 v] by (simp add: udp_from_bytes_def udp_bytes_def upt_conv_Cons)

lemma ipv4_from_bytes_ok: "length v = 20 \<Longrightarrow> ipv4_bytes (ipv4_from_bytes v) = v \<and> ipv4_ok (ipv4_from_bytes v)"
  using nth_chain [of 0 1 v] nth_chain [of 1 2 v] nth_chain [of 2 12 v] take_then_drop [of 12 4 16 v]
  by (simp add: ipv4_from_bytes_def ipv4_bytes_def ipv4_ok_def IPV4_LEN_def upt_conv_Cons)

lemma ipv6_from_bytes_ok: "length v = 40 \<Longrightarrow> ipv6_bytes (ipv6_from_bytes v) = v \<and> ipv6_ok (ipv6_from_bytes v)"
  using nth_chain [of 4 8 v] take_then_drop [of 8 16 24 v] append_take_drop_id [of 4 v]
  by (simp add: ipv6_from_bytes_def ipv6_bytes_def ipv6_ok_def IPV6_LEN_def upt_conv_Cons)

text \<open>The buffer after its first \<open>n\<close> bytes.\<close>

definition rest_of :: "decode_buffer \<Rightarrow> nat \<Rightarrow> bytes \<Rightarrow> decode_buffer" where
  "rest_of b n w = \<lparr> db_start = db_start b + n, db_bytes = w, db_end = db_end b \<rparr>"

lemma rest_of_ok: "buffer_ok b \<Longrightarrow> db_bytes b = v @ w \<Longrightarrow> length v = n \<Longrightarrow> buffer_ok (rest_of b n w)"
  by (auto simp: buffer_ok_def rest_of_def)

lemma rest_of_simps [simp]: "db_start (rest_of b n w) = db_start b + n" "db_bytes (rest_of b n w) = w" "db_end (rest_of b n w) = db_end b"
  by (simp_all add: rest_of_def)

lemma decode_slice_iff:
  assumes "buffer_ok b"
  shows "decode_slice b n = Ok (s, r) \<longleftrightarrow>
    (\<exists>v w. db_bytes b = v @ w \<and> length v = n \<and> s = rest_of b 0 v \<and> r = rest_of b n w)"
proof
  assume "decode_slice b n = Ok (s, r)"
  then show "\<exists>v w. db_bytes b = v @ w \<and> length v = n \<and> s = rest_of b 0 v \<and> r = rest_of b n w"
    using assms by (intro exI [of _ "take n (db_bytes b)"] exI [of _ "drop n (db_bytes b)"])
      (auto simp: decode_slice_eq rest_of_def split: if_splits)
qed (use assms in \<open>auto simp: decode_slice_eq rest_of_def\<close>)

lemma inet_decode_iff:
  assumes "buffer_ok b"
  shows "inet_decode n f b = Ok (h, r) \<longleftrightarrow> (\<exists>v w. db_bytes b = v @ w \<and> length v = n \<and> h = f v \<and> r = rest_of b n w)"
  unfolding inet_decode_def and_then_eq_Ok using assms by (auto simp: decode_slice_iff) (blast, metis rest_of_simps(2))

lemma rest_of_rest_of [simp]: "rest_of (rest_of b m v) n w = rest_of b (m + n) w"
  by (simp add: rest_of_def)

lemma decode_slice_total: "buffer_ok b \<Longrightarrow> decode_slice b n \<noteq> Panic"
  by (simp add: decode_slice_eq)

lemma inet_decode_total: "buffer_ok b \<Longrightarrow> inet_decode n f b \<noteq> Panic"
  using decode_slice_total by (auto simp: inet_decode_def and_then_eq_Panic)

text \<open>
  What \<open>define_inet_type!\<close> gives of a structure: it is the bytes of its fields, of a fixed size.  Decoding then cuts
  exactly those bytes from the front of the buffer.
\<close>

locale inet_type =
  fixes size_of :: nat and from_bytes :: "bytes \<Rightarrow> 'h" and as_bytes :: "'h \<Rightarrow> bytes" and ok :: "'h \<Rightarrow> bool"
  assumes as_from: "length v = size_of \<Longrightarrow> as_bytes (from_bytes v) = v \<and> ok (from_bytes v)"
    and from_as: "ok h \<Longrightarrow> from_bytes (as_bytes h) = h \<and> length (as_bytes h) = size_of"
begin

lemma decode_iff:
  assumes "buffer_ok b"
  shows "inet_decode size_of from_bytes b = Ok (h, r) \<longleftrightarrow> (\<exists>w. ok h \<and> db_bytes b = as_bytes h @ w \<and> r = rest_of b size_of w)"
  using assms as_from from_as by (auto simp: inet_decode_iff) (metis (no_types))

lemma decode_front:
  "\<lbrakk>buffer_ok b; ok h; db_bytes b = as_bytes h @ w\<rbrakk> \<Longrightarrow> inet_decode size_of from_bytes b = Ok (h, rest_of b size_of w)"
  by (auto simp: decode_iff)

lemma decode_ok: "\<lbrakk>buffer_ok b; inet_decode size_of from_bytes b = Ok (h, r)\<rbrakk> \<Longrightarrow> buffer_ok r"
  using from_as by (auto simp: decode_iff intro: rest_of_ok)

end

interpretation eth_type: inet_type 14 eth_from_bytes eth_bytes eth_ok
  by unfold_locales (simp_all add: eth_from_bytes_ok eth_bytes_ok)

interpretation ipv4_type: inet_type 20 ipv4_from_bytes ipv4_bytes ipv4_ok
  by unfold_locales (simp_all add: ipv4_from_bytes_ok ipv4_bytes_ok)

interpretation ipv6_type: inet_type 40 ipv6_from_bytes ipv6_bytes ipv6_ok
  by unfold_locales (simp_all add: ipv6_from_bytes_ok ipv6_bytes_ok)

interpretation udp_type: inet_type 8 udp_from_bytes udp_bytes "\<lambda>_. True"
  by unfold_locales (simp_all add: udp_from_bytes_ok udp_bytes_ok)

lemmas eth_decode_iff = eth_type.decode_iff [folded eth_decode_def]
lemmas ipv4_decode_iff = ipv4_type.decode_iff [folded ipv4_decode_def]
lemmas ipv6_decode_iff = ipv6_type.decode_iff [folded ipv6_decode_def]
lemmas udp_decode_iff = udp_type.decode_iff [folded udp_decode_def, unfolded simp_thms]

subsection \<open>The bit fields\<close>

text \<open>What the getters of a packed word read, together.\<close>

definition vihl_view :: "u8 \<Rightarrow> u8 \<times> u8" where
  "vihl_view v = (vihl_version v, vihl_header_len v)"

definition tos_view :: "u8 \<Rightarrow> u8 \<times> ecn" where
  "tos_view v = (tos_dscp v, tos_ecn v)"

definition flag_view :: "bool \<Rightarrow> net16 \<Rightarrow> bool \<times> bool \<times> bool \<times> u16" where
  "flag_view le f = (reserved le f, dont_fragment le f, more_fragments le f, fragment_offset le f)"

definition v6_view :: "u8 list \<Rightarrow> u8 \<times> u8 \<times> ecn \<times> u32" where
  "v6_view w = (v6_version w, v6_dscp w, v6_ecn w, v6_flow_label w)"

lemma masks:
  "(0x0F :: u8) = mask 4" "(0xF0 :: u8) = NOT (mask 4)" "(3 :: u8) = mask 2" "(0x3F :: u8) = mask 6"
  "(0x1FFF :: u16) = mask 13" "(0xFFFFF :: u32) = mask 20"
  by (simp_all add: mask_numeral)

lemma ecn_u8_le: "ecn_u8 e AND mask 2 = ecn_u8 e"
  by (cases e) (simp_all add: mask_numeral)

lemma bit_ecn: "bit (ecn_u8 e) n \<Longrightarrow> n < 2"
  by (metis bit_and_iff bit_mask_iff ecn_u8_le)

lemma ecn_of_bits: "v AND mask 2 = ecn_u8 e \<Longrightarrow> ecn_new v = e"
  by (metis ecn_new_and ecn_new_u8 masks(3))

lemma ecn_same: "v AND mask 2 = w AND mask 2 \<Longrightarrow> ecn_new v = ecn_new w"
  by (metis ecn_new_and masks(3))

lemma vihl_fields:
  "vihl_view (vihl_set_version v x) = (x AND 0x0F, vihl_header_len v)"
  "vihl_view (vihl_set_header_len v x) = (vihl_version v, x AND 0x0F)"
  unfolding vihl_view_def vihl_version_def vihl_header_len_def vihl_set_version_def vihl_set_header_len_def masks prod.inject
  by (intro conjI bit_word_eqI; auto simp: bit_simps dest: bit_imp_le_length)+

lemma tos_fields:
  "tos_view (tos_set_dscp v x) = (x AND 0x3F, tos_ecn v)"
  "tos_view (tos_set_ecn v e) = (tos_dscp v, e)"
  unfolding tos_view_def tos_dscp_def tos_ecn_def tos_set_dscp_def tos_set_ecn_def masks prod.inject
  by (intro conjI ecn_same ecn_of_bits bit_word_eqI; auto simp: bit_simps dest: bit_imp_le_length bit_ecn)+

lemma flag_get_bit: "k < 16 \<Longrightarrow> flag_get le f (push_bit k 1) \<longleftrightarrow> bit (u16_get le f) k"
  by (auto simp: flag_get_def bit_eq_iff [where 'a = u16] bit_simps)

lemma flag_set_bit: "k < 16 \<Longrightarrow> bit (u16_get le (flag_set le f (push_bit k 1) b)) n
    \<longleftrightarrow> (if n = k then b else bit (u16_get le f) n)"
  by (auto simp: flag_set_def Let_def bit_simps dest: bit_imp_le_length)

lemmas flag_bits = flag_get_bit [of 15] flag_get_bit [of 14] flag_get_bit [of 13]
lemmas flag_set_bits = flag_set_bit [of 15] flag_set_bit [of 14] flag_set_bit [of 13]

lemma flag_fields:
  "flag_view le (set_reserved le f b) = (b, dont_fragment le f, more_fragments le f, fragment_offset le f)"
  "flag_view le (set_dont_fragment le f b) = (reserved le f, b, more_fragments le f, fragment_offset le f)"
  "flag_view le (set_more_fragments le f b) = (reserved le f, dont_fragment le f, b, fragment_offset le f)"
  "flag_view le (set_fragment_offset le f x) = (reserved le f, dont_fragment le f, more_fragments le f, x AND 0x1FFF)"
  unfolding flag_view_def reserved_def dont_fragment_def more_fragments_def fragment_offset_def set_reserved_def
    set_dont_fragment_def set_more_fragments_def set_fragment_offset_def FRAGMENT_MASK_def masks prod.inject
  by ((auto simp: flag_bits [simplified] flag_set_bits [simplified] bit_eq_iff [where 'a = u16] bit_simps)+)

lemma v6_fields:
  assumes "length w = 4"
  shows "v6_view (v6_set_version w x) = (x AND 0x0F, v6_dscp w, v6_ecn w, v6_flow_label w)"
    and "v6_view (v6_set_dscp w x) = (v6_version w, x AND 0x3F, v6_ecn w, v6_flow_label w)"
    and "v6_view (v6_set_ecn w e) = (v6_version w, v6_dscp w, e, v6_flow_label w)"
    and "v6_view (v6_set_flow_label w l) = (v6_version w, v6_dscp w, v6_ecn w, l AND 0xFFFFF)"
proof -
  obtain a b c d where w: "w = [a, b, c, d]"
    using assms by (auto simp: length_Suc_conv eval_nat_numeral)
  note defs = v6_view_def v6_version_def v6_dscp_def v6_ecn_def v6_flow_label_def v6_set_version_def v6_set_dscp_def
    v6_set_ecn_def v6_set_flow_label_def masks Let_def
  have list: "[a, b, c, d] ! 0 = a" "[a, b, c, d] ! 1 = b" "[a, b, c, d] ! 2 = c" "[a, b, c, d] ! 3 = d" for a b c d :: u8
    by simp_all
  have upd: "[a, b, c, d][0 := z] = [z, b, c, d]" "[a, b, c, d][1 := z] = [a, z, c, d]" "[a, b, c, d][2 := z] = [a, b, z, d]"
    "[a, b, c, d][3 := z] = [a, b, c, z]" for a b c d z :: u8
    by (simp_all add: numeral_eq_Suc)
  show "v6_view (v6_set_version w x) = (x AND 0x0F, v6_dscp w, v6_ecn w, v6_flow_label w)"
    unfolding w defs list upd prod.inject
    by (intro conjI ecn_same ecn_of_bits bit_word_eqI; auto simp: bit_simps dest: bit_imp_le_length bit_ecn)
  have suc2: "2 \<le> n \<Longrightarrow> Suc (Suc (n - 2)) = n" for n :: nat
    by simp
  show "v6_view (v6_set_dscp w x) = (v6_version w, x AND 0x3F, v6_ecn w, v6_flow_label w)"
    unfolding w defs list upd prod.inject
    by (intro conjI ecn_same ecn_of_bits bit_word_eqI; auto simp: bit_simps not_less suc2 dest: bit_imp_le_length bit_ecn)
  show "v6_view (v6_set_ecn w e) = (v6_version w, v6_dscp w, e, v6_flow_label w)"
    unfolding w defs list upd prod.inject
    by (intro conjI ecn_same ecn_of_bits bit_word_eqI; auto simp: bit_simps dest: bit_imp_le_length bit_ecn)
  show "v6_view (v6_set_flow_label w l) = (v6_version w, v6_dscp w, v6_ecn w, l AND 0xFFFFF)"
    unfolding w defs list upd prod.inject
    by (intro conjI ecn_same ecn_of_bits bit_word_eqI; auto simp: bit_simps dest: bit_imp_le_length bit_ecn)
qed

text \<open>
  C37: the accessors of the packed header fields are those of independent fields: after a setter, its own getter reads
  the value cut to the width of the field, and the getters of every other field of the word read what they read
  before.  This holds of the version and header length of IPv4, its service byte, its flags and fragment offset (on
  hosts of either byte order), and of the version, service class, congestion bits and flow label of IPv6.
\<close>

theorem header_fields:
  assumes "length w = 4"
  shows "vihl_view (vihl_set_version v x) = (x AND 0x0F, vihl_header_len v)
    \<and> vihl_view (vihl_set_header_len v x) = (vihl_version v, x AND 0x0F)
    \<and> tos_view (tos_set_dscp v x) = (x AND 0x3F, tos_ecn v)
    \<and> tos_view (tos_set_ecn v e) = (tos_dscp v, e)
    \<and> flag_view le (set_reserved le f b) = (b, dont_fragment le f, more_fragments le f, fragment_offset le f)
    \<and> flag_view le (set_dont_fragment le f b) = (reserved le f, b, more_fragments le f, fragment_offset le f)
    \<and> flag_view le (set_more_fragments le f b) = (reserved le f, dont_fragment le f, b, fragment_offset le f)
    \<and> flag_view le (set_fragment_offset le f offset)
        = (reserved le f, dont_fragment le f, more_fragments le f, offset AND 0x1FFF)
    \<and> v6_view (v6_set_version w x) = (x AND 0x0F, v6_dscp w, v6_ecn w, v6_flow_label w)
    \<and> v6_view (v6_set_dscp w x) = (v6_version w, x AND 0x3F, v6_ecn w, v6_flow_label w)
    \<and> v6_view (v6_set_ecn w e) = (v6_version w, v6_dscp w, e, v6_flow_label w)
    \<and> v6_view (v6_set_flow_label w l) = (v6_version w, v6_dscp w, v6_ecn w, l AND 0xFFFFF)"
  by (intro conjI vihl_fields tos_fields flag_fields v6_fields assms)

lemma header_fields_witness:
  "length [0x60, 0x10, 0, 7 :: u8] = 4
   \<and> v6_view (v6_set_flow_label [0x60, 0x10, 0, 7] 0x12345) = (6, 0, Ect1, 0x12345)
   \<and> flag_view True (set_dont_fragment True (u16_set 5) True) = (False, True, False, 5)"
proof -
  have "v6_view (v6_set_flow_label [0x60, 0x10, 0, 7] 0x12345) = (6, 0, Ect1, 0x12345)"
    by (subst header_fields [of "[0x60, 0x10, 0, 7]", THEN conjunct2, THEN conjunct2, THEN conjunct2, THEN conjunct2, THEN conjunct2,
        THEN conjunct2, THEN conjunct2, THEN conjunct2, THEN conjunct2, THEN conjunct2, THEN conjunct2])
      (code_simp+)
  moreover have "flag_view True (set_dont_fragment True (u16_set 5) True) = (False, True, False, 5)"
    by code_simp
  ultimately show ?thesis by simp
qed

text \<open>
  \<open>Ord for U16\<close> compares the bytes in host order: on a little-endian host it is not the order of the numbers, and
  it disagrees with the comparison with a native integer.
\<close>

lemma u16_order_not_numeric:
  "u16_less True (u16_set 256) (u16_set 1) \<and> \<not> u16_less_native True (u16_set 256) 1 \<and> u16_less False (u16_set 1) (u16_set 256)"
  by code_simp

end
