(* ===== verification/Xdp_Filter.thy ===== *)
theory Xdp_Filter
  imports Xdp_Headers
begin

text \<open>
  The packet filter of \<open>src/xdp/ebpf/src/main.rs\<close>: it cuts a frame into its Ethernet, IP and UDP headers and hands
  the datagrams for the registered ports to the socket of the receive queue.  The port map and the redirection to a
  socket belong to the kernel and are parameters: \<open>ports\<close> is \<open>XDP_PORTS.get_ptr\<close>, \<open>redirect\<close> is
  \<open>XDP_SOCKETS.redirect\<close> (\<open>Inl\<close> is its error).  A result of \<open>None\<close> is a panic, which the program may not have: its
  panic handler is \<open>unreachable_unchecked\<close>.
\<close>

subsection \<open>The filter\<close>

datatype xdp_action = XDP_ABORTED | XDP_DROP | XDP_PASS | XDP_TX | XDP_REDIRECT

type_synonym port_map = "u16 \<Rightarrow> u8 option"
type_synonym parsed = "(decoder_error, decode_buffer option) outcome"

definition checked_sub8 :: "u8 \<Rightarrow> u8 \<Rightarrow> u8 option" where
  "checked_sub8 a b = (if b \<le> a then Some (a - b) else None)"

definition checked_sub16 :: "u16 \<Rightarrow> u16 \<Rightarrow> u16 option" where
  "checked_sub16 a b = (if b \<le> a then Some (a - b) else None)"

definition ok_or :: "'a option \<Rightarrow> 'e \<Rightarrow> ('e, 'a) outcome" where
  "ok_or x e = (case x of Some a \<Rightarrow> Ok a | None \<Rightarrow> Err e)"

definition parse_udp :: "bool \<Rightarrow> port_map \<Rightarrow> decode_buffer \<Rightarrow> parsed" where
  "parse_udp le ports buffer =
     and_then (udp_decode buffer) (\<lambda>(header, buffer).
       if ports (u16_get le (udp_destination header)) = None then Ok None
       else and_then (ok_or (checked_sub16 (u16_get le (udp_len header)) 8) (InvariantViolation ''invalid UDP length''))
         (\<lambda>payload_len.
            and_then (decode_slice buffer (unat payload_len)) (\<lambda>(udp_payload, _). Ok (Some udp_payload))))"

definition parse_ip_protocol :: "bool \<Rightarrow> port_map \<Rightarrow> u8 \<Rightarrow> decode_buffer \<Rightarrow> parsed" where
  "parse_ip_protocol le ports p buffer = (if p = UDP \<or> p = UDPLITE then parse_udp le ports buffer else Ok None)"

definition decode_ipv4 :: "bool \<Rightarrow> port_map \<Rightarrow> decode_buffer \<Rightarrow> parsed" where
  "decode_ipv4 le ports buffer =
     and_then (ipv4_decode buffer) (\<lambda>(header, buffer).
     and_then (ok_or (checked_sub8 (vihl_header_len (vihl header)) 5) (InvariantViolation ''invalid IPv4 IHL value''))
       (\<lambda>count_without_header.
     and_then (decode_slice buffer (unat count_without_header * (32 div 8))) (\<lambda>(_, buffer).
       parse_ip_protocol le ports (protocol header) buffer)))"

definition decode_ipv6 :: "bool \<Rightarrow> port_map \<Rightarrow> decode_buffer \<Rightarrow> parsed" where
  "decode_ipv6 le ports buffer =
     and_then (ipv6_decode buffer) (\<lambda>(header, buffer). parse_ip_protocol le ports (next_header header) buffer)"

definition decode_frame :: "bool \<Rightarrow> port_map \<Rightarrow> decode_buffer \<Rightarrow> parsed" where
  "decode_frame le ports buffer =
     and_then (eth_decode buffer) (\<lambda>(header, buffer).
       if ethertype header = ETH_IPV4 then decode_ipv4 le ports buffer
       else if ethertype header = ETH_IPV6 then decode_ipv6 le ports buffer
       else Ok None)"

definition redirect_udp ::
    "bool \<Rightarrow> port_map \<Rightarrow> (u32 \<Rightarrow> u64 \<Rightarrow> xdp_action + xdp_action) \<Rightarrow> nat \<Rightarrow> bytes \<Rightarrow> u32 \<Rightarrow> xdp_action option" where
  "redirect_udp le ports redirect start data queue_id =
     (case decode_frame le ports (buffer_new start data) of
        Ok (Some payload) \<Rightarrow>
          if db_is_empty payload then Some XDP_DROP
          else Some (case redirect queue_id 0 of Inr action \<Rightarrow> action | Inl _ \<Rightarrow> XDP_PASS)
      | Ok None \<Rightarrow> Some XDP_PASS
      | Err _ \<Rightarrow> Some XDP_ABORTED
      | Panic \<Rightarrow> None)"

subsection \<open>What the filter accepts\<close>

definition carries_udp :: "u8 \<Rightarrow> bool" where
  "carries_udp p \<longleftrightarrow> p = UDP \<or> p = UDPLITE"

text \<open>The IP header, with its options, after an Ethernet header.\<close>

definition ip_front :: "eth_header \<Rightarrow> bytes \<Rightarrow> bool" where
  "ip_front e ip \<longleftrightarrow>
     (ethertype e = ETH_IPV4 \<and> (\<exists>h opts. ipv4_ok h \<and> ip = ipv4_bytes h @ opts \<and> carries_udp (protocol h)
        \<and> length ip = 4 * unat (vihl_header_len (vihl h)))
    \<or> ethertype e = ETH_IPV6 \<and> (\<exists>h. ipv6_ok h \<and> ip = ipv6_bytes h \<and> carries_udp (next_header h)))"

text \<open>A frame that carries a UDP header after the bytes \<open>front\<close>, and one whose payload is whole.\<close>

definition udp_front :: "bytes \<Rightarrow> bytes \<Rightarrow> udp_header \<Rightarrow> bytes \<Rightarrow> bool" where
  "udp_front fr front u rest \<longleftrightarrow>
     (\<exists>e ip. eth_ok e \<and> ip_front e ip \<and> front = eth_bytes e @ ip \<and> fr = front @ udp_bytes u @ rest)"

definition udp_frame :: "bool \<Rightarrow> bytes \<Rightarrow> bytes \<Rightarrow> udp_header \<Rightarrow> bytes \<Rightarrow> bool" where
  "udp_frame le fr front u payload \<longleftrightarrow>
     (\<exists>rest. udp_front fr front u (payload @ rest)) \<and> unat (u16_get le (udp_len u)) = 8 + length payload"

definition registered :: "bool \<Rightarrow> port_map \<Rightarrow> udp_header \<Rightarrow> bool" where
  "registered le ports u \<longleftrightarrow> ports (u16_get le (udp_destination u)) \<noteq> None"

text \<open>The payload of the frame, when it is for a registered port.\<close>

definition taken :: "bool \<Rightarrow> port_map \<Rightarrow> bytes \<Rightarrow> bytes \<Rightarrow> bool" where
  "taken le ports fr payload \<longleftrightarrow> (\<exists>front u. udp_frame le fr front u payload \<and> registered le ports u)"

lemma ok_or_eq_Ok: "ok_or x e = Ok a \<longleftrightarrow> x = Some a"
  by (auto simp: ok_or_def split: option.splits)

lemma checked_sub16_iff: "checked_sub16 a 8 = Some d \<longleftrightarrow> unat a = 8 + unat d"
proof -
  have "8 \<le> a \<longleftrightarrow> 8 \<le> unat a" by (simp add: word_le_nat_alt)
  moreover have "8 \<le> a \<Longrightarrow> unat (a - 8) = unat a - 8" by (simp add: unat_sub)
  ultimately show ?thesis by (auto simp: checked_sub16_def word_eq_unatI)
qed

lemma checked_sub8_iff: "checked_sub8 a 5 = Some d \<longleftrightarrow> unat a = 5 + unat d"
proof -
  have "5 \<le> a \<longleftrightarrow> 5 \<le> unat a" by (simp add: word_le_nat_alt)
  moreover have "5 \<le> a \<Longrightarrow> unat (a - 5) = unat a - 5" by (simp add: unat_sub)
  ultimately show ?thesis by (auto simp: checked_sub8_def word_eq_unatI)
qed

text \<open>A UDP header for a registered port and its whole payload at the front of some bytes.\<close>

definition udp_part :: "bool \<Rightarrow> port_map \<Rightarrow> bytes \<Rightarrow> udp_header \<Rightarrow> bytes \<Rightarrow> bool" where
  "udp_part le ports bs u payload \<longleftrightarrow> (\<exists>rest. bs = udp_bytes u @ payload @ rest) \<and> registered le ports u
     \<and> unat (u16_get le (udp_len u)) = 8 + length payload"

lemma parse_udp_iff:
  assumes "buffer_ok b"
  shows "parse_udp le ports b = Ok (Some p) \<longleftrightarrow> (\<exists>u payload. udp_part le ports (db_bytes b) u payload \<and> p = rest_of b 8 payload)"
    (is "?l \<longleftrightarrow> ?r")
proof
  assume ?l
  then obtain u w where u: "db_bytes b = udp_bytes u @ w" and p: "registered le ports u"
    and s: "and_then (ok_or (checked_sub16 (u16_get le (udp_len u)) 8) (InvariantViolation ''invalid UDP length''))
         (\<lambda>n. and_then (decode_slice (rest_of b 8 w) (unat n)) (\<lambda>(udp_payload, _). Ok (Some udp_payload))) = Ok (Some p)"
    using assms by (auto simp: parse_udp_def and_then_eq_Ok udp_decode_iff registered_def split: if_splits)
  have "buffer_ok (rest_of b 8 w)"
    using rest_of_ok [OF assms u] udp_bytes_ok by simp
  then show ?r
    using s u p by (auto simp: and_then_eq_Ok ok_or_eq_Ok checked_sub16_iff decode_slice_iff udp_part_def) metis
next
  assume ?r
  then obtain u payload rest where u: "db_bytes b = udp_bytes u @ payload @ rest" "registered le ports u"
    "unat (u16_get le (udp_len u)) = 8 + length payload" "p = rest_of b 8 payload"
    by (auto simp: udp_part_def)
  have "udp_decode b = Ok (u, rest_of b 8 (payload @ rest))"
    using u assms by (auto simp: udp_decode_iff)
  moreover have "checked_sub16 (u16_get le (udp_len u)) 8 = Some (u16_get le (udp_len u) - 8)"
    using u(3) by (simp add: checked_sub16_def word_le_nat_alt)
  moreover from this have n: "unat (u16_get le (udp_len u) - 8) = length payload"
    using u(3) by (simp add: checked_sub16_iff)
  moreover have "buffer_ok (rest_of b 8 (payload @ rest))"
    using rest_of_ok [OF assms u(1)] udp_bytes_ok by simp
  ultimately show ?l
    using u(2,4) by (auto simp: parse_udp_def registered_def ok_or_def decode_slice_eq rest_of_def)
qed

lemma parse_ip_protocol_iff:
  assumes "buffer_ok b"
  shows "parse_ip_protocol le ports pr b = Ok (Some p) \<longleftrightarrow>
    carries_udp pr \<and> (\<exists>u payload. udp_part le ports (db_bytes b) u payload \<and> p = rest_of b 8 payload)"
  using parse_udp_iff [OF assms] by (auto simp: parse_ip_protocol_def carries_udp_def)

text \<open>An IP packet with such a datagram at the front of a buffer, and where its payload is.\<close>

definition ip_udp :: "bool \<Rightarrow> port_map \<Rightarrow> eth_header \<Rightarrow> decode_buffer \<Rightarrow> decode_buffer \<Rightarrow> bool" where
  "ip_udp le ports e b p \<longleftrightarrow> (\<exists>ip w u payload. ip_front e ip \<and> db_bytes b = ip @ w \<and> udp_part le ports w u payload
     \<and> p = rest_of b (length ip + 8) payload)"

lemma ip_udpI:
  "\<lbrakk>ip_front e ip; db_bytes b = ip @ w; udp_part le ports w u payload; p = rest_of b (length ip + 8) payload\<rbrakk> \<Longrightarrow> ip_udp le ports e b p"
  by (auto simp: ip_udp_def)

lemma ETH_ne: "ETH_IPV4 \<noteq> ETH_IPV6"
  by (simp add: ETH_IPV4_def ETH_IPV6_def)

text \<open>Past an IP header, the filter is at what it carries.\<close>

lemma decode_ipv4_front:
  assumes b: "buffer_ok b" and h: "ipv4_ok h" "db_bytes b = ipv4_bytes h @ opts @ w"
    "20 + length opts = 4 * unat (vihl_header_len (vihl h))"
  shows "decode_ipv4 le ports b = parse_ip_protocol le ports (protocol h) (rest_of b (20 + length opts) w)"
proof -
  let ?n = "vihl_header_len (vihl h) - 5"
  have n: "checked_sub8 (vihl_header_len (vihl h)) 5 = Some ?n"
    using h(3) by (simp add: checked_sub8_def word_le_nat_alt)
  then have l: "length opts = unat ?n * 4"
    using h(3) by (simp add: checked_sub8_iff)
  have "buffer_ok (rest_of b 20 (opts @ w))"
    using rest_of_ok [OF b h(2)] ipv4_bytes_ok [OF h(1)] by simp
  then have "decode_slice (rest_of b 20 (opts @ w)) (unat ?n * 4) = Ok (rest_of b 20 opts, rest_of b (20 + length opts) w)"
    using l by (auto simp: decode_slice_iff)
  moreover have "ipv4_decode b = Ok (h, rest_of b 20 (opts @ w))"
    using h b by (auto simp: ipv4_decode_iff)
  ultimately show ?thesis
    using n by (simp add: decode_ipv4_def ok_or_def)
qed

lemma decode_ipv6_front:
  "\<lbrakk>buffer_ok b; ipv6_ok h; db_bytes b = ipv6_bytes h @ w\<rbrakk>
    \<Longrightarrow> decode_ipv6 le ports b = parse_ip_protocol le ports (next_header h) (rest_of b 40 w)"
  using ipv6_decode_iff [of b h "rest_of b 40 w"] by (simp add: decode_ipv6_def)

lemma decode_ipv6_iff:
  assumes "buffer_ok b" and e: "ethertype e = ETH_IPV6"
  shows "decode_ipv6 le ports b = Ok (Some p) \<longleftrightarrow> ip_udp le ports e b p" (is "?l \<longleftrightarrow> ?r")
proof
  assume ?l
  then obtain h w where h: "ipv6_ok h" "db_bytes b = ipv6_bytes h @ w"
    and r: "parse_ip_protocol le ports (next_header h) (rest_of b 40 w) = Ok (Some p)"
    using assms by (auto simp: decode_ipv6_def and_then_eq_Ok ipv6_decode_iff)
  have "buffer_ok (rest_of b 40 w)"
    using rest_of_ok [OF assms(1) h(2)] ipv6_bytes_ok [OF h(1)] by simp
  then show ?r
    using r h e ipv6_bytes_ok [OF h(1)] by (auto simp: parse_ip_protocol_iff ip_front_def intro!: ip_udpI [where ip = "ipv6_bytes h"])
next
  assume ?r
  then obtain h w u payload where h: "ipv6_ok h" "carries_udp (next_header h)" "db_bytes b = ipv6_bytes h @ w"
    "udp_part le ports w u payload" "p = rest_of b (40 + 8) payload"
    using e ETH_ne by (auto simp: ip_udp_def ip_front_def ipv6_bytes_ok)
  moreover have "buffer_ok (rest_of b 40 w)"
    using rest_of_ok [OF assms(1) h(3)] ipv6_bytes_ok [OF h(1)] by simp
  ultimately show ?l
    using decode_ipv6_front [OF assms(1) h(1,3)] by (auto simp: parse_ip_protocol_iff)
qed

lemma decode_ipv4_iff:
  assumes "buffer_ok b" and e: "ethertype e = ETH_IPV4"
  shows "decode_ipv4 le ports b = Ok (Some p) \<longleftrightarrow> ip_udp le ports e b p" (is "?l \<longleftrightarrow> ?r")
proof
  assume ?l
  then obtain h w n s r where h: "ipv4_ok h" "db_bytes b = ipv4_bytes h @ w" "checked_sub8 (vihl_header_len (vihl h)) 5 = Some n"
    and s: "decode_slice (rest_of b 20 w) (unat n * 4) = Ok (s, r)" and r: "parse_ip_protocol le ports (protocol h) r = Ok (Some p)"
    using assms by (auto simp: decode_ipv4_def and_then_eq_Ok ipv4_decode_iff ok_or_eq_Ok)
  have b: "buffer_ok (rest_of b 20 w)"
    using rest_of_ok [OF assms(1) h(2)] ipv4_bytes_ok [OF h(1)] by simp
  obtain opts x where o: "w = opts @ x" "length opts = unat n * 4" "r = rest_of b (20 + length opts) x"
    using s b by (auto simp: decode_slice_iff)
  have "buffer_ok r"
    using rest_of_ok [OF b, of opts x] o by simp
  then obtain u payload where u: "carries_udp (protocol h)" "udp_part le ports x u payload" "p = rest_of b (20 + length opts + 8) payload"
    using r o by (auto simp: parse_ip_protocol_iff)
  have "20 + length opts = 4 * unat (vihl_header_len (vihl h))"
    using h(3) o by (simp add: checked_sub8_iff)
  then have "ip_front e (ipv4_bytes h @ opts)"
    unfolding ip_front_def using u h e ipv4_bytes_ok [OF h(1)] by (intro disjI1 conjI exI [of _ h] exI [of _ opts]) auto
  then show ?r
    using h o u ipv4_bytes_ok [OF h(1)] by (intro ip_udpI [where w = x and u = u and payload = payload]) auto
next
  assume ?r
  then obtain h opts w u payload where h: "ipv4_ok h" "carries_udp (protocol h)" "db_bytes b = ipv4_bytes h @ opts @ w"
    "20 + length opts = 4 * unat (vihl_header_len (vihl h))" "udp_part le ports w u payload" "p = rest_of b (20 + length opts + 8) payload"
    using e ETH_ne by (auto simp: ip_udp_def ip_front_def ipv4_bytes_ok)
  moreover have "buffer_ok (rest_of b (20 + length opts) w)"
    using rest_of_ok [OF assms(1), of "ipv4_bytes h @ opts" w] h(3) ipv4_bytes_ok [OF h(1)] by simp
  ultimately show ?l
    using decode_ipv4_front [OF assms(1) h(1,3,4)] by (auto simp: parse_ip_protocol_iff)
qed

lemma decode_frame_ip:
  "decode_frame le ports (buffer_new start fr) = Ok (Some p) \<longleftrightarrow>
    (\<exists>e w. eth_ok e \<and> fr = eth_bytes e @ w \<and> ip_udp le ports e (rest_of (buffer_new start fr) 14 w) p)" (is "?l \<longleftrightarrow> ?r")
proof -
  let ?b = "buffer_new start fr"
  have b: "buffer_ok ?b" and fr: "db_bytes ?b = fr"
    by (simp_all add: buffer_new_def buffer_ok_def)
  have stage: "(if ethertype e = ETH_IPV4 then decode_ipv4 le ports (rest_of ?b 14 w)
      else if ethertype e = ETH_IPV6 then decode_ipv6 le ports (rest_of ?b 14 w) else Ok None) = Ok (Some p)
      \<longleftrightarrow> ip_udp le ports e (rest_of ?b 14 w) p" if "eth_ok e" "fr = eth_bytes e @ w" for e w
  proof -
    have "buffer_ok (rest_of ?b 14 w)"
      using rest_of_ok [OF b, of "eth_bytes e" w] eth_bytes_ok [OF that(1)] that(2) fr by simp
    then show ?thesis
      using decode_ipv4_iff decode_ipv6_iff by (auto simp: ip_udp_def ip_front_def)
  qed
  have "?l \<longleftrightarrow> (\<exists>e w. (eth_ok e \<and> fr = eth_bytes e @ w) \<and> (if ethertype e = ETH_IPV4 then decode_ipv4 le ports (rest_of ?b 14 w)
      else if ethertype e = ETH_IPV6 then decode_ipv6 le ports (rest_of ?b 14 w) else Ok None) = Ok (Some p))"
    unfolding decode_frame_def and_then_eq_Ok by (simp add: eth_decode_iff [OF b] fr split_paired_Ex) blast
  then show ?thesis
    using stage by (metis (no_types, lifting))
qed

lemma decode_frame_iff:
  "decode_frame le ports (buffer_new start fr) = Ok (Some p) \<longleftrightarrow>
    (\<exists>front u payload. udp_frame le fr front u payload \<and> registered le ports u \<and>
       p = \<lparr> db_start = start + length front + 8, db_bytes = payload, db_end = start + length fr \<rparr>)" (is "?l \<longleftrightarrow> ?r")
proof
  assume ?l
  then obtain e ip u payload rest where f: "eth_ok e" "ip_front e ip" "fr = eth_bytes e @ ip @ udp_bytes u @ payload @ rest"
    "registered le ports u" "unat (u16_get le (udp_len u)) = 8 + length payload"
    and p: "p = rest_of (buffer_new start fr) (14 + (length ip + 8)) payload"
    by (auto simp: decode_frame_ip ip_udp_def udp_part_def)
  then have "udp_frame le fr (eth_bytes e @ ip) u payload"
    by (auto simp: udp_frame_def udp_front_def)
  then show ?r
    using f(4) p eth_bytes_ok [OF f(1)]
    by (intro exI [of _ "eth_bytes e @ ip"] exI [of _ u] exI [of _ payload]) (auto simp: rest_of_def buffer_new_def)
next
  assume ?r
  then obtain e ip u payload rest where f: "eth_ok e" "ip_front e ip" "fr = eth_bytes e @ ip @ udp_bytes u @ payload @ rest"
    and r: "registered le ports u" "unat (u16_get le (udp_len u)) = 8 + length payload"
    and p: "p = \<lparr> db_start = start + length (eth_bytes e @ ip) + 8, db_bytes = payload, db_end = start + length fr \<rparr>"
    by (auto simp: udp_frame_def udp_front_def)
  have "ip_udp le ports e (rest_of (buffer_new start fr) 14 (ip @ udp_bytes u @ payload @ rest)) p"
    using f r p eth_bytes_ok [OF f(1)]
    by (intro ip_udpI [where u = u and payload = payload]) (auto simp: rest_of_def buffer_new_def udp_part_def)
  then show ?l
    using f by (auto simp: decode_frame_ip)
qed

text \<open>A UDP header for a port that is not registered goes to the operating system, whatever follows it.\<close>

lemma decode_frame_unregistered:
  assumes "udp_front fr front u rest" and "\<not> registered le ports u"
  shows "decode_frame le ports (buffer_new start fr) = Ok None"
proof -
  let ?b = "buffer_new start fr"
  obtain e ip where e: "eth_ok e" "ip_front e ip" and fr: "fr = eth_bytes e @ ip @ udp_bytes u @ rest"
    using assms(1) by (auto simp: udp_front_def)
  have b: "buffer_ok ?b" "db_bytes ?b = fr"
    by (simp_all add: buffer_new_def buffer_ok_def)
  have eth: "eth_decode ?b = Ok (e, rest_of ?b 14 (ip @ udp_bytes u @ rest))"
    using b e fr by (simp add: eth_decode_iff)
  have bi: "buffer_ok (rest_of ?b 14 (ip @ udp_bytes u @ rest))"
    using rest_of_ok [OF b(1)] b(2) fr eth_bytes_ok [OF e(1)] by simp
  have udp: "parse_ip_protocol le ports pr c = Ok None" if "buffer_ok c" "db_bytes c = udp_bytes u @ rest" for pr c
  proof -
    have "udp_decode c = Ok (u, rest_of c 8 rest)" using that by (simp add: udp_decode_iff)
    then show ?thesis using assms(2) by (simp add: parse_ip_protocol_def parse_udp_def registered_def)
  qed
  have bu: "buffer_ok (rest_of ?b (14 + length ip) (udp_bytes u @ rest))"
    using rest_of_ok [OF bi] by simp
  from e(2) show ?thesis
    unfolding ip_front_def
  proof (elim disjE conjE exE)
    fix h opts
    assume h: "ethertype e = ETH_IPV4" "ipv4_ok h" "ip = ipv4_bytes h @ opts" "length ip = 4 * unat (vihl_header_len (vihl h))"
    then show ?thesis
      using eth udp [OF bu] decode_ipv4_front [OF bi h(2), of opts "udp_bytes u @ rest"] ipv4_bytes_ok [OF h(2)]
      by (simp add: decode_frame_def add.assoc)
  next
    fix h
    assume h: "ethertype e = ETH_IPV6" "ipv6_ok h" "ip = ipv6_bytes h"
    then show ?thesis
      using eth udp [OF bu] decode_ipv6_front [OF bi h(2), of "udp_bytes u @ rest"] ipv6_bytes_ok [OF h(2)] ETH_ne
      by (simp add: decode_frame_def)
  qed
qed

text \<open>No cut of the frame leaves its bounds, so the filter does not panic.\<close>

lemma parse_ip_protocol_total:
  assumes "buffer_ok b"
  shows "parse_ip_protocol le ports pr b \<noteq> Panic"
proof -
  note udp_type.decode_ok [OF assms, folded udp_decode_def]
  then show ?thesis
    using assms decode_slice_total
    by (auto simp: parse_ip_protocol_def parse_udp_def and_then_eq_Panic udp_decode_def inet_decode_def ok_or_def split: option.splits)
qed

lemma decode_frame_total: "decode_frame le ports (buffer_new start fr) \<noteq> Panic"
proof -
  let ?b = "buffer_new start fr"
  have b: "buffer_ok ?b"
    by (simp add: buffer_new_def buffer_ok_def)
  note eth = eth_type.decode_ok [OF b, folded eth_decode_def]
  note v4 = ipv4_type.decode_ok [folded ipv4_decode_def] and v6 = ipv6_type.decode_ok [folded ipv6_decode_def]
  have sl: "buffer_ok r" if "buffer_ok c" "decode_slice c n = Ok (s, r)" for c n s r
    using that by (auto simp: decode_slice_iff intro: rest_of_ok)
  have t4: "decode_ipv4 le ports c \<noteq> Panic" if c: "buffer_ok c" for c
    using inet_decode_total [OF c, of 20 ipv4_from_bytes, folded ipv4_decode_def]
    by (auto simp: decode_ipv4_def and_then_eq_Panic ok_or_def parse_ip_protocol_total decode_slice_total v4 [OF c] sl [OF v4 [OF c]]
        split: option.splits)
  have t6: "decode_ipv6 le ports c \<noteq> Panic" if c: "buffer_ok c" for c
    using inet_decode_total [OF c, of 40 ipv6_from_bytes, folded ipv6_decode_def]
    by (auto simp: decode_ipv6_def and_then_eq_Panic parse_ip_protocol_total v6 [OF c])
  have "eth_decode ?b \<noteq> Panic"
    using inet_decode_total [OF b, of 14 eth_from_bytes, folded eth_decode_def] .
  then show ?thesis
    using eth t4 t6 by (auto simp: decode_frame_def and_then_eq_Panic)
qed

text \<open>
  C31: the filter never panics and never reads outside the frame, and it takes exactly the datagrams of the registered
  ports.  A buffer is found exactly when the frame is an Ethernet header, an IPv4 header with its options or an IPv6
  header that carries UDP, a UDP header for a registered port and the payload whose length that header states; the
  buffer is then that payload at its place in the frame.  Such a frame with a payload goes to the socket of its receive
  queue, or to the operating system when the redirection fails; one without a payload is dropped; a UDP header for
  another port, whatever follows it, goes to the operating system; and every other frame is passed on or aborted.
\<close>

theorem xdp_filter:
  "(decode_frame le ports (buffer_new start fr) = Ok (Some p) \<longleftrightarrow>
      (\<exists>front u payload. udp_frame le fr front u payload \<and> registered le ports u \<and>
        p = \<lparr> db_start = start + length front + 8, db_bytes = payload, db_end = start + length fr \<rparr>))
    \<and> redirect_udp le ports redirect start fr queue_id \<in>
      (if taken le ports fr [] then {Some XDP_DROP}
       else if \<exists>payload. taken le ports fr payload then {Some (case redirect queue_id 0 of Inr action \<Rightarrow> action | Inl _ \<Rightarrow> XDP_PASS)}
       else if \<exists>front u rest. udp_front fr front u rest \<and> \<not> registered le ports u then {Some XDP_PASS}
       else {Some XDP_PASS, Some XDP_ABORTED})"
proof (intro conjI decode_frame_iff)
  let ?d = "decode_frame le ports (buffer_new start fr)"
  have some: "taken le ports fr (db_bytes q) \<and> \<not> (taken le ports fr y \<and> y \<noteq> db_bytes q)" if d: "?d = Ok (Some q)" for q y
  proof -
    have "y = db_bytes q" if t: "taken le ports fr y"
    proof -
      obtain front u where "udp_frame le fr front u y \<and> registered le ports u"
        using t by (auto simp: taken_def)
      then have "?d = Ok (Some \<lparr> db_start = start + length front + 8, db_bytes = y, db_end = start + length fr \<rparr>)"
        using decode_frame_iff by blast
      then show ?thesis using d by simp
    qed
    moreover have "taken le ports fr (db_bytes q)"
      using d unfolding taken_def decode_frame_iff by force
    ultimately show ?thesis by blast
  qed
  have none: "\<not> taken le ports fr y" if "\<forall>q. ?d \<noteq> Ok (Some q)" for y
    using that unfolding taken_def decode_frame_iff by blast
  show "redirect_udp le ports redirect start fr queue_id \<in>
      (if taken le ports fr [] then {Some XDP_DROP}
       else if \<exists>payload. taken le ports fr payload then {Some (case redirect queue_id 0 of Inr action \<Rightarrow> action | Inl _ \<Rightarrow> XDP_PASS)}
       else if \<exists>front u rest. udp_front fr front u rest \<and> \<not> registered le ports u then {Some XDP_PASS}
       else {Some XDP_PASS, Some XDP_ABORTED})"
  proof (cases ?d)
    case (Ok o')
    then show ?thesis
      using some none by (cases o') (auto simp: redirect_udp_def db_is_empty_def)
  next
    case (Err e)
    then have "\<not> (\<exists>front u rest. udp_front fr front u rest \<and> \<not> registered le ports u)"
      using decode_frame_unregistered [of fr _ _ _ le ports start] by fastforce
    with Err show ?thesis
      using none by (auto simp: redirect_udp_def)
  qed (use decode_frame_total in auto)
qed


text \<open>A frame with a datagram of two bytes for port 19132 reaches the socket, and the same frame for another port does not.\<close>

definition sample_ethernet :: "u16 \<Rightarrow> bytes" where
  "sample_ethernet port = replicate 12 0 @ [8, 0] @ [0x45, 0, 0, 30, 0, 0, 0, 0, 64, 17, 0, 0, 127, 0, 0, 1, 127, 0, 0, 1]
     @ net16_bytes (u16_set 1000) @ net16_bytes (u16_set port) @ [0, 10, 0, 0] @ [1, 2]"

lemma sample_ethernet_redirected:
  "redirect_udp True (\<lambda>p. if p = 19132 then Some 0 else None) (\<lambda>_ _. Inr XDP_REDIRECT) 100 (sample_ethernet 19132) 0 = Some XDP_REDIRECT"
  "redirect_udp True (\<lambda>p. if p = 19132 then Some 0 else None) (\<lambda>_ _. Inr XDP_REDIRECT) 100 (sample_ethernet 53) 0 = Some XDP_PASS"
  by code_simp+

end
