(* ===== verification/Umem.thy ===== *)
theory Umem
  imports Prelude
begin

text \<open>
  The memory shared with an \<open>AF_XDP\<close> socket: \<open>src/xdp/raknet-xdp/src/umem.rs\<close> with the descriptors and ring offsets of
  \<open>if_xdp.rs\<close> and the queries of \<open>syscall.rs\<close> that compute.  System calls are parameters: \<open>mmap\<close> gives the address of a
  mapping or an error, \<open>getsockopt\<close> gives what the kernel wrote and its length.  A borrowed region of the memory is
  its address and length.
\<close>

subsection \<open>Descriptors\<close>

record rx_tx_descriptor =
  rt_address :: u64
  rt_len :: u32
  rt_options :: u32

record umem_descriptor =
  ud_address :: u64

definition with_len :: "umem_descriptor \<Rightarrow> u32 \<Rightarrow> rx_tx_descriptor" where
  "with_len d n = \<lparr> rt_address = ud_address d, rt_len = n, rt_options = 0 \<rparr>"

definition umem_descriptor_from :: "rx_tx_descriptor \<Rightarrow> umem_descriptor" where
  "umem_descriptor_from d = \<lparr> ud_address = rt_address d \<rparr>"

subsection \<open>The memory\<close>

definition DEFAULT_FRAME_SIZE :: u32 where "DEFAULT_FRAME_SIZE = 4096"

record umem_builder =
  ub_frame_size :: u32
  ub_frame_count :: u32
  ub_frame_headroom :: u32
  ub_flags :: u32
  ub_hugepage :: bool

definition umem_builder_default :: umem_builder where
  "umem_builder_default = \<lparr> ub_frame_size = DEFAULT_FRAME_SIZE, ub_frame_count = 1024, ub_frame_headroom = 0, ub_flags = 0, ub_hugepage = False \<rparr>"

datatype mmap_options = Huge | Fd int

text \<open>\<open>Mmap\<close>: the address and length of the region.\<close>

record mmap_area =
  ma_addr :: nat
  ma_len :: nat

type_synonym mmap_call = "nat \<Rightarrow> nat \<Rightarrow> int option \<Rightarrow> bool \<Rightarrow> (io_error, nat) outcome"

definition mmap_new :: "mmap_call \<Rightarrow> nat \<Rightarrow> nat \<Rightarrow> mmap_options option \<Rightarrow> (io_error, mmap_area) outcome" where
  "mmap_new mmap n off opts =
     and_then (case opts of
        Some Huge \<Rightarrow> mmap n off None True
      | Some (Fd fd) \<Rightarrow> mmap n off (Some fd) False
      | None \<Rightarrow> mmap n off None False) (\<lambda>addr. Ok \<lparr> ma_addr = addr, ma_len = n \<rparr>)"

record umem =
  um_area :: mmap_area
  um_frame_size :: u32
  um_frame_count :: u32
  um_frame_headroom :: u32
  um_flags :: u32

definition umem_build :: "mmap_call \<Rightarrow> umem_builder \<Rightarrow> (io_error, umem) outcome" where
  "umem_build mmap b =
     (let n = unat (ub_frame_size b) * unat (ub_frame_count b);
          options = (if ub_hugepage b then Some Huge else None)
      in and_then (mmap_new mmap n 0 options) (\<lambda>area.
        Ok \<lparr> um_area = area, um_frame_size = ub_frame_size b, um_frame_count = ub_frame_count b,
             um_frame_headroom = ub_frame_headroom b, um_flags = ub_flags b \<rparr>))"

text \<open>Checked arithmetic on \<open>u64\<close>.\<close>

definition add64 :: "u64 \<Rightarrow> u64 \<Rightarrow> ('e, u64) outcome" where
  "add64 a b = (if unat a + unat b < 2 ^ 64 then Ok (a + b) else Panic)"

definition mul64 :: "u64 \<Rightarrow> u64 \<Rightarrow> ('e, u64) outcome" where
  "mul64 a b = (if unat a * unat b < 2 ^ 64 then Ok (a * b) else Panic)"

definition umem_frames :: "umem \<Rightarrow> (io_error, umem_descriptor) outcome list" where
  "umem_frames u = map (\<lambda>idx. and_then (mul64 (word_of_nat idx) (ucast (um_frame_size u))) (\<lambda>a. Ok \<lparr> ud_address = a \<rparr>))
     [0..<unat (um_frame_count u)]"

definition validate_rx_tx_descriptor :: "umem \<Rightarrow> rx_tx_descriptor \<Rightarrow> (io_error, nat) outcome" where
  "validate_rx_tx_descriptor u d =
     (if \<not> rt_len d \<le> um_frame_size u then Panic
      else and_then (add64 (rt_address d) (ucast (rt_len d))) (\<lambda>e.
        if \<not> e \<le> word_of_nat (ma_len (um_area u)) then Panic else Ok (ma_addr (um_area u) + unat (rt_address d))))"

definition validate_umem_descriptor :: "umem \<Rightarrow> umem_descriptor \<Rightarrow> (io_error, nat) outcome" where
  "validate_umem_descriptor u d =
     and_then (add64 (ud_address d) (ucast (um_frame_size u))) (\<lambda>e.
       if \<not> e \<le> word_of_nat (ma_len (um_area u)) then Panic else Ok (ma_addr (um_area u) + unat (ud_address d)))"

definition index_rx_tx :: "umem \<Rightarrow> rx_tx_descriptor \<Rightarrow> (io_error, nat \<times> nat) outcome" where
  "index_rx_tx u d = and_then (validate_rx_tx_descriptor u d) (\<lambda>p. Ok (p, unat (rt_len d)))"

definition index_umem :: "umem \<Rightarrow> umem_descriptor \<Rightarrow> (io_error, nat \<times> nat) outcome" where
  "index_umem u d = and_then (validate_umem_descriptor u d) (\<lambda>p. Ok (p, unat (um_frame_size u)))"

subsection \<open>The offsets of the rings\<close>

record ring_offset_v1 =
  v1_producer :: u64
  v1_consumer :: u64
  v1_desc :: u64

record ring_offset_v2 =
  v2_producer :: u64
  v2_consumer :: u64
  v2_desc :: u64
  v2_flags :: u64

definition set_v1 :: "ring_offset_v1 \<Rightarrow> (io_error, ring_offset_v2) outcome" where
  "set_v1 v1 = and_then (add64 (v1_consumer v1) 4) (\<lambda>f.
     Ok \<lparr> v2_producer = v1_producer v1, v2_consumer = v1_consumer v1, v2_desc = v1_desc v1, v2_flags = f \<rparr>)"

record 'o mmap_offsets =
  mo_rx :: 'o
  mo_tx :: 'o
  mo_fill :: 'o
  mo_completion :: 'o

text \<open>The structures of the offsets as they lie in memory, in words of eight bytes.\<close>

definition v2_words :: "ring_offset_v2 \<Rightarrow> u64 list" where
  "v2_words r = [v2_producer r, v2_consumer r, v2_desc r, v2_flags r]"

definition v1_words :: "ring_offset_v1 \<Rightarrow> u64 list" where
  "v1_words r = [v1_producer r, v1_consumer r, v1_desc r]"

definition offsets_words :: "('o \<Rightarrow> u64 list) \<Rightarrow> 'o mmap_offsets \<Rightarrow> u64 list" where
  "offsets_words w m = w (mo_rx m) @ w (mo_tx m) @ w (mo_fill m) @ w (mo_completion m)"

definition v1_of_words :: "u64 list \<Rightarrow> ring_offset_v1" where
  "v1_of_words ws = \<lparr> v1_producer = ws ! 0, v1_consumer = ws ! 1, v1_desc = ws ! 2 \<rparr>"

definition v2_of_words :: "u64 list \<Rightarrow> ring_offset_v2" where
  "v2_of_words ws = \<lparr> v2_producer = ws ! 0, v2_consumer = ws ! 1, v2_desc = ws ! 2, v2_flags = ws ! 3 \<rparr>"

definition offsets_of_words :: "nat \<Rightarrow> (u64 list \<Rightarrow> 'o) \<Rightarrow> u64 list \<Rightarrow> 'o mmap_offsets" where
  "offsets_of_words n f ws = \<lparr> mo_rx = f ws, mo_tx = f (drop n ws), mo_fill = f (drop (2 * n) ws), mo_completion = f (drop (3 * n) ws) \<rparr>"

text \<open>\<open>as_v1\<close> reads the structure again through a pointer to the older layout.\<close>

definition as_v1 :: "ring_offset_v2 mmap_offsets \<Rightarrow> (io_error, ring_offset_v2 mmap_offsets) outcome" where
  "as_v1 m =
     (let v1 = offsets_of_words 3 v1_of_words (offsets_words v2_words m) in
      and_then (set_v1 (mo_rx v1)) (\<lambda>rx.
      and_then (set_v1 (mo_tx v1)) (\<lambda>tx.
      and_then (set_v1 (mo_fill v1)) (\<lambda>fill.
      and_then (set_v1 (mo_completion v1)) (\<lambda>completion.
        Ok \<lparr> mo_rx = rx, mo_tx = tx, mo_fill = fill, mo_completion = completion \<rparr>)))))"

text \<open>\<open>getsockopt\<close> writes words over the structure it is given and reports how many bytes it wrote.\<close>

definition offsets :: "(u64 list \<Rightarrow> (io_error, u64 list \<times> nat) outcome) \<Rightarrow> (io_error, ring_offset_v2 mmap_offsets) outcome" where
  "offsets getsockopt =
     and_then (getsockopt (replicate 16 0)) (\<lambda>(ws, optlen).
       let m = offsets_of_words 4 v2_of_words ws in
       if optlen = 128 then Ok m
       else if optlen = 96 then as_v1 m
       else Err (IoError OtherKind (''invalid mmap offset size: '' @ decimal optlen)))"

subsection \<open>The number of queues\<close>

text \<open>The file names of the directory of queues are a parameter, \<open>None\<close> when it cannot be read.\<close>

definition starts_with :: "string \<Rightarrow> string \<Rightarrow> bool" where
  "starts_with s p \<longleftrightarrow> take (length p) s = p"

fun count_queues :: "string list \<Rightarrow> u32 \<Rightarrow> u32 \<Rightarrow> (io_error, u32 \<times> u32) outcome" where
  "count_queues [] rx tx = Ok (rx, tx)"
| "count_queues (p # ps) rx tx =
     (if starts_with p ''rx'' then (if rx = - 1 then Panic else count_queues ps (rx + 1) tx)
      else if starts_with p ''tx'' then (if tx = - 1 then Panic else count_queues ps rx (tx + 1))
      else count_queues ps rx tx)"

definition sysfs_queues :: "string list option \<Rightarrow> (io_error, u32 option) outcome" where
  "sysfs_queues dir = (case dir of None \<Rightarrow> Ok None
     | Some names \<Rightarrow> and_then (count_queues names 0 0) (\<lambda>(rx, tx). Ok (Some (max (max rx tx) 1))))"

text \<open>\<open>filter(|v| *v > 0)\<close>.\<close>

definition positive :: "u32 option \<Rightarrow> u32 option" where
  "positive q = (case q of Some v \<Rightarrow> if 0 < v then Some v else None | None \<Rightarrow> None)"

definition max_queues :: "u32 option \<Rightarrow> string list option \<Rightarrow> (io_error, u32) outcome" where
  "max_queues ethtool dir =
     (case positive ethtool of
        Some q \<Rightarrow> Ok q
      | None \<Rightarrow> and_then (sysfs_queues dir) (\<lambda>s. Ok (case positive s of Some q \<Rightarrow> q | None \<Rightarrow> 1)))"

lemma max_queues_positive: "max_queues ethtool dir = Ok q \<Longrightarrow> 0 < q"
  by (auto simp: max_queues_def positive_def and_then_eq_Ok word_gt_0 split: option.splits if_splits)

subsection \<open>Regions of the memory\<close>

lemma umem_build_Ok:
  assumes "umem_build mmap b = Ok u"
  shows "ma_len (um_area u) = unat (um_frame_size u) * unat (um_frame_count u)"
    and "um_frame_size u = ub_frame_size b" and "um_frame_count u = ub_frame_count b"
  using assms by (auto simp: umem_build_def mmap_new_def Let_def and_then_eq_Ok)

lemma u32_product: "unat (a :: u32) * unat (b :: u32) < 2 ^ 64"
proof -
  have "unat a < 2 ^ 32" "unat b < 2 ^ 32"
    using unsigned_less [of a, where 'a = nat] unsigned_less [of b, where 'a = nat] by simp_all
  then have "unat a * unat b < 2 ^ 32 * 2 ^ 32"
    by (intro mult_strict_mono) auto
  then show ?thesis by simp
qed

lemma unat_ucast64 [simp]: "unat (ucast (x :: u32) :: u64) = unat x"
proof -
  have "unat x < 2 ^ 64" using unsigned_less [of x, where 'a = nat] by simp
  then show ?thesis by (simp add: unsigned_ucast_eq take_bit_eq_mod)
qed

lemma unat_len: "n < 2 ^ 64 \<Longrightarrow> unat (word_of_nat n :: u64) = n"
  by (simp add: unsigned_of_nat take_bit_eq_mod)

lemma add64_eq_Ok: "add64 a b = (Ok c :: ('e, u64) outcome) \<longleftrightarrow> unat c = unat a + unat b"
proof -
  have "unat a + unat b < 2 ^ 64 \<Longrightarrow> unat (a + b) = unat a + unat b"
    by (simp add: unat_word_ariths)
  moreover have "unat c < 2 ^ 64" using unsigned_less [of c, where 'a = nat] by simp
  ultimately show ?thesis by (auto simp: add64_def word_eq_unatI)
qed

lemma frame_descriptor:
  assumes "i < unat (um_frame_count u)"
  shows "\<exists>d. umem_frames u ! i = Ok d \<and> unat (ud_address d) = i * unat (um_frame_size u)"
proof -
  let ?s = "um_frame_size u"
  have le: "i * unat ?s < 2 ^ 64"
    using assms u32_product [of "um_frame_count u" ?s] by (meson le_less_trans less_imp_le mult_le_mono1)
  have i: "unat (word_of_nat i :: u64) = i"
    using assms unsigned_less [of "um_frame_count u", where 'a = nat] by (intro unat_len) simp
  then have "mul64 (word_of_nat i) (ucast ?s) = (Ok (word_of_nat i * ucast ?s) :: (io_error, u64) outcome)"
    using le by (simp add: mul64_def)
  moreover have "unat (word_of_nat i * ucast ?s :: u64) = i * unat ?s"
    using le i by (simp add: unat_word_ariths)
  ultimately show ?thesis
    using assms by (simp add: umem_frames_def)
qed

lemma frame_end: "i < c \<Longrightarrow> i * s + s \<le> s * (c :: nat)"
  using mult_le_mono1 [of "Suc i" c s] by (simp add: algebra_simps)

lemma validate_umem_eq:
  assumes "ma_len (um_area u) < 2 ^ 64" and "unat (ud_address d) + unat (um_frame_size u) \<le> ma_len (um_area u)"
  shows "index_umem u d = Ok (ma_addr (um_area u) + unat (ud_address d), unat (um_frame_size u))"
proof -
  let ?e = "ud_address d + ucast (um_frame_size u) :: u64"
  have "add64 (ud_address d) (ucast (um_frame_size u)) = (Ok ?e :: (io_error, u64) outcome)"
    using assms by (simp add: add64_def)
  moreover from this have "?e \<le> word_of_nat (ma_len (um_area u))"
    using assms by (simp add: add64_eq_Ok word_le_nat_alt unat_len)
  ultimately show ?thesis
    by (simp add: index_umem_def validate_umem_descriptor_def)
qed

lemma validate_rx_tx_eq:
  assumes "ma_len (um_area u) < 2 ^ 64" and "unat (rt_address d) + unat (rt_len d) \<le> ma_len (um_area u)" and "rt_len d \<le> um_frame_size u"
  shows "index_rx_tx u d = Ok (ma_addr (um_area u) + unat (rt_address d), unat (rt_len d))"
proof -
  let ?e = "rt_address d + ucast (rt_len d) :: u64"
  have "add64 (rt_address d) (ucast (rt_len d)) = (Ok ?e :: (io_error, u64) outcome)"
    using assms by (simp add: add64_def)
  moreover from this have "?e \<le> word_of_nat (ma_len (um_area u))"
    using assms by (simp add: add64_eq_Ok word_le_nat_alt unat_len)
  ultimately show ?thesis
    using assms(3) by (simp add: index_rx_tx_def validate_rx_tx_descriptor_def)
qed

lemma index_rx_tx_bounds:
  assumes "ma_len (um_area u) < 2 ^ 64" and "index_rx_tx u d = Ok (a, n)"
  shows "a = ma_addr (um_area u) + unat (rt_address d) \<and> n = unat (rt_len d) \<and> unat (rt_address d) + n \<le> ma_len (um_area u)"
  using assms by (auto simp: index_rx_tx_def validate_rx_tx_descriptor_def and_then_eq_Ok add64_eq_Ok word_le_nat_alt unat_len split: if_splits)

lemma index_umem_bounds:
  assumes "ma_len (um_area u) < 2 ^ 64" and "index_umem u d = Ok (a, n)"
  shows "a = ma_addr (um_area u) + unat (ud_address d) \<and> n = unat (um_frame_size u) \<and> unat (ud_address d) + n \<le> ma_len (um_area u)"
  using assms by (auto simp: index_umem_def validate_umem_descriptor_def and_then_eq_Ok add64_eq_Ok word_le_nat_alt unat_len split: if_splits)

text \<open>
  The frames of a shared memory tile it.  The mapping is as long as all frames together; the descriptor of every
  frame is computed without overflow, and indexing with it does not panic and gives the \<open>i\<close>-th stretch of the frame
  size from the start of the mapping, so that the regions of different frames do not overlap and the last one ends
  with the mapping; a packet of at most a frame has its region at the start of that of the frame.  Whatever descriptor
  is used, an index that does not panic stays inside the mapping.
\<close>

lemma umem_frames_tile:
  assumes "umem_build mmap b = Ok u" and "i < unat (ub_frame_count b)" and "n \<le> ub_frame_size b"
    and "index_rx_tx u e = Ok (a, m) \<or> index_umem u (umem_descriptor_from e) = Ok (a, m)"
  shows "ma_len (um_area u) = unat (ub_frame_count b) * unat (ub_frame_size b)
    \<and> length (umem_frames u) = unat (ub_frame_count b)
    \<and> (\<exists>d. umem_frames u ! i = Ok d
        \<and> index_umem u d = Ok (ma_addr (um_area u) + i * unat (ub_frame_size b), unat (ub_frame_size b))
        \<and> (i + 1) * unat (ub_frame_size b) \<le> ma_len (um_area u)
        \<and> index_rx_tx u (with_len d n) = Ok (ma_addr (um_area u) + i * unat (ub_frame_size b), unat n))
    \<and> ma_addr (um_area u) \<le> a \<and> a + m \<le> ma_addr (um_area u) + ma_len (um_area u)"
proof -
  note u = umem_build_Ok [OF assms(1)]
  let ?s = "unat (ub_frame_size b)"
  have len: "ma_len (um_area u) < 2 ^ 64"
    using u u32_product by simp
  obtain d where d: "umem_frames u ! i = Ok d" "unat (ud_address d) = i * ?s"
    using frame_descriptor [of i u] assms(2) u by auto
  have fit: "i * ?s + ?s \<le> ma_len (um_area u)"
    using frame_end [OF assms(2), of ?s] u by simp
  have n: "unat n \<le> ?s"
    using assms(3) by (simp add: word_le_nat_alt)
  have "index_umem u d = Ok (ma_addr (um_area u) + i * ?s, ?s)"
    using validate_umem_eq [OF len, of d] fit d u by simp
  moreover have "index_rx_tx u (with_len d n) = Ok (ma_addr (um_area u) + i * ?s, unat n)"
    using validate_rx_tx_eq [OF len, of "with_len d n"] fit d u n assms(3) by (simp add: with_len_def)
  moreover have "ma_addr (um_area u) \<le> a \<and> a + m \<le> ma_addr (um_area u) + ma_len (um_area u)"
    using assms(4) index_rx_tx_bounds [OF len] index_umem_bounds [OF len] by fastforce
  ultimately show ?thesis
    using d fit u by (auto simp: umem_frames_def algebra_simps)
qed

definition sample_umem :: umem where
  "sample_umem = \<lparr> um_area = \<lparr> ma_addr = 4096, ma_len = 4096 * 1024 \<rparr>, um_frame_size = 4096, um_frame_count = 1024, um_frame_headroom = 0, um_flags = 0 \<rparr>"

text \<open>
  An older kernel writes the offsets without their flags; \<open>offsets\<close> puts them where the newer layout has them, each
  flag after the consumer index.
\<close>

lemma v1_eta [simp]: "\<lparr> v1_producer = v1_producer r, v1_consumer = v1_consumer r, v1_desc = v1_desc r \<rparr> = r"
  by (cases r) simp

lemma v2_eta [simp]: "\<lparr> v2_producer = v2_producer r, v2_consumer = v2_consumer r, v2_desc = v2_desc r, v2_flags = v2_flags r \<rparr> = r"
  by (cases r) simp

lemma offsets_v1:
  assumes "getsockopt (replicate 16 0) = Ok (offsets_words v1_words m @ replicate 4 0, 96)"
    and "set_v1 (mo_rx m) = Ok rx" "set_v1 (mo_tx m) = Ok tx" "set_v1 (mo_fill m) = Ok fill" "set_v1 (mo_completion m) = Ok completion"
  shows "offsets getsockopt = Ok \<lparr> mo_rx = rx, mo_tx = tx, mo_fill = fill, mo_completion = completion \<rparr>"
  using assms
  by (cases m) (simp add: offsets_def as_v1_def Let_def offsets_of_words_def offsets_words_def v1_words_def v2_words_def v1_of_words_def v2_of_words_def)

lemma offsets_v2:
  assumes "getsockopt (replicate 16 0) = Ok (offsets_words v2_words m, 128)"
  shows "offsets getsockopt = Ok m"
  using assms
  by (cases m) (simp add: offsets_def Let_def offsets_of_words_def offsets_words_def v2_words_def v2_of_words_def)

end
