(* ===== verification/Xsk.thy ===== *)
theory Xsk
  imports Umem
begin

text \<open>
  The system calls of an \<open>AF_XDP\<close> socket: \<open>src/xdp/raknet-xdp/src/syscall.rs\<close> with the address and registration structures of
  \<open>if_xdp.rs\<close>, the shared file descriptor of \<open>socket.rs\<close>, and the memory of \<open>mmap.rs\<close> and \<open>umem.rs\<close> on top of them.  The kernel is a
  parameter, a record of calls on its state \<open>'k\<close>; \<open>kernel_laws\<close> states what is documented of it in terms of the open descriptors, the mappings
  and the registered memories.  Constants have the values of Linux on x86-64.  A call that fails leaves the kernel in the state the
  call gave, so results are pairs of an outcome and a state.
\<close>

subsection \<open>Structures\<close>

definition SHARED_UMEM :: u16 where "SHARED_UMEM = 1"
definition PF_XDP :: u16 where "PF_XDP = 44"

record xdp_address =
  xa_family :: u16
  xa_flags :: u16
  xa_ifindex :: u32
  xa_queue_id :: u32
  xa_shared_umem_fd :: u32

definition xdp_address_default :: xdp_address where
  "xdp_address_default = \<lparr> xa_family = PF_XDP, xa_flags = 0, xa_ifindex = 0, xa_queue_id = 0, xa_shared_umem_fd = 0 \<rparr>"

definition set_shared_umem :: "xdp_address \<Rightarrow> int \<Rightarrow> xdp_address" where
  "set_shared_umem a fd = a\<lparr>xa_flags := SHARED_UMEM, xa_shared_umem_fd := word_of_int fd\<rparr>"

datatype socket_options = MmapOffsets | RxRing | TxRing | UmemReg | UmemFillRing | UmemCompletionRing | Statistics | Options

fun option_id :: "socket_options \<Rightarrow> int" where
  "option_id MmapOffsets = 1"
| "option_id RxRing = 2"
| "option_id TxRing = 3"
| "option_id UmemReg = 4"
| "option_id UmemFillRing = 5"
| "option_id UmemCompletionRing = 6"
| "option_id Statistics = 7"
| "option_id Options = 8"

record umem_reg =
  ur_addr :: u64
  ur_len :: u64
  ur_chunk_size :: u32
  ur_headroom :: u32
  ur_flags :: u32

record xdp_statistics =
  rx_dropped :: u64
  rx_invalid_descriptors :: u64
  tx_invalid_descriptors :: u64
  rx_ring_full :: u64
  rx_fill_ring_empty_descriptors :: u64
  tx_ring_empty_descriptors :: u64

text \<open>The counters as they lie in memory.\<close>

definition statistics_of_words :: "u64 list \<Rightarrow> xdp_statistics" where
  "statistics_of_words ws = \<lparr> rx_dropped = ws ! 0, rx_invalid_descriptors = ws ! 1, tx_invalid_descriptors = ws ! 2, rx_ring_full = ws ! 3,
     rx_fill_ring_empty_descriptors = ws ! 4, tx_ring_empty_descriptors = ws ! 5 \<rparr>"

record ethtool_channels =
  ec_cmd :: u32
  ec_max_rx :: u32
  ec_max_tx :: u32
  ec_max_other :: u32
  ec_max_combined :: u32

definition ETHTOOL_GCHANNELS :: u32 where "ETHTOOL_GCHANNELS = 60"

subsection \<open>The kernel\<close>

text \<open>
  A value handed to \<open>setsockopt\<close> is a number or a registration.  \<open>getsockopt\<close> gets the words of the structure it writes to and its size in bytes, and gives
  the words and the size it wrote.  \<open>k_ioctl\<close> is the request for the channels of an interface.
\<close>

datatype opt_value = OptU32 u32 | OptReg umem_reg

fun value_size :: "opt_value \<Rightarrow> nat" where
  "value_size (OptU32 _) = 4"
| "value_size (OptReg _) = 32"

record 'k kernel_api =
  k_socket :: "'k \<Rightarrow> int \<Rightarrow> int \<Rightarrow> int \<Rightarrow> int \<times> 'k"
  k_close :: "'k \<Rightarrow> int \<Rightarrow> int \<times> 'k"
  k_bind :: "'k \<Rightarrow> int \<Rightarrow> xdp_address \<Rightarrow> nat \<Rightarrow> int \<times> 'k"
  k_sendto :: "'k \<Rightarrow> int \<Rightarrow> int \<Rightarrow> int \<times> 'k"
  k_recvmsg :: "'k \<Rightarrow> int \<Rightarrow> int \<Rightarrow> int \<times> 'k"
  k_setsockopt :: "'k \<Rightarrow> int \<Rightarrow> int \<Rightarrow> int \<Rightarrow> opt_value \<Rightarrow> nat \<Rightarrow> int \<times> 'k"
  k_getsockopt :: "'k \<Rightarrow> int \<Rightarrow> int \<Rightarrow> int \<Rightarrow> u64 list \<Rightarrow> nat \<Rightarrow> (int \<times> u64 list \<times> nat) \<times> 'k"
  k_mmap :: "'k \<Rightarrow> nat \<Rightarrow> int \<Rightarrow> int \<Rightarrow> int \<Rightarrow> nat \<Rightarrow> nat \<times> 'k"
  k_munmap :: "'k \<Rightarrow> nat \<Rightarrow> nat \<Rightarrow> int \<times> 'k"
  k_if_nametoindex :: "'k \<Rightarrow> string \<Rightarrow> u32 \<times> 'k"
  k_ioctl :: "'k \<Rightarrow> int \<Rightarrow> int \<Rightarrow> string \<Rightarrow> ethtool_channels \<Rightarrow> (int \<times> ethtool_channels) \<times> 'k"
  k_errno :: "'k \<Rightarrow> int"
  k_last_os_error :: "'k \<Rightarrow> io_error"

definition AF_XDP :: int where "AF_XDP = 44"
definition AF_LOCAL :: int where "AF_LOCAL = 1"
definition SOCK_RAW :: int where "SOCK_RAW = 3"
definition SOCK_DGRAM :: int where "SOCK_DGRAM = 2"
definition SOL_XDP :: int where "SOL_XDP = 283"
definition SOL_SOCKET :: int where "SOL_SOCKET = 1"
definition SO_NETNS_COOKIE :: int where "SO_NETNS_COOKIE = 71"
definition ENOPROTOOPT :: int where "ENOPROTOOPT = 92"
definition MSG_DONTWAIT :: int where "MSG_DONTWAIT = 64"
definition SIOCETHTOOL :: int where "SIOCETHTOOL = 35142"
definition MAP_SHARED :: int where "MAP_SHARED = 1"
definition MAP_PRIVATE :: int where "MAP_PRIVATE = 2"
definition MAP_ANONYMOUS :: int where "MAP_ANONYMOUS = 32"
definition MAP_POPULATE :: int where "MAP_POPULATE = 32768"
definition MAP_HUGETLB :: int where "MAP_HUGETLB = 262144"
definition PROT_READ_WRITE :: int where "PROT_READ_WRITE = 3"
definition MAP_FAILED :: nat where "MAP_FAILED = 2 ^ 64 - 1"
definition IFNAMSIZ :: nat where "IFNAMSIZ = 16"

type_synonym ('k, 'a) sys = "(io_error, 'a) outcome \<times> 'k"

text \<open>\<open>?\<close> on a result, with the state passed on.\<close>

definition sys_then :: "('k, 'a) sys \<Rightarrow> ('a \<Rightarrow> 'k \<Rightarrow> ('k, 'b) sys) \<Rightarrow> ('k, 'b) sys" where
  "sys_then r f = (case r of
      (Ok x, k) \<Rightarrow> f x k
    | (Err e, k) \<Rightarrow> (Err e, k)
    | (Panic, k) \<Rightarrow> (Panic, k))"

text \<open>The macro \<open>libc!\<close>.\<close>

definition libc_call :: "'k kernel_api \<Rightarrow> int \<times> 'k \<Rightarrow> ('k, int) sys" where
  "libc_call K r = (case r of (res, k) \<Rightarrow> if res < 0 then (Err (k_last_os_error K k), k) else (Ok res, k))"

subsection \<open>System calls\<close>

definition sys_open :: "'k kernel_api \<Rightarrow> 'k \<Rightarrow> ('k, int) sys" where
  "sys_open K k = libc_call K (k_socket K k AF_XDP SOCK_RAW 0)"

definition get_xdp_option :: "'k kernel_api \<Rightarrow> 'k \<Rightarrow> int \<Rightarrow> socket_options \<Rightarrow> u64 list \<Rightarrow> ('k, u64 list \<times> nat) sys" where
  "get_xdp_option K k fd opt ws = (case k_getsockopt K k fd SOL_XDP (option_id opt) ws (8 * length ws) of
      ((res, ws, optlen), k) \<Rightarrow> sys_then (libc_call K (res, k)) (\<lambda>_ k. (Ok (ws, optlen), k)))"

definition set_xdp_option :: "'k kernel_api \<Rightarrow> 'k \<Rightarrow> int \<Rightarrow> socket_options \<Rightarrow> opt_value \<Rightarrow> ('k, unit) sys" where
  "set_xdp_option K k fd opt v =
     sys_then (libc_call K (k_setsockopt K k fd SOL_XDP (option_id opt) v (value_size v))) (\<lambda>_ k. (Ok (), k))"

definition sys_offsets :: "'k kernel_api \<Rightarrow> 'k \<Rightarrow> int \<Rightarrow> ('k, ring_offset_v2 mmap_offsets) sys" where
  "sys_offsets K k fd = (offsets (\<lambda>ws. fst (get_xdp_option K k fd MmapOffsets ws)), snd (get_xdp_option K k fd MmapOffsets (replicate 16 0)))"

definition statistics :: "'k kernel_api \<Rightarrow> 'k \<Rightarrow> int \<Rightarrow> ('k, xdp_statistics) sys" where
  "statistics K k fd = sys_then (get_xdp_option K k fd Statistics (replicate 6 0)) (\<lambda>(ws, _) k. (Ok (statistics_of_words ws), k))"

definition netns_cookie :: "'k kernel_api \<Rightarrow> 'k \<Rightarrow> int \<Rightarrow> ('k, u64) sys" where
  "netns_cookie K k fd = (case k_getsockopt K k fd SOL_SOCKET SO_NETNS_COOKIE [0] 8 of
      ((ret, ws, _), k) \<Rightarrow>
        if ret = 0 then (Ok (ws ! 0), k)
        else if k_errno K k = ENOPROTOOPT then (Ok 1, k)
        else (Err (k_last_os_error K k), k))"

definition set_fill_ring_size :: "'k kernel_api \<Rightarrow> 'k \<Rightarrow> int \<Rightarrow> u32 \<Rightarrow> ('k, unit) sys" where
  "set_fill_ring_size K k fd n = set_xdp_option K k fd UmemFillRing (OptU32 n)"

definition set_completion_ring_size :: "'k kernel_api \<Rightarrow> 'k \<Rightarrow> int \<Rightarrow> u32 \<Rightarrow> ('k, unit) sys" where
  "set_completion_ring_size K k fd n = set_xdp_option K k fd UmemCompletionRing (OptU32 n)"

definition set_rx_ring_size :: "'k kernel_api \<Rightarrow> 'k \<Rightarrow> int \<Rightarrow> u32 \<Rightarrow> ('k, unit) sys" where
  "set_rx_ring_size K k fd n = set_xdp_option K k fd RxRing (OptU32 n)"

definition set_tx_ring_size :: "'k kernel_api \<Rightarrow> 'k \<Rightarrow> int \<Rightarrow> u32 \<Rightarrow> ('k, unit) sys" where
  "set_tx_ring_size K k fd n = set_xdp_option K k fd TxRing (OptU32 n)"

definition set_umem :: "'k kernel_api \<Rightarrow> 'k \<Rightarrow> int \<Rightarrow> umem_reg \<Rightarrow> ('k, unit) sys" where
  "set_umem K k fd reg = set_xdp_option K k fd UmemReg (OptReg reg)"

definition sys_bind :: "'k kernel_api \<Rightarrow> 'k \<Rightarrow> int \<Rightarrow> xdp_address \<Rightarrow> ('k, unit) sys" where
  "sys_bind K k fd addr = sys_then (libc_call K (k_bind K k fd addr 16)) (\<lambda>_ k. (Ok (), k))"

definition wake_tx :: "'k kernel_api \<Rightarrow> 'k \<Rightarrow> int \<Rightarrow> ('k, unit) sys" where
  "wake_tx K k fd = sys_then (libc_call K (k_sendto K k fd MSG_DONTWAIT)) (\<lambda>_ k. (Ok (), k))"

definition busy_poll :: "'k kernel_api \<Rightarrow> 'k \<Rightarrow> int \<Rightarrow> ('k, u32) sys" where
  "busy_poll K k fd = sys_then (libc_call K (k_recvmsg K k fd MSG_DONTWAIT)) (\<lambda>count k. (Ok (word_of_int count), k))"

definition mmap_flags :: "int option \<Rightarrow> bool \<Rightarrow> int" where
  "mmap_flags fd huge =
     (let flags = (if fd \<noteq> None then or MAP_SHARED MAP_POPULATE else or MAP_PRIVATE MAP_ANONYMOUS)
      in if huge then or flags MAP_HUGETLB else flags)"

definition sys_mmap :: "'k kernel_api \<Rightarrow> 'k \<Rightarrow> nat \<Rightarrow> nat \<Rightarrow> int option \<Rightarrow> bool \<Rightarrow> ('k, nat) sys" where
  "sys_mmap K k n off fd huge =
     (case k_mmap K k n PROT_READ_WRITE (mmap_flags fd huge) (case fd of Some fd \<Rightarrow> fd | None \<Rightarrow> - 1) off of
        (addr, k) \<Rightarrow>
          if addr = MAP_FAILED then (Err (k_last_os_error K k), k)
          else if addr = 0 then (Err (IoError OtherKind ''mmap returned null pointer''), k)
          else (Ok addr, k))"

definition sys_munmap :: "'k kernel_api \<Rightarrow> 'k \<Rightarrow> nat \<Rightarrow> nat \<Rightarrow> ('k, unit) sys" where
  "sys_munmap K k addr n = sys_then (libc_call K (k_munmap K k addr n)) (\<lambda>_ k. (Ok (), k))"

definition sys_if_nametoindex :: "'k kernel_api \<Rightarrow> 'k \<Rightarrow> string \<Rightarrow> ('k, u32) sys" where
  "sys_if_nametoindex K k name = (case k_if_nametoindex K k name of
      (i, k) \<Rightarrow> if i = 0 then (Err (k_last_os_error K k), k) else (Ok i, k))"

definition set_if_name :: "'k kernel_api \<Rightarrow> 'k \<Rightarrow> xdp_address \<Rightarrow> string \<Rightarrow> ('k, xdp_address) sys" where
  "set_if_name K k a name = sys_then (sys_if_nametoindex K k name) (\<lambda>i k. (Ok (a\<lparr>xa_ifindex := i\<rparr>), k))"

subsection \<open>Descriptors and memory\<close>

text \<open>\<open>Fd\<close>: the descriptor with the number of clones that share it; the last one to go closes it.\<close>

record shared_fd =
  sf_raw :: int
  sf_refs :: nat

definition fd_from_raw :: "int \<Rightarrow> shared_fd" where
  "fd_from_raw fd = \<lparr> sf_raw = fd, sf_refs = 1 \<rparr>"

definition fd_open :: "'k kernel_api \<Rightarrow> 'k \<Rightarrow> ('k, shared_fd) sys" where
  "fd_open K k = sys_then (sys_open K k) (\<lambda>fd k. (Ok (fd_from_raw fd), k))"

definition fd_clone :: "shared_fd \<Rightarrow> shared_fd" where
  "fd_clone fd = fd\<lparr>sf_refs := Suc (sf_refs fd)\<rparr>"

definition fd_drop :: "'k kernel_api \<Rightarrow> 'k \<Rightarrow> shared_fd \<Rightarrow> shared_fd \<times> 'k" where
  "fd_drop K k fd = (fd\<lparr>sf_refs := sf_refs fd - 1\<rparr>, if sf_refs fd = 1 then snd (k_close K k (sf_raw fd)) else k)"

text \<open>The drop of \<open>Mmap\<close> ignores an error.\<close>

definition mmap_drop :: "'k kernel_api \<Rightarrow> 'k \<Rightarrow> mmap_area \<Rightarrow> 'k" where
  "mmap_drop K k a = snd (sys_munmap K k (ma_addr a) (ma_len a))"

text \<open>Building a memory makes one mapping.\<close>

definition umem_open :: "'k kernel_api \<Rightarrow> 'k \<Rightarrow> umem_builder \<Rightarrow> ('k, umem) sys" where
  "umem_open K k b =
     (umem_build (\<lambda>n off fd huge. fst (sys_mmap K k n off fd huge)) b,
      snd (sys_mmap K k (unat (ub_frame_size b) * unat (ub_frame_count b)) 0 None (ub_hugepage b)))"

definition umem_attach :: "'k kernel_api \<Rightarrow> 'k \<Rightarrow> umem \<Rightarrow> int \<Rightarrow> ('k, unit) sys" where
  "umem_attach K k u fd = set_umem K k fd \<lparr> ur_addr = word_of_nat (ma_addr (um_area u)), ur_len = word_of_nat (ma_len (um_area u)),
     ur_chunk_size = um_frame_size u, ur_headroom = um_frame_headroom u, ur_flags = um_flags u \<rparr>"

definition fd_attach_umem :: "'k kernel_api \<Rightarrow> 'k \<Rightarrow> shared_fd \<Rightarrow> umem \<Rightarrow> ('k, unit) sys" where
  "fd_attach_umem K k fd u = sys_then (umem_attach K k u (sf_raw fd)) (\<lambda>_ k. (Ok (), k))"

subsection \<open>The number of queues\<close>

text \<open>
  \<open>ethtool_queues\<close>: the socket of the query is closed when \<open>fd\<close> goes out of scope, on every way out, that of the failed assertion included.
\<close>

definition ethtool_queues :: "'k kernel_api \<Rightarrow> 'k \<Rightarrow> string \<Rightarrow> ('k, u32 option) sys" where
  "ethtool_queues K k ifname = (case libc_call K (k_socket K k AF_LOCAL SOCK_DGRAM 0) of
      (Ok raw, k) \<Rightarrow>
        let fd = fd_from_raw raw;
            channels = \<lparr> ec_cmd = ETHTOOL_GCHANNELS, ec_max_rx = 0, ec_max_tx = 0, ec_max_other = 0, ec_max_combined = 0 \<rparr>
        in if \<not> length ifname < IFNAMSIZ then (Panic, snd (fd_drop K k fd))
           else (case k_ioctl K k (sf_raw fd) SIOCETHTOOL ifname channels of
             ((res, channels), k) \<Rightarrow> (case libc_call K (res, k) of
                 (Ok _, k) \<Rightarrow> (Ok (Some (max (max (ec_max_rx channels) (ec_max_tx channels)) (ec_max_combined channels))), snd (fd_drop K k fd))
               | (_, k) \<Rightarrow> (Ok None, snd (fd_drop K k fd))))
    | (_, k) \<Rightarrow> (Ok None, k))"

definition sys_max_queues :: "'k kernel_api \<Rightarrow> 'k \<Rightarrow> string list option \<Rightarrow> string \<Rightarrow> ('k, u32) sys" where
  "sys_max_queues K k dir ifname = sys_then (ethtool_queues K k ifname) (\<lambda>q k. (max_queues q dir, k))"

subsection \<open>What is documented of the kernel\<close>

text \<open>
  The open descriptors, the mappings by address and length, and the memory registered for an open descriptor.  Opening gives a descriptor that was
  not open, closing takes it away and its registration with it; a successful \<open>setsockopt\<close> with a whole registration on an open descriptor registers it.  A mapping
  is added by \<open>mmap\<close>, and a successful \<open>munmap\<close> of a whole mapping takes exactly that mapping away; of other ranges nothing is said.
  The other calls change none of them.
\<close>

locale kernel_laws =
  fixes K :: "'k kernel_api" and fds :: "'k \<Rightarrow> int set" and maps :: "'k \<Rightarrow> (nat \<times> nat) set" and regs :: "'k \<Rightarrow> int \<Rightarrow> umem_reg option"
  assumes regs_open: "fd \<notin> fds k \<Longrightarrow> regs k fd = None"
    and socket: "k_socket K k d t p = (r, k') \<Longrightarrow> maps k' = maps k \<and> regs k' = regs k
      \<and> (if r < 0 then fds k' = fds k else r \<notin> fds k \<and> fds k' = insert r (fds k))"
    and close: "k_close K k fd = (r, k') \<Longrightarrow> fds k' = fds k - {fd} \<and> maps k' = maps k \<and> regs k' = (regs k)(fd := None)"
    and setsockopt: "k_setsockopt K k fd lvl name v n = (r, k') \<Longrightarrow> fds k' = fds k \<and> maps k' = maps k
      \<and> (if r < 0 then regs k' = regs k else fd \<in> fds k \<and> (\<forall>reg. v = OptReg reg \<and> lvl = SOL_XDP \<and> name = 4 \<and> n = 32 \<longrightarrow> regs k' = (regs k)(fd \<mapsto> reg)))"
    and ioctl: "k_ioctl K k fd req ifname ch = (answer, k') \<Longrightarrow> fds k' = fds k \<and> maps k' = maps k \<and> regs k' = regs k"
    and mmap: "k_mmap K k n prot flags fd off = (a, k') \<Longrightarrow> fds k' = fds k \<and> regs k' = regs k
      \<and> (if a = MAP_FAILED then maps k' = maps k else (a, n) \<notin> maps k \<and> maps k' = insert (a, n) (maps k) \<and> a + n < 2 ^ 64)"
    and munmap: "k_munmap K k a n = (r, k') \<Longrightarrow> fds k' = fds k \<and> regs k' = regs k
      \<and> ((a, n) \<in> maps k \<longrightarrow> maps k' = (if r < 0 then maps k else maps k - {(a, n)}))"
begin

text \<open>A query for the number of queues opens a descriptor and leaves none behind, whether it succeeds, fails or panics.\<close>

lemma queues_release:
  assumes "ethtool_queues K k ifname = (r, k')"
  shows "fds k' = fds k \<and> maps k' = maps k \<and> regs k' = regs k"
proof -
  obtain raw k1 where s: "k_socket K k AF_LOCAL SOCK_DGRAM 0 = (raw, k1)" by fastforce
  show ?thesis
  proof (cases "raw < 0")
    case True
    then show ?thesis using assms s socket [OF s] by (simp add: ethtool_queues_def libc_call_def)
  next
    case False
    then have new: "raw \<notin> fds k" "fds k1 = insert raw (fds k)" "maps k1 = maps k" "regs k1 = regs k" using socket [OF s] by simp_all
    have closed: "fds (snd (k_close K k1 raw)) = fds k1 - {raw} \<and> maps (snd (k_close K k1 raw)) = maps k1
        \<and> regs (snd (k_close K k1 raw)) = (regs k1)(raw := None)" for k1
      by (rule close [OF surjective_pairing])
    have "(regs k)(raw := None) = regs k" using regs_open [OF new(1)] by auto
    moreover obtain res ch k3 where i: "k_ioctl K k1 raw SIOCETHTOOL ifname \<lparr> ec_cmd = ETHTOOL_GCHANNELS, ec_max_rx = 0, ec_max_tx = 0, ec_max_other = 0, ec_max_combined = 0 \<rparr> = ((res, ch), k3)"
      by (metis surj_pair)
    moreover have "k' = snd (k_close K k1 raw) \<or> k' = snd (k_close K k3 raw)"
      using assms s False i by (auto simp: ethtool_queues_def libc_call_def fd_from_raw_def fd_drop_def Let_def split: if_splits)
    ultimately show ?thesis using closed new ioctl [OF i] by auto
  qed
qed

lemma mapped:
  assumes "sys_mmap K k n off fd huge = (Ok a, k')"
  shows "(a, n) \<notin> maps k \<and> maps k' = insert (a, n) (maps k) \<and> fds k' = fds k \<and> regs k' = regs k \<and> 0 < a \<and> a + n < 2 ^ 64"
proof -
  let ?call = "k_mmap K k n PROT_READ_WRITE (mmap_flags fd huge) (case fd of Some fd \<Rightarrow> fd | None \<Rightarrow> - 1) off"
  have "?call = (a, k')" "a \<noteq> MAP_FAILED" "0 < a"
    using assms by (auto simp: sys_mmap_def split: prod.split_asm if_splits)
  then show ?thesis using mmap [of k n PROT_READ_WRITE _ _ off a k'] by auto
qed

lemma umem_opened:
  assumes "umem_open K k b = (Ok u, k')"
  shows "ma_len (um_area u) = unat (ub_frame_count b) * unat (ub_frame_size b)"
    and "(ma_addr (um_area u), ma_len (um_area u)) \<notin> maps k" and "maps k' = insert (ma_addr (um_area u), ma_len (um_area u)) (maps k)"
    and "ma_addr (um_area u) + ma_len (um_area u) < 2 ^ 64" and "fds k' = fds k"
proof -
  let ?n = "unat (ub_frame_size b) * unat (ub_frame_count b)"
  have b: "umem_build (\<lambda>n off fd huge. fst (sys_mmap K k n off fd huge)) b = Ok u"
    and k': "k' = snd (sys_mmap K k ?n 0 None (ub_hugepage b))" using assms by (simp_all add: umem_open_def)
  have "fst (sys_mmap K k ?n 0 None (ub_hugepage b)) = Ok (ma_addr (um_area u))" "ma_len (um_area u) = ?n"
    using b by (auto simp: umem_build_def mmap_new_def Let_def and_then_eq_Ok split: if_splits)
  then have "sys_mmap K k ?n 0 None (ub_hugepage b) = (Ok (ma_addr (um_area u)), k')" "ma_len (um_area u) = ?n"
    unfolding k' by (metis prod.collapse)+
  then show "ma_len (um_area u) = unat (ub_frame_count b) * unat (ub_frame_size b)"
    "(ma_addr (um_area u), ma_len (um_area u)) \<notin> maps k" "maps k' = insert (ma_addr (um_area u), ma_len (um_area u)) (maps k)"
    "ma_addr (um_area u) + ma_len (um_area u) < 2 ^ 64" "fds k' = fds k"
    using mapped by (fastforce simp: mult.commute)+
qed

lemma attached:
  assumes "umem_attach K k u fd = (Ok (), k')"
  shows "fds k' = fds k \<and> maps k' = maps k \<and> regs k' fd = Some \<lparr> ur_addr = word_of_nat (ma_addr (um_area u)), ur_len = word_of_nat (ma_len (um_area u)),
     ur_chunk_size = um_frame_size u, ur_headroom = um_frame_headroom u, ur_flags = um_flags u \<rparr>"
proof -
  let ?reg = "\<lparr> ur_addr = word_of_nat (ma_addr (um_area u)), ur_len = word_of_nat (ma_len (um_area u)),
     ur_chunk_size = um_frame_size u, ur_headroom = um_frame_headroom u, ur_flags = um_flags u \<rparr>"
  obtain r k2 where c: "k_setsockopt K k fd SOL_XDP 4 (OptReg ?reg) 32 = (r, k2)" by fastforce
  then have "0 \<le> r" "k' = k2"
    using assms by (auto simp: umem_attach_def set_umem_def set_xdp_option_def libc_call_def sys_then_def split: if_splits)
  then show ?thesis using setsockopt [OF c] by simp
qed

lemma unmapped:
  assumes "(ma_addr a, ma_len a) \<in> maps k"
  shows "fds (mmap_drop K k a) = fds k"
    and "maps (mmap_drop K k a) = (if fst (k_munmap K k (ma_addr a) (ma_len a)) < 0 then maps k else maps k - {(ma_addr a, ma_len a)})"
proof -
  obtain r k2 where c: "k_munmap K k (ma_addr a) (ma_len a) = (r, k2)" by fastforce
  then have "mmap_drop K k a = k2" by (simp add: mmap_drop_def sys_munmap_def libc_call_def sys_then_def)
  then show "fds (mmap_drop K k a) = fds k"
    "maps (mmap_drop K k a) = (if fst (k_munmap K k (ma_addr a) (ma_len a)) < 0 then maps k else maps k - {(ma_addr a, ma_len a)})"
    using munmap [OF c] assms c by simp_all
qed

text \<open>A shared descriptor is closed by the last of its clones to go, and not before.\<close>

lemma dropped:
  assumes "0 < sf_refs fd" and "fd_drop K k fd = (fd', k')"
  shows "sf_refs fd' = sf_refs fd - 1 \<and> fds k' = (if sf_refs fd' = 0 then fds k - {sf_raw fd} else fds k)"
proof (cases "sf_refs fd = 1")
  case True
  then show ?thesis using assms close [OF surjective_pairing, of k "sf_raw fd"] by (auto simp: fd_drop_def)
next
  case False
  then show ?thesis using assms by (auto simp: fd_drop_def)
qed

end

subsection \<open>A concrete kernel\<close>

type_synonym toy_kernel = "int list \<times> (nat \<times> nat) list \<times> (int \<Rightarrow> umem_reg option)"

definition fresh_fd :: "int list \<Rightarrow> int" where
  "fresh_fd os = 3 + foldr max os 0"

definition fresh_addr :: "(nat \<times> nat) list \<Rightarrow> nat" where
  "fresh_addr ms = 4096 + foldr (max \<circ> fst) ms 0"

definition list_kernel :: "toy_kernel kernel_api" where
  "list_kernel = \<lparr>
     k_socket = (\<lambda>(os, ms, rs) d t p. (fresh_fd os, fresh_fd os # os, ms, rs(fresh_fd os := None))),
     k_close = (\<lambda>(os, ms, rs) fd. (0, removeAll fd os, ms, rs(fd := None))),
     k_bind = (\<lambda>k fd a n. (0, k)),
     k_sendto = (\<lambda>k fd flags. (0, k)),
     k_recvmsg = (\<lambda>k fd flags. (0, k)),
     k_setsockopt = (\<lambda>(os, ms, rs) fd lvl name v n. if fd \<in> set os
        then (0, os, ms, case v of OptReg reg \<Rightarrow> if lvl = SOL_XDP \<and> name = 4 \<and> n = 32 then rs(fd \<mapsto> reg) else rs | _ \<Rightarrow> rs)
        else (- 1, os, ms, rs)),
     k_getsockopt = (\<lambda>k fd lvl name ws n. ((0, ws, n), k)),
     k_mmap = (\<lambda>(os, ms, rs) n prot flags fd off. if fresh_addr ms + n < 2 ^ 64 - 1 then (fresh_addr ms, os, (fresh_addr ms, n) # ms, rs) else (MAP_FAILED, os, ms, rs)),
     k_munmap = (\<lambda>(os, ms, rs) a n. (0, os, removeAll (a, n) ms, rs)),
     k_if_nametoindex = (\<lambda>k name. (1, k)),
     k_ioctl = (\<lambda>k fd req ifname ch. ((0, ch\<lparr>ec_max_rx := 4, ec_max_combined := 8\<rparr>), k)),
     k_errno = (\<lambda>k. 0),
     k_last_os_error = (\<lambda>k. IoError OtherKind []) \<rparr>"

lemma fresh_fd_new: "x \<in> set os \<Longrightarrow> x < fresh_fd os" "\<not> fresh_fd os < 0"
proof -
  have "x \<in> set os \<Longrightarrow> x \<le> foldr max os 0" and "0 \<le> foldr max os (0 :: int)" by (induction os) auto
  then show "x \<in> set os \<Longrightarrow> x < fresh_fd os" "\<not> fresh_fd os < 0" by (simp_all add: fresh_fd_def)
qed

lemma fresh_addr_new: "x \<in> set ms \<Longrightarrow> fst x < fresh_addr ms"
proof -
  have "x \<in> set ms \<Longrightarrow> fst x \<le> foldr (max \<circ> fst) ms 0" by (induction ms) auto
  then show "x \<in> set ms \<Longrightarrow> fst x < fresh_addr ms" by (simp add: fresh_addr_def)
qed

definition list_regs :: "toy_kernel \<Rightarrow> int \<Rightarrow> umem_reg option" where
  "list_regs k fd = (if fd \<in> set (fst k) then snd (snd k) fd else None)"

interpretation list_kernel: kernel_laws list_kernel "\<lambda>k. set (fst k)" "\<lambda>k. set (fst (snd k))" list_regs
proof
qed (auto simp: list_regs_def fun_eq_iff list_kernel_def fresh_fd_new(2) MAP_FAILED_def dest: fresh_fd_new(1) fresh_addr_new split: if_splits prod.splits opt_value.splits)

subsection \<open>Properties\<close>

lemma count_queues_ok:
  assumes "unat rx + length ps < 2 ^ 32" and "unat tx + length ps < 2 ^ 32"
  shows "\<exists>r. count_queues ps rx tx = Ok r"
  using assms
proof (induction ps arbitrary: rx tx)
  case (Cons p ps)
  have inc: "x \<noteq> - 1 \<and> unat (x + 1) + length ps < 2 ^ 32" if "unat x + length (p # ps) < 2 ^ 32" for x :: u32
  proof -
    have "unat x \<noteq> unat (- 1 :: u32)" using that by (simp add: unsigned_minus_1_eq_mask mask_eq_exp_minus_1)
    then have "x \<noteq> - 1" by blast
    then show ?thesis using that by (simp add: unat_word_ariths)
  qed
  then show ?case using Cons.IH Cons.prems by simp
qed simp

text \<open>
  C39: asking for the number of queues releases what it takes.  On every way out, an error of the kernel and a panic
  included, the descriptors that are open are those that were open before, and no mapping or registration has changed; with a name that fits the
  request and a directory of less than 2 ^ 32 entries the query returns a positive number.
\<close>

theorem queues_released:
  assumes "kernel_laws K fds maps regs" and "sys_max_queues K k dir ifname = (r, k')"
  shows "fds k' = fds k \<and> maps k' = maps k \<and> regs k' = regs k
     \<and> (length ifname < IFNAMSIZ \<longrightarrow> (case dir of None \<Rightarrow> True | Some names \<Rightarrow> length names < 2 ^ 32) \<longrightarrow> (\<exists>q. r = Ok q \<and> 0 < q))"
proof -
  obtain q k1 where e: "ethtool_queues K k ifname = (q, k1)" by fastforce
  then have k': "k' = k1" using assms(2) by (auto simp: sys_max_queues_def sys_then_def split: outcome.splits)
  have "\<exists>v. max_queues x dir = Ok v \<and> 0 < v" if d: "case dir of None \<Rightarrow> True | Some names \<Rightarrow> length names < 2 ^ 32" for x
  proof -
    have "\<exists>y. sysfs_queues dir = Ok y" using d count_queues_ok [of 0 _ 0] by (fastforce simp: sysfs_queues_def split: option.splits)
    then have "\<exists>v. max_queues x dir = Ok v" by (auto simp: max_queues_def split: option.splits)
    then show ?thesis using max_queues_positive by blast
  qed
  moreover have "\<exists>x. q = Ok x" if "length ifname < IFNAMSIZ"
    using e that by (auto simp: ethtool_queues_def Let_def libc_call_def split: prod.split_asm if_splits)
  ultimately show ?thesis
    using kernel_laws.queues_release [OF assms(1) e] assms(2) e k' by (auto simp: sys_max_queues_def sys_then_def)
qed

theorem queues_released_witness:
  "fst (sys_max_queues list_kernel ([7], [], Map.empty) None ''eth0'') = Ok 8
     \<and> set (fst (snd (sys_max_queues list_kernel ([7], [], Map.empty) None ''eth0''))) = {7}"
proof -
  let ?r = "sys_max_queues list_kernel ([7], [], Map.empty) None ''eth0''"
  have "fst ?r = Ok 8"
    by (simp add: sys_max_queues_def ethtool_queues_def sys_then_def libc_call_def list_kernel_def fresh_fd_def fd_from_raw_def fd_drop_def IFNAMSIZ_def Let_def
        max_queues_def positive_def)
  moreover have "set (fst (snd ?r)) = {7}"
    using queues_released [OF list_kernel.kernel_laws_axioms surjective_pairing, of "([7], [], Map.empty)" None "''eth0''"] by simp
  ultimately show ?thesis by simp
qed

text \<open>
  C38: the kernel gets exactly the memory of the frames.  Building a memory makes one new mapping that is as long as all frames together.
  When it is attached to a socket, the registration the kernel then holds for that socket is the address and the length of the mapping, with the frame size as the
  size of a chunk; every frame has its descriptor, whose region is that many chunks into the registered memory and ends inside it.
  Attaching opens and maps nothing, and dropping the memory takes exactly its mapping away unless the kernel refuses.
\<close>

theorem umem_registered:
  assumes "kernel_laws K fds maps regs" and "umem_open K k b = (Ok u, k1)" and "umem_attach K k2 u fd = (Ok (), k3)" and "i < unat (ub_frame_count b)"
  shows "\<exists>reg d. regs k3 fd = Some reg \<and> unat (ur_addr reg) = ma_addr (um_area u) \<and> unat (ur_len reg) = unat (ub_frame_count b) * unat (ub_frame_size b)
       \<and> ur_chunk_size reg = ub_frame_size b \<and> umem_frames u ! i = Ok d
       \<and> index_umem u d = Ok (unat (ur_addr reg) + i * unat (ur_chunk_size reg), unat (ur_chunk_size reg))
       \<and> (i + 1) * unat (ur_chunk_size reg) \<le> unat (ur_len reg)
       \<and> (unat (ur_addr reg), unat (ur_len reg)) \<notin> maps k \<and> maps k1 = insert (unat (ur_addr reg), unat (ur_len reg)) (maps k)
       \<and> fds k1 = fds k \<and> fds k3 = fds k2 \<and> maps k3 = maps k2
       \<and> maps (mmap_drop K k1 (um_area u)) = (if fst (k_munmap K k1 (unat (ur_addr reg)) (unat (ur_len reg))) < 0 then maps k1 else maps k)"
proof -
  note open_u = kernel_laws.umem_opened [OF assms(1,2)] and att = kernel_laws.attached [OF assms(1,3)]
  have b: "umem_build (\<lambda>n off fd huge. fst (sys_mmap K k n off fd huge)) b = Ok u" using assms(2) by (simp add: umem_open_def)
  note u = umem_build_Ok [OF b]
  let ?reg = "\<lparr> ur_addr = word_of_nat (ma_addr (um_area u)), ur_len = word_of_nat (ma_len (um_area u)),
     ur_chunk_size = um_frame_size u, ur_headroom = um_frame_headroom u, ur_flags = um_flags u \<rparr>"
  have w: "unat (ur_addr ?reg) = ma_addr (um_area u)" "unat (ur_len ?reg) = ma_len (um_area u)" "ma_len (um_area u) < 2 ^ 64"
    using open_u(4) by (simp_all add: unat_len)
  obtain d where d: "umem_frames u ! i = Ok d" "unat (ud_address d) = i * unat (um_frame_size u)"
    using frame_descriptor [of i u] assms(4) u by auto
  have fit: "i * unat (um_frame_size u) + unat (um_frame_size u) \<le> ma_len (um_area u)"
    using frame_end [OF assms(4), of "unat (um_frame_size u)"] u by simp
  have "index_umem u d = Ok (ma_addr (um_area u) + i * unat (um_frame_size u), unat (um_frame_size u))"
    using validate_umem_eq [OF w(3), of d] fit d by simp
  then show ?thesis
    using att open_u w d fit u kernel_laws.unmapped(2) [OF assms(1), of "um_area u" k1]
    by (intro exI [of _ ?reg] exI [of _ d]) (auto simp: algebra_simps)
qed

theorem umem_registered_witness:
  "\<exists>u k1 k3 reg. umem_open list_kernel ([3], [], Map.empty) umem_builder_default = (Ok u, k1) \<and> umem_attach list_kernel k1 u 3 = (Ok (), k3)
     \<and> list_regs k3 3 = Some reg \<and> unat (ur_addr reg) = 4096 \<and> unat (ur_len reg) = 4194304 \<and> set (fst (snd k1)) = {(4096, 4194304)}
     \<and> set (fst (snd (mmap_drop list_kernel k1 (um_area u)))) = {}"
proof -
  have call: "sys_mmap list_kernel ([3], [], Map.empty) 4194304 0 None False = (Ok 4096, [3], [(4096, 4194304)], Map.empty)"
    by (simp add: sys_mmap_def list_kernel_def fresh_addr_def MAP_FAILED_def)
  let ?k = "([3], [(4096, 4194304)], Map.empty) :: toy_kernel"
  have o: "umem_open list_kernel ([3], [], Map.empty) umem_builder_default = (Ok sample_umem, ?k)"
    using call by (simp add: umem_open_def umem_build_def mmap_new_def umem_builder_default_def DEFAULT_FRAME_SIZE_def sample_umem_def)
  obtain k3 where a: "umem_attach list_kernel ?k sample_umem 3 = (Ok (), k3)"
    by (simp add: umem_attach_def set_umem_def set_xdp_option_def libc_call_def sys_then_def list_kernel_def)
  have "fst (k_munmap list_kernel ?k x y) = 0" for x y by (simp add: list_kernel_def)
  with umem_registered [OF list_kernel.kernel_laws_axioms o a, of 3] obtain reg where
    "list_regs k3 3 = Some reg" "unat (ur_addr reg) = 4096" "unat (ur_len reg) = 4194304"
    "set (fst (snd (mmap_drop list_kernel ?k (um_area sample_umem)))) = {}"
    by (auto simp: umem_builder_default_def DEFAULT_FRAME_SIZE_def sample_umem_def)
  then show ?thesis using o a by (intro exI [of _ sample_umem] exI [of _ ?k] exI [of _ k3] exI [of _ reg]) simp
qed

end
